(* ===== verification/Prelude.thy ===== *)
theory Prelude
  imports Main "HOL-Library.List_Lexorder" "HOL-Library.Char_ord" "HOL-Library.Sublist"
begin

text \<open>
  Shared material of the development: the control-flow type of loops that may return early,
  the fact collections the components fill, generic list lemmas, and reachability over a
  successor function (the notion behind every graph walk of the program: features, build
  targets, tasks and workspace modules).
\<close>

named_theorems cxx_str \<open>facts on the C++ string operations of the model\<close>
named_theorems toml_simps \<open>facts on the TOML scanners\<close>
named_theorems cfg_simps \<open>facts on build configurations\<close>

subsection \<open>Loops that may return\<close>

text \<open>A loop body of the source either goes on with a new state or leaves the function.\<close>

datatype ('s, 'r) flow = Continue 's | Return 'r

fun flow_result :: "('s \<Rightarrow> 'r) \<Rightarrow> ('s, 'r) flow \<Rightarrow> 'r" where
  "flow_result f (Continue s) = f s"
| "flow_result f (Return r) = r"

definition flow_all :: "('s \<Rightarrow> bool) \<Rightarrow> ('r \<Rightarrow> bool) \<Rightarrow> ('s, 'r) flow \<Rightarrow> bool" where
  "flow_all I Q f = (case f of Continue s \<Rightarrow> I s | Return r \<Rightarrow> Q r)"

lemma flow_all_simps [simp]: "flow_all I Q (Continue s) = I s" "flow_all I Q (Return r) = Q r"
  by (simp_all add: flow_all_def)

subsection \<open>Lists\<close>

lemma distinct_snoc_iff [simp]: "distinct (xs @ [x]) \<longleftrightarrow> distinct xs \<and> x \<notin> set xs"
  by auto

lemma dropWhile_hd_notP: "dropWhile P xs = y # ys \<Longrightarrow> \<not> P y"
  by (induction xs) (auto split: if_splits)

lemma takeWhile_eq_self: "(\<And>x. x \<in> set xs \<Longrightarrow> P x) \<Longrightarrow> takeWhile P xs = xs"
  by (simp add: takeWhile_eq_all_conv)

lemma dropWhile_suffix: "\<exists>ys. xs = ys @ dropWhile P xs"
  by (metis takeWhile_dropWhile_id)

text \<open>\<open>before xs a b\<close>: the first occurrence order used to state execution orders.\<close>

definition before :: "'a list \<Rightarrow> 'a \<Rightarrow> 'a \<Rightarrow> bool" where
  "before xs a b \<longleftrightarrow> (\<exists>us vs. xs = us @ b # vs \<and> a \<in> set us)"

lemma before_snoc_old: "before xs a b \<Longrightarrow> before (xs @ ys) a b"
  unfolding before_def by (metis append.assoc append_Cons)

lemma before_snoc_new: "a \<in> set xs \<Longrightarrow> before (xs @ [b]) a b"
  unfolding before_def by blast

lemma before_in_set: "before xs a b \<Longrightarrow> a \<in> set xs \<and> b \<in> set xs"
  unfolding before_def by auto

lemma before_map: "before xs a b \<Longrightarrow> before (map f xs) (f a) (f b)"
  unfolding before_def by (metis image_eqI list.simps(9) map_append set_map)

lemma before_asym:
  assumes "before xs a b" and "distinct xs"
  shows "\<not> before xs b a"
proof
  assume "before xs b a"
  then obtain us' vs' where 2: "xs = us' @ a # vs'" "b \<in> set us'"
    unfolding before_def by blast
  from assms(1) obtain us vs where 1: "xs = us @ b # vs" "a \<in> set us"
    unfolding before_def by blast
  from 1(2) obtain p q where us: "us = p @ a # q" by (meson split_list)
  with 1 have xs: "xs = p @ a # (q @ b # vs)" by simp
  from \<open>distinct xs\<close> 2 have "a \<notin> set us'" "a \<notin> set vs'" by auto
  with xs 2 have "p = us'"
    using \<open>distinct xs\<close> by (metis append_Cons_eq_iff)
  with 2(2) xs \<open>distinct xs\<close> show False by auto
qed

text \<open>The index of the first element that satisfies a test.\<close>

fun first_index :: "('a \<Rightarrow> bool) \<Rightarrow> 'a list \<Rightarrow> nat option" where
  "first_index P [] = None"
| "first_index P (x # xs) = (if P x then Some 0 else map_option Suc (first_index P xs))"

lemma first_index_None: "first_index P xs = None \<longleftrightarrow> (\<forall>x \<in> set xs. \<not> P x)"
  by (induction xs) auto

lemma first_index_Some:
  "first_index P xs = Some i \<longleftrightarrow> i < length xs \<and> P (xs ! i) \<and> (\<forall>j < i. \<not> P (xs ! j))"
proof (induction xs arbitrary: i)
  case (Cons x xs)
  then show ?case by (cases i) (auto simp: less_Suc_eq_0_disj nth_Cons' split: if_splits)
qed simp

lemma first_index_append_Some: "first_index P xs = Some i \<Longrightarrow> first_index P (xs @ ys) = Some i"
  by (induction xs arbitrary: i) (auto split: if_splits)

lemma first_index_append_None:
  "first_index P xs = None \<Longrightarrow> first_index P (xs @ ys) = map_option (\<lambda>i. length xs + i) (first_index P ys)"
  by (cases "first_index P ys"; induction xs) (auto split: if_splits)

lemma before_trans:
  assumes "before xs a b" and "before xs b c" and "distinct xs"
  shows "before xs a c"
proof -
  from assms(2) obtain us' vs' where 2: "xs = us' @ c # vs'" "b \<in> set us'"
    unfolding before_def by blast
  from assms(1) obtain us vs where 1: "xs = us @ b # vs" "a \<in> set us"
    unfolding before_def by blast
  from 2(2) obtain p q where us': "us' = p @ b # q" by (meson split_list)
  with 2 have xs: "xs = p @ b # (q @ c # vs')" by simp
  then have "p = us" using 1(1) \<open>distinct xs\<close> by (metis append_Cons_eq_iff distinct.simps(2)
        distinct_append not_distinct_conv_prefix Un_iff set_append)
  with 1(2) us' have "a \<in> set us'" by simp
  with 2(1) show ?thesis unfolding before_def by blast
qed

lemma before_irrefl: "distinct xs \<Longrightarrow> \<not> before xs a a"
  using before_asym [of xs a a] by blast

subsection \<open>Reachability over a successor function\<close>

definition succ_rel :: "('a \<Rightarrow> 'a list) \<Rightarrow> ('a \<times> 'a) set" where
  "succ_rel succs = {(x, y). y \<in> set (succs x)}"

definition reach :: "('a \<Rightarrow> 'a list) \<Rightarrow> 'a set \<Rightarrow> 'a set" where
  "reach succs R = (succ_rel succs)\<^sup>* `` R"

lemma reach_refl: "x \<in> R \<Longrightarrow> x \<in> reach succs R"
  unfolding reach_def by blast

lemma reach_step: "x \<in> reach succs R \<Longrightarrow> y \<in> set (succs x) \<Longrightarrow> y \<in> reach succs R"
  unfolding reach_def succ_rel_def by (auto intro: rtrancl_into_rtrancl)

lemma reach_least:
  assumes "R \<subseteq> V" and "\<And>x. x \<in> V \<Longrightarrow> set (succs x) \<subseteq> V"
  shows "reach succs R \<subseteq> V"
proof
  fix y assume "y \<in> reach succs R"
  then obtain x where x: "x \<in> R" and xy: "(x, y) \<in> (succ_rel succs)\<^sup>*"
    unfolding reach_def by blast
  from xy show "y \<in> V"
  proof induction
    case base
    with x assms(1) show ?case by blast
  next
    case (step u v)
    then have "v \<in> set (succs u)" by (simp add: succ_rel_def)
    with assms(2) [OF step.IH] show ?case by blast
  qed
qed

lemma reach_eqI:
  assumes "R \<subseteq> V" and "\<And>x. x \<in> V \<Longrightarrow> set (succs x) \<subseteq> V" and "V \<subseteq> reach succs R"
  shows "V = reach succs R"
  by (rule antisym [OF assms(3) reach_least [OF assms(1,2)]])

lemma reach_mono: "R \<subseteq> S \<Longrightarrow> reach succs R \<subseteq> reach succs S"
  unfolding reach_def by blast

lemma reach_trans: "R \<subseteq> reach succs S \<Longrightarrow> reach succs R \<subseteq> reach succs S"
  by (rule reach_least) (auto intro: reach_step)

end
