(* ===== verification/Cxx_Strings.thy ===== *)
theory Cxx_Strings
  imports Prelude
begin

text \<open>
  The operations of \<^verbatim>\<open>std::string\<close>, \<^verbatim>\<open><cctype>\<close> (in the "C" locale), \<^verbatim>\<open>std::getline\<close> and
  \<^verbatim>\<open>std::stoi\<close> that the modelled code uses, and the \<^verbatim>\<open>trim\<close> helper of
  \<^verbatim>\<open>src/package_manager.cpp\<close>. A string is a list of bytes; an index of the source is a
  \<^typ>\<open>nat\<close>, and \<^verbatim>\<open>npos\<close> is \<^const>\<open>None\<close>.
\<close>

abbreviation dquote :: char where "dquote \<equiv> CHR 0x22"
abbreviation squote :: char where "squote \<equiv> CHR 0x27"
abbreviation bslash :: char where "bslash \<equiv> CHR 0x5C"
abbreviation newline :: char where "newline \<equiv> CHR 0x0A"

abbreviation byte_of :: "char \<Rightarrow> nat" where "byte_of c \<equiv> of_char c"

subsection \<open>Character classes\<close>

definition isspace :: "char \<Rightarrow> bool" where
  "isspace c \<longleftrightarrow> byte_of c = 32 \<or> (9 \<le> byte_of c \<and> byte_of c \<le> 13)"

definition isdigit :: "char \<Rightarrow> bool" where
  "isdigit c \<longleftrightarrow> 48 \<le> byte_of c \<and> byte_of c \<le> 57"

definition isupper :: "char \<Rightarrow> bool" where
  "isupper c \<longleftrightarrow> 65 \<le> byte_of c \<and> byte_of c \<le> 90"

definition islower :: "char \<Rightarrow> bool" where
  "islower c \<longleftrightarrow> 97 \<le> byte_of c \<and> byte_of c \<le> 122"

definition isalnum :: "char \<Rightarrow> bool" where
  "isalnum c \<longleftrightarrow> isdigit c \<or> isupper c \<or> islower c"

definition tolower :: "char \<Rightarrow> char" where
  "tolower c = (if isupper c then char_of (byte_of c + 32) else c)"

definition tolower_str :: "string \<Rightarrow> string" where
  "tolower_str s = map tolower s"

lemma isspace_newline [simp]: "isspace newline" by (simp add: isspace_def)
lemma isspace_blank [simp]: "isspace (CHR '' '')" by (simp add: isspace_def)
lemma not_isspace_quotes [simp]:
  "\<not> isspace dquote" "\<not> isspace squote" "\<not> isspace bslash"
  by (simp_all add: isspace_def)
lemma isdigit_not_isspace: "isdigit c \<Longrightarrow> \<not> isspace c"
  by (auto simp: isdigit_def isspace_def)

subsection \<open>Trimming\<close>

definition trim :: "string \<Rightarrow> string" where
  "trim s = rev (dropWhile isspace (rev (dropWhile isspace s)))"

lemma trim_Nil [simp]: "trim [] = []"
  by (simp add: trim_def)

lemma trim_tight:
  assumes "s = [] \<or> (\<not> isspace (hd s) \<and> \<not> isspace (last s))"
  shows "trim s = s"
proof (cases s)
  case (Cons c cs)
  with assms have "dropWhile isspace s = s" by simp
  moreover have "dropWhile isspace (rev s) = rev s"
    using assms Cons by (cases "rev s") (simp, metis dropWhile.simps(2) last_rev list.sel(1) rev_rev_ident list.discI)
  ultimately show ?thesis by (simp add: trim_def)
qed simp

lemma trim_ends:
  assumes "trim s \<noteq> []"
  shows "\<not> isspace (hd (trim s))" and "\<not> isspace (last (trim s))"
proof -
  let ?u = "dropWhile isspace s"
  let ?v = "dropWhile isspace (rev ?u)"
  from assms have v: "?v \<noteq> []" by (simp add: trim_def)
  then show "\<not> isspace (last (trim s))"
    by (simp add: trim_def last_rev hd_dropWhile)
  obtain pre where pre: "rev ?u = pre @ ?v" using dropWhile_suffix by blast
  then have u: "?u = rev ?v @ rev pre" by (metis rev_append rev_rev_ident)
  with v have "hd (rev ?v) = hd ?u" by (metis hd_append2 rev_is_Nil_conv)
  moreover from u v have "?u \<noteq> []" by (metis append_is_Nil_conv rev_is_Nil_conv)
  then have "\<not> isspace (hd ?u)" by (rule hd_dropWhile)
  ultimately show "\<not> isspace (hd (trim s))" by (simp add: trim_def)
qed

lemma trim_idem [simp]: "trim (trim s) = trim s"
  by (rule trim_tight) (use trim_ends in blast)

lemma trim_infix: "\<exists>us vs. s = us @ trim s @ vs \<and> (\<forall>c \<in> set us \<union> set vs. isspace c)"
proof -
  let ?u = "dropWhile isspace s"
  have s: "s = takeWhile isspace s @ ?u" by simp
  have u: "rev ?u = takeWhile isspace (rev ?u) @ dropWhile isspace (rev ?u)" by simp
  then have "?u = trim s @ rev (takeWhile isspace (rev ?u))"
    by (metis trim_def rev_append rev_rev_ident)
  with s have "s = takeWhile isspace s @ trim s @ rev (takeWhile isspace (rev ?u))" by simp
  moreover have "\<forall>c \<in> set (takeWhile isspace s) \<union> set (rev (takeWhile isspace (rev ?u))). isspace c"
    by (auto dest: set_takeWhileD)
  ultimately show ?thesis by blast
qed

lemma set_trim_subset: "set (trim s) \<subseteq> set s"
proof -
  obtain us vs where "s = us @ trim s @ vs" using trim_infix by blast
  then have "set s = set us \<union> set (trim s) \<union> set vs" by (metis set_append sup_assoc)
  then show ?thesis by blast
qed

lemma length_trim_le: "length (trim s) \<le> length s"
proof -
  obtain us vs where "s = us @ trim s @ vs" using trim_infix by blast
  then have "length s = length us + length (trim s) + length vs"
    by (metis add.assoc length_append)
  then show ?thesis by simp
qed

lemma trim_pad:
  assumes "\<forall>c \<in> set us. isspace c" and "\<forall>c \<in> set vs. isspace c"
  shows "trim (us @ s @ vs) = trim s"
proof -
  have 1: "dropWhile isspace (us @ w) = dropWhile isspace w" for w
    by (rule dropWhile_append2) (use assms(1) in simp)
  show ?thesis
  proof (cases "\<exists>c \<in> set s. \<not> isspace c")
    case True
    then obtain c where c: "c \<in> set s" "\<not> isspace c" by blast
    have "dropWhile isspace (s @ vs) = dropWhile isspace s @ vs"
      using c by (rule dropWhile_append1)
    moreover have "dropWhile isspace (rev vs @ w) = dropWhile isspace w" for w
      by (rule dropWhile_append2) (use assms(2) in simp)
    ultimately show ?thesis by (simp add: trim_def 1)
  next
    case False
    with assms(2) have a: "dropWhile isspace (s @ vs) = []" "dropWhile isspace s = []"
      by (auto simp: dropWhile_eq_Nil_conv)
    show ?thesis by (simp add: trim_def 1 a)
  qed
qed

lemma trim_Cons_blank [simp]: "trim (CHR '' '' # s) = trim s"
  using trim_pad [of "['' ''!0]" "[]" s] by simp

lemma trim_Nil_iff: "trim s = [] \<longleftrightarrow> (\<forall>c \<in> set s. isspace c)"
proof
  assume "trim s = []"
  then show "\<forall>c \<in> set s. isspace c" using trim_infix [of s] by auto
next
  assume "\<forall>c \<in> set s. isspace c"
  then have "dropWhile isspace s = []" by (simp only: dropWhile_eq_Nil_conv)
  then show "trim s = []" by (simp only: trim_def) simp
qed

subsection \<open>Searching\<close>

definition starts_with :: "string \<Rightarrow> string \<Rightarrow> bool" where
  "starts_with p s \<longleftrightarrow> take (length p) s = p"

definition ends_with :: "string \<Rightarrow> string \<Rightarrow> bool" where
  "ends_with p s \<longleftrightarrow> length p \<le> length s \<and> drop (length s - length p) s = p"

lemma starts_with_append [simp]: "starts_with p (p @ s)"
  by (simp add: starts_with_def)

lemma starts_with_conv: "starts_with p s \<longleftrightarrow> (\<exists>r. s = p @ r)"
  unfolding starts_with_def by (metis append_eq_conv_conj append_take_drop_id)

fun find_char :: "char \<Rightarrow> string \<Rightarrow> nat option" where
  "find_char c [] = None"
| "find_char c (x # xs) = (if x = c then Some 0 else map_option Suc (find_char c xs))"

lemma find_char_None [simp]: "find_char c s = None \<longleftrightarrow> c \<notin> set s"
  by (induction s) auto

lemma find_char_SomeD:
  "find_char c s = Some i \<Longrightarrow> i < length s \<and> s ! i = c \<and> c \<notin> set (take i s)"
  by (induction s arbitrary: i) (auto split: if_splits)

lemma find_char_append [cxx_str]:
  "c \<notin> set xs \<Longrightarrow> find_char c (xs @ c # ys) = Some (length xs)"
  by (induction xs) auto

lemma find_char_append_notin [cxx_str]:
  "c \<notin> set xs \<Longrightarrow> find_char c (xs @ ys) = map_option ((+) (length xs)) (find_char c ys)"
proof (induction xs)
  case Nil
  then show ?case by (simp add: option.map_ident_strong)
next
  case (Cons x xs)
  then have "c \<notin> set xs" "x \<noteq> c" by auto
  with Cons.IH show ?case by (auto simp: option.map_comp comp_def intro!: option.map_cong)
qed

definition rfind_char :: "char \<Rightarrow> string \<Rightarrow> nat option" where
  "rfind_char c s = map_option (\<lambda>i. length s - 1 - i) (find_char c (rev s))"

lemma rfind_char_None [simp]: "rfind_char c s = None \<longleftrightarrow> c \<notin> set s"
  by (simp add: rfind_char_def)

fun find_str :: "string \<Rightarrow> string \<Rightarrow> nat option" where
  "find_str needle [] = (if needle = [] then Some 0 else None)"
| "find_str needle (x # xs) =
     (if starts_with needle (x # xs) then Some 0 else map_option Suc (find_str needle xs))"

lemma find_str_SomeD: "find_str p s = Some i \<Longrightarrow> i \<le> length s \<and> starts_with p (drop i s)"
  by (induction s arbitrary: i) (auto simp: starts_with_def split: if_splits)

lemma find_str_first: "find_str p s = Some i \<Longrightarrow> j < i \<Longrightarrow> \<not> starts_with p (drop j s)"
proof (induction s arbitrary: i j)
  case (Cons x xs)
  then show ?case by (cases j) (auto split: if_splits)
qed (simp split: if_splits)

lemma find_str_None: "find_str p s = None \<longleftrightarrow> (\<forall>j \<le> length s. \<not> starts_with p (drop j s))"
proof (induction s)
  case Nil
  then show ?case by (auto simp: starts_with_def)
next
  case (Cons x xs)
  have "(\<forall>j \<le> length (x # xs). \<not> starts_with p (drop j (x # xs))) \<longleftrightarrow>
    \<not> starts_with p (x # xs) \<and> (\<forall>j \<le> length xs. \<not> starts_with p (drop j xs))"
    (is "?l \<longleftrightarrow> ?r")
  proof
    assume l: ?l
    have "\<not> starts_with p (drop (Suc j) (x # xs))" if "j \<le> length xs" for j
      using l that by (simp del: drop_Suc_Cons)
    with l [rule_format, of 0] show ?r by simp
  next
    assume r: ?r
    show ?l
    proof (intro allI impI)
      fix j assume "j \<le> length (x # xs)"
      with r show "\<not> starts_with p (drop j (x # xs))" by (cases j) simp_all
    qed
  qed
  with Cons show ?case by simp
qed

definition contains_str :: "string \<Rightarrow> string \<Rightarrow> bool" where
  "contains_str needle s \<longleftrightarrow> find_str needle s \<noteq> None"

definition find_char_from :: "char \<Rightarrow> string \<Rightarrow> nat \<Rightarrow> nat option" where
  "find_char_from c s pos = map_option ((+) pos) (find_char c (drop pos s))"

definition find_str_from :: "string \<Rightarrow> string \<Rightarrow> nat \<Rightarrow> nat option" where
  "find_str_from p s pos =
     (if pos \<le> length s then map_option ((+) pos) (find_str p (drop pos s)) else None)"

definition substr :: "string \<Rightarrow> nat \<Rightarrow> nat \<Rightarrow> string" where
  "substr s pos n = take n (drop pos s)"

subsection \<open>Lines\<close>

text \<open>The lines a \<^verbatim>\<open>while(std::getline(in, line))\<close> loop sees.\<close>

fun getlines :: "string \<Rightarrow> string list" where
  "getlines [] = []"
| "getlines (c # cs) =
     (if c = newline then [] # getlines cs
      else (case getlines cs of [] \<Rightarrow> [[c]] | l # ls \<Rightarrow> (c # l) # ls))"

text \<open>The lines written back with a newline between them and none at the end.\<close>

fun join_lines :: "string list \<Rightarrow> string" where
  "join_lines [] = []"
| "join_lines [l] = l"
| "join_lines (l # m # ls) = l @ newline # join_lines (m # ls)"

lemma getlines_no_newline: "l \<in> set (getlines s) \<Longrightarrow> newline \<notin> set l"
proof (induction s arbitrary: l rule: getlines.induct)
  case (2 c cs)
  then show ?case by (cases "getlines cs") (auto split: if_splits)
qed simp

lemma getlines_append_line:
  "newline \<notin> set l \<Longrightarrow> getlines (l @ newline # s) = l # getlines s"
  by (induction l) auto

lemma getlines_single: "newline \<notin> set l \<Longrightarrow> l \<noteq> [] \<Longrightarrow> getlines l = [l]"
proof (induction l)
  case (Cons c cs)
  then show ?case by (cases cs) auto
qed simp

lemma getlines_join_lines:
  "\<forall>l \<in> set ls. newline \<notin> set l \<Longrightarrow> ls = [] \<or> last ls \<noteq> [] \<Longrightarrow> getlines (join_lines ls) = ls"
proof (induction ls rule: join_lines.induct)
  case (2 l)
  then show ?case by (simp add: getlines_single)
next
  case (3 l m ls)
  then show ?case by (simp add: getlines_append_line)
qed simp

text \<open>Pieces with a separator between them.\<close>

fun joined :: "string \<Rightarrow> string list \<Rightarrow> string" where
  "joined sep [] = []"
| "joined sep [p] = p"
| "joined sep (p # q # ps) = p @ sep @ joined sep (q # ps)"

lemma joined_Cons: "ps \<noteq> [] \<Longrightarrow> joined sep (p # ps) = p @ sep @ joined sep ps"
  by (cases ps) auto

subsection \<open>Numbers\<close>

definition digit_val :: "char \<Rightarrow> nat" where
  "digit_val c = byte_of c - 48"

definition digits_val :: "string \<Rightarrow> nat" where
  "digits_val s = foldl (\<lambda>n c. 10 * n + digit_val c) 0 s"

definition int_max :: int where "int_max = 2147483647"
definition int_min :: int where "int_min = - 2147483648"

text \<open>\<^verbatim>\<open>std::stoi\<close>: blanks, a sign, the longest run of digits; \<^const>\<open>None\<close> where it throws.\<close>

definition stoi :: "string \<Rightarrow> int option" where
  "stoi s =
     (let t = dropWhile isspace s;
          neg = (t \<noteq> [] \<and> hd t = CHR ''-'');
          u = (if t \<noteq> [] \<and> (hd t = CHR ''-'' \<or> hd t = CHR ''+'') then tl t else t);
          ds = takeWhile isdigit u;
          v = (if neg then - int (digits_val ds) else int (digits_val ds))
      in if ds = [] then None
         else if int_min \<le> v \<and> v \<le> int_max then Some v else None)"

fun dec_str :: "nat \<Rightarrow> string" where
  "dec_str n = (if n < 10 then [char_of (48 + n)] else dec_str (n div 10) @ [char_of (48 + n mod 10)])"

declare dec_str.simps [simp del]

lemma digit_char:
  assumes "d < 10"
  shows "isdigit (char_of (48 + d))" and "digit_val (char_of (48 + d)) = d"
proof -
  have "byte_of (char_of (48 + d)) = 48 + d" using assms by simp
  then show "isdigit (char_of (48 + d))" and "digit_val (char_of (48 + d)) = d"
    using assms by (simp_all add: isdigit_def digit_val_def)
qed

lemma digits_val_snoc: "digits_val (s @ [c]) = 10 * digits_val s + digit_val c"
  by (simp add: digits_val_def)

lemma dec_str_digits: "dec_str n \<noteq> [] \<and> (\<forall>c \<in> set (dec_str n). isdigit c) \<and> digits_val (dec_str n) = n"
proof (induction n rule: dec_str.induct)
  case (1 n)
  show ?case
  proof (cases "n < 10")
    case True
    then have "dec_str n = [char_of (48 + n)]" by (subst dec_str.simps) simp
    with digit_char [OF True] show ?thesis by (simp add: digits_val_def)
  next
    case False
    then have "dec_str n = dec_str (n div 10) @ [char_of (48 + n mod 10)]"
      by (subst dec_str.simps) simp
    with 1 [OF False] digit_char [of "n mod 10"] show ?thesis
      by (simp add: digits_val_snoc)
  qed
qed

lemma stoi_digits:
  assumes "s \<noteq> []" and "\<forall>c \<in> set s. isdigit c" and "int (digits_val s) \<le> int_max"
  shows "stoi s = Some (int (digits_val s))"
proof -
  have hd: "isdigit (hd s)" using assms(1,2) by simp
  then have dw: "dropWhile isspace s = s"
    using assms(1) isdigit_not_isspace by (cases s) auto
  from hd have sign: "hd s \<noteq> CHR ''-''" "hd s \<noteq> CHR ''+''" by (auto simp: isdigit_def)
  have tw: "takeWhile isdigit s = s" using assms(2) by (simp add: takeWhile_eq_all_conv)
  show ?thesis using assms(1,3) by (simp add: stoi_def dw sign tw Let_def int_min_def)
qed

lemma stoi_dec_str: "int n \<le> int_max \<Longrightarrow> stoi (dec_str n) = Some (int n)"
  using stoi_digits [of "dec_str n"] dec_str_digits [of n] by simp

end
