(* ===== verification/Ordered_Map.thy ===== *)
theory Ordered_Map
  imports Cxx_Strings
begin

text \<open>
  \<^verbatim>\<open>std::map\<close> and \<^verbatim>\<open>std::unordered_map\<close> as the code uses them. The interface \<open>dict\<close> states
  what the clients rely on; \<open>omap\<close> (an association list kept sorted by key, whose list is the
  iteration order of \<^verbatim>\<open>std::map\<close>) is the instance. HOL functions \<open>'k \<rightharpoonup> 'v\<close> stand for the
  maps whose iteration order nothing observes.
\<close>

type_synonym ('k, 'v) omap = "('k \<times> 'v) list"

definition omap_empty :: "('k, 'v) omap" where
  "omap_empty = []"

definition omap_find :: "('k, 'v) omap \<Rightarrow> 'k \<Rightarrow> 'v option" where
  "omap_find m = map_of m"

text \<open>\<^verbatim>\<open>m[k] = v\<close>\<close>

fun omap_put :: "'k::linorder \<Rightarrow> 'v \<Rightarrow> ('k, 'v) omap \<Rightarrow> ('k, 'v) omap" where
  "omap_put k v [] = [(k, v)]"
| "omap_put k v (p # m) =
     (if fst p < k then p # omap_put k v m
      else if fst p = k then (k, v) # m else (k, v) # p # m)"

definition omap_keys :: "('k, 'v) omap \<Rightarrow> 'k list" where
  "omap_keys m = map fst m"

definition omap_wf :: "('k::linorder, 'v) omap \<Rightarrow> bool" where
  "omap_wf m \<longleftrightarrow> sorted_wrt (<) (map fst m)"

lemma omap_wf_empty [simp]: "omap_wf omap_empty"
  by (simp add: omap_wf_def omap_empty_def)

lemma keys_omap_put: "fst ` set (omap_put k v m) = insert k (fst ` set m)"
  by (induction m) auto

lemma omap_wf_put: "omap_wf m \<Longrightarrow> omap_wf (omap_put k v m)"
proof (induction m)
  case (Cons p m)
  have "\<forall>x \<in> fst ` set (omap_put k v m). fst p < x" if "fst p < k"
    using Cons.prems that by (auto simp: keys_omap_put omap_wf_def)
  with Cons show ?case by (auto simp: omap_wf_def)
qed (simp add: omap_wf_def)

lemma omap_find_put: "omap_wf m \<Longrightarrow> omap_find (omap_put k v m) = (omap_find m)(k \<mapsto> v)"
proof (induction m)
  case (Cons p m)
  obtain a b where p: "p = (a, b)" by (cases p)
  show ?case
  proof (cases "a < k")
    case True
    have "omap_wf m" using Cons.prems by (simp add: omap_wf_def)
    then have "omap_find (omap_put k v m) = (omap_find m)(k \<mapsto> v)" by (rule Cons.IH)
    with True p show ?thesis by (auto simp: omap_find_def)
  next
    case False
    have "map_of m a = None" if "a = k"
      using Cons.prems p that by (auto simp: omap_wf_def map_of_eq_None_iff)
    with False p show ?thesis by (auto simp: omap_find_def fun_upd_def fun_eq_iff)
  qed
qed (simp add: omap_find_def)

lemma omap_wf_distinct: "omap_wf m \<Longrightarrow> distinct (map fst m)"
  unfolding omap_wf_def by (simp add: strict_sorted_iff)

lemma omap_find_Some_iff: "omap_wf m \<Longrightarrow> omap_find m k = Some v \<longleftrightarrow> (k, v) \<in> set m"
  using omap_wf_distinct [of m] by (simp add: omap_find_def)

subsection \<open>The interface of a keyed map\<close>

locale dict =
  fixes empty :: "'m"
    and find :: "'m \<Rightarrow> 'k \<Rightarrow> 'v option"
    and put :: "'k \<Rightarrow> 'v \<Rightarrow> 'm \<Rightarrow> 'm"
    and wf :: "'m \<Rightarrow> bool"
  assumes wf_empty: "wf empty"
    and wf_put: "wf m \<Longrightarrow> wf (put k v m)"
    and find_empty: "find empty k = None"
    and find_put: "wf m \<Longrightarrow> find (put k v m) = (find m)(k \<mapsto> v)"
begin

text \<open>Storing a sequence of pairs, the later of two equal keys winning.\<close>

lemma wf_puts: "wf m \<Longrightarrow> wf (fold (\<lambda>(k, v). put k v) kvs m)"
  by (induction kvs arbitrary: m) (auto simp: wf_put split: prod.splits)

lemma find_puts:
  "wf m \<Longrightarrow> find (fold (\<lambda>(k, v). put k v) kvs m) = find m ++ map_of (rev kvs)"
proof (induction kvs arbitrary: m)
  case (Cons p kvs)
  obtain k v where "p = (k, v)" by (cases p)
  with Cons show ?case by (simp add: wf_put find_put map_add_upd_left [symmetric] map_add_def fun_eq_iff
      split: option.splits)
qed simp

lemma find_puts_const:
  "wf m \<Longrightarrow> find (fold (\<lambda>x. put (f x) c) xs m) k = (if k \<in> f ` set xs then Some c else find m k)"
  by (induction xs arbitrary: m) (auto simp: wf_put find_put)

lemma wf_puts_const: "wf m \<Longrightarrow> wf (fold (\<lambda>x. put (f x) c) xs m)"
  by (induction xs arbitrary: m) (auto simp: wf_put)

end

interpretation om: dict omap_empty omap_find omap_put omap_wf
  by unfold_locales (auto simp: omap_wf_put omap_find_put, simp add: omap_find_def omap_empty_def)

interpretation hm: dict "Map.empty" "\<lambda>m. m" "\<lambda>k v m. m(k \<mapsto> v)" "\<lambda>_. True"
  by unfold_locales auto

text \<open>Iterating a well-formed map and storing its entries adds exactly its bindings.\<close>

lemma omap_find_puts_map:
  assumes "omap_wf m" and "omap_wf n"
  shows "omap_find (fold (\<lambda>(k, v). omap_put k v) n m) = omap_find m ++ omap_find n"
proof -
  have "map_of (rev n) = map_of n"
    using omap_wf_distinct [OF assms(2)]
    by (subst map_of_inject_set) (simp_all add: rev_map [symmetric])
  with om.find_puts [OF assms(1)] show ?thesis by (simp add: omap_find_def)
qed

text \<open>Sorted association lists are determined by their lookup function.\<close>

lemma omap_as_map: "omap_wf m \<Longrightarrow> m = map (\<lambda>k. (k, the (omap_find m k))) (map fst m)"
  using omap_wf_distinct [of m]
  by (auto simp: omap_find_def intro!: map_idI [symmetric])

lemma omap_ext:
  assumes "omap_wf m" and "omap_wf n" and "omap_find m = omap_find n"
  shows "m = n"
proof -
  have "set (map fst m) = set (map fst n)"
    using assms(3) by (simp add: omap_find_def dom_map_of_conv_image_fst [symmetric])
  with assms(1,2) have "map fst m = map fst n"
    by (simp add: omap_wf_def strict_sorted_equal)
  with omap_as_map [OF assms(1)] omap_as_map [OF assms(2)] assms(3) show ?thesis by metis
qed

text \<open>\<^verbatim>\<open>for(const auto& [key, value] : n) m[key] = value;\<close>\<close>

definition omap_put_all :: "('k::linorder, 'v) omap \<Rightarrow> ('k, 'v) omap \<Rightarrow> ('k, 'v) omap" where
  "omap_put_all n m = fold (\<lambda>(k, v). omap_put k v) n m"

lemma omap_wf_put_all: "omap_wf m \<Longrightarrow> omap_wf (omap_put_all n m)"
  by (simp add: omap_put_all_def om.wf_puts)

lemma omap_find_put_all:
  "omap_wf m \<Longrightarrow> omap_wf n \<Longrightarrow> omap_find (omap_put_all n m) = omap_find m ++ omap_find n"
  by (simp add: omap_put_all_def omap_find_puts_map)

lemma omap_put_all_empty [simp]: "omap_put_all [] m = m"
  by (simp add: omap_put_all_def)

lemma omap_put_all_assoc:
  assumes "omap_wf a" and "omap_wf b" and "omap_wf c"
  shows "omap_put_all c (omap_put_all b a) = omap_put_all (omap_put_all c b) a"
  by (rule omap_ext) (simp_all add: assms omap_wf_put_all omap_find_put_all)

end
