(* ===== verification/Toml_Lex.thy ===== *)
theory Toml_Lex
  imports Ordered_Map "HOL-Library.Word"
begin

text \<open>
  The line scanner of the package manager's TOML reader (\<^verbatim>\<open>src/package_manager.cpp\<close>): quote
  tracking, comment stripping, array splitting, completeness of a value, multi-line values and
  assignments. An input stream is the list of its remaining lines (\<^const>\<open>getlines\<close>), so a
  function that reads on returns the lines it left.
\<close>

subsection \<open>Quote tracking\<close>

text \<open>
  Every scanner of the source keeps the three flags below. They only take the four
  combinations of \<open>qstate\<close>, on which the scanners of the model run; \<open>quote_step_refines\<close> ties
  the two together.
\<close>

record scan_flags =
  inDoubleQuotes :: bool
  inSingleQuotes :: bool
  escaped :: bool

definition flags_step :: "scan_flags \<Rightarrow> char \<Rightarrow> scan_flags" where
  "flags_step f c =
     (if inDoubleQuotes f then
        (if escaped f then f\<lparr>escaped := False\<rparr>
         else if c = bslash then f\<lparr>escaped := True\<rparr>
         else if c = dquote then f\<lparr>inDoubleQuotes := False\<rparr> else f)
      else if inSingleQuotes f then
        (if c = squote then f\<lparr>inSingleQuotes := False\<rparr> else f)
      else if c = dquote then f\<lparr>inDoubleQuotes := True\<rparr>
      else if c = squote then f\<lparr>inSingleQuotes := True\<rparr>
      else f)"

datatype qstate = Bare | InDouble | Escaped | InSingle

fun quote_step :: "qstate \<Rightarrow> char \<Rightarrow> qstate" where
  "quote_step Bare c = (if c = dquote then InDouble else if c = squote then InSingle else Bare)"
| "quote_step InDouble c = (if c = bslash then Escaped else if c = dquote then Bare else InDouble)"
| "quote_step Escaped c = InDouble"
| "quote_step InSingle c = (if c = squote then Bare else InSingle)"

definition quote_run :: "qstate \<Rightarrow> string \<Rightarrow> qstate" where
  "quote_run q s = foldl quote_step q s"

definition flags_abs :: "scan_flags \<Rightarrow> qstate" where
  "flags_abs f = (if inDoubleQuotes f then (if escaped f then Escaped else InDouble)
                  else if inSingleQuotes f then InSingle else Bare)"

definition flags_ok :: "scan_flags \<Rightarrow> bool" where
  "flags_ok f \<longleftrightarrow> \<not> (inDoubleQuotes f \<and> inSingleQuotes f) \<and> (escaped f \<longrightarrow> inDoubleQuotes f)"

lemma quote_step_refines:
  "flags_ok f \<Longrightarrow> flags_ok (flags_step f c) \<and> flags_abs (flags_step f c) = quote_step (flags_abs f) c"
  by (auto simp: flags_ok_def flags_step_def flags_abs_def)

lemma quote_run_simps [simp, toml_simps]:
  "quote_run q [] = q"
  "quote_run q (c # cs) = quote_run (quote_step q c) cs"
  "quote_run q (xs @ ys) = quote_run (quote_run q xs) ys"
  by (simp_all add: quote_run_def)

definition quote_free :: "string \<Rightarrow> bool" where
  "quote_free s \<longleftrightarrow> dquote \<notin> set s \<and> squote \<notin> set s"

lemma quote_run_free [toml_simps]: "quote_free s \<Longrightarrow> quote_run Bare s = Bare"
  by (induction s) (auto simp: quote_free_def)

subsection \<open>Comments\<close>

text \<open>The prefix of the line before its first \<^verbatim>\<open>#\<close> outside quotes.\<close>

fun strip_scan :: "qstate \<Rightarrow> string \<Rightarrow> string" where
  "strip_scan q [] = []"
| "strip_scan q (c # cs) =
     (if q = Bare \<and> c = CHR ''#'' then [] else c # strip_scan (quote_step q c) cs)"

definition strip_toml_comment :: "string \<Rightarrow> string" where
  "strip_toml_comment line = trim (strip_scan Bare line)"

text \<open>No \<^verbatim>\<open>#\<close> is met outside quotes.\<close>

fun hash_free :: "qstate \<Rightarrow> string \<Rightarrow> bool" where
  "hash_free q [] = True"
| "hash_free q (c # cs) = (\<not> (q = Bare \<and> c = CHR ''#'') \<and> hash_free (quote_step q c) cs)"

lemma hash_free_append [toml_simps]:
  "hash_free q (xs @ ys) \<longleftrightarrow> hash_free q xs \<and> hash_free (quote_run q xs) ys"
  by (induction xs arbitrary: q) auto

lemma strip_scan_free: "hash_free q s \<Longrightarrow> strip_scan q s = s"
  by (induction s arbitrary: q) auto

lemma strip_scan_comment:
  "hash_free q s \<Longrightarrow> quote_run q s = Bare \<Longrightarrow> strip_scan q (s @ CHR ''#'' # t) = s"
  by (induction s arbitrary: q) auto

lemma hash_free_strip_scan: "hash_free q (strip_scan q s)"
  by (induction s arbitrary: q) auto

lemma strip_scan_prefix: "\<exists>t. s = strip_scan q s @ t"
  by (induction s arbitrary: q) auto

lemma hash_free_plain [toml_simps]: "quote_free s \<Longrightarrow> CHR ''#'' \<notin> set s \<Longrightarrow> hash_free Bare s"
  by (induction s) (auto simp: quote_free_def)

lemma isspace_not_hash [simp]: "isspace c \<Longrightarrow> c \<noteq> CHR ''#'' \<and> c \<noteq> dquote \<and> c \<noteq> squote"
  by (auto simp: isspace_def)

lemma quote_free_spaces: "\<forall>c \<in> set s. isspace c \<Longrightarrow> quote_free s"
  unfolding quote_free_def by (metis isspace_not_hash)

lemma hash_free_trim:
  assumes "hash_free Bare s"
  shows "hash_free Bare (trim s)"
proof -
  obtain us vs where s: "s = us @ trim s @ vs" and sp: "\<forall>c \<in> set us \<union> set vs. isspace c"
    using trim_infix by blast
  from sp have "quote_run Bare us = Bare" by (intro quote_run_free quote_free_spaces) auto
  with assms s show ?thesis by (metis hash_free_append)
qed

lemma strip_toml_comment_hash_free: "hash_free Bare (strip_toml_comment s)"
  by (simp add: strip_toml_comment_def hash_free_trim hash_free_strip_scan)

lemma strip_toml_comment_eq_trim: "hash_free Bare s \<Longrightarrow> strip_toml_comment s = trim s"
  by (simp add: strip_toml_comment_def strip_scan_free)

subsection \<open>Arrays\<close>

text \<open>
  \<^verbatim>\<open>split_toml_array\<close>: the pieces between top-level commas, trimmed. \<open>d\<close> is the bracket
  depth, which the source never lets go below 0.
\<close>

fun split_array_loop :: "qstate \<Rightarrow> nat \<Rightarrow> string \<Rightarrow> string \<Rightarrow> string list" where
  "split_array_loop q d cur [] = (if cur = [] then [] else [trim cur])"
| "split_array_loop q d cur (c # cs) =
     (if q \<noteq> Bare then split_array_loop (quote_step q c) d (cur @ [c]) cs
      else if c = dquote \<or> c = squote then split_array_loop (quote_step q c) d (cur @ [c]) cs
      else if c = CHR ''['' then split_array_loop q (Suc d) (cur @ [c]) cs
      else if c = CHR '']'' then split_array_loop q (d - 1) (cur @ [c]) cs
      else if c = CHR '','' \<and> d = 0 then trim cur # split_array_loop q d [] cs
      else split_array_loop q d (cur @ [c]) cs)"

definition split_toml_array :: "string \<Rightarrow> string list" where
  "split_toml_array input = split_array_loop Bare 0 [] input"

fun array_depth :: "qstate \<Rightarrow> nat \<Rightarrow> string \<Rightarrow> nat" where
  "array_depth q d [] = d"
| "array_depth q d (c # cs) =
     (if q \<noteq> Bare \<or> c = dquote \<or> c = squote then array_depth (quote_step q c) d cs
      else if c = CHR ''['' then array_depth q (Suc d) cs
      else if c = CHR '']'' then array_depth q (d - 1) cs
      else array_depth q d cs)"

definition toml_array_is_complete :: "string \<Rightarrow> bool" where
  "toml_array_is_complete input \<longleftrightarrow> array_depth Bare 0 input = 0"

subsection \<open>Complete values\<close>

fun basic_string_scan :: "bool \<Rightarrow> string \<Rightarrow> bool" where
  "basic_string_scan esc [] = False"
| "basic_string_scan esc (c # cs) =
     (if esc then basic_string_scan False cs
      else if c = bslash then basic_string_scan True cs
      else if c = dquote then cs = []
      else basic_string_scan False cs)"

definition toml_basic_string_is_complete :: "string \<Rightarrow> bool" where
  "toml_basic_string_is_complete input =
     (let t = trim input in
      if t = [] \<or> hd t \<noteq> dquote then True else basic_string_scan False (tl t))"

definition toml_literal_string_is_complete :: "string \<Rightarrow> bool" where
  "toml_literal_string_is_complete input =
     (let t = trim input in
      if t = [] \<or> hd t \<noteq> squote then True else 2 \<le> length t \<and> last t = squote)"

definition toml_value_is_complete :: "string \<Rightarrow> bool" where
  "toml_value_is_complete input =
     (let t = trim input in
      if t = [] then True
      else if hd t = CHR ''['' then toml_array_is_complete t
      else if hd t = dquote then toml_basic_string_is_complete t
      else if hd t = squote then toml_literal_string_is_complete t
      else True)"

fun collect_loop :: "string \<Rightarrow> string list \<Rightarrow> string \<times> string list" where
  "collect_loop v [] = (v, [])"
| "collect_loop v (l # ls) =
     (let v' = v @ newline # strip_toml_comment l in
      if toml_array_is_complete v' then (v', ls) else collect_loop v' ls)"

definition collect_multiline_toml_value :: "string \<Rightarrow> string list \<Rightarrow> string \<times> string list" where
  "collect_multiline_toml_value v ls =
     (if toml_value_is_complete v then (v, ls) else collect_loop v ls)"

lemma collect_loop_rest: "length (snd (collect_loop v ls)) \<le> length ls"
proof (induction v ls rule: collect_loop.induct)
  case (2 v l ls)
  then show ?case by (auto simp: Let_def intro: le_SucI)
qed simp

lemma collect_multiline_rest: "length (snd (collect_multiline_toml_value v ls)) \<le> length ls"
  by (simp add: collect_multiline_toml_value_def collect_loop_rest)

subsection \<open>Assignments\<close>

record toml_assignment =
  asg_key :: string
  asg_value :: string
  asg_append :: bool

fun find_bare_eq :: "qstate \<Rightarrow> string \<Rightarrow> nat option" where
  "find_bare_eq q [] = None"
| "find_bare_eq q (c # cs) =
     (if q = Bare \<and> c = CHR ''='' then Some 0
      else map_option Suc (find_bare_eq (quote_step q c) cs))"

definition parse_toml_assignment :: "string \<Rightarrow> string list \<Rightarrow> toml_assignment option \<times> string list" where
  "parse_toml_assignment line ls =
     (case find_bare_eq Bare line of
        None \<Rightarrow> (None, ls)
      | Some i \<Rightarrow>
          (let app = (0 < i \<and> line ! (i - 1) = CHR ''+'');
               key = trim (take (if app then i - 1 else i) line);
               (value, rest) = collect_multiline_toml_value (trim (drop (Suc i) line)) ls
           in if key = [] then (None, rest)
              else (Some \<lparr>asg_key = key, asg_value = value, asg_append = app\<rparr>, rest)))"

lemma parse_toml_assignment_rest: "length (snd (parse_toml_assignment line ls)) \<le> length ls"
  unfolding parse_toml_assignment_def
  by (auto simp: Let_def split: option.splits prod.splits) (metis collect_multiline_rest snd_conv)+

lemma find_bare_eq_append [toml_simps]:
  "quote_free k \<Longrightarrow> CHR ''='' \<notin> set k \<Longrightarrow> find_bare_eq Bare (k @ CHR ''='' # v) = Some (length k)"
  by (induction k) (auto simp: quote_free_def)

subsection \<open>The line loop of the manifest readers\<close>

text \<open>
  Every manifest reader is the same \<^verbatim>\<open>while(std::getline(in, line))\<close> loop: strip the comment,
  skip an empty line, handle a section header (\<open>header s t\<close>, where \<^const>\<open>None\<close> means that \<open>t\<close>
  is none), skip the line unless \<open>wants s\<close>, then read an assignment, which may consume further
  lines, and act on it. \<open>assign\<close> also gets the stripped line.
\<close>

function toml_loop ::
  "('s \<Rightarrow> string \<Rightarrow> ('s, 'r) flow option) \<Rightarrow> ('s \<Rightarrow> bool) \<Rightarrow>
   ('s \<Rightarrow> string \<Rightarrow> toml_assignment \<Rightarrow> ('s, 'r) flow) \<Rightarrow> 's \<Rightarrow> string list \<Rightarrow> ('s, 'r) flow" where
  "toml_loop header wants assign s [] = Continue s"
| "toml_loop header wants assign s (line # ls) =
     (let t = strip_toml_comment line in
      if t = [] then toml_loop header wants assign s ls
      else (case header s t of
              Some (Return r) \<Rightarrow> Return r
            | Some (Continue s') \<Rightarrow> toml_loop header wants assign s' ls
            | None \<Rightarrow>
                if \<not> wants s then toml_loop header wants assign s ls
                else (case parse_toml_assignment t ls of
                        (None, rest) \<Rightarrow> toml_loop header wants assign s rest
                      | (Some a, rest) \<Rightarrow>
                          (case assign s t a of
                             Return r \<Rightarrow> Return r
                           | Continue s' \<Rightarrow> toml_loop header wants assign s' rest))))"
  by pat_completeness auto
termination
proof (relation "measure (\<lambda>(_, _, _, _, ls). length ls)", goal_cases)
  case 1
  show ?case by simp
qed (auto, (metis le_imp_less_Suc parse_toml_assignment_rest snd_conv)+)

text \<open>The header test of the readers that keep a current section.\<close>

definition is_header :: "string \<Rightarrow> bool" where
  "is_header t \<longleftrightarrow> t \<noteq> [] \<and> hd t = CHR ''['' \<and> last t = CHR '']''"

text \<open>\<^verbatim>\<open>t.substr(1, t.size() - 2)\<close>\<close>

definition header_name :: "string \<Rightarrow> string" where
  "header_name t = substr t 1 (length t - 2)"

lemma header_name_bracket [simp]: "header_name (CHR ''['' # s @ [CHR '']'']) = s"
  by (simp add: header_name_def substr_def)

text \<open>An invariant kept by the handlers holds for the outcome of the loop.\<close>

lemma toml_loop_inv:
  assumes header: "\<And>s t f. I s \<Longrightarrow> header s t = Some f \<Longrightarrow> flow_all I Q f"
    and assign: "\<And>s t a. I s \<Longrightarrow> flow_all I Q (assign s t a)"
  shows "I s \<Longrightarrow> flow_all I Q (toml_loop header wants assign s ls)"
proof (induction "length ls" arbitrary: s ls rule: less_induct)
  case less
  show ?case
  proof (cases ls)
    case (Cons line ls')
    let ?t = "strip_toml_comment line"
    have sub: "I s' \<Longrightarrow> length rest \<le> length ls' \<Longrightarrow> flow_all I Q (toml_loop header wants assign s' rest)" for s' rest
      using less.hyps Cons by simp
    obtain a rest where p: "parse_toml_assignment ?t ls' = (a, rest)" by force
    then have "length rest \<le> length ls'" by (metis parse_toml_assignment_rest snd_conv)
    then have sub': "I s' \<Longrightarrow> flow_all I Q (toml_loop header wants assign s' rest)" for s' by (rule sub [rotated])
    show ?thesis
      using less.prems header [OF less.prems, of ?t] assign [OF less.prems, of ?t "the a"] sub sub' Cons p
      by (auto simp: Let_def split: option.splits flow.splits)
  qed (simp add: less.prems flow_all_def)
qed

end
