(* ===== verification/Toml_Values.thy ===== *)
theory Toml_Values
  imports Toml_Lex
begin

text \<open>
  The values of the package manager's TOML reader: quoted strings and their escapes, lists,
  booleans, inline tables, command tokens, and the two quoting functions the program writes
  with (\<^verbatim>\<open>shell_quote\<close> and the lockfile's \<^verbatim>\<open>lock_quote\<close>). The lemmas are the round trips between
  writers and readers.
\<close>

unbundle bit_operations_syntax

subsection \<open>Escapes\<close>

definition hex_val :: "char \<Rightarrow> nat option" where
  "hex_val c =
     (if 48 \<le> byte_of c \<and> byte_of c \<le> 57 then Some (byte_of c - 48)
      else if 97 \<le> byte_of c \<and> byte_of c \<le> 102 then Some (10 + (byte_of c - 97))
      else if 65 \<le> byte_of c \<and> byte_of c \<le> 70 then Some (10 + (byte_of c - 65))
      else None)"

fun hex_loop :: "32 word \<Rightarrow> string \<Rightarrow> 32 word option" where
  "hex_loop v [] = Some v"
| "hex_loop v (c # cs) =
     (case hex_val c of None \<Rightarrow> None | Some d \<Rightarrow> hex_loop (push_bit 4 v OR of_nat d) cs)"

definition parse_hex_codepoint :: "string \<Rightarrow> 32 word option" where
  "parse_hex_codepoint text = (if text = [] then None else hex_loop 0 text)"

abbreviation char_of_word :: "32 word \<Rightarrow> char" where "char_of_word w \<equiv> char_of (unat w)"

definition utf8_codepoint :: "32 word \<Rightarrow> string" where
  "utf8_codepoint cp =
     (if cp \<le> 0x7F then [char_of_word cp]
      else if cp \<le> 0x7FF then
        [char_of_word (0xC0 OR (drop_bit 6 cp AND 0x1F)),
         char_of_word (0x80 OR (cp AND 0x3F))]
      else if cp \<le> 0xFFFF then
        [char_of_word (0xE0 OR (drop_bit 12 cp AND 0x0F)),
         char_of_word (0x80 OR (drop_bit 6 cp AND 0x3F)),
         char_of_word (0x80 OR (cp AND 0x3F))]
      else
        [char_of_word (0xF0 OR (drop_bit 18 cp AND 0x07)),
         char_of_word (0x80 OR (drop_bit 12 cp AND 0x3F)),
         char_of_word (0x80 OR (drop_bit 6 cp AND 0x3F)),
         char_of_word (0x80 OR (cp AND 0x3F))])"

definition hex_digits_of :: "char \<Rightarrow> nat" where
  "hex_digits_of e = (if e = CHR ''u'' then 4 else 8)"

function unescape_toml_basic_string :: "string \<Rightarrow> string" where
  "unescape_toml_basic_string [] = []"
| "unescape_toml_basic_string [c] = [c]"
| "unescape_toml_basic_string (c # e # cs) =
     (if c \<noteq> bslash then c # unescape_toml_basic_string (e # cs)
      else if e = CHR ''b'' then CHR 0x08 # unescape_toml_basic_string cs
      else if e = CHR ''t'' then CHR 0x09 # unescape_toml_basic_string cs
      else if e = CHR ''n'' then newline # unescape_toml_basic_string cs
      else if e = CHR ''f'' then CHR 0x0C # unescape_toml_basic_string cs
      else if e = CHR ''r'' then CHR 0x0D # unescape_toml_basic_string cs
      else if e = dquote then dquote # unescape_toml_basic_string cs
      else if e = bslash then bslash # unescape_toml_basic_string cs
      else if e = CHR ''u'' \<or> e = CHR ''U'' then
        (let h = hex_digits_of e in
         if length cs < h then bslash # e # unescape_toml_basic_string cs
         else (case parse_hex_codepoint (take h cs) of
                 None \<Rightarrow> bslash # e # unescape_toml_basic_string cs
               | Some cp \<Rightarrow> utf8_codepoint cp @ unescape_toml_basic_string (drop h cs)))
      else e # unescape_toml_basic_string cs)"
  by pat_completeness auto
termination by (relation "measure length") auto

subsection \<open>Quoted strings\<close>

text \<open>Runs of blanks, tabs and line ends become one blank.\<close>

fun collapse_blanks :: "bool \<Rightarrow> string \<Rightarrow> string" where
  "collapse_blanks prev [] = []"
| "collapse_blanks prev (c # cs) =
     (let c' = (if c = newline \<or> c = CHR 0x0D then CHR '' '' else c) in
      if c' = CHR '' '' \<or> c' = CHR 0x09
      then (if prev then collapse_blanks True cs else CHR '' '' # collapse_blanks True cs)
      else c' # collapse_blanks False cs)"

definition is_quoted :: "char \<Rightarrow> string \<Rightarrow> bool" where
  "is_quoted q t \<longleftrightarrow> 2 \<le> length t \<and> hd t = q \<and> last t = q"

definition inner :: "string \<Rightarrow> string" where
  "inner t = substr t 1 (length t - 2)"

definition unquote :: "string \<Rightarrow> string" where
  "unquote v =
     (let t = trim v in
      if is_quoted dquote t
      then trim (collapse_blanks False (unescape_toml_basic_string (inner t)))
      else if is_quoted squote t then inner t else t)"

definition unquote_preserve :: "string \<Rightarrow> string" where
  "unquote_preserve v =
     (let t = trim v in
      if is_quoted dquote t then unescape_toml_basic_string (inner t)
      else if is_quoted squote t then inner t else t)"

lemma inner_wrap [simp]: "inner (a # s @ [b]) = s"
  by (simp add: inner_def substr_def)

subsection \<open>Lists, booleans and modes\<close>

text \<open>The entries \<^verbatim>\<open>append_toml_string_list_value\<close> appends to its output.\<close>

definition toml_string_list :: "string \<Rightarrow> string list" where
  "toml_string_list value =
     (let t = trim value in
      if t = [] then []
      else if hd t = CHR ''['' \<and> last t = CHR '']''
      then filter (\<lambda>v. v \<noteq> []) (map unquote (split_toml_array (inner t)))
      else filter (\<lambda>v. v \<noteq> []) [unquote t])"

definition toml_string_list_preserve :: "string \<Rightarrow> string list" where
  "toml_string_list_preserve value =
     (let t = trim value in
      if t = [] then []
      else if hd t = CHR ''['' \<and> last t = CHR '']''
      then filter (\<lambda>v. v \<noteq> []) (map unquote_preserve (split_toml_array (inner t)))
      else filter (\<lambda>v. v \<noteq> []) [unquote_preserve t])"

definition parse_toml_bool_value :: "string \<Rightarrow> bool" where
  "parse_toml_bool_value value =
     (let t = tolower_str (trim value) in
      t = ''true'' \<or> t = ''1'' \<or> t = dquote # ''true'' @ [dquote])"

fun octal_loop :: "32 word \<Rightarrow> string \<Rightarrow> 32 word option" where
  "octal_loop mode [] = Some mode"
| "octal_loop mode (c # cs) =
     (if byte_of c < 48 \<or> 55 < byte_of c then None
      else octal_loop (mode * 8 + of_nat (byte_of c - 48)) cs)"

definition parse_octal_permission_bits :: "string \<Rightarrow> 32 word option" where
  "parse_octal_permission_bits value =
     (let text = trim (unquote value) in if text = [] then None else octal_loop 0 text)"

definition parse_int_or_default :: "string \<Rightarrow> int \<Rightarrow> int" where
  "parse_int_or_default text fallback =
     (if text = [] then fallback else case stoi text of None \<Rightarrow> fallback | Some n \<Rightarrow> n)"

subsection \<open>Inline tables\<close>

fun split_csv_loop :: "qstate \<Rightarrow> int \<Rightarrow> string \<Rightarrow> string \<Rightarrow> string list" where
  "split_csv_loop q d cur [] = (if cur = [] then [] else [trim cur])"
| "split_csv_loop q d cur (c # cs) =
     (if q \<noteq> Bare \<or> c = dquote \<or> c = squote
      then split_csv_loop (quote_step q c) d (cur @ [c]) cs
      else
        (let d' = (if c = CHR ''{'' then d + 1 else if c = CHR ''}'' then d - 1 else d) in
         if c = CHR '','' \<and> d' = 0 then trim cur # split_csv_loop q d' [] cs
         else split_csv_loop q d' (cur @ [c]) cs))"

definition split_csv :: "string \<Rightarrow> string list" where
  "split_csv input = split_csv_loop Bare 0 [] input"

fun split_semicolon_loop :: "string \<Rightarrow> string \<Rightarrow> string list" where
  "split_semicolon_loop cur [] = (if cur = [] then [] else [trim cur])"
| "split_semicolon_loop cur (c # cs) =
     (if c = CHR '';'' then trim cur # split_semicolon_loop [] cs
      else split_semicolon_loop (cur @ [c]) cs)"

definition split_semicolon :: "string \<Rightarrow> string list" where
  "split_semicolon input = split_semicolon_loop [] input"

definition put_table_entry :: "string \<Rightarrow> (string, string) omap \<Rightarrow> (string, string) omap" where
  "put_table_entry part kv =
     (if part = [] then kv
      else case find_char (CHR ''='') part of
             None \<Rightarrow> kv
           | Some eq \<Rightarrow> omap_put (trim (take eq part)) (unquote (drop (Suc eq) part)) kv)"

definition parse_inline_table :: "string \<Rightarrow> (string, string) omap" where
  "parse_inline_table line =
     (case (find_char (CHR ''{'') line, rfind_char (CHR ''}'') line) of
        (Some l, Some r) \<Rightarrow>
          if r \<le> l then omap_empty
          else fold put_table_entry (split_csv (substr line (l + 1) (r - l - 1))) omap_empty
      | _ \<Rightarrow> omap_empty)"

lemma omap_wf_inline_table: "omap_wf (parse_inline_table line)"
proof -
  have "omap_wf m \<Longrightarrow> omap_wf (fold put_table_entry ps m)" for ps m
    by (induction ps arbitrary: m) (auto simp: put_table_entry_def omap_wf_put split: option.splits)
  then show ?thesis by (auto simp: parse_inline_table_def split: option.splits)
qed

subsection \<open>Command tokens\<close>

fun shell_quote_body :: "string \<Rightarrow> string" where
  "shell_quote_body [] = []"
| "shell_quote_body (c # cs) =
     (if c = squote then squote # bslash # squote # squote # shell_quote_body cs
      else c # shell_quote_body cs)"

definition shell_quote :: "string \<Rightarrow> string" where
  "shell_quote s = squote # shell_quote_body s @ [squote]"

fun join_commands :: "string \<Rightarrow> string list \<Rightarrow> string" where
  "join_commands command [] = command"
| "join_commands command (part # parts) =
     (let token = unquote_preserve part in
      if token = [] then join_commands command parts
      else join_commands
        ((if command = [] then [] else command @ '' '') @ shell_quote token) parts)"

definition parse_toml_command_tokens :: "string \<Rightarrow> string option" where
  "parse_toml_command_tokens value =
     (let t = trim value in
      if t = [] \<or> hd t \<noteq> CHR ''['' \<or> last t \<noteq> CHR '']'' then None
      else Some (join_commands [] (split_toml_array (inner t))))"

text \<open>The entries appended by \<^verbatim>\<open>append_toml_command_value\<close> and \<^verbatim>\<open>append_toml_commands_value\<close>.\<close>

definition toml_command_value :: "string \<Rightarrow> string list" where
  "toml_command_value value =
     (let t = trim value in
      if t = [] then []
      else case parse_toml_command_tokens t of
             Some tokenized \<Rightarrow> if tokenized = [] then [] else [tokenized]
           | None \<Rightarrow> filter (\<lambda>v. v \<noteq> []) [unquote_preserve t])"

definition toml_commands_value :: "string \<Rightarrow> string list" where
  "toml_commands_value value =
     (let t = trim value in
      if t = [] then []
      else if hd t = CHR ''['' \<and> last t = CHR '']''
      then concat (map (\<lambda>part. if part = [] then [] else toml_command_value part)
             (split_toml_array (inner t)))
      else toml_command_value t)"

subsection \<open>The lockfile's strings\<close>

fun lock_quote_body :: "string \<Rightarrow> string" where
  "lock_quote_body [] = []"
| "lock_quote_body (c # cs) =
     (if c = bslash \<or> c = dquote then bslash # c # lock_quote_body cs
      else if c = newline then bslash # CHR ''n'' # lock_quote_body cs
      else c # lock_quote_body cs)"

definition lock_quote :: "string \<Rightarrow> string" where
  "lock_quote value = dquote # lock_quote_body value @ [dquote]"

subsection \<open>Round trips of the lockfile's strings\<close>

lemma unescape_plain [toml_simps]:
  "c \<noteq> bslash \<Longrightarrow> unescape_toml_basic_string (c # r) = c # unescape_toml_basic_string r"
  by (cases r) simp_all

lemma unescape_lock_body [toml_simps]: "unescape_toml_basic_string (lock_quote_body s) = s"
  by (induction s) (auto simp: unescape_plain)

lemma lock_quote_tight: "trim (lock_quote s) = lock_quote s"
  by (rule trim_tight) (simp add: lock_quote_def)

lemma lock_quote_quoted: "is_quoted dquote (lock_quote s)"
  by (simp add: is_quoted_def lock_quote_def)

lemma inner_lock_quote [simp]: "inner (lock_quote s) = lock_quote_body s"
  by (simp add: lock_quote_def)

lemma unquote_preserve_lock_quote: "unquote_preserve (lock_quote s) = s"
  by (simp add: unquote_preserve_def lock_quote_tight lock_quote_quoted unescape_lock_body)

lemma unquote_lock_quote: "unquote (lock_quote s) = trim (collapse_blanks False s)"
  by (simp add: unquote_def lock_quote_tight lock_quote_quoted unescape_lock_body)

lemma lock_body_in_double [toml_simps]:
  "quote_run InDouble (lock_quote_body s) = InDouble \<and> hash_free InDouble (lock_quote_body s)"
  by (induction s) auto

lemma lock_body_scan [toml_simps]: "basic_string_scan False (lock_quote_body s @ [dquote])"
  by (induction s) auto

lemma lock_body_no_newline: "newline \<notin> set (lock_quote_body s)"
  by (induction s) auto

lemma lock_quote_complete: "toml_value_is_complete (lock_quote s)"
proof -
  have "toml_basic_string_is_complete (lock_quote s)"
    by (simp add: toml_basic_string_is_complete_def lock_quote_tight)
      (simp add: lock_quote_def lock_body_scan)
  then show ?thesis by (simp add: toml_value_is_complete_def lock_quote_tight) (simp add: lock_quote_def)
qed

text \<open>A bare key: what the writers of the program put before an equals sign.\<close>

definition key_char :: "char \<Rightarrow> bool" where
  "key_char c \<longleftrightarrow> isalnum c \<or> c = CHR ''_'' \<or> c = CHR ''-''"

definition bare_key :: "string \<Rightarrow> bool" where
  "bare_key k \<longleftrightarrow> k \<noteq> [] \<and> (\<forall>c \<in> set k. key_char c)"

lemma bare_key_char:
  assumes "key_char c"
  shows "\<not> isspace c \<and> c \<noteq> dquote \<and> c \<noteq> squote \<and> c \<noteq> CHR ''='' \<and> c \<noteq> CHR ''#'' \<and> c \<noteq> CHR ''+''"
  using assms by (auto simp: key_char_def isalnum_def isdigit_def isupper_def islower_def isspace_def)

lemma bare_key_facts:
  assumes "bare_key k"
  shows "quote_free k" and "CHR ''='' \<notin> set k" and "CHR ''#'' \<notin> set k" and "trim k = k"
proof -
  from assms have a: "\<And>c. c \<in> set k \<Longrightarrow> key_char c" and ne: "k \<noteq> []"
    by (auto simp: bare_key_def)
  show "quote_free k" unfolding quote_free_def using a bare_key_char by blast
  show "CHR ''='' \<notin> set k" using a bare_key_char by blast
  show "CHR ''#'' \<notin> set k" using a bare_key_char by blast
  show "trim k = k"
    by (rule trim_tight) (use a bare_key_char ne in \<open>simp add: hd_in_set last_in_set\<close>)
qed

text \<open>A line \<open>key = value\<close> as the writers of the program emit it, read back by the line scanner.\<close>

lemma key_value_strip:
  assumes "bare_key k" and "hash_free Bare v" and "v \<noteq> []" and "\<not> isspace (last v)"
  shows "strip_toml_comment (k @ '' = '' @ v) = k @ '' = '' @ v"
proof -
  note k = bare_key_facts [OF assms(1)]
  have "hash_free Bare (k @ '' = '' @ v)"
    using assms(2) by (simp add: hash_free_append hash_free_plain quote_run_free k)
  moreover have "trim (k @ '' = '' @ v) = k @ '' = '' @ v"
  proof (rule trim_tight)
    from assms(1) have "k \<noteq> []" "key_char (hd k)" by (auto simp: bare_key_def)
    then show "k @ '' = '' @ v = [] \<or> \<not> isspace (hd (k @ '' = '' @ v)) \<and> \<not> isspace (last (k @ '' = '' @ v))"
      using bare_key_char assms(3,4) by simp
  qed
  ultimately show ?thesis by (simp only: strip_toml_comment_eq_trim)
qed

lemma key_value_assignment:
  assumes "bare_key k" and "trim v = v" and "toml_value_is_complete v"
  shows "parse_toml_assignment (k @ '' = '' @ v) ls =
    (Some \<lparr>asg_key = k, asg_value = v, asg_append = False\<rparr>, ls)"
proof -
  note k = bare_key_facts [OF assms(1)]
  let ?kb = "k @ '' ''" and ?l = "k @ '' = '' @ v"
  have line: "?l = ?kb @ CHR ''='' # '' '' @ v" by simp
  have free: "quote_free ?kb" using k(1) by (simp add: quote_free_def)
  have eq: "find_bare_eq Bare ?l = Some (Suc (length k))"
    unfolding line using find_bare_eq_append [OF free] k(2) by simp
  have "trim ?kb = trim k" using trim_pad [of "[]" "'' ''" k] by simp
  then have key: "trim (take (Suc (length k)) ?l) = k" using k(4) by simp
  have val: "trim (drop (Suc (Suc (length k))) ?l) = v" using assms(2) by simp
  have "k \<noteq> []" using assms(1) by (simp add: bare_key_def)
  moreover have "?l ! length k = CHR '' ''" by (simp add: nth_append)
  ultimately show ?thesis
    unfolding parse_toml_assignment_def eq option.case
    using assms(3) key val by (simp add: collect_multiline_toml_value_def)
qed

definition lock_line :: "string \<Rightarrow> string \<Rightarrow> string" where
  "lock_line key value = key @ '' = '' @ lock_quote value"

lemma hash_free_lock_quote: "hash_free Bare (lock_quote v)"
  by (simp add: lock_quote_def hash_free_append lock_body_in_double)

lemma lock_line_strip:
  assumes "bare_key k"
  shows "strip_toml_comment (lock_line k v) = lock_line k v"
  unfolding lock_line_def
  by (rule key_value_strip [OF assms hash_free_lock_quote]) (simp_all add: lock_quote_def isspace_def)

lemma lock_line_assignment:
  assumes "bare_key k"
  shows "parse_toml_assignment (lock_line k v) ls =
    (Some \<lparr>asg_key = k, asg_value = lock_quote v, asg_append = False\<rparr>, ls)"
  unfolding lock_line_def by (rule key_value_assignment [OF assms lock_quote_tight lock_quote_complete])

end
