(* ===== verification/Toml_Spec.thy ===== *)
theory Toml_Spec
  imports Toml_Values
begin

text \<open>
  What the quoting and reading functions promise, stated against independent readers: a POSIX
  shell's word splitting for \<^verbatim>\<open>shell_quote\<close> and the command tokens, a UTF-8 decoder for the
  escapes, and the list the manifest editor writes.
\<close>

unbundle bit_operations_syntax

subsection \<open>A POSIX shell's word splitting\<close>

text \<open>
  Single quotes, backslash escapes and blanks; a byte the shell may interpret outside quotes
  (anything but letters, digits and a few marks) makes the split fail. The state is "inside
  single quotes" and the word being read.
\<close>

definition shell_safe :: "char \<Rightarrow> bool" where
  "shell_safe c \<longleftrightarrow> isalnum c \<or> c \<in> set ''_-./:,+@%''"

fun sh_split :: "bool \<Rightarrow> string option \<Rightarrow> string \<Rightarrow> string list option" where
  "sh_split q w [] = (if q then None else Some (case w of None \<Rightarrow> [] | Some v \<Rightarrow> [v]))"
| "sh_split True w (c # cs) =
     (if c = squote then sh_split False w cs
      else sh_split True (Some (case w of None \<Rightarrow> [c] | Some v \<Rightarrow> v @ [c])) cs)"
| "sh_split False w (c # cs) =
     (if c = CHR '' '' then
        (case w of None \<Rightarrow> sh_split False None cs
                 | Some v \<Rightarrow> map_option ((#) v) (sh_split False None cs))
      else if c = squote then sh_split True (Some (case w of None \<Rightarrow> [] | Some v \<Rightarrow> v)) cs
      else if c = bslash then
        (case cs of [] \<Rightarrow> None
         | e # es \<Rightarrow> sh_split False (Some (case w of None \<Rightarrow> [e] | Some v \<Rightarrow> v @ [e])) es)
      else if shell_safe c
      then sh_split False (Some (case w of None \<Rightarrow> [c] | Some v \<Rightarrow> v @ [c])) cs
      else None)"

definition sh_words :: "string \<Rightarrow> string list option" where
  "sh_words s = sh_split False None s"

lemma sh_split_body:
  "sh_split True (Some w) (shell_quote_body s @ squote # r) = sh_split False (Some (w @ s)) r"
  by (induction s arbitrary: w) auto

lemma sh_split_shell_quote:
  "sh_split False None (shell_quote s @ r) = sh_split False (Some s) r"
  by (simp add: shell_quote_def sh_split_body)

lemma sh_words_shell_quote: "sh_words (shell_quote s) = Some [s]"
  using sh_split_shell_quote [of s "[]"] by (simp add: sh_words_def)

definition command_tokens :: "string list \<Rightarrow> string list" where
  "command_tokens parts = filter (\<lambda>t. t \<noteq> []) (map unquote_preserve parts)"

lemma shell_quote_ne [simp]: "shell_quote s \<noteq> []"
  by (simp add: shell_quote_def)

lemma join_commands_more:
  "command \<noteq> [] \<Longrightarrow> join_commands command parts =
     command @ concat (map (\<lambda>t. CHR '' '' # shell_quote t) (command_tokens parts))"
  by (induction parts arbitrary: command) (auto simp: command_tokens_def Let_def)

lemma join_commands_start:
  "join_commands [] parts =
     (case command_tokens parts of [] \<Rightarrow> []
      | t # ts \<Rightarrow> shell_quote t @ concat (map (\<lambda>t. CHR '' '' # shell_quote t) ts))"
proof (induction parts)
  case Nil
  then show ?case by (simp add: command_tokens_def)
next
  case (Cons p ps)
  show ?case
  proof (cases "unquote_preserve p = []")
    case True
    with Cons show ?thesis by (simp add: command_tokens_def)
  next
    case False
    then have "command_tokens (p # ps) = unquote_preserve p # command_tokens ps"
      by (simp add: command_tokens_def)
    with False show ?thesis by (simp add: join_commands_more)
  qed
qed

lemma sh_split_tokens:
  "sh_split False (Some v) (concat (map (\<lambda>t. CHR '' '' # shell_quote t) ts)) = Some (v # ts)"
proof (induction ts arbitrary: v)
  case (Cons t ts)
  then show ?case by (simp add: sh_split_shell_quote)
qed simp

lemma sh_words_join_commands: "sh_words (join_commands [] parts) = Some (command_tokens parts)"
  by (simp add: sh_words_def join_commands_start sh_split_shell_quote sh_split_tokens
      split: list.splits)

subsection \<open>UTF-8\<close>

text \<open>Decoding one encoded code point by its arithmetic definition.\<close>

definition utf8_decode :: "string \<Rightarrow> nat option" where
  "utf8_decode s = (case map byte_of s of
     [a] \<Rightarrow> if a < 128 then Some a else None
   | [a, b] \<Rightarrow> if 192 \<le> a \<and> a < 224 \<and> 128 \<le> b \<and> b < 192
       then Some ((a - 192) * 64 + (b - 128)) else None
   | [a, b, c] \<Rightarrow> if 224 \<le> a \<and> a < 240 \<and> 128 \<le> b \<and> b < 192 \<and> 128 \<le> c \<and> c < 192
       then Some ((a - 224) * 4096 + (b - 128) * 64 + (c - 128)) else None
   | [a, b, c, d] \<Rightarrow> if 240 \<le> a \<and> a < 248 \<and> 128 \<le> b \<and> b < 192 \<and> 128 \<le> c \<and> c < 192
         \<and> 128 \<le> d \<and> d < 192
       then Some ((a - 240) * 262144 + (b - 128) * 4096 + (c - 128) * 64 + (d - 128)) else None
   | _ \<Rightarrow> None)"

lemma or_marks:
  "list_all (\<lambda>x. (192 OR x) = 192 + x) [0..<32] \<and> list_all (\<lambda>x. (224 OR x) = 224 + x) [0..<16] \<and>
   list_all (\<lambda>x. (240 OR x) = 240 + x) [0..<8] \<and> list_all (\<lambda>x::nat. (128 OR x) = 128 + x) [0..<64]"
  by code_simp

lemma or_mark:
  "x < 32 \<Longrightarrow> (192 OR x) = 192 + x" "x < 16 \<Longrightarrow> (224 OR x) = 224 + x"
  "x < 8 \<Longrightarrow> (240 OR x) = 240 + x" "x < 64 \<Longrightarrow> (128 OR x) = 128 + (x::nat)"
  using or_marks by (auto simp: list_all_iff)

lemma nat_and_low:
  "(x::nat) AND 31 = x mod 32" "x AND 15 = x mod 16" "x AND 7 = x mod 8" "x AND 63 = x mod 64"
  using take_bit_eq_mask [of 5 x] take_bit_eq_mask [of 4 x] take_bit_eq_mask [of 3 x]
    take_bit_eq_mask [of 6 x]
  by (simp_all add: take_bit_eq_mod mask_eq_exp_minus_1)

lemma unat_drop: "unat (drop_bit n (cp :: 32 word)) = unat cp div 2 ^ n"
proof -
  have "take_bit 32 (unat cp) = unat cp"
    by (rule take_bit_nat_eq_self) (use unsigned_less [of cp] in simp)
  then have "unat (drop_bit n cp) = drop_bit n (unat cp)"
    by (subst unsigned_drop_bit_eq) simp
  then show ?thesis by (simp only: drop_bit_eq_div)
qed

lemma field_bits:
  fixes cp :: "32 word"
  shows "unat (drop_bit n cp AND 0x1F) = unat cp div 2 ^ n mod 32"
    and "unat (drop_bit n cp AND 0x0F) = unat cp div 2 ^ n mod 16"
    and "unat (drop_bit n cp AND 0x07) = unat cp div 2 ^ n mod 8"
    and "unat (drop_bit n cp AND 0x3F) = unat cp div 2 ^ n mod 64"
    and "unat (cp AND 0x3F) = unat cp mod 64"
  by (simp_all only: unsigned_and_eq unat_drop unsigned_numeral)
    (simp_all add: nat_and_low)

text \<open>The bytes of an encoded code point, as numbers.\<close>

lemma utf8_bytes:
  fixes cp :: "32 word"
  defines "n \<equiv> unat cp"
  assumes "n < 2 ^ 21"
  shows "map byte_of (utf8_codepoint cp) =
    (if n \<le> 127 then [n]
     else if n \<le> 2047 then [192 + n div 64 mod 32, 128 + n mod 64]
     else if n \<le> 65535 then [224 + n div 4096 mod 16, 128 + n div 64 mod 64, 128 + n mod 64]
     else [240 + n div 262144 mod 8, 128 + n div 4096 mod 64, 128 + n div 64 mod 64,
           128 + n mod 64])"
proof -
  have le: "cp \<le> 0x7F \<longleftrightarrow> n \<le> 127" "cp \<le> 0x7FF \<longleftrightarrow> n \<le> 2047" "cp \<le> 0xFFFF \<longleftrightarrow> n \<le> 65535"
    by (simp_all add: word_le_nat_alt n_def)
  have "unat (0xC0 OR (drop_bit k cp AND 0x1F)) = 192 + n div 2 ^ k mod 32"
    "unat (0xE0 OR (drop_bit k cp AND 0x0F)) = 224 + n div 2 ^ k mod 16"
    "unat (0xF0 OR (drop_bit k cp AND 0x07)) = 240 + n div 2 ^ k mod 8"
    "unat (0x80 OR (drop_bit k cp AND 0x3F)) = 128 + n div 2 ^ k mod 64"
    "unat (0x80 OR (cp AND 0x3F)) = 128 + n mod 64" for k
    unfolding unsigned_or_eq field_bits unat_drop n_def by (simp_all add: or_mark)
  note two = this
  have small: "k < 256 \<Longrightarrow> byte_of (char_of k) = k" for k :: nat
    by simp
  show ?thesis
    unfolding utf8_codepoint_def le
    by (simp add: two small n_def [symmetric] del: of_char_of)
qed

lemma split_64:
  fixes n :: nat
  shows "n div 64 * 64 + n mod 64 = n" and "n div 4096 * 4096 + n div 64 mod 64 * 64 + n mod 64 = n"
    and "n div 262144 * 262144 + n div 4096 mod 64 * 4096 + n div 64 mod 64 * 64 + n mod 64 = n"
proof -
  have a: "n div 64 * 64 + n mod 64 = n" for n :: nat by (rule div_mult_mod_eq)
  have d: "n div 64 div 64 = n div 4096" "n div 4096 div 64 = n div 262144"
    by (simp_all add: div_mult2_eq [symmetric])
  show "n div 64 * 64 + n mod 64 = n" by (rule a)
  show "n div 4096 * 4096 + n div 64 mod 64 * 64 + n mod 64 = n"
    using a [of n] a [of "n div 64"] by (simp only: d)
  show "n div 262144 * 262144 + n div 4096 mod 64 * 4096 + n div 64 mod 64 * 64 + n mod 64 = n"
    using a [of n] a [of "n div 64"] a [of "n div 4096"] by (simp only: d)
qed

lemma utf8_decode_codepoint:
  assumes "unat cp < 2 ^ 21"
  shows "utf8_decode (utf8_codepoint cp) = Some (unat cp)"
proof -
  let ?n = "unat cp"
  have 2: "?n \<le> 2047 \<Longrightarrow> ?n div 64 mod 32 = ?n div 64" by simp
  have 3: "?n \<le> 65535 \<Longrightarrow> ?n div 4096 mod 16 = ?n div 4096" by simp
  have 4: "?n div 262144 mod 8 = ?n div 262144" using assms by simp
  show ?thesis
    unfolding utf8_decode_def utf8_bytes [OF assms]
    using 2 3 4 split_64 [of ?n] assms by (auto simp: add.assoc)
qed

subsection \<open>Lists the manifest editor writes\<close>

text \<open>\<^verbatim>\<open>"v1", "v2"\<close>: values between quotes, unescaped, separated by a comma and a blank.\<close>

definition raw_quoted :: "string \<Rightarrow> string" where
  "raw_quoted v = dquote # v @ [dquote]"

fun quoted_items :: "string list \<Rightarrow> string" where
  "quoted_items [] = []"
| "quoted_items [v] = raw_quoted v"
| "quoted_items (v # w # vs) = raw_quoted v @ '', '' @ quoted_items (w # vs)"

text \<open>Values that need no escape and that \<^const>\<open>unquote\<close> leaves alone.\<close>

definition clean_value :: "string \<Rightarrow> bool" where
  "clean_value v \<longleftrightarrow> v \<noteq> [] \<and> dquote \<notin> set v \<and> bslash \<notin> set v \<and> trim (collapse_blanks False v) = v"

lemma collapse_blanks_no_newline: "newline \<notin> set (collapse_blanks prev v)"
  by (induction prev v rule: collapse_blanks.induct) (auto simp: Let_def)

lemma collapse_blanks_solid: "\<forall>c \<in> set v. \<not> isspace c \<Longrightarrow> collapse_blanks False v = v"
  by (induction v) (auto simp: isspace_def)

lemma clean_value_no_newline:
  assumes "clean_value v"
  shows "newline \<notin> set v"
proof -
  have "set v \<subseteq> set (collapse_blanks False v)"
    using assms set_trim_subset [of "collapse_blanks False v"] by (simp add: clean_value_def)
  then show ?thesis using collapse_blanks_no_newline by blast
qed

lemma clean_value_solid:
  assumes "v \<noteq> []" and "\<forall>c \<in> set v. \<not> isspace c \<and> c \<noteq> dquote \<and> c \<noteq> bslash"
  shows "clean_value v"
proof -
  have "trim v = v" by (rule trim_tight) (use assms in \<open>simp add: hd_in_set last_in_set\<close>)
  then show ?thesis using assms collapse_blanks_solid [of v] by (auto simp: clean_value_def)
qed

lemma unescape_no_bslash: "bslash \<notin> set v \<Longrightarrow> unescape_toml_basic_string v = v"
  by (induction v) (auto simp: unescape_plain)

lemma unquote_raw_quoted:
  assumes "clean_value v"
  shows "unquote (raw_quoted v) = v"
proof -
  have "trim (raw_quoted v) = raw_quoted v" by (rule trim_tight) (simp add: raw_quoted_def)
  moreover have "is_quoted dquote (raw_quoted v)" by (simp add: is_quoted_def raw_quoted_def)
  moreover have "inner (raw_quoted v) = v" by (simp add: raw_quoted_def)
  ultimately show ?thesis
    using assms by (simp add: unquote_def unescape_no_bslash clean_value_def)
qed

lemma split_array_in_double:
  "dquote \<notin> set v \<Longrightarrow> bslash \<notin> set v \<Longrightarrow>
   split_array_loop InDouble d cur (v @ dquote # r) = split_array_loop Bare d (cur @ v @ [dquote]) r"
  by (induction v arbitrary: cur) auto

lemma split_array_raw_quoted:
  assumes "clean_value v"
  shows "split_array_loop Bare 0 cur (raw_quoted v @ r) =
    split_array_loop Bare 0 (cur @ raw_quoted v) r"
  using assms split_array_in_double [of v 0 "cur @ [dquote]" r]
  by (simp add: raw_quoted_def clean_value_def)

lemma trim_raw_quoted: "\<forall>c \<in> set cur. isspace c \<Longrightarrow> trim (cur @ raw_quoted v) = raw_quoted v"
  using trim_pad [of cur "[]" "raw_quoted v"] trim_tight [of "raw_quoted v"]
  by (simp add: raw_quoted_def)

lemma split_quoted_items:
  assumes "\<forall>v \<in> set vs. clean_value v" and "\<forall>c \<in> set cur. isspace c" and "vs \<noteq> []"
  shows "split_array_loop Bare 0 cur (quoted_items vs) = map raw_quoted vs"
  using assms
proof (induction vs arbitrary: cur rule: quoted_items.induct)
  case (2 v)
  then show ?case
    using split_array_raw_quoted [of v cur "[]"] trim_raw_quoted [of cur v]
    by (simp add: raw_quoted_def)
next
  case (3 v w vs)
  then have "split_array_loop Bare 0 [CHR '' ''] (quoted_items (w # vs)) = map raw_quoted (w # vs)"
    by simp
  with 3 show ?case
    using split_array_raw_quoted [of v cur "'', '' @ quoted_items (w # vs)"] trim_raw_quoted [of cur v]
    by simp
qed simp

lemma toml_string_list_items:
  assumes "\<forall>v \<in> set vs. clean_value v" and "vs \<noteq> []"
  shows "toml_string_list (CHR ''['' # quoted_items vs @ [CHR '']'']) = vs"
proof -
  let ?t = "CHR ''['' # quoted_items vs @ [CHR '']'']"
  have t: "trim ?t = ?t" by (rule trim_tight) (simp add: isspace_def)
  have "split_toml_array (quoted_items vs) = map raw_quoted vs"
    using split_quoted_items [OF assms(1), of "[]"] assms(2) by (simp add: split_toml_array_def)
  moreover have "map unquote (map raw_quoted vs) = vs"
    using assms(1) by (simp add: unquote_raw_quoted map_idI)
  moreover have "filter (\<lambda>v. v \<noteq> []) vs = vs"
    using assms(1) by (simp add: clean_value_def filter_id_conv)
  ultimately show ?thesis by (simp only: toml_string_list_def t Let_def inner_wrap) simp
qed

end
