(* ===== verification/Semver.thy ===== *)
theory Semver
  imports Ordered_Map "HOL-Library.Product_Lexorder"
begin

text \<open>
  Versions and version requirements of the package manager (\<^verbatim>\<open>src/package_manager.cpp\<close>): the
  lenient component list used for toolchain versions, semantic versions with prereleases, their
  order, and the requirement language (\<^verbatim>\<open>||\<close> alternatives of comma or blank separated terms).
  \<open>int\<close> of the source stays in range because \<^const>\<open>stoi\<close> refuses what does not fit; the two
  increments of a range's upper bound are the only arithmetic, and keep their width.
\<close>

subsection \<open>Splitting\<close>

fun split_on :: "char \<Rightarrow> string \<Rightarrow> string list" where
  "split_on d [] = [[]]"
| "split_on d (c # cs) =
     (if c = d then [] # split_on d cs
      else (case split_on d cs of [] \<Rightarrow> [[c]] | p # ps \<Rightarrow> (c # p) # ps))"

lemma split_on_ne [simp]: "split_on d s \<noteq> []"
  by (induction s) (auto split: list.splits)

lemma split_on_notin: "d \<notin> set s \<Longrightarrow> split_on d s = [s]"
  by (induction s) auto

lemma split_on_append: "d \<notin> set s \<Longrightarrow> split_on d (s @ d # t) = s # split_on d t"
  by (induction s) auto

fun split_ws :: "string \<Rightarrow> string list" where
  "split_ws [] = [[]]"
| "split_ws (c # cs) =
     (if isspace c then [] # split_ws cs
      else (case split_ws cs of [] \<Rightarrow> [[c]] | p # ps \<Rightarrow> (c # p) # ps))"

text \<open>The words a \<^verbatim>\<open>while(terms >> term)\<close> loop reads.\<close>

definition stream_words :: "string \<Rightarrow> string list" where
  "stream_words s = filter (\<lambda>w. w \<noteq> []) (split_ws s)"

lemma split_ws_notin: "\<forall>c \<in> set s. \<not> isspace c \<Longrightarrow> split_ws s = [s]"
  by (induction s) auto

lemma stream_words_single: "s \<noteq> [] \<Longrightarrow> \<forall>c \<in> set s. \<not> isspace c \<Longrightarrow> stream_words s = [s]"
  by (simp add: stream_words_def split_ws_notin)

definition all_digits :: "string \<Rightarrow> bool" where
  "all_digits s \<longleftrightarrow> list_all isdigit s"

subsection \<open>Lenient component lists\<close>

function semver_components :: "string \<Rightarrow> int list option" where
  "semver_components rest =
     (if rest = [] then Some []
      else
        (let part = takeWhile (\<lambda>c. c \<noteq> CHR ''.'') rest;
             ds = takeWhile isdigit part in
         if part = [] \<or> ds = [] then None
         else (case stoi ds of
                 None \<Rightarrow> None
               | Some n \<Rightarrow>
                   if length ds \<noteq> length part then
                     (if part ! length ds \<noteq> CHR ''-'' then None else Some [n])
                   else if CHR ''.'' \<notin> set rest then Some [n]
                   else map_option ((#) n) (semver_components (drop (Suc (length part)) rest)))))"
  by pat_completeness auto
termination by (relation "measure length") auto

declare semver_components.simps [simp del]

definition parse_semver_components :: "string \<Rightarrow> int list option" where
  "parse_semver_components versionText =
     (let text = trim versionText in if text = [] then None else semver_components text)"

fun compare_components :: "int list \<Rightarrow> int list \<Rightarrow> int" where
  "compare_components [] [] = 0"
| "compare_components (a # as) [] =
     (if a < 0 then -1 else if a > 0 then 1 else compare_components as [])"
| "compare_components [] (b # bs) =
     (if 0 < b then -1 else if 0 > b then 1 else compare_components [] bs)"
| "compare_components (a # as) (b # bs) =
     (if a < b then -1 else if a > b then 1 else compare_components as bs)"

definition compare_semver :: "string \<Rightarrow> string \<Rightarrow> int" where
  "compare_semver lhs rhs =
     (case (parse_semver_components lhs, parse_semver_components rhs) of
        (Some l, Some r) \<Rightarrow> compare_components l r
      | _ \<Rightarrow> 0)"

subsection \<open>Semantic versions\<close>

record semantic_version =
  sv_major :: int
  sv_minor :: int
  sv_patch :: int
  sv_prerelease :: "string list"

fun parse_numbers :: "string list \<Rightarrow> int list option" where
  "parse_numbers [] = Some []"
| "parse_numbers (part # parts) =
     (if part = [] \<or> \<not> all_digits part then None
      else if 1 < length part \<and> hd part = CHR ''0'' then None
      else case stoi part of
             None \<Rightarrow> None
           | Some n \<Rightarrow> map_option ((#) n) (parse_numbers parts))"

fun parse_prerelease :: "string list \<Rightarrow> string list option" where
  "parse_prerelease [] = Some []"
| "parse_prerelease (part # parts) =
     (if part = [] then None
      else if 1 < length part \<and> hd part = CHR ''0'' \<and> all_digits part then None
      else map_option ((#) part) (parse_prerelease parts))"

definition drop_v :: "string \<Rightarrow> string" where
  "drop_v t = (if t \<noteq> [] \<and> (hd t = CHR ''v'' \<or> hd t = CHR ''V'') then tl t else t)"

definition parse_semantic_version :: "string \<Rightarrow> semantic_version option" where
  "parse_semantic_version text =
     (let t1 = drop_v (trim text);
          t2 = takeWhile (\<lambda>c. c \<noteq> CHR ''+'') t1;
          core = takeWhile (\<lambda>c. c \<noteq> CHR ''-'') t2;
          hasdash = (CHR ''-'' \<in> set t2);
          pre = drop (Suc (length core)) t2 in
      if hasdash \<and> pre = [] then None
      else case parse_numbers (split_on (CHR ''.'') core) of
        None \<Rightarrow> None
      | Some numbers \<Rightarrow>
          if numbers = [] \<or> 3 < length numbers then None
          else case (if hasdash then parse_prerelease (split_on (CHR ''.'') pre) else Some []) of
            None \<Rightarrow> None
          | Some ids \<Rightarrow>
              Some \<lparr>sv_major = numbers ! 0,
                    sv_minor = (if 1 < length numbers then numbers ! 1 else 0),
                    sv_patch = (if 2 < length numbers then numbers ! 2 else 0),
                    sv_prerelease = ids\<rparr>)"

definition strip_zeros :: "string \<Rightarrow> string" where
  "strip_zeros s = (let t = dropWhile (\<lambda>c. c = CHR ''0'') s in if t = [] then ''0'' else t)"

fun compare_prerelease :: "string list \<Rightarrow> string list \<Rightarrow> int" where
  "compare_prerelease [] [] = 0"
| "compare_prerelease [] (b # bs) = -1"
| "compare_prerelease (a # as) [] = 1"
| "compare_prerelease (a # as) (b # bs) =
     (if a = b then compare_prerelease as bs
      else if all_digits a \<and> all_digits b then
        (let an = strip_zeros a; bn = strip_zeros b in
         if length an \<noteq> length bn then (if length an < length bn then -1 else 1)
         else if an < bn then -1 else 1)
      else if all_digits a \<noteq> all_digits b then (if all_digits a then -1 else 1)
      else if a < b then -1 else 1)"

definition compare_semantic_versions :: "semantic_version \<Rightarrow> semantic_version \<Rightarrow> int" where
  "compare_semantic_versions lhs rhs =
     (if sv_major lhs \<noteq> sv_major rhs then (if sv_major lhs < sv_major rhs then -1 else 1)
      else if sv_minor lhs \<noteq> sv_minor rhs then (if sv_minor lhs < sv_minor rhs then -1 else 1)
      else if sv_patch lhs \<noteq> sv_patch rhs then (if sv_patch lhs < sv_patch rhs then -1 else 1)
      else if (sv_prerelease lhs = []) \<noteq> (sv_prerelease rhs = [])
      then (if sv_prerelease lhs = [] then 1 else -1)
      else compare_prerelease (sv_prerelease lhs) (sv_prerelease rhs))"

subsection \<open>Requirements\<close>

fun find_operator :: "string list \<Rightarrow> string \<Rightarrow> string \<times> string" where
  "find_operator [] r = ([], r)"
| "find_operator (candidate # rest) r =
     (if starts_with candidate r then (candidate, trim (drop (length candidate) r))
      else find_operator rest r)"

definition operators :: "string list" where
  "operators = [''>='', ''<='', ''>'', ''<'', ''='', ''^'', ''~'']"

definition is_wildcard :: "char \<Rightarrow> bool" where
  "is_wildcard c \<longleftrightarrow> c = CHR ''x'' \<or> c = CHR ''X'' \<or> c = CHR ''*''"

definition int_str :: "int \<Rightarrow> string" where
  "int_str n = (if n < 0 then CHR ''-'' # dec_str (nat (- n)) else dec_str (nat n))"

definition version_core :: "semantic_version \<Rightarrow> string" where
  "version_core v =
     int_str (sv_major v) @ ''.'' @ int_str (sv_minor v) @ ''.'' @ int_str (sv_patch v)"

text \<open>\<^verbatim>\<open>++x\<close> on \<^verbatim>\<open>int\<close>; the two's complement result where the source would overflow.\<close>

definition inc_int :: "int \<Rightarrow> int" where
  "inc_int n = (if n = int_max then int_min else n + 1)"

definition caret_upper :: "semantic_version \<Rightarrow> semantic_version" where
  "caret_upper w =
     (if 0 < sv_major w
      then w\<lparr>sv_major := inc_int (sv_major w), sv_minor := 0, sv_patch := 0, sv_prerelease := []\<rparr>
      else if 0 < sv_minor w
      then w\<lparr>sv_minor := inc_int (sv_minor w), sv_patch := 0, sv_prerelease := []\<rparr>
      else w\<lparr>sv_patch := inc_int (sv_patch w), sv_prerelease := []\<rparr>)"

definition tilde_upper :: "semantic_version \<Rightarrow> semantic_version" where
  "tilde_upper w = w\<lparr>sv_minor := inc_int (sv_minor w), sv_patch := 0, sv_prerelease := []\<rparr>"

definition compare_with_op :: "string \<Rightarrow> string \<Rightarrow> semantic_version \<Rightarrow> semantic_version \<Rightarrow> bool" where
  "compare_with_op oper normalized version wanted =
     (let comparison = compare_semantic_versions version wanted in
      if oper = ''>='' then 0 \<le> comparison
      else if oper = ''<='' then comparison \<le> 0
      else if oper = ''>'' then 0 < comparison
      else if oper = ''<'' then comparison < 0
      else if oper = ''^''
      then 0 \<le> comparison \<and> compare_semantic_versions version (caret_upper wanted) < 0
      else if oper = ''~''
      then 0 \<le> comparison \<and> compare_semantic_versions version (tilde_upper wanted) < 0
      else if oper = [] \<and> CHR ''-'' \<notin> set normalized \<and> count_list normalized (CHR ''.'') = 0
      then sv_major version = sv_major wanted
      else if oper = [] \<and> CHR ''-'' \<notin> set normalized \<and> count_list normalized (CHR ''.'') = 1
      then sv_major version = sv_major wanted \<and> sv_minor version = sv_minor wanted
      else comparison = 0)"

definition semantic_version_satisfies_one :: "semantic_version \<Rightarrow> string \<Rightarrow> bool" where
  "semantic_version_satisfies_one version requirement =
     (let req = trim requirement in
      if req = [] \<or> req = ''*'' \<or> req = ''x'' \<or> req = ''X'' then sv_prerelease version = []
      else if sv_prerelease version \<noteq> [] \<and> CHR ''-'' \<notin> set req then False
      else
        (let (oper, r) = find_operator operators req in
         if \<exists>c \<in> set r. is_wildcard c
         then starts_with (takeWhile (\<lambda>c. \<not> is_wildcard c) r) (version_core version)
         else case parse_semantic_version r of
                None \<Rightarrow> False
              | Some wanted \<Rightarrow> compare_with_op oper r version wanted))"

function split_bars :: "string \<Rightarrow> string list" where
  "split_bars s =
     (case find_str ''||'' s of
        None \<Rightarrow> [s]
      | Some i \<Rightarrow> take i s # split_bars (drop (i + 2) s))"
  by pat_completeness auto
termination
proof (relation "measure length", goal_cases)
  case (2 s i)
  then have "i \<le> length s" "starts_with ''||'' (drop i s)" using find_str_SomeD by blast+
  then obtain r where "drop i s = ''||'' @ r" by (auto simp: starts_with_conv)
  then have "length (drop i s) = 2 + length r" by simp
  then show ?case by simp
qed simp

declare split_bars.simps [simp del]

definition comma_to_blank :: "string \<Rightarrow> string" where
  "comma_to_blank s = map (\<lambda>c. if c = CHR '','' then CHR '' '' else c) s"

definition alternative_terms :: "string \<Rightarrow> string list" where
  "alternative_terms alternative = stream_words (comma_to_blank (trim alternative))"

definition semantic_version_satisfies :: "string \<Rightarrow> string \<Rightarrow> bool" where
  "semantic_version_satisfies versionText requirementText =
     (case parse_semantic_version versionText of
        None \<Rightarrow> False
      | Some version \<Rightarrow>
          list_ex (\<lambda>alt. let terms = alternative_terms alt in
              terms \<noteq> [] \<and> list_all (semantic_version_satisfies_one version) terms)
            (split_bars requirementText)
          \<or> trim requirementText = [])"

definition is_complete_semantic_version :: "string \<Rightarrow> bool" where
  "is_complete_semantic_version text =
     (let core = takeWhile (\<lambda>c. c \<noteq> CHR ''-'' \<and> c \<noteq> CHR ''+'') (drop_v (trim text)) in
      count_list core (CHR ''.'') = 2 \<and> parse_semantic_version text \<noteq> None)"

subsection \<open>The order of semantic versions\<close>

text \<open>
  The specification: an identifier of digits is a number and precedes every other identifier,
  which is compared as bytes; a release follows its prereleases. Versions are ordered by the
  lexicographic order of their keys.
\<close>

datatype pre_ident = Num nat | Alpha string

instantiation pre_ident :: linorder
begin

fun less_pre_ident :: "pre_ident \<Rightarrow> pre_ident \<Rightarrow> bool" where
  "less_pre_ident (Num m) (Num n) = (m < n)"
| "less_pre_ident (Num m) (Alpha t) = True"
| "less_pre_ident (Alpha s) (Num n) = False"
| "less_pre_ident (Alpha s) (Alpha t) = (s < t)"

definition less_eq_pre_ident :: "pre_ident \<Rightarrow> pre_ident \<Rightarrow> bool" where
  "less_eq_pre_ident x y = (x = y \<or> x < y)"

instance
proof
  fix x y z :: pre_ident
  have asym: "x < y \<Longrightarrow> \<not> y < x" for x y :: pre_ident
    by (cases x; cases y) auto
  have trans: "x < y \<Longrightarrow> y < z \<Longrightarrow> x < z" for x y z :: pre_ident
    by (cases x; cases y; cases z) auto
  show "(x < y) = (x \<le> y \<and> \<not> y \<le> x)"
    using asym [of x y] asym [of x x] by (auto simp: less_eq_pre_ident_def)
  show "x \<le> x" by (simp add: less_eq_pre_ident_def)
  show "x \<le> y \<Longrightarrow> y \<le> z \<Longrightarrow> x \<le> z"
    using trans by (auto simp: less_eq_pre_ident_def)
  show "x \<le> y \<Longrightarrow> y \<le> x \<Longrightarrow> x = y"
    using asym by (auto simp: less_eq_pre_ident_def)
  show "x \<le> y \<or> y \<le> x"
    by (cases x; cases y) (auto simp: less_eq_pre_ident_def)
qed

end

definition ident_key :: "string \<Rightarrow> pre_ident" where
  "ident_key s = (if all_digits s then Num (digits_val s) else Alpha s)"

definition version_key ::
  "semantic_version \<Rightarrow> int \<times> int \<times> int \<times> bool \<times> pre_ident list" where
  "version_key v = (sv_major v, sv_minor v, sv_patch v, sv_prerelease v = [],
     map ident_key (sv_prerelease v))"

definition sign3 :: "'a::linorder \<Rightarrow> 'a \<Rightarrow> int" where
  "sign3 x y = (if x < y then -1 else if x = y then 0 else 1)"

text \<open>What the parser guarantees of identifiers: not empty, no superfluous leading zero.\<close>

definition good_ident :: "string \<Rightarrow> bool" where
  "good_ident s \<longleftrightarrow> s \<noteq> [] \<and> \<not> (1 < length s \<and> hd s = CHR ''0'' \<and> all_digits s)"

definition good_version :: "semantic_version \<Rightarrow> bool" where
  "good_version v \<longleftrightarrow> list_all good_ident (sv_prerelease v) \<and>
     0 \<le> sv_major v \<and> 0 \<le> sv_minor v \<and> 0 \<le> sv_patch v \<and>
     sv_major v \<le> int_max \<and> sv_minor v \<le> int_max \<and> sv_patch v \<le> int_max"

lemma digits_val_append: "digits_val (xs @ ys) = digits_val xs * 10 ^ length ys + digits_val ys"
proof (induction ys rule: rev_induct)
  case (snoc y ys)
  have "digits_val (xs @ ys @ [y]) = 10 * digits_val (xs @ ys) + digit_val y"
    using digits_val_snoc [of "xs @ ys" y] by simp
  with snoc show ?case by (simp add: digits_val_snoc algebra_simps)
qed (simp add: digits_val_def)

lemma digits_val_Cons: "digits_val (c # cs) = digit_val c * 10 ^ length cs + digits_val cs"
  using digits_val_append [of "[c]" cs] by (simp add: digits_val_def)

lemma digit_val_le: "isdigit c \<Longrightarrow> digit_val c \<le> 9"
  unfolding isdigit_def digit_val_def by arith

lemma digits_val_less: "all_digits s \<Longrightarrow> digits_val s < 10 ^ length s"
proof (induction s)
  case (Cons c s)
  then have "digits_val s < 10 ^ length s" "digit_val c \<le> 9"
    by (auto simp: all_digits_def digit_val_le)
  then have "digit_val c * 10 ^ length s \<le> 9 * 10 ^ length s" by simp
  with \<open>digits_val s < 10 ^ length s\<close> have "digits_val (c # s) < 10 * 10 ^ length s"
    unfolding digits_val_Cons by linarith
  then show ?case by simp
qed (simp add: digits_val_def)

lemma digits_val_ge:
  assumes "all_digits s" "s \<noteq> []" "hd s \<noteq> CHR ''0''"
  shows "10 ^ (length s - 1) \<le> digits_val s"
proof -
  from assms obtain c cs where s: "s = c # cs" "isdigit c" "c \<noteq> CHR ''0''"
    by (cases s) (auto simp: all_digits_def)
  have "digit_val c \<noteq> 0"
  proof
    assume "digit_val c = 0"
    with s(2) have "byte_of c = 48" by (simp add: isdigit_def digit_val_def)
    then have "byte_of c = byte_of (CHR ''0'')" by simp
    then have "c = CHR ''0''" by (simp only: of_char_eq_iff)
    with s(3) show False ..
  qed
  then have "1 * 10 ^ length cs \<le> digit_val c * 10 ^ length cs" by (intro mult_right_mono) auto
  then have "10 ^ length cs \<le> digits_val (c # cs)" unfolding digits_val_Cons by linarith
  with s show ?thesis by simp
qed

text \<open>Numbers of the same length compare as their digit strings.\<close>

lemma char_less_byte: "(c :: char) < d \<longleftrightarrow> byte_of c < byte_of d"
  by (simp add: less_char_def)

lemma digits_lex:
  "all_digits a \<Longrightarrow> all_digits b \<Longrightarrow> length a = length b \<Longrightarrow>
   (digits_val a < digits_val b \<longleftrightarrow> a < b) \<and> (digits_val a = digits_val b \<longleftrightarrow> a = b)"
proof (induction a b rule: list_induct2')
  case (4 c cs d ds)
  then have IH: "digits_val cs < digits_val ds \<longleftrightarrow> cs < ds" "digits_val cs = digits_val ds \<longleftrightarrow> cs = ds"
    and c: "isdigit c" and d: "isdigit d" and l: "length cs = length ds"
    and lt: "digits_val cs < 10 ^ length ds" "digits_val ds < 10 ^ length ds"
    using digits_val_less [of cs] digits_val_less [of ds] by (auto simp: all_digits_def)
  have cd: "c < d \<longleftrightarrow> digit_val c < digit_val d" "c = d \<longleftrightarrow> digit_val c = digit_val d"
    using c d by (auto simp: char_less_byte isdigit_def digit_val_def) (metis of_char_eq_iff le_add_diff_inverse)
  let ?p = "10 ^ length ds :: nat"
  have step: "digit_val c < digit_val d \<Longrightarrow> digit_val c * ?p + digits_val cs < digit_val d * ?p + digits_val ds"
  proof -
    assume "digit_val c < digit_val d"
    then have "Suc (digit_val c) * ?p \<le> digit_val d * ?p" by (intro mult_right_mono) auto
    with lt show ?thesis by simp
  qed
  have step': "digit_val d < digit_val c \<Longrightarrow> digit_val d * ?p + digits_val ds < digit_val c * ?p + digits_val cs"
  proof -
    assume "digit_val d < digit_val c"
    then have "Suc (digit_val d) * ?p \<le> digit_val c * ?p" by (intro mult_right_mono) auto
    with lt show ?thesis by simp
  qed
  consider "digit_val c < digit_val d" | "digit_val c = digit_val d" | "digit_val d < digit_val c" by linarith
  then show ?case
    using step step' IH cd l by cases (auto simp: digits_val_Cons)
qed (auto simp: all_digits_def)

lemma good_digits_nonzero:
  "good_ident s \<Longrightarrow> all_digits s \<Longrightarrow> 1 < length s \<Longrightarrow> 10 ^ (length s - 1) \<le> digits_val s"
  using digits_val_ge [of s] by (auto simp: good_ident_def)

lemma good_digits_shorter:
  assumes "good_ident b" "all_digits a" "all_digits b" "length a < length b" "a \<noteq> []"
  shows "digits_val a < digits_val b"
proof -
  have "digits_val a < 10 ^ length a" using assms(2) by (rule digits_val_less)
  also have "10 ^ length a \<le> (10::nat) ^ (length b - 1)"
    using assms(4) by (intro power_increasing) auto
  also have "\<dots> \<le> digits_val b"
  proof (rule good_digits_nonzero)
    show "1 < length b" using assms(4,5) by (cases a) auto
  qed (use assms in auto)
  finally show ?thesis .
qed

lemma strip_zeros_good:
  assumes "good_ident s" "all_digits s"
  shows "strip_zeros s = s"
proof (cases s)
  case (Cons c cs)
  with assms show ?thesis by (cases cs) (auto simp: good_ident_def strip_zeros_def)
qed (use assms in \<open>simp add: good_ident_def\<close>)

lemma compare_numeric_idents:
  assumes "good_ident a" "good_ident b" "all_digits a" "all_digits b" "a \<noteq> b"
  shows "(if length a \<noteq> length b then (if length a < length b then -1 else 1)
     else if a < b then -1 else 1) = sign3 (ident_key a) (ident_key b)"
proof -
  have ne: "a \<noteq> []" "b \<noteq> []" using assms by (auto simp: good_ident_def)
  consider "length a < length b" | "length b < length a" | "length a = length b" by linarith
  then show ?thesis
  proof cases
    case 1
    then show ?thesis using good_digits_shorter [OF assms(2-4) 1 ne(1)] assms
      by (simp add: sign3_def ident_key_def)
  next
    case 2
    then show ?thesis using good_digits_shorter [OF assms(1,4,3) 2 ne(2)] assms
      by (simp add: sign3_def ident_key_def)
  next
    case 3
    then show ?thesis using digits_lex [OF assms(3,4) 3] assms
      by (simp add: sign3_def ident_key_def)
  qed
qed

lemma ident_key_inj:
  assumes "good_ident a" "good_ident b"
  shows "ident_key a = ident_key b \<longleftrightarrow> a = b"
proof (cases "all_digits a \<and> all_digits b")
  case True
  show ?thesis
  proof
    assume eq: "ident_key a = ident_key b"
    show "a = b"
    proof (rule ccontr)
      assume "a \<noteq> b"
      then have "sign3 (ident_key a) (ident_key b) \<noteq> 0"
        using compare_numeric_idents [of a b] True assms by (auto split: if_splits)
      with eq show False by (simp add: sign3_def)
    qed
  qed simp
qed (auto simp: ident_key_def)

lemma compare_ident:
  assumes "good_ident a" "good_ident b" "a \<noteq> b"
  shows "(if all_digits a \<and> all_digits b then
        (let an = strip_zeros a; bn = strip_zeros b in
         if length an \<noteq> length bn then (if length an < length bn then -1 else 1)
         else if an < bn then -1 else 1)
      else if all_digits a \<noteq> all_digits b then (if all_digits a then -1 else 1)
      else if a < b then -1 else 1) = sign3 (ident_key a) (ident_key b)"
proof (cases "all_digits a \<and> all_digits b")
  case True
  then show ?thesis using compare_numeric_idents [of a b] assms by (simp add: strip_zeros_good)
next
  case False
  then show ?thesis using assms(3) by (auto simp: sign3_def ident_key_def)
qed

lemma sign3_Cons: "sign3 (x # xs) (y # ys) = (if x = y then sign3 xs ys else sign3 x y)"
  for x :: "'a::linorder"
  by (auto simp: sign3_def)

lemma compare_prerelease_key:
  "list_all good_ident as \<Longrightarrow> list_all good_ident bs \<Longrightarrow>
   compare_prerelease as bs = sign3 (map ident_key as) (map ident_key bs)"
proof (induction as bs rule: compare_prerelease.induct)
  case (4 a as b bs)
  show ?case
  proof (cases "a = b")
    case True
    with 4 show ?thesis by (simp add: sign3_Cons)
  next
    case False
    with 4 have g: "good_ident a" "good_ident b" by auto
    with False have "ident_key a \<noteq> ident_key b" by (simp add: ident_key_inj)
    then show ?thesis using compare_ident [OF g False] False
      by (simp only: compare_prerelease.simps sign3_Cons list.map if_False simp_thms)
  qed
qed (simp_all add: sign3_def)

lemma sign3_pair: "sign3 (a, b) (c, d) = (if a = c then sign3 b d else sign3 a c)"
  for a c :: "'a::linorder" and b d :: "'b::linorder"
  by (auto simp: sign3_def)

lemma compare_semantic_versions_key:
  assumes "good_version a" "good_version b"
  shows "compare_semantic_versions a b = sign3 (version_key a) (version_key b)"
proof -
  have "compare_prerelease (sv_prerelease a) (sv_prerelease b) =
    sign3 (map ident_key (sv_prerelease a)) (map ident_key (sv_prerelease b))"
    using assms by (intro compare_prerelease_key) (auto simp: good_version_def)
  then show ?thesis
    unfolding compare_semantic_versions_def version_key_def sign3_pair
    by (auto simp: sign3_def)
qed

lemma map_ident_key_inj:
  "list_all good_ident as \<Longrightarrow> list_all good_ident bs \<Longrightarrow> map ident_key as = map ident_key bs \<Longrightarrow> as = bs"
  by (induction as bs rule: list_induct2') (auto simp: ident_key_inj)

lemma version_key_inj:
  assumes "good_version a" "good_version b" "version_key a = version_key b"
  shows "a = b"
proof -
  have "sv_prerelease a = sv_prerelease b"
    by (rule map_ident_key_inj) (use assms in \<open>auto simp: good_version_def version_key_def\<close>)
  with assms(3) show ?thesis by (simp add: version_key_def)
qed

end
