(* ===== verification/Semver_Props.thy ===== *)
theory Semver_Props
  imports Semver
begin

text \<open>
  What versions and requirements promise: parsing inverts printing, every parsed version is
  well formed, the comparison is the key order of \<^verbatim>\<open>Semver\<close>, ranges mean what their
  operators say, and alternatives are a disjunction of conjunctions.
\<close>

subsection \<open>Parsed versions are well formed\<close>

lemma stoi_digits_SomeD:
  assumes "stoi s = Some n" "s \<noteq> []" "all_digits s"
  shows "n = int (digits_val s) \<and> n \<le> int_max"
proof (cases "int (digits_val s) \<le> int_max")
  case True
  with assms stoi_digits [of s] show ?thesis by (simp add: all_digits_def list_all_iff)
next
  case False
  have hd: "isdigit (hd s)" using assms(2,3) by (simp add: all_digits_def list_all_iff)
  then have dw: "dropWhile isspace s = s" using assms(2) isdigit_not_isspace by (cases s) auto
  from hd have sign: "hd s \<noteq> CHR ''-''" "hd s \<noteq> CHR ''+''" by (auto simp: isdigit_def)
  have tw: "takeWhile isdigit s = s"
    using assms(3) by (simp add: takeWhile_eq_all_conv all_digits_def list_all_iff)
  show ?thesis using False assms(1,2) by (simp add: stoi_def dw sign tw Let_def split: if_splits)
qed

lemma parse_numbers_sound:
  "parse_numbers ps = Some ns \<Longrightarrow> list_all (\<lambda>n. 0 \<le> n \<and> n \<le> int_max) ns"
proof (induction ps arbitrary: ns)
  case (Cons p ps)
  then show ?case by (auto split: if_splits option.splits dest!: stoi_digits_SomeD)
qed simp

lemma parse_prerelease_sound:
  "parse_prerelease ps = Some ids \<Longrightarrow> ids = ps \<and> list_all good_ident ids"
proof (induction ps arbitrary: ids)
  case (Cons p ps)
  then show ?case by (auto simp: good_ident_def split: if_splits)
qed simp

lemma parse_good_version:
  assumes "parse_semantic_version t = Some v"
  shows "good_version v"
proof -
  let ?t2 = "takeWhile (\<lambda>c. c \<noteq> CHR ''+'') (drop_v (trim t))"
  let ?core = "takeWhile (\<lambda>c. c \<noteq> CHR ''-'') ?t2"
  let ?pre = "drop (Suc (length ?core)) ?t2"
  let ?ids = "if CHR ''-'' \<in> set ?t2 then parse_prerelease (split_on (CHR ''.'') ?pre) else Some []"
  obtain ns where ns: "parse_numbers (split_on (CHR ''.'') ?core) = Some ns"
    and len: "ns \<noteq> []" "length ns \<le> 3"
    using assms unfolding parse_semantic_version_def Let_def
    by (cases "parse_numbers (split_on (CHR ''.'') ?core)") (auto split: if_splits simp: not_less)
  obtain ids where ids: "?ids = Some ids"
    and v: "v = \<lparr>sv_major = ns ! 0, sv_minor = (if 1 < length ns then ns ! 1 else 0),
      sv_patch = (if 2 < length ns then ns ! 2 else 0), sv_prerelease = ids\<rparr>"
    using assms ns len unfolding parse_semantic_version_def Let_def
    by (cases ?ids) (simp_all split: if_splits)
  from parse_numbers_sound [OF ns] have "\<And>i. i < length ns \<Longrightarrow> 0 \<le> ns ! i \<and> ns ! i \<le> int_max"
    by (simp add: list_all_length)
  moreover from ids have "list_all good_ident ids"
    using parse_prerelease_sound by (cases "CHR ''-'' \<in> set ?t2") auto
  ultimately show ?thesis using v len by (auto simp: good_version_def int_max_def)
qed

subsection \<open>Printing and parsing\<close>

fun join_dots :: "string list \<Rightarrow> string" where
  "join_dots [] = []"
| "join_dots [p] = p"
| "join_dots (p # q # ps) = p @ CHR ''.'' # join_dots (q # ps)"

definition version_text :: "semantic_version \<Rightarrow> string" where
  "version_text v = version_core v @
     (if sv_prerelease v = [] then [] else CHR ''-'' # join_dots (sv_prerelease v))"

definition ident_char :: "char \<Rightarrow> bool" where
  "ident_char c \<longleftrightarrow> isalnum c \<or> c = CHR ''-''"

text \<open>Versions as a registry publishes them: identifiers of letters, digits and hyphens.\<close>

definition printable_version :: "semantic_version \<Rightarrow> bool" where
  "printable_version v \<longleftrightarrow> good_version v \<and> list_all (list_all ident_char) (sv_prerelease v)"

lemma split_on_join_dots:
  "\<forall>p \<in> set ps. CHR ''.'' \<notin> set p \<Longrightarrow> ps \<noteq> [] \<Longrightarrow> split_on (CHR ''.'') (join_dots ps) = ps"
  by (induction ps rule: join_dots.induct) (auto simp: split_on_notin split_on_append)

lemma set_join_dots: "set (join_dots ps) \<subseteq> (\<Union>p \<in> set ps. set p) \<union> {CHR ''.''}"
  by (induction ps rule: join_dots.induct) auto

lemma parse_prerelease_good: "list_all good_ident ps \<Longrightarrow> parse_prerelease ps = Some ps"
  by (induction ps) (auto simp: good_ident_def)

lemma dec_str_hd: "0 < n \<Longrightarrow> hd (dec_str n) \<noteq> CHR ''0''"
proof (induction n rule: dec_str.induct)
  case (1 n)
  show ?case
  proof (cases "n < 10")
    case True
    then have "byte_of (char_of (48 + n)) = 48 + n" by simp
    with 1(2) have "byte_of (char_of (48 + n)) \<noteq> byte_of (CHR ''0'')" by simp
    then have "(char_of (48 + n) :: char) \<noteq> CHR ''0''" by metis
    with True show ?thesis by (subst dec_str.simps) simp
  next
    case False
    then have "dec_str n = dec_str (n div 10) @ [char_of (48 + n mod 10)]"
      by (subst dec_str.simps) simp
    moreover have "hd (dec_str (n div 10)) \<noteq> CHR ''0''" using 1(1) False by simp
    ultimately show ?thesis using dec_str_digits [of "n div 10"] by simp
  qed
qed

lemma dec_str_0: "dec_str 0 = ''0''"
  by code_simp

lemma dec_str_all_digits: "all_digits (dec_str n)"
  using dec_str_digits [of n] by (simp add: all_digits_def list_all_iff)

lemma parse_number_dec_str:
  assumes "int n \<le> int_max"
  shows "parse_numbers (dec_str n # ps) = map_option ((#) (int n)) (parse_numbers ps)"
proof -
  have "\<not> (1 < length (dec_str n) \<and> hd (dec_str n) = CHR ''0'')"
    using dec_str_hd [of n] dec_str_0 by (cases "n = 0") auto
  then show ?thesis
    using dec_str_digits [of n] dec_str_all_digits [of n] stoi_dec_str [OF assms] by auto
qed

lemma dec_str_chars: "c \<in> set (dec_str n) \<Longrightarrow> isdigit c"
  using dec_str_digits [of n] by blast

lemma digit_not_mark:
  "isdigit c \<Longrightarrow> \<not> isspace c \<and> c \<noteq> CHR ''.'' \<and> c \<noteq> CHR ''-'' \<and> c \<noteq> CHR ''+'' \<and>
     c \<noteq> CHR ''v'' \<and> c \<noteq> CHR ''V'' \<and> \<not> is_wildcard c \<and> c \<noteq> CHR ''>'' \<and> c \<noteq> CHR ''<'' \<and>
     c \<noteq> CHR ''='' \<and> c \<noteq> CHR ''^'' \<and> c \<noteq> CHR ''~''"
  by (auto simp: isdigit_def isspace_def is_wildcard_def)

definition core_char :: "char \<Rightarrow> bool" where
  "core_char c \<longleftrightarrow> isdigit c \<or> c = CHR ''.''"

lemma version_core_good:
  assumes "good_version v"
  shows "version_core v = dec_str (nat (sv_major v)) @ ''.'' @ dec_str (nat (sv_minor v)) @ ''.'' @
    dec_str (nat (sv_patch v))"
  using assms by (simp add: version_core_def int_str_def good_version_def)

lemma version_core_chars:
  assumes "good_version v" "c \<in> set (version_core v)"
  shows "core_char c"
  using assms dec_str_chars by (auto simp: version_core_good core_char_def)

lemma core_char_facts:
  "core_char c \<Longrightarrow> \<not> isspace c \<and> c \<noteq> CHR ''-'' \<and> c \<noteq> CHR ''+'' \<and> c \<noteq> CHR ''v'' \<and> c \<noteq> CHR ''V'' \<and>
     \<not> is_wildcard c \<and> c \<noteq> CHR ''>'' \<and> c \<noteq> CHR ''<'' \<and> c \<noteq> CHR ''='' \<and> c \<noteq> CHR ''^'' \<and> c \<noteq> CHR ''~''"
  by (auto simp: core_char_def isdigit_def isspace_def is_wildcard_def)

lemma parse_numbers_core:
  assumes "good_version v"
  shows "parse_numbers (split_on (CHR ''.'') (version_core v)) = Some [sv_major v, sv_minor v, sv_patch v]"
proof -
  have nd: "CHR ''.'' \<notin> set (dec_str n)" for n using dec_str_chars digit_not_mark by blast
  have b: "int (nat x) = x \<and> int (nat x) \<le> int_max" if "0 \<le> x" "x \<le> int_max" for x
    using that by simp
  from assms have sp: "split_on (CHR ''.'') (version_core v) =
    [dec_str (nat (sv_major v)), dec_str (nat (sv_minor v)), dec_str (nat (sv_patch v))]"
    by (simp add: version_core_good split_on_append split_on_notin nd)
  show ?thesis
    unfolding sp using assms b by (simp add: parse_number_dec_str good_version_def del: parse_numbers.simps(2))
qed

lemma version_core_ne: "good_version v \<Longrightarrow> version_core v \<noteq> []"
  by (simp add: version_core_good)

lemma takeWhile_core:
  assumes "\<forall>c \<in> set xs. P c" "\<not> P d"
  shows "takeWhile P (xs @ d # ys) = xs"
  using assms by (simp add: takeWhile_append2)

lemma ident_char_facts: "ident_char c \<Longrightarrow> \<not> isspace c \<and> c \<noteq> CHR ''.'' \<and> c \<noteq> CHR ''+''"
  by (auto simp: ident_char_def isalnum_def isdigit_def isupper_def islower_def isspace_def)

lemma pre_text_chars:
  assumes "printable_version v" "c \<in> set (join_dots (sv_prerelease v))"
  shows "\<not> isspace c \<and> c \<noteq> CHR ''+''"
proof -
  from assms(2) have "(\<exists>p \<in> set (sv_prerelease v). c \<in> set p) \<or> c = CHR ''.''"
    using set_join_dots by blast
  then show ?thesis
    using assms(1) ident_char_facts by (auto simp: printable_version_def list_all_iff isspace_def)
qed

lemma version_text_tight:
  assumes "printable_version v"
  shows "\<forall>c \<in> set (version_text v). \<not> isspace c \<and> c \<noteq> CHR ''+''" and "trim (version_text v) = version_text v"
proof -
  have g: "good_version v" using assms by (simp add: printable_version_def)
  show a: "\<forall>c \<in> set (version_text v). \<not> isspace c \<and> c \<noteq> CHR ''+''"
  proof
    fix c assume "c \<in> set (version_text v)"
    then consider "c \<in> set (version_core v)" | "c = CHR ''-''"
      | "c \<in> set (join_dots (sv_prerelease v))"
      by (auto simp: version_text_def split: if_splits)
    then show "\<not> isspace c \<and> c \<noteq> CHR ''+''"
    proof cases
      case 1
      then show ?thesis using version_core_chars [OF g] core_char_facts by blast
    next
      case 2
      then show ?thesis by (simp add: isspace_def)
    next
      case 3
      then show ?thesis by (rule pre_text_chars [OF assms])
    qed
  qed
  show "trim (version_text v) = version_text v"
    by (rule trim_tight) (metis a hd_in_set last_in_set)
qed

lemma drop_v_core: "good_version v \<Longrightarrow> drop_v (version_core v @ t) = version_core v @ t"
  using version_core_chars [of v "hd (version_core v)"] version_core_ne [of v] core_char_facts
  by (auto simp: drop_v_def)

lemma parse_version_text:
  assumes "printable_version v"
  shows "parse_semantic_version (version_text v) = Some v"
proof -
  have g: "good_version v" using assms by (simp add: printable_version_def)
  have t1: "drop_v (trim (version_text v)) = version_text v"
    using version_text_tight [OF assms] drop_v_core [OF g] by (simp add: version_text_def)
  have t2: "takeWhile (\<lambda>c. c \<noteq> CHR ''+'') (version_text v) = version_text v"
    using version_text_tight [OF assms] by (simp add: takeWhile_eq_all_conv)
  have nodash: "\<forall>c \<in> set (version_core v). c \<noteq> CHR ''-''"
    using version_core_chars [OF g] core_char_facts by blast
  show ?thesis
  proof (cases "sv_prerelease v = []")
    case True
    then have vt: "version_text v = version_core v" by (simp add: version_text_def)
    have core: "takeWhile (\<lambda>c. c \<noteq> CHR ''-'') (version_core v) = version_core v"
      using nodash by (simp add: takeWhile_eq_all_conv)
    have "CHR ''-'' \<notin> set (version_core v)" using nodash by blast
    with True show ?thesis
      unfolding parse_semantic_version_def Let_def t1 [unfolded vt] t2 [unfolded vt] vt core
        parse_numbers_core [OF g] by simp
  next
    case False
    then have vt: "version_text v = version_core v @ CHR ''-'' # join_dots (sv_prerelease v)"
      by (simp add: version_text_def)
    have core: "takeWhile (\<lambda>c. c \<noteq> CHR ''-'') (version_text v) = version_core v"
      unfolding vt by (rule takeWhile_core) (use nodash in auto)
    have pre: "drop (Suc (length (version_core v))) (version_text v) = join_dots (sv_prerelease v)"
      by (simp add: vt)
    have ids: "list_all good_ident (sv_prerelease v)" using g by (simp add: good_version_def)
    have nd: "\<forall>p \<in> set (sv_prerelease v). CHR ''.'' \<notin> set p"
      using assms ident_char_facts by (auto simp: printable_version_def list_all_iff)
    have ne: "join_dots (sv_prerelease v) \<noteq> []"
      using False ids by (cases "sv_prerelease v" rule: join_dots.cases) (auto simp: good_ident_def)
    have dash: "CHR ''-'' \<in> set (version_text v)" by (simp add: vt)
    show ?thesis
      unfolding parse_semantic_version_def Let_def t1 t2 core pre parse_numbers_core [OF g]
        split_on_join_dots [OF nd False] parse_prerelease_good [OF ids]
      using ne dash by simp
  qed
qed

subsection \<open>Single requirements\<close>

definition op_char :: "char \<Rightarrow> bool" where
  "op_char c \<longleftrightarrow> c \<in> set ''><=^~''"

lemma find_operator_none:
  assumes "\<not> op_char c"
  shows "find_operator operators (c # cs) = ([], c # cs)"
  using assms by (auto simp: operators_def starts_with_def op_char_def)

lemma find_operator_some:
  assumes "\<not> op_char c" "trim (c # cs) = c # cs" "oper \<in> set operators"
  shows "find_operator operators (oper @ c # cs) = (oper, c # cs)"
proof -
  from assms(1) have c: "c \<noteq> CHR ''=''" by (auto simp: op_char_def)
  from assms(3) consider "oper = ''>=''" | "oper = ''<=''" | "oper = ''>''" | "oper = ''<''"
    | "oper = ''=''" | "oper = ''^''" | "oper = ''~''"
    by (auto simp: operators_def)
  then show ?thesis
    by cases (simp_all add: operators_def starts_with_def c assms(2))
qed

lemma version_text_Cons:
  assumes "good_version v"
  obtains c cs where "version_text v = c # cs" "isdigit c"
proof -
  obtain d ds where "dec_str (nat (sv_major v)) = d # ds" "isdigit d"
    using dec_str_digits [of "nat (sv_major v)"] dec_str_chars
    by (cases "dec_str (nat (sv_major v))") auto
  with that show thesis using assms by (simp add: version_text_def version_core_good)
qed

lemma isdigit_not_op: "isdigit c \<Longrightarrow> \<not> op_char c \<and> \<not> is_wildcard c"
  by (auto simp: isdigit_def op_char_def is_wildcard_def)

text \<open>A requirement made of an operator and a printed version without a wildcard letter.\<close>

lemma satisfies_one_op:
  assumes v: "sv_prerelease v = []" and w: "printable_version w"
    and nw: "\<forall>c \<in> set (version_text w). \<not> is_wildcard c" and op: "oper \<in> insert [] (set operators)"
  shows "semantic_version_satisfies_one v (oper @ version_text w) =
    compare_with_op oper (version_text w) v w"
proof -
  have g: "good_version w" using w by (simp add: printable_version_def)
  obtain c cs where c: "version_text w = c # cs" "isdigit c" using version_text_Cons [OF g] .
  note tight = version_text_tight [OF w]
  let ?r = "oper @ version_text w"
  have opc: "\<forall>d \<in> set oper. \<not> isspace d" using op by (auto simp: operators_def isspace_def)
  have trim: "trim ?r = ?r"
  proof (rule trim_tight)
    have "\<forall>d \<in> set ?r. \<not> isspace d" using opc tight(1) by auto
    then show "?r = [] \<or> \<not> isspace (hd ?r) \<and> \<not> isspace (last ?r)"
      by (metis hd_in_set last_in_set)
  qed
  have f: "find_operator operators ?r = (oper, version_text w)"
    using op find_operator_none [of c cs] find_operator_some [of c cs oper] tight(2) c isdigit_not_op
    by auto
  have "\<not> is_wildcard c" using c isdigit_not_op by blast
  then have ne: "?r \<noteq> []" "?r \<noteq> ''*''" "?r \<noteq> ''x''" "?r \<noteq> ''X''"
    using op c by (auto simp: operators_def is_wildcard_def)
  show ?thesis
    unfolding semantic_version_satisfies_one_def Let_def trim f
    using ne v nw parse_version_text [OF w] by auto
qed

lemma compare_key: "good_version a \<Longrightarrow> good_version b \<Longrightarrow>
    (0 \<le> compare_semantic_versions a b \<longleftrightarrow> version_key b \<le> version_key a) \<and>
    (compare_semantic_versions a b \<le> 0 \<longleftrightarrow> version_key a \<le> version_key b) \<and>
    (0 < compare_semantic_versions a b \<longleftrightarrow> version_key b < version_key a) \<and>
    (compare_semantic_versions a b < 0 \<longleftrightarrow> version_key a < version_key b) \<and>
    (compare_semantic_versions a b = 0 \<longleftrightarrow> a = b)"
  using compare_semantic_versions_key [of a b] version_key_inj [of a b]
  by (auto simp: sign3_def)

text \<open>Releases and their printed form.\<close>

definition release_version :: "semantic_version \<Rightarrow> bool" where
  "release_version v \<longleftrightarrow> good_version v \<and> sv_prerelease v = []"

lemma release_printable: "release_version v \<Longrightarrow> printable_version v"
  by (simp add: release_version_def printable_version_def)

lemma release_no_wildcard:
  assumes "release_version v" "c \<in> set (version_text v)"
  shows "\<not> is_wildcard c \<and> c \<noteq> CHR ''-''"
  using assms version_core_chars [of v c] core_char_facts [of c]
  by (simp add: release_version_def version_text_def)

lemma count_dots_core:
  assumes "good_version v"
  shows "count_list (version_core v) (CHR ''.'') = 2"
proof -
  have "count_list (dec_str n) (CHR ''.'') = 0" for n
    using dec_str_chars digit_not_mark by (intro count_notin) blast
  then show ?thesis using assms by (simp add: version_core_good)
qed

lemma release_text: "release_version v \<Longrightarrow> version_text v = version_core v"
  by (simp add: release_version_def version_text_def)

lemma satisfies_release:
  assumes v: "release_version v" and w: "release_version w" and op: "oper \<in> insert [] (set operators)"
  shows "semantic_version_satisfies_one v (oper @ version_text w) =
    compare_with_op oper (version_text w) v w"
  using satisfies_one_op [OF _ release_printable [OF w] _ op, of v] v release_no_wildcard [OF w]
  by (auto simp: release_version_def)

text \<open>The order of releases is that of their three numbers.\<close>

definition core_key :: "semantic_version \<Rightarrow> int \<times> int \<times> int" where
  "core_key v = (sv_major v, sv_minor v, sv_patch v)"

lemma release_key:
  assumes "release_version a" "release_version b"
  shows "version_key a < version_key b \<longleftrightarrow> core_key a < core_key b"
    and "version_key a \<le> version_key b \<longleftrightarrow> core_key a \<le> core_key b"
  using assms by (auto simp: release_version_def version_key_def core_key_def)

subsection \<open>Ranges of releases\<close>

lemma compare_release:
  assumes "release_version a" "release_version b"
  shows "0 \<le> compare_semantic_versions a b \<longleftrightarrow> core_key b \<le> core_key a"
    and "compare_semantic_versions a b \<le> 0 \<longleftrightarrow> core_key a \<le> core_key b"
    and "0 < compare_semantic_versions a b \<longleftrightarrow> core_key b < core_key a"
    and "compare_semantic_versions a b < 0 \<longleftrightarrow> core_key a < core_key b"
    and "compare_semantic_versions a b = 0 \<longleftrightarrow> a = b"
proof -
  note g = assms [unfolded release_version_def, THEN conjunct1]
  note r = release_key [OF assms] release_key [OF assms(2,1)] compare_key [OF g]
  show "0 \<le> compare_semantic_versions a b \<longleftrightarrow> core_key b \<le> core_key a" using r by blast
  show "compare_semantic_versions a b \<le> 0 \<longleftrightarrow> core_key a \<le> core_key b" using r by blast
  show "0 < compare_semantic_versions a b \<longleftrightarrow> core_key b < core_key a" using r by blast
  show "compare_semantic_versions a b < 0 \<longleftrightarrow> core_key a < core_key b" using r by blast
  show "compare_semantic_versions a b = 0 \<longleftrightarrow> a = b" using r by blast
qed

text \<open>The bounds of caret and tilde ranges stay in range below \<^const>\<open>int_max\<close>.\<close>

definition below_max :: "semantic_version \<Rightarrow> bool" where
  "below_max w \<longleftrightarrow> sv_major w < int_max \<and> sv_minor w < int_max \<and> sv_patch w < int_max"

lemma release_upper:
  assumes "release_version w" "below_max w"
  shows "release_version (caret_upper w)" and "release_version (tilde_upper w)"
  using assms by (auto simp: release_version_def good_version_def below_max_def caret_upper_def
      tilde_upper_def inc_int_def)

definition caret_range :: "semantic_version \<Rightarrow> semantic_version \<Rightarrow> bool" where
  "caret_range w v \<longleftrightarrow>
     (if 0 < sv_major w then sv_major v = sv_major w \<and> (sv_minor w, sv_patch w) \<le> (sv_minor v, sv_patch v)
      else if 0 < sv_minor w then sv_major v = 0 \<and> sv_minor v = sv_minor w \<and> sv_patch w \<le> sv_patch v
      else sv_major v = 0 \<and> sv_minor v = 0 \<and> sv_patch v = sv_patch w)"

lemma caret_between:
  assumes v: "release_version v" and w: "release_version w" "below_max w"
  shows "core_key w \<le> core_key v \<and> core_key v < core_key (caret_upper w) \<longleftrightarrow> caret_range w v"
proof -
  have nn: "0 \<le> sv_major v" "0 \<le> sv_minor v" "0 \<le> sv_patch v"
    "0 \<le> sv_major w" "0 \<le> sv_minor w" "0 \<le> sv_patch w"
    using v w by (auto simp: release_version_def good_version_def)
  have lt: "sv_major w < int_max" "sv_minor w < int_max" "sv_patch w < int_max"
    using w by (auto simp: below_max_def)
  show ?thesis
    using nn lt by (auto simp: core_key_def caret_upper_def caret_range_def inc_int_def)
qed

lemma tilde_between:
  assumes v: "release_version v" and w: "release_version w" "below_max w"
  shows "core_key w \<le> core_key v \<and> core_key v < core_key (tilde_upper w) \<longleftrightarrow>
    sv_major v = sv_major w \<and> sv_minor v = sv_minor w \<and> sv_patch w \<le> sv_patch v"
proof -
  have "0 \<le> sv_patch v" "sv_minor w < int_max"
    using v w by (auto simp: release_version_def good_version_def below_max_def)
  then show ?thesis by (auto simp: core_key_def tilde_upper_def inc_int_def)
qed

lemma compare_with_op_caret:
  "compare_with_op ''^'' r v w \<longleftrightarrow>
     0 \<le> compare_semantic_versions v w \<and> compare_semantic_versions v (caret_upper w) < 0"
  by (simp add: compare_with_op_def)

lemma compare_with_op_tilde:
  "compare_with_op ''~'' r v w \<longleftrightarrow>
     0 \<le> compare_semantic_versions v w \<and> compare_semantic_versions v (tilde_upper w) < 0"
  by (simp add: compare_with_op_def)

text \<open>A caret range over releases: the same major version when it is positive, else the same
  minor version when that is positive, else exactly the wanted patch, and never below the wanted
  version.\<close>

theorem caret_requirement:
  assumes "release_version v" "release_version w" "below_max w"
  shows "semantic_version_satisfies_one v (''^'' @ version_text w) \<longleftrightarrow> caret_range w v"
proof -
  have "semantic_version_satisfies_one v (''^'' @ version_text w) =
    compare_with_op ''^'' (version_text w) v w"
    by (rule satisfies_release) (use assms in \<open>auto simp: operators_def\<close>)
  also have "\<dots> \<longleftrightarrow> core_key w \<le> core_key v \<and> core_key v < core_key (caret_upper w)"
    using compare_release [OF assms(1,2)] compare_release [OF assms(1) release_upper(1) [OF assms(2,3)]]
    by (simp only: compare_with_op_caret)
  finally show ?thesis using caret_between [OF assms] by simp
qed

theorem caret_requirement_witness:
  "semantic_version_satisfies_one \<lparr>sv_major = 1, sv_minor = 4, sv_patch = 0, sv_prerelease = []\<rparr>
     ''^1.2.3''"
proof -
  let ?v = "\<lparr>sv_major = 1, sv_minor = 4, sv_patch = 0, sv_prerelease = []\<rparr>"
  let ?w = "\<lparr>sv_major = 1, sv_minor = 2, sv_patch = 3, sv_prerelease = []\<rparr>"
  have "release_version ?v" "release_version ?w" "below_max ?w" "caret_range ?w ?v"
    by (simp_all add: release_version_def good_version_def int_max_def below_max_def caret_range_def)
  moreover have "version_text ?w = ''1.2.3''" by code_simp
  ultimately show ?thesis using caret_requirement [of ?v ?w] by simp
qed

text \<open>A tilde range over releases: the same major and minor version, and at least the wanted
  patch.\<close>

theorem tilde_requirement:
  assumes "release_version v" "release_version w" "below_max w"
  shows "semantic_version_satisfies_one v (''~'' @ version_text w) \<longleftrightarrow>
    sv_major v = sv_major w \<and> sv_minor v = sv_minor w \<and> sv_patch w \<le> sv_patch v"
proof -
  have "semantic_version_satisfies_one v (''~'' @ version_text w) =
    compare_with_op ''~'' (version_text w) v w"
    by (rule satisfies_release) (use assms in \<open>auto simp: operators_def\<close>)
  also have "\<dots> \<longleftrightarrow> core_key w \<le> core_key v \<and> core_key v < core_key (tilde_upper w)"
    using compare_release [OF assms(1,2)] compare_release [OF assms(1) release_upper(2) [OF assms(2,3)]]
    by (simp only: compare_with_op_tilde)
  finally show ?thesis using tilde_between [OF assms] by simp
qed

theorem tilde_requirement_witness:
  "\<not> semantic_version_satisfies_one \<lparr>sv_major = 2, sv_minor = 2, sv_patch = 0, sv_prerelease = []\<rparr>
     ''~2.1.0''"
proof -
  let ?v = "\<lparr>sv_major = 2, sv_minor = 2, sv_patch = 0, sv_prerelease = []\<rparr>"
  let ?w = "\<lparr>sv_major = 2, sv_minor = 1, sv_patch = 0, sv_prerelease = []\<rparr>"
  have "release_version ?v" "release_version ?w" "below_max ?w"
    by (simp_all add: release_version_def good_version_def int_max_def below_max_def)
  moreover have "version_text ?w = ''2.1.0''" by code_simp
  ultimately show ?thesis using tilde_requirement [of ?v ?w] by simp
qed

text \<open>The comparison is a total order on parsed versions: it is the lexicographic order of the
  keys (numbers first, a release after its prereleases, numeric identifiers before others), so it
  is antisymmetric, transitive, and zero exactly on equal versions.\<close>

theorem parsed_versions_ordered:
  assumes "parse_semantic_version s = Some a" "parse_semantic_version t = Some b"
  shows "compare_semantic_versions a b = sign3 (version_key a) (version_key b) \<and>
    (compare_semantic_versions a b = 0 \<longleftrightarrow> a = b)"
  using compare_semantic_versions_key [of a b] compare_key [of a b]
    parse_good_version [OF assms(1)] parse_good_version [OF assms(2)] by blast

theorem parsed_versions_ordered_witness:
  "compare_semantic_versions
     \<lparr>sv_major = 1, sv_minor = 0, sv_patch = 0, sv_prerelease = [''rc'', ''9'']\<rparr>
     \<lparr>sv_major = 1, sv_minor = 0, sv_patch = 0, sv_prerelease = [''rc'', ''10'']\<rparr> = -1"
proof -
  let ?a = "\<lparr>sv_major = 1, sv_minor = 0, sv_patch = 0, sv_prerelease = [''rc'', ''9'']\<rparr>"
  let ?b = "\<lparr>sv_major = 1, sv_minor = 0, sv_patch = 0, sv_prerelease = [''rc'', ''10'']\<rparr>"
  have "parse_semantic_version ''v1.0.0-rc.9'' = Some ?a" by code_simp
  moreover have "parse_semantic_version ''1.0.0-rc.10+build5'' = Some ?b" by code_simp
  ultimately have "compare_semantic_versions ?a ?b = sign3 (version_key ?a) (version_key ?b)"
    using parsed_versions_ordered by blast
  also have "\<dots> = -1" by code_simp
  finally show ?thesis .
qed

text \<open>Reading inverts printing: a version whose identifiers are made of letters, digits and
  hyphens, with numbers that fit in \<^verbatim>\<open>int\<close>, is read back from its printed form, and only well-formed
  versions are ever read.\<close>

theorem version_text_round_trip:
  assumes "printable_version v"
  shows "parse_semantic_version (version_text v) = Some v \<and>
    (parse_semantic_version t = Some u \<longrightarrow> good_version u)"
  using parse_version_text [OF assms] parse_good_version by blast

theorem version_text_round_trip_witness:
  "parse_semantic_version ''10.0.2-alpha.1'' =
     Some \<lparr>sv_major = 10, sv_minor = 0, sv_patch = 2, sv_prerelease = [''alpha'', ''1'']\<rparr>"
proof -
  let ?v = "\<lparr>sv_major = 10, sv_minor = 0, sv_patch = 2, sv_prerelease = [''alpha'', ''1'']\<rparr>"
  have "printable_version ?v" by code_simp
  moreover have "version_text ?v = ''10.0.2-alpha.1''" by code_simp
  ultimately show ?thesis using version_text_round_trip [of ?v] by simp
qed

subsection \<open>The exact requirement and the wildcard letters\<close>

lemma wildcard_needs_core:
  assumes g: "good_version v" and x: "CHR ''-'' \<in> set p"
  shows "\<not> starts_with p (version_core v)"
proof
  assume "starts_with p (version_core v)"
  then obtain r where "version_core v = p @ r" by (auto simp: starts_with_conv)
  with x have "CHR ''-'' \<in> set (version_core v)" by simp
  with version_core_chars [OF g] core_char_facts show False by blast
qed

lemma version_text_wildcard_iff:
  assumes "printable_version v"
  shows "(\<exists>c \<in> set (version_text v). is_wildcard c) \<longleftrightarrow>
    (\<exists>p \<in> set (sv_prerelease v). \<exists>c \<in> set p. is_wildcard c)"
proof -
  have g: "good_version v" using assms by (simp add: printable_version_def)
  have core: "\<forall>c \<in> set (version_core v). \<not> is_wildcard c"
    using version_core_chars [OF g] core_char_facts by blast
  have dot: "\<not> is_wildcard (CHR ''.'')" "\<not> is_wildcard (CHR ''-'')" by (simp_all add: is_wildcard_def)
  have join: "(\<exists>c \<in> set (join_dots ps). is_wildcard c) \<longleftrightarrow> (\<exists>p \<in> set ps. \<exists>c \<in> set p. is_wildcard c)" for ps
    by (induction ps rule: join_dots.induct) (simp_all add: dot bex_Un)
  show ?thesis
  proof (cases "sv_prerelease v = []")
    case True
    then show ?thesis using core by (simp add: version_text_def)
  next
    case False
    then have "set (version_text v) = set (version_core v) \<union> {CHR ''-''} \<union> set (join_dots (sv_prerelease v))"
      by (simp add: version_text_def)
    then show ?thesis using core dot(2) join by (simp add: bex_Un)
  qed
qed

text \<open>The exact requirement of a version accepts it if and only if no prerelease identifier
  contains \<^verbatim>\<open>x\<close> or \<^verbatim>\<open>X\<close>: the wildcard search looks at the whole requirement, so a version such as
  \<^verbatim>\<open>1.0.0-next.1\<close> does not satisfy the requirement \<^verbatim>\<open>1.0.0-next.1\<close>.\<close>

theorem exact_requirement:
  assumes p: "printable_version v"
  shows "semantic_version_satisfies_one v (version_text v) \<longleftrightarrow>
    \<not> (\<exists>p \<in> set (sv_prerelease v). \<exists>c \<in> set p. is_wildcard c)"
proof -
  have g: "good_version v" using p by (simp add: printable_version_def)
  obtain c cs where c: "version_text v = c # cs" "isdigit c" using version_text_Cons [OF g] .
  have trim: "trim (version_text v) = version_text v" by (rule version_text_tight [OF p])
  have f: "find_operator operators (version_text v) = ([], version_text v)"
    using find_operator_none [of c cs] c isdigit_not_op by simp
  have "\<not> is_wildcard c" using c isdigit_not_op by blast
  then have ne: "version_text v \<noteq> []" "version_text v \<noteq> ''*''" "version_text v \<noteq> ''x''" "version_text v \<noteq> ''X''"
    using c by (auto simp: is_wildcard_def)
  have dash: "sv_prerelease v \<noteq> [] \<Longrightarrow> CHR ''-'' \<in> set (version_text v)"
    by (simp add: version_text_def)
  show ?thesis
  proof (cases "\<exists>c \<in> set (version_text v). is_wildcard c")
    case True
    then have pre: "sv_prerelease v \<noteq> []" using version_text_wildcard_iff [OF p] by auto
    let ?p = "takeWhile (\<lambda>c. \<not> is_wildcard c) (version_text v)"
    have "version_text v = (version_core v @ ''-'') @ join_dots (sv_prerelease v)"
      using pre by (simp add: version_text_def)
    moreover have "\<forall>c \<in> set (version_core v @ ''-''). \<not> is_wildcard c"
      using version_core_chars [OF g] core_char_facts by (auto simp: is_wildcard_def)
    ultimately have "CHR ''-'' \<in> set ?p" by (simp add: takeWhile_append2)
    then have "\<not> starts_with ?p (version_core v)" by (rule wildcard_needs_core [OF g])
    then have "\<not> semantic_version_satisfies_one v (version_text v)"
      unfolding semantic_version_satisfies_one_def Let_def trim f using ne True by simp
    with True version_text_wildcard_iff [OF p] show ?thesis by simp
  next
    case False
    have "compare_with_op [] (version_text v) v v"
    proof (cases "sv_prerelease v = []")
      case True
      then have "count_list (version_text v) (CHR ''.'') = 2"
        using count_dots_core [OF g] by (simp add: version_text_def)
      then show ?thesis using compare_key [OF g g] by (simp add: compare_with_op_def Let_def)
    next
      case False
      then show ?thesis using dash compare_key [OF g g] by (simp add: compare_with_op_def Let_def)
    qed
    then have "semantic_version_satisfies_one v (version_text v)"
      unfolding semantic_version_satisfies_one_def Let_def trim f
      using ne False dash parse_version_text [OF p] by (cases "sv_prerelease v = []") simp_all
    with False version_text_wildcard_iff [OF p] show ?thesis by simp
  qed
qed

theorem exact_requirement_witness:
  "\<not> semantic_version_satisfies_one
     \<lparr>sv_major = 1, sv_minor = 0, sv_patch = 0, sv_prerelease = [''next'', ''1'']\<rparr> ''1.0.0-next.1''"
proof -
  let ?v = "\<lparr>sv_major = 1, sv_minor = 0, sv_patch = 0, sv_prerelease = [''next'', ''1'']\<rparr>"
  have "printable_version ?v" by code_simp
  moreover have "version_text ?v = ''1.0.0-next.1''" by code_simp
  ultimately show ?thesis using exact_requirement [of ?v] by (simp add: is_wildcard_def)
qed

subsection \<open>Alternatives and conjunctions\<close>

lemma find_str_bars: "CHR ''|'' \<notin> set r \<Longrightarrow> find_str ''||'' (r @ ''||'' @ t) = Some (length r)"
  by (induction r) (auto simp: starts_with_conv)

lemma find_str_no_bar: "CHR ''|'' \<notin> set r \<Longrightarrow> find_str ''||'' r = None"
  by (induction r) (auto simp: starts_with_conv)

lemma split_bars_append: "CHR ''|'' \<notin> set r \<Longrightarrow> split_bars (r @ ''||'' @ t) = r # split_bars t"
  by (subst split_bars.simps) (simp add: find_str_bars [simplified])

lemma split_bars_single: "CHR ''|'' \<notin> set r \<Longrightarrow> split_bars r = [r]"
  by (subst split_bars.simps) (simp add: find_str_no_bar)

lemma split_ws_snoc_blank:
  "isspace c \<Longrightarrow> split_ws (s @ c # t) = split_ws s @ split_ws t"
proof (induction s)
  case (Cons x s)
  have "split_ws s \<noteq> []" by (induction s) (auto split: list.splits)
  with Cons show ?case by (auto split: list.splits)
qed simp

lemma stream_words_blank: "isspace c \<Longrightarrow> stream_words (s @ c # t) = stream_words s @ stream_words t"
  by (simp add: stream_words_def split_ws_snoc_blank)

lemma stream_words_blanks: "\<forall>c \<in> set us. isspace c \<Longrightarrow> stream_words (us @ s) = stream_words s"
proof (induction us)
  case (Cons u us)
  then have "isspace u" by simp
  with Cons show ?case
    using stream_words_blank [of u "[]" "us @ s"] by (simp add: stream_words_def)
qed simp

lemma stream_words_blanks_end: "\<forall>c \<in> set vs. isspace c \<Longrightarrow> stream_words (s @ vs) = stream_words s"
proof (cases vs)
  case (Cons v vs')
  assume "\<forall>c \<in> set vs. isspace c"
  with Cons show ?thesis
    using stream_words_blank [of v s vs'] stream_words_blanks [of vs' "[]"]
    by (simp add: stream_words_def)
qed simp

lemma comma_to_blank_blanks: "\<forall>c \<in> set us. isspace c \<Longrightarrow> \<forall>c \<in> set (comma_to_blank us). isspace c"
  by (auto simp: comma_to_blank_def isspace_def)

lemma alternative_terms_untrimmed: "alternative_terms s = stream_words (comma_to_blank s)"
proof -
  obtain us vs where s: "s = us @ trim s @ vs" and b: "\<forall>c \<in> set us \<union> set vs. isspace c"
    using trim_infix by blast
  have "comma_to_blank s = comma_to_blank us @ comma_to_blank (trim s) @ comma_to_blank vs"
    by (subst s) (simp add: comma_to_blank_def)
  moreover have "\<forall>c \<in> set (comma_to_blank us). isspace c" "\<forall>c \<in> set (comma_to_blank vs). isspace c"
    by (rule comma_to_blank_blanks, use b in simp)+
  ultimately have "stream_words (comma_to_blank s) = stream_words (comma_to_blank (trim s))"
    by (simp add: stream_words_blanks stream_words_blanks_end)
  then show ?thesis by (simp add: alternative_terms_def)
qed

lemma alternative_terms_comma:
  "alternative_terms (r1 @ '','' @ r2) = alternative_terms r1 @ alternative_terms r2"
proof -
  have "comma_to_blank (r1 @ '','' @ r2) = comma_to_blank r1 @ CHR '' '' # comma_to_blank r2"
    by (simp add: comma_to_blank_def)
  then show ?thesis by (simp add: alternative_terms_untrimmed stream_words_blank isspace_def)
qed

lemma trim_append_ne: "trim a \<noteq> [] \<Longrightarrow> trim (a @ b) \<noteq> []"
  by (auto simp: trim_Nil_iff)

lemma terms_not_blank: "alternative_terms r \<noteq> [] \<Longrightarrow> trim r \<noteq> []"
  by (auto simp: alternative_terms_def stream_words_def comma_to_blank_def)

text \<open>Two bars offer an alternative: a version satisfies \<open>r1 || r2\<close> if and only if it satisfies
  one of the two requirements, for requirements that are not blank and an \<open>r1\<close> without a bar of
  its own (\<open>r2\<close> may go on with more alternatives).\<close>

theorem requirement_alternatives:
  assumes "CHR ''|'' \<notin> set r1" and "trim r1 \<noteq> []" and "trim r2 \<noteq> []"
  shows "semantic_version_satisfies v (r1 @ ''||'' @ r2) \<longleftrightarrow>
    semantic_version_satisfies v r1 \<or> semantic_version_satisfies v r2"
  using assms trim_append_ne [OF assms(2), of "''||'' @ r2"]
  by (simp add: semantic_version_satisfies_def split_bars_append [simplified] split_bars_single
      split: option.split)

theorem requirement_alternatives_witness:
  "semantic_version_satisfies ''2.1.0'' ''^1.0 || >=2.1, <3''"
proof -
  have "semantic_version_satisfies ''2.1.0'' '' >=2.1, <3''" by code_simp
  then show ?thesis
    using requirement_alternatives [of "''^1.0 ''" "'' >=2.1, <3''" "''2.1.0''"]
    by (simp add: trim_Nil_iff isspace_def)
qed

text \<open>A comma is a conjunction: a version satisfies \<open>r1, r2\<close> if and only if it satisfies both,
  for requirements without alternatives that name at least one term each.\<close>

theorem requirement_conjunction:
  assumes "CHR ''|'' \<notin> set r1" and "CHR ''|'' \<notin> set r2"
    and "alternative_terms r1 \<noteq> []" and "alternative_terms r2 \<noteq> []"
  shows "semantic_version_satisfies v (r1 @ '','' @ r2) \<longleftrightarrow>
    semantic_version_satisfies v r1 \<and> semantic_version_satisfies v r2"
proof -
  have s: "split_bars r1 = [r1]" "split_bars r2 = [r2]" "split_bars (r1 @ '','' @ r2) = [r1 @ '','' @ r2]"
    using assms by (simp_all add: split_bars_single)
  show ?thesis
    unfolding semantic_version_satisfies_def s
    using assms terms_not_blank trim_append_ne [OF terms_not_blank [OF assms(3)]]
    by (simp add: alternative_terms_comma [simplified] split: option.split) blast?
qed

theorem requirement_conjunction_witness:
  "semantic_version_satisfies ''1.4.2'' ''>=1.2,<2'' \<and> \<not> semantic_version_satisfies ''2.0.0'' ''>=1.2,<2''"
proof -
  have "alternative_terms ''>=1.2'' \<noteq> []" "alternative_terms ''<2'' \<noteq> []" by code_simp+
  note law = requirement_conjunction [OF _ _ this]
  have "semantic_version_satisfies ''1.4.2'' ''>=1.2''" "semantic_version_satisfies ''1.4.2'' ''<2''"
    "\<not> semantic_version_satisfies ''2.0.0'' ''<2''" by code_simp+
  then show ?thesis using law [of "''1.4.2''"] law [of "''2.0.0''"] by simp
qed

end
