(* ===== verification/Build_Config.thy ===== *)
theory Build_Config
  imports Toml_Values
begin

text \<open>
  Build configurations (\<^verbatim>\<open>BuildConfig\<close> of \<^verbatim>\<open>src/package_manager.cpp\<close>): the alias tables of
  architectures, optimisation levels and languages, the manifest keys that set a field, merging
  a profile over a base, the address sanitizer overrides, and permission bits.
\<close>

subsection \<open>Alias tables\<close>

definition find_enum_key :: "string \<Rightarrow> ('e \<times> string) list \<Rightarrow> 'e option" where
  "find_enum_key key mappings = map_option fst (find (\<lambda>entry. snd entry = key) mappings)"

definition find_enum_text :: "'e \<Rightarrow> ('e \<times> string) list \<Rightarrow> string option" where
  "find_enum_text key mappings = map_option snd (find (\<lambda>entry. fst entry = key) mappings)"

datatype target_arch_alias = X86 | I386 | I686 | X64 | X86_64 | Amd64 | X86Dash64 | Aarch64 | Arm64

datatype target_arch_value = ArchX86 | ArchX64 | ArchAarch64

datatype opt_level_alias = O0 | Og | O1 | O2 | O3 | Os | Oz

datatype task_language_alias = AliasMlang | AliasC | AliasCpp | AliasCxx | AliasCPlusPlus | AliasCC

datatype task_language = Mlang | LangC | LangCpp

definition kTaskLanguageAliases :: "(task_language_alias \<times> string) list" where
  "kTaskLanguageAliases =
     [(AliasMlang, ''mlang''), (AliasC, ''c''), (AliasCpp, ''cpp''), (AliasCxx, ''cxx''),
      (AliasCPlusPlus, ''c++''), (AliasCC, ''cc'')]"

definition kTaskLanguageNames :: "(task_language \<times> string) list" where
  "kTaskLanguageNames = [(Mlang, ''mlang''), (LangC, ''c''), (LangCpp, ''c++'')]"

definition kTargetArchAliases :: "(target_arch_alias \<times> string) list" where
  "kTargetArchAliases =
     [(X86, ''x86''), (I386, ''i386''), (I686, ''i686''), (X64, ''x64''), (X86_64, ''x86_64''),
      (Amd64, ''amd64''), (X86Dash64, ''x86-64''), (Aarch64, ''aarch64''), (Arm64, ''arm64'')]"

definition kTargetArchNames :: "(target_arch_value \<times> string) list" where
  "kTargetArchNames = [(ArchX86, ''x86''), (ArchX64, ''x64''), (ArchAarch64, ''aarch64'')]"

definition kOptLevelAliases :: "(opt_level_alias \<times> string) list" where
  "kOptLevelAliases =
     [(O0, ''-O0''), (Og, ''-Og''), (O1, ''-O1''), (O2, ''-O2''), (O3, ''-O3''), (Os, ''-Os''),
      (Oz, ''-Oz'')]"

fun target_arch_of :: "target_arch_alias \<Rightarrow> target_arch_value" where
  "target_arch_of X86 = ArchX86"
| "target_arch_of I386 = ArchX86"
| "target_arch_of I686 = ArchX86"
| "target_arch_of X64 = ArchX64"
| "target_arch_of X86_64 = ArchX64"
| "target_arch_of Amd64 = ArchX64"
| "target_arch_of X86Dash64 = ArchX64"
| "target_arch_of Aarch64 = ArchAarch64"
| "target_arch_of Arm64 = ArchAarch64"

definition normalize_target_arch_name :: "string \<Rightarrow> string" where
  "normalize_target_arch_name arch =
     (case find_enum_key (trim arch) kTargetArchAliases of
        None \<Rightarrow> []
      | Some k \<Rightarrow> (case find_enum_text (target_arch_of k) kTargetArchNames of None \<Rightarrow> [] | Some t \<Rightarrow> t))"

definition normalize_opt_level :: "string \<Rightarrow> string" where
  "normalize_opt_level opt =
     (let o1 = trim opt in
      if o1 = [] then []
      else
        (let o2 = (if hd o1 \<noteq> CHR ''-'' then CHR ''-'' # o1 else o1) in
         case find_enum_key o2 kOptLevelAliases of
           None \<Rightarrow> []
         | Some k \<Rightarrow> (case find_enum_text k kOptLevelAliases of None \<Rightarrow> [] | Some t \<Rightarrow> t)))"

fun task_language_of :: "task_language_alias \<Rightarrow> task_language" where
  "task_language_of AliasMlang = Mlang"
| "task_language_of AliasC = LangC"
| "task_language_of AliasCC = LangC"
| "task_language_of AliasCpp = LangCpp"
| "task_language_of AliasCxx = LangCpp"
| "task_language_of AliasCPlusPlus = LangCpp"

definition normalize_task_language :: "string \<Rightarrow> string" where
  "normalize_task_language language =
     (let l = trim language in
      if l = [] then []
      else
        (case find_enum_key (tolower_str l) kTaskLanguageAliases of
           None \<Rightarrow> []
         | Some k \<Rightarrow> (case find_enum_text (task_language_of k) kTaskLanguageNames of None \<Rightarrow> [] | Some t \<Rightarrow> t)))"

lemma normalize_target_arch_range:
  "normalize_target_arch_name a \<in> {[], ''x86'', ''x64'', ''aarch64''}"
  by (auto simp: normalize_target_arch_name_def find_enum_text_def kTargetArchNames_def
      split: option.split)

lemma normalize_target_arch_idem:
  "normalize_target_arch_name (normalize_target_arch_name a) = normalize_target_arch_name a"
proof -
  have "\<forall>n \<in> {[], ''x86'', ''x64'', ''aarch64''}. normalize_target_arch_name n = n" by code_simp
  then show ?thesis using normalize_target_arch_range [of a] by blast
qed

lemma normalize_opt_level_range:
  "normalize_opt_level a \<in> {[], ''-O0'', ''-Og'', ''-O1'', ''-O2'', ''-O3'', ''-Os'', ''-Oz''}"
proof (cases "normalize_opt_level a = []")
  case False
  then obtain k where "find_enum_text k kOptLevelAliases = Some (normalize_opt_level a)"
    by (auto simp: normalize_opt_level_def Let_def split: option.splits if_splits)
  then show ?thesis by (auto simp: find_enum_text_def kOptLevelAliases_def split: if_splits)
qed simp

lemma normalize_opt_level_idem: "normalize_opt_level (normalize_opt_level a) = normalize_opt_level a"
proof -
  have "\<forall>n \<in> {[], ''-O0'', ''-Og'', ''-O1'', ''-O2'', ''-O3'', ''-Os'', ''-Oz''}.
      normalize_opt_level n = n" by code_simp
  then show ?thesis using normalize_opt_level_range [of a] by blast
qed

subsection \<open>The configuration\<close>

record build_config =
  profileName :: string
  enabledFeatures :: "string list"
  globalCacheDir :: string
  vendorDir :: string
  optLevel :: string
  targetArch :: string
  minMlangVersion :: string
  compilerProgram :: string
  makeProgram :: string
  buildDir :: string
  depsDir :: string
  logDir :: string
  stdoutLog :: string
  stderrLog :: string
  warnLog :: string
  pathEntries :: "string list"
  compilerFlags :: "string list"
  linkerFlags :: "string list"
  libPaths :: "string list"
  libs :: "string list"
  optionValues :: "(string, string) omap"
  useNinja :: "bool option"
  asan :: "bool option"
  staticDeps :: "bool option"
  staticCppRuntime :: "bool option"
  taskPrintToStdoutLog :: "bool option"
  enableLogs :: bool
  useGlobalCache :: bool
  globalCacheExplicit :: bool
  allFeatures :: bool
  includedBuildDir :: string
  includedDepsDir :: string
  signMode :: int

definition default_build_config :: build_config where
  "default_build_config =
     \<lparr>profileName = [], enabledFeatures = [], globalCacheDir = [], vendorDir = [], optLevel = [],
      targetArch = [], minMlangVersion = [], compilerProgram = [], makeProgram = [], buildDir = [],
      depsDir = [], logDir = [], stdoutLog = [], stderrLog = [], warnLog = [], pathEntries = [],
      compilerFlags = [], linkerFlags = [], libPaths = [], libs = [], optionValues = omap_empty,
      useNinja = None, asan = None, staticDeps = None, staticCppRuntime = None,
      taskPrintToStdoutLog = None, enableLogs = False, useGlobalCache = True,
      globalCacheExplicit = False, allFeatures = False, includedBuildDir = [],
      includedDepsDir = [], signMode = 0\<rparr>"

definition build_config_wf :: "build_config \<Rightarrow> bool" where
  "build_config_wf cfg \<longleftrightarrow> omap_wf (optionValues cfg)"

subsection \<open>Manifest keys\<close>

definition parse_build_config_key_value :: "string \<Rightarrow> string \<Rightarrow> build_config \<Rightarrow> build_config" where
  "parse_build_config_key_value key value cfg =
     (if key = ''opt_level'' then cfg\<lparr>optLevel := normalize_opt_level (unquote value)\<rparr>
      else if key = ''target_arch'' then cfg\<lparr>targetArch := normalize_target_arch_name (unquote value)\<rparr>
      else if key = ''min_mlang_version'' then cfg\<lparr>minMlangVersion := unquote value\<rparr>
      else if key = ''make_program'' then cfg\<lparr>makeProgram := unquote value\<rparr>
      else if key = ''build_dir'' then cfg\<lparr>buildDir := unquote value\<rparr>
      else if key = ''deps_dir'' then cfg\<lparr>depsDir := unquote value\<rparr>
      else if key = ''global_cache_dir'' then cfg\<lparr>globalCacheDir := unquote value\<rparr>
      else if key = ''vendor_dir'' then cfg\<lparr>vendorDir := unquote value\<rparr>
      else if key = ''use_global_cache'' then cfg\<lparr>useGlobalCache := parse_toml_bool_value value\<rparr>
      else if key = ''log_dir'' then cfg\<lparr>logDir := unquote value\<rparr>
      else if key = ''stdout_log'' then cfg\<lparr>stdoutLog := unquote value\<rparr>
      else if key = ''stderr_log'' then cfg\<lparr>stderrLog := unquote value\<rparr>
      else if key = ''warn_log'' then cfg\<lparr>warnLog := unquote value\<rparr>
      else if key = ''compiler_flags'' then cfg\<lparr>compilerFlags := compilerFlags cfg @ toml_string_list value\<rparr>
      else if key = ''path_entries'' \<or> key = ''bin_paths''
        then cfg\<lparr>pathEntries := pathEntries cfg @ toml_string_list value\<rparr>
      else if key = ''linker_flags'' then cfg\<lparr>linkerFlags := linkerFlags cfg @ toml_string_list value\<rparr>
      else if key = ''lib_paths'' then cfg\<lparr>libPaths := libPaths cfg @ toml_string_list value\<rparr>
      else if key = ''libs'' then cfg\<lparr>libs := libs cfg @ toml_string_list value\<rparr>
      else if key = ''use_ninja'' \<or> key = ''ninja''
        then cfg\<lparr>useNinja := Some (parse_toml_bool_value value)\<rparr>
      else if key = ''static_deps'' then cfg\<lparr>staticDeps := Some (parse_toml_bool_value value)\<rparr>
      else if key = ''static_cpp_runtime''
        then cfg\<lparr>staticCppRuntime := Some (parse_toml_bool_value value)\<rparr>
      else if key = ''task_print_to_stdout_log''
        then cfg\<lparr>taskPrintToStdoutLog := Some (parse_toml_bool_value value)\<rparr>
      else cfg)"

text \<open>Readers that keep the current section of the manifest beside their state.\<close>

definition section_header :: "string \<times> 's \<Rightarrow> string \<Rightarrow> (string \<times> 's, 'r) flow option" where
  "section_header s t = (if is_header t then Some (Continue (header_name t, snd s)) else None)"

definition build_config_assign ::
  "string \<times> build_config \<Rightarrow> string \<Rightarrow> toml_assignment \<Rightarrow> (string \<times> build_config, build_config) flow" where
  "build_config_assign s t a =
     (case s of (sec, cfg) \<Rightarrow>
        if sec = ''tool.mlang''
          then Continue (sec, parse_build_config_key_value (asg_key a) (asg_value a) cfg)
        else if sec = ''tool.mlang.options''
          then Continue (sec, cfg\<lparr>optionValues :=
                 omap_put (asg_key a) (unquote_preserve (asg_value a)) (optionValues cfg)\<rparr>)
        else Continue (sec, cfg))"

definition parse_build_config :: "string \<Rightarrow> build_config" where
  "parse_build_config content =
     flow_result snd
       (toml_loop section_header (\<lambda>_. True) build_config_assign ([], default_build_config)
         (getlines content))"

text \<open>What every configuration read from a manifest satisfies.\<close>

definition config_clean :: "build_config \<Rightarrow> bool" where
  "config_clean cfg \<longleftrightarrow> omap_wf (optionValues cfg) \<and>
     optLevel cfg \<in> {[], ''-O0'', ''-Og'', ''-O1'', ''-O2'', ''-O3'', ''-Os'', ''-Oz''} \<and>
     targetArch cfg \<in> {[], ''x86'', ''x64'', ''aarch64''} \<and>
     [] \<notin> set (compilerFlags cfg) \<union> set (linkerFlags cfg) \<union> set (pathEntries cfg) \<union>
       set (libPaths cfg) \<union> set (libs cfg)"

lemma toml_string_list_no_empty: "[] \<notin> set (toml_string_list v)"
  by (auto simp: toml_string_list_def Let_def)

lemma config_clean_default: "config_clean default_build_config"
  by (simp add: config_clean_def default_build_config_def)

lemma config_clean_if: "config_clean x \<Longrightarrow> config_clean y \<Longrightarrow> config_clean (if b then x else y)"
  by simp

lemma config_clean_key_value:
  "config_clean cfg \<Longrightarrow> config_clean (parse_build_config_key_value key value cfg)"
  unfolding parse_build_config_key_value_def
  by (intro config_clean_if)
    (simp_all del: insert_iff add: config_clean_def toml_string_list_no_empty normalize_opt_level_range
      normalize_target_arch_range)

lemma config_clean_option:
  "config_clean cfg \<Longrightarrow> config_clean (cfg\<lparr>optionValues := omap_put k v (optionValues cfg)\<rparr>)"
  by (simp add: config_clean_def omap_wf_put)

text \<open>C40. Every configuration read from a manifest is well formed: the optimisation level and
  the architecture are empty or one of the canonical names, no list holds an empty entry, and
  the option map is ordered by key.\<close>

theorem parse_build_config_clean: "config_clean (parse_build_config content)"
proof -
  have "flow_all (\<lambda>s. config_clean (snd s)) config_clean
      (toml_loop section_header (\<lambda>_. True) build_config_assign ([], default_build_config)
        (getlines content))"
  proof (rule toml_loop_inv)
    show "flow_all (\<lambda>s. config_clean (snd s)) config_clean (build_config_assign s t a)"
      if "config_clean (snd s)" for s t a
      using that by (cases s) (simp add: build_config_assign_def config_clean_key_value config_clean_option)
  qed (auto simp: section_header_def config_clean_default split: if_splits)
  then show ?thesis
    unfolding parse_build_config_def
    by (cases "toml_loop section_header (\<lambda>_. True) build_config_assign ([], default_build_config)
        (getlines content)") simp_all
qed

subsection \<open>Merging\<close>

text \<open>\<^verbatim>\<open>if(!override.f.empty()) out.f = override.f\<close> and the same for optional fields.\<close>

definition pick :: "'a list \<Rightarrow> 'a list \<Rightarrow> 'a list" where
  "pick b w = (if w \<noteq> [] then w else b)"

definition pick_opt :: "'a option \<Rightarrow> 'a option \<Rightarrow> 'a option" where
  "pick_opt b w = (case w of Some _ \<Rightarrow> w | None \<Rightarrow> b)"

definition merge_build_config :: "build_config \<Rightarrow> build_config \<Rightarrow> build_config" where
  "merge_build_config base over = base
     \<lparr>profileName := pick (profileName base) (profileName over),
      enabledFeatures := pick (enabledFeatures base) (enabledFeatures over),
      globalCacheDir := pick (globalCacheDir base) (globalCacheDir over),
      vendorDir := pick (vendorDir base) (vendorDir over),
      compilerProgram := pick (compilerProgram base) (compilerProgram over),
      optLevel := pick (optLevel base) (optLevel over),
      targetArch := pick (targetArch base) (targetArch over),
      minMlangVersion := pick (minMlangVersion base) (minMlangVersion over),
      makeProgram := pick (makeProgram base) (makeProgram over),
      buildDir := pick (buildDir base) (buildDir over),
      depsDir := pick (depsDir base) (depsDir over),
      pathEntries := pathEntries base @ pathEntries over,
      compilerFlags := compilerFlags base @ compilerFlags over,
      linkerFlags := linkerFlags base @ linkerFlags over,
      libPaths := libPaths base @ libPaths over,
      libs := libs base @ libs over,
      optionValues := omap_put_all (optionValues over) (optionValues base),
      useNinja := pick_opt (useNinja base) (useNinja over),
      asan := pick_opt (asan base) (asan over),
      staticDeps := pick_opt (staticDeps base) (staticDeps over),
      staticCppRuntime := pick_opt (staticCppRuntime base) (staticCppRuntime over)\<rparr>"

lemma pick_simps [simp]: "pick b [] = b" "pick [] w = w" "pick (pick a b) c = pick a (pick b c)"
  by (simp_all add: pick_def)

lemma pick_opt_simps [simp]: "pick_opt b None = b" "pick_opt None w = w"
    "pick_opt (pick_opt a b) c = pick_opt a (pick_opt b c)"
  by (simp_all add: pick_opt_def split: option.split)

lemma pick_in: "a \<in> S \<Longrightarrow> b \<in> S \<Longrightarrow> pick a b \<in> S"
  by (simp add: pick_def)

lemma merge_default: "merge_build_config cfg default_build_config = cfg"
  by (simp add: merge_build_config_def default_build_config_def omap_empty_def)

lemma config_clean_merge:
  "config_clean a \<Longrightarrow> config_clean b \<Longrightarrow> config_clean (merge_build_config a b)"
  unfolding config_clean_def merge_build_config_def
  using pick_in [of "optLevel a" _ "optLevel b"] pick_in [of "targetArch a" _ "targetArch b"]
  by (simp del: insert_iff add: omap_wf_put_all)

text \<open>Merging layers of configuration is associative, the empty configuration changes nothing
  on the right, and a layer's explicit settings win: the command line over the profile over the
  manifest can be merged in any grouping.\<close>

theorem merge_build_config_layers:
  assumes "build_config_wf a" and "build_config_wf b" and "build_config_wf c"
  shows "merge_build_config (merge_build_config a b) c = merge_build_config a (merge_build_config b c) \<and>
    merge_build_config a default_build_config = a \<and>
    (optLevel b \<noteq> [] \<longrightarrow> optLevel (merge_build_config a b) = optLevel b) \<and>
    omap_find (optionValues (merge_build_config a b)) =
      omap_find (optionValues a) ++ omap_find (optionValues b)"
proof -
  have "merge_build_config (merge_build_config a b) c = merge_build_config a (merge_build_config b c)"
    using assms by (simp add: merge_build_config_def build_config_wf_def omap_put_all_assoc)
  moreover have "optLevel (merge_build_config a b) = optLevel b" if "optLevel b \<noteq> []"
    using that by (simp add: merge_build_config_def pick_def)
  moreover have "omap_find (optionValues (merge_build_config a b)) =
      omap_find (optionValues a) ++ omap_find (optionValues b)"
    using assms by (simp add: merge_build_config_def build_config_wf_def omap_find_put_all)
  ultimately show ?thesis using merge_default by blast
qed

theorem merge_build_config_layers_witness:
  "optLevel (merge_build_config (parse_build_config ''[tool.mlang]'')
     (default_build_config\<lparr>optLevel := ''-O3''\<rparr>)) = ''-O3''"
proof -
  have "build_config_wf (parse_build_config ''[tool.mlang]'')"
    "build_config_wf (default_build_config\<lparr>optLevel := ''-O3''\<rparr>)" by code_simp+
  then show ?thesis
    using merge_build_config_layers [of "parse_build_config ''[tool.mlang]''"
        "default_build_config\<lparr>optLevel := ''-O3''\<rparr>" "default_build_config\<lparr>optLevel := ''-O3''\<rparr>"]
    by simp
qed

subsection \<open>Optimisation flags and the address sanitizer\<close>

definition is_opt_flag :: "string \<Rightarrow> bool" where
  "is_opt_flag flag \<longleftrightarrow> flag \<in> {''-O0'', ''-Og'', ''-O1'', ''-O2'', ''-O3'', ''-Os'', ''-Oz''}"

definition is_release_opt_flag :: "string \<Rightarrow> bool" where
  "is_release_opt_flag flag \<longleftrightarrow> flag \<in> {''-O1'', ''-O2'', ''-O3'', ''-Os'', ''-Oz''}"

definition build_config_asan_enabled :: "build_config \<Rightarrow> bool" where
  "build_config_asan_enabled cfg = (case asan cfg of None \<Rightarrow> False | Some b \<Rightarrow> b)"

definition build_config_cmake_build_type :: "build_config \<Rightarrow> string" where
  "build_config_cmake_build_type cfg =
     (if build_config_asan_enabled cfg then ''Debug''
      else if trim (optLevel cfg) = ''-O0'' \<or> trim (optLevel cfg) = ''-Og'' then ''Debug''
      else ''Release'')"

definition build_config_asan_compile_flags :: "build_config \<Rightarrow> string" where
  "build_config_asan_compile_flags cfg =
     (if \<not> build_config_asan_enabled cfg then []
      else ''-fsanitize=address -fno-omit-frame-pointer -g -O0'')"

definition build_config_asan_link_flags :: "build_config \<Rightarrow> string" where
  "build_config_asan_link_flags cfg =
     (if \<not> build_config_asan_enabled cfg then []
      else ''-fsanitize=address -fno-omit-frame-pointer'')"

definition find_opt_flag_in_fragments :: "string list \<Rightarrow> string option" where
  "find_opt_flag_in_fragments flags = find is_opt_flag (map trim flags)"

definition remove_opt_flags :: "string list \<Rightarrow> string list" where
  "remove_opt_flags flags = filter (\<lambda>flag. \<not> is_opt_flag (trim flag)) flags"

definition append_unique_flag :: "string list \<Rightarrow> string \<Rightarrow> string list" where
  "append_unique_flag flags flag = (if flag \<in> set flags then flags else flags @ [flag])"

definition asan_warning :: "string \<Rightarrow> string \<Rightarrow> string" where
  "asan_warning contextLabel opt =
     ''warning: '' @ contextLabel @ '' requested release optimization '' @ opt @
     '', but --asan forces a debug-friendly build (-O0).''"

text \<open>The result is the new configuration and the warnings printed on the way.\<close>

definition apply_asan_overrides ::
  "build_config \<Rightarrow> string \<Rightarrow> string option \<Rightarrow> build_config \<times> string list" where
  "apply_asan_overrides cfg contextLabel cliOptFlag =
     (if \<not> build_config_asan_enabled cfg then (cfg, [])
      else
        (let existing = find_opt_flag_in_fragments (compilerFlags cfg);
             explicit = (case cliOptFlag of
                           Some f \<Rightarrow> if f \<noteq> [] then f else optLevel cfg
                         | None \<Rightarrow> optLevel cfg);
             warned = (if is_release_opt_flag explicit then explicit
                       else (case existing of
                               Some f \<Rightarrow> if is_release_opt_flag f then f else []
                             | None \<Rightarrow> []))
         in (cfg\<lparr>optLevel := ''-O0'',
                 compilerFlags := fold (\<lambda>f fs. append_unique_flag fs f)
                   [''-fsanitize=address'', ''-fno-omit-frame-pointer'', ''-g'']
                   (remove_opt_flags (compilerFlags cfg)),
                 linkerFlags := fold (\<lambda>f fs. append_unique_flag fs f)
                   [''-fsanitize=address'', ''-fno-omit-frame-pointer''] (linkerFlags cfg)\<rparr>,
             if warned \<noteq> [] then [asan_warning contextLabel warned] else [])))"

definition append_unique_strings :: "string list \<Rightarrow> string list \<Rightarrow> string list" where
  "append_unique_strings dst src =
     fold (\<lambda>v d. if v = [] then d else if v \<in> set d then d else d @ [v]) src dst"

lemma set_append_unique_strings: "set (append_unique_strings dst src) = set dst \<union> (set src - {[]})"
  by (induction src arbitrary: dst) (auto simp: append_unique_strings_def)

lemma distinct_append_unique_strings: "distinct dst \<Longrightarrow> distinct (append_unique_strings dst src)"
  by (induction src arbitrary: dst) (auto simp: append_unique_strings_def)

lemma set_append_unique_flags:
  "set (fold (\<lambda>f fs. append_unique_flag fs f) new fs) = set fs \<union> set new"
  by (induction new arbitrary: fs) (auto simp: append_unique_flag_def)

lemma append_unique_flags_present:
  "set new \<subseteq> set fs \<Longrightarrow> fold (\<lambda>f fs. append_unique_flag fs f) new fs = fs"
  by (induction new arbitrary: fs) (auto simp: append_unique_flag_def)

lemma remove_opt_flags_idle: "\<forall>f \<in> set fs. \<not> is_opt_flag (trim f) \<Longrightarrow> remove_opt_flags fs = fs"
  by (simp add: remove_opt_flags_def)

lemma asan_fields:
  "compilerFlags (c\<lparr>optLevel := a, compilerFlags := b, linkerFlags := d\<rparr>) = b"
  "linkerFlags (c\<lparr>optLevel := a, compilerFlags := b, linkerFlags := d\<rparr>) = d"
  by simp_all

lemma sanitizer_flags_not_opt:
  "\<forall>f \<in> set [''-fsanitize=address'', ''-fno-omit-frame-pointer'', ''-g'']. \<not> is_opt_flag (trim f)"
  by code_simp

text \<open>With the address sanitizer on, the configuration that results is a debug build: no
  optimisation flag but \<open>-O0\<close> survives, every other compiler flag does, the sanitizer is passed
  to compiler and linker, and applying the overrides again changes nothing. With it off the
  configuration is unchanged and nothing is printed.\<close>

theorem asan_overrides_debug_build:
  defines "out \<equiv> \<lambda>cfg label opt. fst (apply_asan_overrides cfg label opt)"
  shows "(build_config_asan_enabled cfg \<longrightarrow>
      optLevel (out cfg label opt) = ''-O0'' \<and>
      build_config_cmake_build_type (out cfg label opt) = ''Debug'' \<and>
      set (compilerFlags (out cfg label opt)) =
        {f \<in> set (compilerFlags cfg). \<not> is_opt_flag (trim f)} \<union>
        {''-fsanitize=address'', ''-fno-omit-frame-pointer'', ''-g''} \<and>
      find_opt_flag_in_fragments (compilerFlags (out cfg label opt)) = None \<and>
      set (linkerFlags (out cfg label opt)) =
        set (linkerFlags cfg) \<union> {''-fsanitize=address'', ''-fno-omit-frame-pointer''} \<and>
      out (out cfg label opt) label' opt' = out cfg label opt) \<and>
    (\<not> build_config_asan_enabled cfg \<longrightarrow> apply_asan_overrides cfg label opt = (cfg, []))"
proof (cases "build_config_asan_enabled cfg")
  case True
  let ?san = "[''-fsanitize=address'', ''-fno-omit-frame-pointer'', ''-g'']"
  let ?lnk = "[''-fsanitize=address'', ''-fno-omit-frame-pointer'']"
  let ?add = "\<lambda>new fs. fold (\<lambda>f fs. append_unique_flag fs f) new fs"
  let ?o = "out cfg label opt"
  have out: "out c l p = c\<lparr>optLevel := ''-O0'', compilerFlags := ?add ?san (remove_opt_flags (compilerFlags c)),
      linkerFlags := ?add ?lnk (linkerFlags c)\<rparr>" if "build_config_asan_enabled c" for c l p
    using that unfolding out_def apply_asan_overrides_def Let_def by simp
  have en: "build_config_asan_enabled ?o"
    using True unfolding out [OF True] by (simp add: build_config_asan_enabled_def)
  have cf: "set (compilerFlags ?o) = {f \<in> set (compilerFlags cfg). \<not> is_opt_flag (trim f)} \<union> set ?san"
    unfolding out [OF True] asan_fields set_append_unique_flags remove_opt_flags_def by simp
  have lf: "set (linkerFlags ?o) = set (linkerFlags cfg) \<union> set ?lnk"
    unfolding out [OF True] asan_fields set_append_unique_flags by simp
  have clean: "\<forall>f \<in> set (compilerFlags ?o). \<not> is_opt_flag (trim f)"
    using cf sanitizer_flags_not_opt by blast
  have "?add ?san (remove_opt_flags (compilerFlags ?o)) = compilerFlags ?o"
    unfolding remove_opt_flags_idle [OF clean] by (rule append_unique_flags_present) (use cf in blast)
  moreover have "?add ?lnk (linkerFlags ?o) = linkerFlags ?o"
    by (rule append_unique_flags_present) (use lf in blast)
  moreover have o: "optLevel ?o = ''-O0''" unfolding out [OF True] by simp
  ultimately have idem: "out ?o label' opt' = ?o"
    unfolding out [OF en, of label' opt'] by simp
  have "find_opt_flag_in_fragments (compilerFlags ?o) = None"
    using clean unfolding find_opt_flag_in_fragments_def by (simp add: find_None_iff)
  then show ?thesis
    using True en idem o cf lf by (simp add: build_config_cmake_build_type_def)
next
  case False
  then show ?thesis by (simp add: apply_asan_overrides_def)
qed

theorem asan_overrides_debug_build_witness:
  "optLevel (fst (apply_asan_overrides (default_build_config\<lparr>asan := Some True, optLevel := ''-O3''\<rparr>)
     ''pkg'' None)) = ''-O0''"
  using asan_overrides_debug_build
    [of "default_build_config\<lparr>asan := Some True, optLevel := ''-O3''\<rparr>" "''pkg''" None]
  by (simp add: build_config_asan_enabled_def)

subsection \<open>Permission bits\<close>

text \<open>\<^verbatim>\<open>std::filesystem::perms\<close> is a bit mask with the values of the octal mode.\<close>

definition add_if :: "bool \<Rightarrow> 32 word \<Rightarrow> 32 word \<Rightarrow> 32 word" where
  "add_if enabled flag perms = (if enabled then or perms flag else perms)"

definition has_bit :: "32 word \<Rightarrow> nat \<Rightarrow> bool" where
  "has_bit mode k \<longleftrightarrow> and mode (2 ^ k) \<noteq> 0"

definition directory_perms_from_file_mode :: "32 word \<Rightarrow> 32 word" where
  "directory_perms_from_file_mode mode =
     (let ownerRead = has_bit mode 8; ownerWrite = has_bit mode 7; ownerExec = has_bit mode 6;
          groupRead = has_bit mode 5; groupWrite = has_bit mode 4; groupExec = has_bit mode 3;
          othersRead = has_bit mode 2; othersWrite = has_bit mode 1; othersExec = has_bit mode 0
      in add_if (othersExec \<or> othersRead) (2 ^ 0)
        (add_if othersWrite (2 ^ 1)
        (add_if othersRead (2 ^ 2)
        (add_if (groupExec \<or> groupRead) (2 ^ 3)
        (add_if groupWrite (2 ^ 4)
        (add_if groupRead (2 ^ 5)
        (add_if (ownerExec \<or> ownerRead) (2 ^ 6)
        (add_if ownerWrite (2 ^ 7)
        (add_if ownerRead (2 ^ 8) 0)))))))))"

definition file_perms_from_mode :: "32 word \<Rightarrow> 32 word" where
  "file_perms_from_mode mode =
     add_if (has_bit mode 0) (2 ^ 0)
    (add_if (has_bit mode 1) (2 ^ 1)
    (add_if (has_bit mode 2) (2 ^ 2)
    (add_if (has_bit mode 3) (2 ^ 3)
    (add_if (has_bit mode 4) (2 ^ 4)
    (add_if (has_bit mode 5) (2 ^ 5)
    (add_if (has_bit mode 6) (2 ^ 6)
    (add_if (has_bit mode 7) (2 ^ 7)
    (add_if (has_bit mode 8) (2 ^ 8) 0))))))))"

lemma has_bit_iff: "has_bit mode k \<longleftrightarrow> bit mode k"
  by (simp add: has_bit_def and_exp_eq_0_iff_not_bit)

lemma bit_add_if_32:
  "bit (add_if e (2 ^ k) p) n \<longleftrightarrow> bit p n \<or> (e \<and> k < 32 \<and> n = k)"
  by (auto simp: add_if_def bit_or_iff bit_exp_iff)

lemma bit_power_32: "bit (2 ^ k :: 32 word) n \<longleftrightarrow> k < 32 \<and> n = k"
  by (auto simp: bit_exp_iff)

lemma below_9: "n < 9 \<longleftrightarrow> n \<in> {8, 7, 6, 5, 4, 3, 2, 1, 0 :: nat}"
  by auto

text \<open>A file keeps exactly the nine permission bits of the mode; a directory gets those and,
  for each of owner, group and others, the search bit where the read bit is set. No other bit
  can be set by either.\<close>

theorem permission_bits:
  "file_perms_from_mode mode = and mode (mask 9) \<and>
   directory_perms_from_file_mode mode =
     or (and mode (mask 9)) (drop_bit 2 (and mode (or (2 ^ 8) (or (2 ^ 5) (2 ^ 2)))))"
proof
  show "file_perms_from_mode mode = and mode (mask 9)"
    by (rule bit_word_eqI)
      (simp only: file_perms_from_mode_def bit_add_if_32 bit_and_iff bit_mask_iff has_bit_iff below_9, auto)
  show "directory_perms_from_file_mode mode =
      or (and mode (mask 9)) (drop_bit 2 (and mode (or (2 ^ 8) (or (2 ^ 5) (2 ^ 2)))))"
  proof (rule bit_word_eqI)
    fix n assume "n < LENGTH(32)"
    have 1: "bit (drop_bit 2 (and mode (or (2 ^ 8) (or (2 ^ 5) (2 ^ 2))))) n \<longleftrightarrow>
        (n = 6 \<and> bit mode 8) \<or> (n = 3 \<and> bit mode 5) \<or> (n = 0 \<and> bit mode 2)"
    proof -
      have "bit (or (2 ^ 8) (or (2 ^ 5) (2 ^ 2)) :: 32 word) (2 + n) \<longleftrightarrow>
          2 + n = 8 \<or> 2 + n = 5 \<or> 2 + n = 2"
        unfolding bit_or_iff by (simp only: bit_power_32, simp)
      moreover have "2 + n = 8 \<longleftrightarrow> n = 6" "2 + n = 5 \<longleftrightarrow> n = 3" "2 + n = 2 \<longleftrightarrow> n = 0" by arith+
      ultimately have "bit (or (2 ^ 8) (or (2 ^ 5) (2 ^ 2)) :: 32 word) (2 + n) \<longleftrightarrow> n = 6 \<or> n = 3 \<or> n = 0"
        by blast
      then show ?thesis unfolding bit_drop_bit_eq o_def bit_and_iff
        by (auto simp: numeral_2_eq_2)
    qed
    have 2: "bit (directory_perms_from_file_mode mode) n \<longleftrightarrow>
        (n = 8 \<and> bit mode 8) \<or> (n = 7 \<and> bit mode 7) \<or> (n = 6 \<and> (bit mode 6 \<or> bit mode 8)) \<or>
        (n = 5 \<and> bit mode 5) \<or> (n = 4 \<and> bit mode 4) \<or> (n = 3 \<and> (bit mode 3 \<or> bit mode 5)) \<or>
        (n = 2 \<and> bit mode 2) \<or> (n = 1 \<and> bit mode 1) \<or> (n = 0 \<and> (bit mode 0 \<or> bit mode 2))"
      unfolding directory_perms_from_file_mode_def Let_def has_bit_iff bit_add_if_32 bit_0_eq bot_apply
      by simp blast
    show "bit (directory_perms_from_file_mode mode) n \<longleftrightarrow>
        bit (or (and mode (mask 9)) (drop_bit 2 (and mode (or (2 ^ 8) (or (2 ^ 5) (2 ^ 2)))))) n"
      unfolding bit_or_iff 1 2 unfolding bit_and_iff bit_mask_iff below_9 by auto
  qed
qed

end
