(* ===== verification/Toml_Edit.thy ===== *)
theory Toml_Edit
  imports Toml_Spec Build_Config Semver
begin

text \<open>
  Reading and editing single entries of a manifest (\<^verbatim>\<open>src/package_manager.cpp\<close>): the commands
  that add a dependency or a workspace member rewrite the lines of \<^verbatim>\<open>mlang.toml\<close> in place.
  The editors return the new content, or \<^const>\<open>None\<close> where the source returns \<^verbatim>\<open>false\<close> and
  leaves the content alone.
\<close>

subsection \<open>Lookups\<close>

definition is_section_line :: "string \<Rightarrow> string \<Rightarrow> bool" where
  "is_section_line line section \<longleftrightarrow> strip_toml_comment line = CHR ''['' # section @ [CHR '']'']"

definition line_has_dep :: "string \<Rightarrow> string \<Rightarrow> bool" where
  "line_has_dep line name \<longleftrightarrow>
     (let t = strip_toml_comment line in
      if t = [] \<or> hd t = CHR ''#'' then False
      else if \<not> starts_with name t then False
      else CHR ''='' \<in> set t)"

definition has_section :: "string \<Rightarrow> string \<Rightarrow> bool" where
  "has_section content wanted \<longleftrightarrow> list_ex (\<lambda>line. is_section_line line wanted) (getlines content)"

definition find_toml_string :: "string \<Rightarrow> string \<Rightarrow> string option" where
  "find_toml_string content key =
     (let needle = key @ '' = '' @ [dquote] in
      case find_str needle content of
        None \<Rightarrow> None
      | Some i \<Rightarrow>
          (let r = drop (i + length needle) content in
           case find_char dquote r of None \<Rightarrow> None | Some e \<Rightarrow> Some (take e r)))"

fun find_section_loop :: "string \<Rightarrow> string \<Rightarrow> string \<Rightarrow> string list \<Rightarrow> string option" where
  "find_section_loop section key cur [] = None"
| "find_section_loop section key cur (line # ls) =
     (let t = strip_toml_comment line in
      if t = [] then find_section_loop section key cur ls
      else if is_header t then find_section_loop section key (header_name t) ls
      else if cur \<noteq> section then find_section_loop section key cur ls
      else (case find_char (CHR ''='') t of
              None \<Rightarrow> find_section_loop section key cur ls
            | Some eq \<Rightarrow>
                if trim (take eq t) \<noteq> key then find_section_loop section key cur ls
                else Some (unquote (trim (drop (Suc eq) t)))))"

definition find_section_toml_string :: "string \<Rightarrow> string \<Rightarrow> string \<Rightarrow> string option" where
  "find_section_toml_string content section key = find_section_loop section key [] (getlines content)"

definition workspace_members_assign ::
  "string \<times> string list \<Rightarrow> string \<Rightarrow> toml_assignment \<Rightarrow> (string \<times> string list, string list) flow" where
  "workspace_members_assign s t a =
     (if asg_key a \<noteq> ''members'' then Continue s
      else
        (let out = snd s; value = asg_value a in
         if value = [] then Return out
         else if hd value = CHR ''['' \<and> last value = CHR '']''
         then Return (out @ filter (\<lambda>v. v \<noteq> []) (map unquote (split_toml_array (inner value))))
         else Return (out @ filter (\<lambda>v. v \<noteq> []) [unquote value])))"

definition parse_workspace_members :: "string \<Rightarrow> string list" where
  "parse_workspace_members content =
     flow_result snd
       (toml_loop section_header (\<lambda>s. fst s = ''workspace'') workspace_members_assign ([], [])
         (getlines content))"

record manifest_include =
  inc_path :: string
  inc_target :: string

definition include_header ::
  "manifest_include option \<times> manifest_include list \<Rightarrow> string \<Rightarrow>
   (manifest_include option \<times> manifest_include list, 'r) flow option" where
  "include_header s t =
     (let flushed = snd s @ (case fst s of None \<Rightarrow> [] | Some i \<Rightarrow> [i]) in
      if t = ''[[include]]'' then Some (Continue (Some \<lparr>inc_path = [], inc_target = []\<rparr>, flushed))
      else if is_header t then Some (Continue (None, flushed))
      else None)"

definition include_assign ::
  "manifest_include option \<times> manifest_include list \<Rightarrow> string \<Rightarrow> toml_assignment \<Rightarrow>
   (manifest_include option \<times> manifest_include list, 'r) flow" where
  "include_assign s t a =
     (case fst s of
        None \<Rightarrow> Continue s
      | Some i \<Rightarrow>
          if asg_key a = ''path'' then Continue (Some (i\<lparr>inc_path := unquote (asg_value a)\<rparr>), snd s)
          else if asg_key a = ''target''
          then Continue (Some (i\<lparr>inc_target := unquote (asg_value a)\<rparr>), snd s)
          else Continue s)"

definition parse_manifest_includes :: "string \<Rightarrow> manifest_include list" where
  "parse_manifest_includes content =
     flow_result (\<lambda>(cur, out). out @ (case cur of None \<Rightarrow> [] | Some i \<Rightarrow> [i]))
       (toml_loop include_header (\<lambda>s. fst s \<noteq> None) include_assign (None, []) (getlines content))"

definition sanitize_package_name :: "string \<Rightarrow> string" where
  "sanitize_package_name name =
     (let n = map (\<lambda>c. if isalnum c \<or> c = CHR ''_'' \<or> c = CHR ''-'' then c else CHR ''_'') name in
      if n = [] then ''pkg'' else n)"

definition make_dependency_manifest_line ::
  "string \<Rightarrow> string \<Rightarrow> string \<Rightarrow> string \<Rightarrow> string \<Rightarrow> string \<Rightarrow> bool \<Rightarrow> string \<Rightarrow> int \<Rightarrow> string" where
  "make_dependency_manifest_line name gitUrl archiveUrl archiveType revision tag gitSubmodules depSubdir
     stripComponents =
     (let q = [dquote];
          opt = (\<lambda>key v. if v \<noteq> [] then '', '' @ key @ '' = '' @ q @ v @ q else []) in
      if archiveUrl \<noteq> []
      then name @ '' = { url = '' @ q @ archiveUrl @ q
             @ opt ''archive'' archiveType
             @ (if stripComponents \<noteq> 1
                then '', strip_components = '' @ q @ int_str stripComponents @ q else [])
             @ opt ''subdir'' depSubdir @ '' }''
      else if gitUrl \<noteq> []
      then name @ '' = { git = '' @ q @ gitUrl @ q
             @ opt ''rev'' revision @ opt ''tag'' tag
             @ (if gitSubmodules then '', submodules = true'' else [])
             @ opt ''subdir'' depSubdir @ '' }''
      else name @ '' = '' @ q @ ''*'' @ q)"

subsection \<open>Adding a dependency\<close>

text \<open>The exclusive end of a section: the next line that starts with a bracket.\<close>

definition opens_bracket :: "string \<Rightarrow> bool" where
  "opens_bracket line \<longleftrightarrow> (let t = trim line in t \<noteq> [] \<and> hd t = CHR ''['')"

definition section_end :: "string list \<Rightarrow> nat \<Rightarrow> nat" where
  "section_end ls start =
     Suc start + length (takeWhile (\<lambda>l. \<not> opens_bracket l) (drop (Suc start) ls))"

definition insert_at :: "nat \<Rightarrow> 'a \<Rightarrow> 'a list \<Rightarrow> 'a list" where
  "insert_at i x xs = take i xs @ x # drop i xs"

definition add_dep_to_section :: "string \<Rightarrow> string \<Rightarrow> string \<Rightarrow> string \<Rightarrow> string option" where
  "add_dep_to_section content section name line =
     (let ls = getlines content in
      case first_index (\<lambda>l. is_section_line l section) ls of
        Some start \<Rightarrow>
          (let stop = section_end ls start in
           if list_ex (\<lambda>l. line_has_dep l name) (take (stop - Suc start) (drop (Suc start) ls))
           then None
           else Some (join_lines (insert_at stop line ls)))
      | None \<Rightarrow> Some (join_lines (ls @ [CHR ''['' # section @ [CHR '']''], line])))"

subsection \<open>Adding to a list of strings\<close>

text \<open>The last line of the section whose key is \<open>key\<close>.\<close>

definition key_on_line :: "string \<Rightarrow> string \<Rightarrow> bool" where
  "key_on_line key line \<longleftrightarrow>
     (let t = trim line in
      case find_char (CHR ''='') t of None \<Rightarrow> False | Some eq \<Rightarrow> trim (take eq t) = key)"

definition last_key_line :: "string list \<Rightarrow> nat \<Rightarrow> nat \<Rightarrow> string \<Rightarrow> nat option" where
  "last_key_line ls start stop key =
     (let js = filter (\<lambda>j. key_on_line key (ls ! j)) [Suc start..<stop] in
      if js = [] then None else Some (last js))"

definition values_of_line :: "string \<Rightarrow> string list" where
  "values_of_line line =
     (case find_char (CHR ''='') line of
        None \<Rightarrow> []
      | Some eq \<Rightarrow>
          (let raw = trim (drop (Suc eq) line) in
           if raw \<noteq> [] \<and> hd raw = CHR ''['' \<and> last raw = CHR '']''
           then filter (\<lambda>v. v \<noteq> []) (map unquote (split_toml_array (inner raw)))
           else []))"

definition quoted_list_line :: "string \<Rightarrow> string list \<Rightarrow> string" where
  "quoted_list_line key vs = key @ '' = ['' @ quoted_items vs @ '']''"

definition append_unique_quoted_list_entry ::
  "string \<Rightarrow> string \<Rightarrow> string \<Rightarrow> string \<Rightarrow> string option" where
  "append_unique_quoted_list_entry content section key value =
     (let ls = getlines content;
          start = first_index (\<lambda>l. is_section_line l section) ls;
          stop = (case start of None \<Rightarrow> length ls | Some i \<Rightarrow> section_end ls i);
          keyLine = (case start of None \<Rightarrow> None | Some i \<Rightarrow> last_key_line ls i stop key);
          values = (if section = ''workspace'' \<and> key = ''members'' then parse_workspace_members content
                    else case keyLine of None \<Rightarrow> [] | Some j \<Rightarrow> values_of_line (ls ! j))
      in if value \<in> set values then None
         else
           (let arr = quoted_list_line key (values @ [value]) in
            case start of
              Some i \<Rightarrow>
                (case keyLine of
                   Some j \<Rightarrow> Some (join_lines (ls[j := arr]))
                 | None \<Rightarrow> Some (join_lines (insert_at stop arr ls)))
            | None \<Rightarrow>
                Some (join_lines
                  ((if ls \<noteq> [] \<and> last ls \<noteq> [] then ls @ [[]] else ls) @
                   [CHR ''['' # section @ [CHR '']''], arr]))))"

subsection \<open>A dependency is added once\<close>

lemma join_lines_snoc_nil: "join_lines (ls @ [[]]) = concat (map (\<lambda>l. l @ [newline]) ls)"
  by (induction ls rule: join_lines.induct) auto

lemma getlines_terminated:
  "\<forall>l \<in> set ls. newline \<notin> set l \<Longrightarrow> getlines (concat (map (\<lambda>l. l @ [newline]) ls)) = ls"
  by (induction ls) (auto simp: getlines_append_line)

lemma getlines_join_butlast:
  assumes "\<forall>l \<in> set ls. newline \<notin> set l"
  shows "getlines (join_lines ls) = (if ls \<noteq> [] \<and> last ls = [] then butlast ls else ls)"
proof (cases "ls \<noteq> [] \<and> last ls = []")
  case True
  then have ls: "ls = butlast ls @ [[]]" by (metis append_butlast_last_id)
  have "\<forall>l \<in> set (butlast ls). newline \<notin> set l" using assms by (meson in_set_butlastD)
  then have "getlines (join_lines (butlast ls @ [[]])) = butlast ls"
    by (simp add: join_lines_snoc_nil getlines_terminated)
  with True ls show ?thesis by simp
next
  case False
  then show ?thesis using getlines_join_lines [of ls] assms by auto
qed

lemma section_end_bounds:
  "start < length ls \<Longrightarrow> Suc start \<le> section_end ls start \<and> section_end ls start \<le> length ls"
  using length_takeWhile_le [of "\<lambda>l. \<not> opens_bracket l" "drop (Suc start) ls"]
  by (simp add: section_end_def)

lemma section_body:
  "take (section_end ls start - Suc start) (drop (Suc start) ls) =
    takeWhile (\<lambda>l. \<not> opens_bracket l) (drop (Suc start) ls)"
  by (simp add: section_end_def takeWhile_eq_take [symmetric])

lemma takeWhile_body_append: "takeWhile P (takeWhile P xs @ ys) = takeWhile P xs @ takeWhile P ys"
  by (induction xs) auto

text \<open>A section whose body is followed by one more line without an opening bracket.\<close>

lemma section_grows:
  assumes start: "start < length ls" and line: "\<not> opens_bracket line"
    and ls': "ls' = take (section_end ls start) ls @ line # r"
  shows "line \<in> set (take (section_end ls' start - Suc start) (drop (Suc start) ls'))"
proof -
  let ?n = "\<lambda>l. \<not> opens_bracket l"
  note b = section_end_bounds [OF start]
  have "drop (Suc start) (take (section_end ls start) ls) = takeWhile ?n (drop (Suc start) ls)"
    using section_body [of ls start] by (simp add: drop_take)
  then have "drop (Suc start) ls' = takeWhile ?n (drop (Suc start) ls) @ line # r"
    using b by (simp add: ls')
  then have "takeWhile ?n (drop (Suc start) ls') =
      takeWhile ?n (drop (Suc start) ls) @ line # takeWhile ?n r"
    using line takeWhile_body_append [of ?n "drop (Suc start) ls" "line # r"] by simp
  then show ?thesis by (simp add: section_body)
qed

lemma first_index_take:
  "first_index P xs = Some i \<Longrightarrow> i < n \<Longrightarrow> first_index P (take n xs @ ys) = Some i"
  by (rule first_index_append_Some) (simp add: first_index_Some)

text \<open>A section name as the commands write it.\<close>

definition plain_section :: "string \<Rightarrow> bool" where
  "plain_section sec \<longleftrightarrow> quote_free sec \<and> CHR ''#'' \<notin> set sec \<and> newline \<notin> set sec"

lemma plain_section_line:
  assumes "plain_section sec"
  shows "is_section_line (CHR ''['' # sec @ [CHR '']'']) sec"
proof -
  let ?l = "CHR ''['' # sec @ [CHR '']'']"
  have "hash_free Bare ?l"
    using assms by (intro hash_free_plain) (auto simp: plain_section_def quote_free_def)
  moreover have "trim ?l = ?l" by (rule trim_tight) (simp add: isspace_def)
  ultimately show ?thesis by (simp add: is_section_line_def strip_toml_comment_eq_trim)
qed

text \<open>What an addition does to the lines: the new line goes in at the end of the section, and
  one trailing empty line may be dropped.\<close>

lemma add_dep_lines:
  assumes add: "add_dep_to_section content section name line = Some content'"
    and nl: "newline \<notin> set line" "line \<noteq> []" and sec: "plain_section section"
  obtains start r where "first_index (\<lambda>l. is_section_line l section) (getlines content) = Some start"
      "getlines content' = take (section_end (getlines content) start) (getlines content) @ line # r"
      "r = drop (section_end (getlines content) start) (getlines content) \<or>
       r = butlast (drop (section_end (getlines content) start) (getlines content))"
  | "first_index (\<lambda>l. is_section_line l section) (getlines content) = None"
      "getlines content' = getlines content @ [CHR ''['' # section @ [CHR '']''], line]"
proof -
  let ?ls = "getlines content"
  have nls: "\<forall>l \<in> set ?ls. newline \<notin> set l" by (simp add: getlines_no_newline)
  show thesis
  proof (cases "first_index (\<lambda>l. is_section_line l section) ?ls")
    case None
    let ?new = "?ls @ [CHR ''['' # section @ [CHR '']''], line]"
    have "content' = join_lines ?new" using add None by (simp add: add_dep_to_section_def)
    moreover have "\<forall>l \<in> set ?new. newline \<notin> set l"
      using nls nl sec by (auto simp: plain_section_def)
    ultimately have "getlines content' = ?new" using nl(2) by (simp add: getlines_join_butlast)
    with None show thesis by (rule that(2))
  next
    case (Some start)
    let ?e = "section_end ?ls start"
    let ?new = "take ?e ?ls @ line # drop ?e ?ls"
    have "content' = join_lines ?new"
      using add Some by (simp add: add_dep_to_section_def Let_def insert_at_def split: if_splits)
    moreover have "\<forall>l \<in> set ?new. newline \<notin> set l"
      using nls nl by (auto dest: in_set_takeD in_set_dropD)
    ultimately have g: "getlines content' = (if last ?new = [] then butlast ?new else ?new)"
      by (simp add: getlines_join_butlast)
    show thesis
    proof (cases "last ?new = []")
      case True
      then have "drop ?e ?ls \<noteq> []" using nl(2) by auto
      then have "getlines content' = take ?e ?ls @ line # butlast (drop ?e ?ls)"
        using g True by (simp add: butlast_append)
      with Some show thesis by (intro that(1)) auto
    next
      case False
      with g Some show thesis by (intro that(1)) auto
    qed
  qed
qed

text \<open>Adding a dependency works once: after a successful addition the manifest has the
  section and the line, and adding a dependency of that name to that section again is refused,
  whatever its line.\<close>

theorem add_dependency_once:
  assumes add: "add_dep_to_section content section name line = Some content'"
    and line: "newline \<notin> set line" "line_has_dep line name" "\<not> opens_bracket line"
    and sec: "plain_section section"
  shows "has_section content' section \<and> line \<in> set (getlines content') \<and>
    add_dep_to_section content' section name line' = None"
proof -
  let ?P = "\<lambda>l. is_section_line l section"
  have ne: "line \<noteq> []" using line(2) by (auto simp: line_has_dep_def Let_def strip_toml_comment_def)
  have refuse: "has_section content' section \<and> line \<in> set (getlines content') \<and>
      add_dep_to_section content' section name line' = None"
    if f: "first_index ?P (getlines content') = Some i" and l: "line \<in> set (take (section_end
      (getlines content') i - Suc i) (drop (Suc i) (getlines content')))" for i
  proof -
    have "has_section content' section"
      using f by (auto simp: has_section_def list_ex_iff first_index_Some intro: nth_mem)
    moreover have "line \<in> set (getlines content')" using l by (meson in_set_dropD in_set_takeD)
    moreover have "add_dep_to_section content' section name line' = None"
      using f l line(2) by (auto simp: add_dep_to_section_def Let_def list_ex_iff)
    ultimately show ?thesis by blast
  qed
  from add line(1) ne sec show ?thesis
  proof (cases rule: add_dep_lines)
    case (1 start r)
    then have s: "start < length (getlines content)" by (simp add: first_index_Some)
    then have "start < section_end (getlines content) start" using section_end_bounds by fastforce
    then have "first_index ?P (getlines content') = Some start"
      using first_index_take [OF 1(1)] 1(2) by simp
    then show ?thesis using refuse section_grows [OF s line(3) 1(2)] by blast
  next
    case 2
    let ?h = "CHR ''['' # section @ [CHR '']'']"
    have "first_index ?P (getlines content') = Some (length (getlines content))"
      using first_index_append_None [OF 2(1), of "[?h, line]"] plain_section_line [OF sec]
      by (simp add: 2(2))
    moreover have "line \<in> set (take (section_end (getlines content') (length (getlines content)) -
        Suc (length (getlines content))) (drop (Suc (length (getlines content))) (getlines content')))"
      unfolding section_body 2(2) using line(3) by simp
    ultimately show ?thesis by (rule refuse)
  qed
qed

theorem add_dependency_once_witness:
  "add_dep_to_section (''[dependencies]'' @ newline # ''json = { path = 1 }'') ''dependencies'' ''json''
     ''json = { path = 2 }'' = None"
proof -
  let ?l = "''json = { path = 1 }''"
  have "add_dep_to_section ''[dependencies]'' ''dependencies'' ''json'' ?l =
      Some (''[dependencies]'' @ newline # ?l)"
    "newline \<notin> set ?l" "line_has_dep ?l ''json''" "\<not> opens_bracket ?l" "plain_section ''dependencies''"
    by code_simp+
  from add_dependency_once [OF this] show ?thesis by simp
qed

text \<open>The test for a dependency that is already there compares a prefix of the line: when the
  section declares a longer name, a dependency whose name is a prefix of it is never added.\<close>

theorem dependency_prefix_clash:
  assumes "bare_key name" and "bare_key (name @ ending)" and "plain_section section"
  shows "add_dep_to_section
    (CHR ''['' # section @ CHR '']'' # newline # lock_line (name @ ending) v) section name line = None"
proof -
  let ?h = "CHR ''['' # section @ [CHR '']'']" and ?l = "lock_line (name @ ending) v"
  have k: "\<forall>c \<in> set (name @ ending). c \<noteq> newline"
  proof
    fix c assume "c \<in> set (name @ ending)"
    then have "\<not> isspace c" using assms(2) bare_key_char unfolding bare_key_def by blast
    then show "c \<noteq> newline" by (auto simp: isspace_def)
  qed
  have l: "newline \<notin> set ?l"
    using k lock_body_no_newline [of v] by (auto simp: lock_line_def lock_quote_def)
  have "newline \<notin> set ?h" using assms(3) by (auto simp: plain_section_def)
  from getlines_append_line [OF this, of ?l] have g:
      "getlines (CHR ''['' # section @ CHR '']'' # newline # ?l) = [?h, ?l]"
    using l by (simp add: getlines_single lock_line_def)
  have "name \<noteq> []" using assms(1) by (simp add: bare_key_def)
  moreover have "hd name \<noteq> CHR ''#''"
    using assms(1) bare_key_char [of "hd name"] by (simp add: bare_key_def)
  moreover have "starts_with name ?l" by (simp add: lock_line_def)
  ultimately have "line_has_dep ?l name"
    unfolding line_has_dep_def lock_line_strip [OF assms(2)] Let_def
    by (simp add: lock_line_def)
  moreover have "trim ?l = ?l"
    using lock_line_strip [OF assms(2), of v] by (metis strip_toml_comment_def trim_idem)
  moreover have "hd ?l \<noteq> CHR ''[''"
  proof -
    have "name \<noteq> []" "key_char (hd name)" using assms(1) by (auto simp: bare_key_def)
    moreover have "\<not> key_char (CHR ''['')" by code_simp
    ultimately show ?thesis by (auto simp: lock_line_def)
  qed
  ultimately show ?thesis
    using plain_section_line [OF assms(3)]
    unfolding add_dep_to_section_def g Let_def by (simp add: section_end_def opens_bracket_def)
qed

theorem dependency_prefix_clash_witness:
  "add_dep_to_section (''[dependencies]'' @ newline # lock_line ''json_schema'' ''1.0'') ''dependencies''
     ''json'' ''json = 1'' = None"
proof -
  have "bare_key ''json''" "bare_key (''json'' @ ''_schema'')" "plain_section ''dependencies''" by code_simp+
  from dependency_prefix_clash [OF this] show ?thesis by simp
qed

subsection \<open>The list line reads back\<close>

lemma hash_free_raw_quoted:
  assumes "clean_value v"
  shows "hash_free Bare (raw_quoted v)" and "quote_run Bare (raw_quoted v) = Bare"
proof -
  have d: "dquote \<notin> set u \<Longrightarrow> bslash \<notin> set u \<Longrightarrow> hash_free InDouble u \<and> quote_run InDouble u = InDouble" for u
    by (induction u) auto
  from assms have "dquote \<notin> set v" "bslash \<notin> set v" by (auto simp: clean_value_def)
  from d [OF this] show "hash_free Bare (raw_quoted v)" "quote_run Bare (raw_quoted v) = Bare"
    by (simp_all add: raw_quoted_def hash_free_append)
qed

lemma hash_free_quoted_items:
  assumes "\<forall>v \<in> set vs. clean_value v"
  shows "hash_free Bare (quoted_items vs) \<and> quote_run Bare (quoted_items vs) = Bare"
  using assms
  by (induction vs rule: quoted_items.induct) (auto simp: hash_free_append hash_free_raw_quoted)

lemma array_depth_raw_quoted:
  assumes "clean_value v"
  shows "array_depth Bare d (raw_quoted v @ r) = array_depth Bare d r"
proof -
  have d: "dquote \<notin> set u \<Longrightarrow> bslash \<notin> set u \<Longrightarrow>
      array_depth InDouble d (u @ dquote # r) = array_depth Bare d r" for u
    by (induction u) auto
  from assms have "dquote \<notin> set v" "bslash \<notin> set v" by (auto simp: clean_value_def)
  from d [OF this] show ?thesis by (simp add: raw_quoted_def)
qed

lemma array_depth_quoted_items:
  assumes "\<forall>v \<in> set vs. clean_value v"
  shows "array_depth Bare d (quoted_items vs @ r) = array_depth Bare d r"
  using assms
  by (induction vs rule: quoted_items.induct) (auto simp: array_depth_raw_quoted)

text \<open>The line the list editor writes reads back as the list: as an assignment of the key
  that needs no further line, and as the values, both for the readers of lists and for the
  editor itself the next time.\<close>

theorem quoted_list_line_round_trip:
  assumes k: "bare_key key" and vs: "\<forall>v \<in> set vs. clean_value v" "vs \<noteq> []"
  shows "parse_toml_assignment (strip_toml_comment (quoted_list_line key vs)) ls =
      (Some \<lparr>asg_key = key, asg_value = CHR ''['' # quoted_items vs @ [CHR '']''], asg_append = False\<rparr>, ls) \<and>
    toml_string_list (CHR ''['' # quoted_items vs @ [CHR '']'']) = vs \<and>
    values_of_line (quoted_list_line key vs) = vs"
proof -
  let ?v = "CHR ''['' # quoted_items vs @ [CHR '']'']"
  let ?l = "quoted_list_line key vs"
  have line: "?l = key @ '' = '' @ ?v" by (simp add: quoted_list_line_def)
  have tv: "trim ?v = ?v" by (rule trim_tight) (simp add: isspace_def)
  have "hash_free Bare ?v" using hash_free_quoted_items [OF vs(1)] by (simp add: hash_free_append)
  then have strip: "strip_toml_comment ?l = ?l"
    unfolding line by (rule key_value_strip [OF k]) (simp_all add: isspace_def)
  have "array_depth Bare 0 ?v = 0"
    using array_depth_quoted_items [OF vs(1), of 1 "'']''"] by simp
  then have complete: "toml_value_is_complete ?v"
    unfolding toml_value_is_complete_def toml_array_is_complete_def Let_def tv by simp
  have asg: "parse_toml_assignment ?l ls =
      (Some \<lparr>asg_key = key, asg_value = ?v, asg_append = False\<rparr>, ls)"
    unfolding line by (rule key_value_assignment [OF k tv complete])
  have sl: "toml_string_list ?v = vs" by (rule toml_string_list_items [OF vs])
  have "CHR ''='' \<notin> set (key @ '' '')" using bare_key_facts(2) [OF k] by simp
  from find_char_append [OF this, of "'' '' @ ?v"]
  have fc: "find_char (CHR ''='') ?l = Some (Suc (length key))" by (simp add: line)
  have val: "trim (drop (Suc (Suc (length key))) ?l) = ?v" using tv by (simp add: line)
  have "values_of_line ?l = toml_string_list ?v"
    unfolding values_of_line_def fc toml_string_list_def option.case Let_def val tv by simp
  with asg strip sl show ?thesis by simp
qed

theorem quoted_list_line_round_trip_witness:
  "values_of_line (quoted_list_line ''members'' [''app'', ''libs/core'']) = [''app'', ''libs/core'']"
proof -
  have "bare_key ''members''" "\<forall>v \<in> set [''app'', ''libs/core'']. clean_value v" by code_simp+
  from quoted_list_line_round_trip [OF this] show ?thesis by simp
qed

end
