(* ===== verification/Graph_Search.thy ===== *)
theory Graph_Search
  imports Prelude
begin

text \<open>
  The contract of the program's graph walks. Features, link dependencies, task names and
  workspace modules are each collected by a loop of its own over a stack or a queue; what the
  callers rely on is the same: the result holds the roots, is closed under the successors and
  holds nothing else. \<open>live\<close> is the test for entries the walk drops.
\<close>

locale graph_search =
  fixes succs :: "'g \<Rightarrow> 'a \<Rightarrow> 'a list"
    and live :: "'a \<Rightarrow> bool"
    and run :: "'g \<Rightarrow> 'a list \<Rightarrow> 'a set"
  assumes run_roots: "x \<in> set R \<Longrightarrow> live x \<Longrightarrow> x \<in> run g R"
    and run_closed: "x \<in> run g R \<Longrightarrow> y \<in> set (succs g x) \<Longrightarrow> live y \<Longrightarrow> y \<in> run g R"
    and run_sound: "run g R \<subseteq> reach (\<lambda>x. filter live (succs g x)) (set (filter live R))"
begin

lemma run_eq_reach: "run g R = reach (\<lambda>x. filter live (succs g x)) (set (filter live R))"
  by (rule reach_eqI [OF _ _ run_sound]) (auto intro: run_roots run_closed)

lemma run_mono: "set R \<subseteq> set S \<Longrightarrow> run g R \<subseteq> run g S"
  unfolding run_eq_reach by (rule reach_mono) auto

lemma run_append: "run g (R @ S) = run g R \<union> run g S"
  by (simp add: run_eq_reach reach_def Image_Un)

lemma run_again: "set S \<subseteq> run g R \<Longrightarrow> run g S \<subseteq> run g R"
  unfolding run_eq_reach by (rule reach_trans) auto

lemma run_order: "set R = set S \<Longrightarrow> run g R = run g S"
  by (simp add: run_eq_reach)

lemma run_live: "x \<in> run g R \<Longrightarrow> live x"
proof -
  have "reach (\<lambda>x. filter live (succs g x)) (set (filter live R)) \<subseteq> {x. live x}"
    by (rule reach_least) auto
  then show "x \<in> run g R \<Longrightarrow> live x" using run_sound by blast
qed

end

text \<open>
  The invariant of a walk with a stack or queue \<open>todo\<close> and the set \<open>seen\<close>: everything the
  roots and the seen entries demand is seen or waiting, and nothing unreachable is.
\<close>

definition search_inv :: "('a \<Rightarrow> 'a list) \<Rightarrow> 'a set \<Rightarrow> 'a set \<Rightarrow> 'a set \<Rightarrow> bool" where
  "search_inv succs R todo seen \<longleftrightarrow>
     R \<subseteq> seen \<union> todo \<and> (\<forall>x \<in> seen. set (succs x) \<subseteq> seen \<union> todo) \<and> seen \<union> todo \<subseteq> reach succs R"

lemma search_inv_start: "search_inv succs R R {}"
  by (auto simp: search_inv_def intro: reach_refl)

lemma search_inv_done: "search_inv succs R {} seen \<Longrightarrow> seen = reach succs R"
  by (rule reach_eqI) (auto simp: search_inv_def)

lemma search_inv_skip:
  "search_inv succs R (insert x todo) seen \<Longrightarrow> x \<in> seen \<Longrightarrow> search_inv succs R todo seen"
  by (auto simp: search_inv_def)

lemma search_inv_visit:
  assumes "search_inv succs R (insert x todo) seen"
  shows "search_inv succs R (todo \<union> set (succs x)) (insert x seen)"
  using assms reach_step [of x succs R] by (auto simp: search_inv_def)

subsection \<open>Recursive walks that may fail\<close>

text \<open>
  The depth first walks of the program are recursive functions that return \<^verbatim>\<open>false\<close> with an
  error, and change a state they share. The models take the recursion depth as fuel; the result
  is \<^const>\<open>None\<close> when it is used up, which the theorems exclude. \<open>each_ok\<close> is the \<^verbatim>\<open>for\<close> loop
  over the successors that stops at the first failure.
\<close>

fun each_ok :: "('a \<Rightarrow> 's \<Rightarrow> ('e + 's) option) \<Rightarrow> 'a list \<Rightarrow> 's \<Rightarrow> ('e + 's) option" where
  "each_ok f [] s = Some (Inr s)"
| "each_ok f (x # xs) s =
     (case f x s of
        None \<Rightarrow> None
      | Some (Inl e) \<Rightarrow> Some (Inl e)
      | Some (Inr s') \<Rightarrow> each_ok f xs s')"

definition outcome :: "('e \<Rightarrow> bool) \<Rightarrow> ('s \<Rightarrow> bool) \<Rightarrow> ('e + 's) option \<Rightarrow> bool" where
  "outcome E S r = (case r of None \<Rightarrow> False | Some (Inl e) \<Rightarrow> E e | Some (Inr s) \<Rightarrow> S s)"

lemma outcome_simps [simp]:
  "outcome E S None = False" "outcome E S (Some (Inl e)) = E e" "outcome E S (Some (Inr s)) = S s"
  by (simp_all add: outcome_def)

lemma outcome_cases:
  assumes "outcome E S r"
  obtains e where "r = Some (Inl e)" "E e" | s where "r = Some (Inr s)" "S s"
  using assms by (cases r; cases "the r") auto

lemma outcome_mono:
  "outcome E S r \<Longrightarrow> (\<And>e. E e \<Longrightarrow> E' e) \<Longrightarrow> (\<And>s. S s \<Longrightarrow> S' s) \<Longrightarrow> outcome E' S' r"
  by (auto simp: outcome_def split: option.splits sum.splits)

text \<open>The rule of the loop: \<open>J\<close> is its invariant, \<open>le\<close> the growth of the state, and \<open>D x\<close> what the
  step for \<open>x\<close> achieves and later steps keep.\<close>

lemma each_ok_rule:
  assumes step: "\<And>x s. x \<in> set xs \<Longrightarrow> J s \<Longrightarrow> outcome E (\<lambda>s'. J s' \<and> le s s' \<and> D x s') (f x s)"
    and keep: "\<And>x s s'. D x s \<Longrightarrow> le s s' \<Longrightarrow> D x s'"
    and refl: "\<And>s. le s s" and trans: "\<And>s t u. le s t \<Longrightarrow> le t u \<Longrightarrow> le s u"
    and start: "J s"
  shows "outcome E (\<lambda>s'. J s' \<and> le s s' \<and> (\<forall>x \<in> set xs. D x s')) (each_ok f xs s)"
  using step start
proof (induction xs arbitrary: s)
  case Nil
  then show ?case by (simp add: refl)
next
  case (Cons x xs)
  have "outcome E (\<lambda>s'. J s' \<and> le s s' \<and> D x s') (f x s)" using Cons.prems by simp
  then show ?case
  proof (cases rule: outcome_cases)
    case (2 t)
    have "outcome E (\<lambda>s'. J s' \<and> le t s' \<and> (\<forall>x \<in> set xs. D x s')) (each_ok f xs t)"
      using Cons.IH [of t] Cons.prems(1) 2(2) by simp
    then have "outcome E (\<lambda>s'. J s' \<and> le s s' \<and> (\<forall>y \<in> set (x # xs). D y s')) (each_ok f xs t)"
      by (rule outcome_mono) (use 2(2) keep trans in auto)
    with 2(1) show ?thesis by simp
  qed simp
qed

subsection \<open>Recursive walks with a set of visited entries\<close>

text \<open>A loop over the successors whose body may run out of fuel.\<close>

fun each_opt :: "('a \<Rightarrow> 's \<Rightarrow> 's option) \<Rightarrow> 'a list \<Rightarrow> 's \<Rightarrow> 's option" where
  "each_opt f [] s = Some s"
| "each_opt f (x # xs) s = (case f x s of None \<Rightarrow> None | Some s' \<Rightarrow> each_opt f xs s')"

lemma each_opt_append:
  "each_opt f (xs @ ys) s = (case each_opt f xs s of None \<Rightarrow> None | Some t \<Rightarrow> each_opt f ys t)"
  by (induction xs arbitrary: s) (auto split: option.splits)

text \<open>
  The walk that marks an entry, then recurs into its successors. The entries that have successors
  are finitely many, and one more than their number is fuel enough.
\<close>

locale recursive_walk =
  fixes succs :: "'a \<Rightarrow> 'a list"
    and live :: "'a \<Rightarrow> bool"
    and seen :: "'s \<Rightarrow> 'a set"
    and mark :: "'a \<Rightarrow> 's \<Rightarrow> 's"
    and visit :: "nat \<Rightarrow> 'a \<Rightarrow> 's \<Rightarrow> 's option"
  assumes visit_Suc: "visit (Suc n) x s =
      (if \<not> live x \<or> x \<in> seen s then Some s else each_opt (visit n) (succs x) (mark x s))"
    and seen_mark: "seen (mark x s) = insert x (seen s)"
    and finite_sources: "finite {x. succs x \<noteq> []}"
begin

definition next_live :: "'a \<Rightarrow> 'a list" where
  "next_live x = filter live (succs x)"

definition todo :: "'s \<Rightarrow> 'a set" where
  "todo s = {x. succs x \<noteq> []} - seen s"

text \<open>What a walk from the entries \<open>R\<close> does to the state.\<close>

definition walked :: "'a set \<Rightarrow> 's \<Rightarrow> 's \<Rightarrow> bool" where
  "walked R s t \<longleftrightarrow> seen s \<subseteq> seen t \<and> {x \<in> R. live x} \<subseteq> seen t \<and>
     (\<forall>x \<in> seen t - seen s. set (next_live x) \<subseteq> seen t) \<and>
     seen t \<subseteq> seen s \<union> reach next_live {x \<in> R. live x}"

lemma todo_anti: "seen s \<subseteq> seen t \<Longrightarrow> card (todo t) \<le> card (todo s)"
  unfolding todo_def by (rule card_mono) (use finite_sources in auto)

lemma walked_trans:
  assumes "walked {x} s t" and "walked R t u"
  shows "walked (insert x R) s u"
proof -
  have m: "reach next_live {y \<in> {x}. live y} \<union> reach next_live {y \<in> R. live y} \<subseteq>
      reach next_live {y \<in> insert x R. live y}"
    by (intro Un_least reach_mono) auto
  show ?thesis using assms m unfolding walked_def by blast
qed

lemma each_walked:
  assumes step: "\<And>x s. x \<in> set xs \<Longrightarrow> card (todo s) < n \<Longrightarrow> \<exists>t. f x s = Some t \<and> walked {x} s t"
    and "card (todo s) < n"
  shows "\<exists>t. each_opt f xs s = Some t \<and> walked (set xs) s t"
  using assms
proof (induction xs arbitrary: s)
  case Nil
  then show ?case by (simp add: walked_def)
next
  case (Cons x xs)
  then obtain t where t: "f x s = Some t" "walked {x} s t" by fastforce
  then have "card (todo t) < n" using todo_anti [of s t] Cons.prems(2) by (simp add: walked_def)
  then obtain u where "each_opt f xs t = Some u" "walked (set xs) t u"
    using Cons.IH [of t] Cons.prems(1) by auto
  with t walked_trans [OF t(2)] show ?case by auto
qed

lemma visit_walked: "card (todo s) < n \<Longrightarrow> \<exists>t. visit n x s = Some t \<and> walked {x} s t"
proof (induction n arbitrary: x s)
  case (Suc n)
  show ?case
  proof (cases "\<not> live x \<or> x \<in> seen s")
    case True
    then show ?thesis by (auto simp: visit_Suc walked_def)
  next
    case False
    let ?s = "mark x s"
    have "\<exists>t. each_opt (visit n) (succs x) ?s = Some t \<and> walked (set (succs x)) ?s t"
    proof (cases "succs x = []")
      case True
      then show ?thesis by (simp add: walked_def)
    next
      case more: False
      have "todo ?s = todo s - {x}" by (auto simp: todo_def seen_mark)
      moreover have "x \<in> todo s" using False more by (simp add: todo_def)
      moreover have "finite (todo s)" using finite_sources by (simp add: todo_def)
      ultimately have "card (todo ?s) < n"
        using Suc.prems card_Suc_Diff1 [of "todo s" x] by simp
      then show ?thesis using Suc.IH by (intro each_walked) auto
    qed
    then obtain t where t: "each_opt (visit n) (succs x) ?s = Some t" "walked (set (succs x)) ?s t"
      by blast
    have sub: "reach next_live {y \<in> set (succs x). live y} \<subseteq> reach next_live {x}"
      by (rule reach_trans) (auto simp: next_live_def intro: reach_step reach_refl)
    have "set (next_live x) \<subseteq> seen t" using t(2) by (auto simp: walked_def next_live_def)
    moreover have "insert x (seen s) \<subseteq> seen t" "seen t \<subseteq> insert x (seen s) \<union> reach next_live {y \<in> set (succs x). live y}"
      "\<forall>y \<in> seen t - insert x (seen s). set (next_live y) \<subseteq> seen t"
      using t(2) unfolding walked_def seen_mark by blast+
    moreover have "{y \<in> {x}. live y} = {x}" using False by blast
    moreover have "x \<in> reach next_live {x}" by (rule reach_refl) simp
    ultimately have "walked {x} s t" unfolding walked_def using sub by auto
    then show ?thesis using t(1) False by (simp add: visit_Suc)
  qed
qed simp

theorem walk_reach:
  assumes "card {x. succs x \<noteq> []} < n" and "seen s = {}"
  shows "\<exists>t. each_opt (visit n) R s = Some t \<and> seen t = reach next_live {x \<in> set R. live x}"
proof -
  have "card (todo s) < n" using assms by (simp add: todo_def)
  then obtain t where t: "each_opt (visit n) R s = Some t" "walked (set R) s t"
    using each_walked [of R n "visit n" s] visit_walked by blast
  have "seen t = reach next_live {x \<in> set R. live x}"
    by (rule reach_eqI) (use t(2) assms(2) in \<open>auto simp: walked_def\<close>)
  with t(1) show ?thesis by blast
qed

end

end
