(* ===== verification/Build_Targets.thy ===== *)
theory Build_Targets
  imports Toml_Edit Graph_Search "HOL-Library.Multiset"
begin

text \<open>
  The \<^verbatim>\<open>[[bin]]\<close> and \<^verbatim>\<open>[[lib]]\<close> targets of a manifest (\<^verbatim>\<open>src/package_manager.cpp\<close>): reading them,
  ordering them so that libraries are built before what depends on them, and the libraries a
  target links.
\<close>

datatype target_kind = Executable | Dynamic_library | Static_library

record build_target =
  tgt_name :: string
  tgt_entry :: string
  tgt_kind :: target_kind
  invalidLibraryType :: string
  hasInvalidLibraryType :: bool
  tgt_dependsOn :: "string list"
  tgt_config :: build_config

definition default_target :: "target_kind \<Rightarrow> build_target" where
  "default_target k =
     \<lparr>tgt_name = [], tgt_entry = [], tgt_kind = k, invalidLibraryType = [],
      hasInvalidLibraryType = False, tgt_dependsOn = [], tgt_config = default_build_config\<rparr>"

subsection \<open>Reading\<close>

type_synonym target_reader = "build_target option \<times> build_target list"

definition flush_target :: "target_reader \<Rightarrow> build_target list" where
  "flush_target s = snd s @ (case fst s of None \<Rightarrow> [] | Some t \<Rightarrow> [t])"

definition target_header :: "target_reader \<Rightarrow> string \<Rightarrow> (target_reader, 'r) flow option" where
  "target_header s t =
     (if t = ''[[bin]]'' \<or> t = ''[[lib]]''
      then Some (Continue (Some (default_target (if t = ''[[lib]]'' then Dynamic_library else Executable)),
             flush_target s))
      else if is_header t then Some (Continue (None, flush_target s))
      else None)"

definition set_library_type :: "string \<Rightarrow> build_target \<Rightarrow> build_target" where
  "set_library_type libraryType t =
     (if libraryType = ''static'' then t\<lparr>tgt_kind := Static_library\<rparr>
      else if libraryType = ''dynamic'' \<or> libraryType = ''shared'' then t\<lparr>tgt_kind := Dynamic_library\<rparr>
      else t\<lparr>invalidLibraryType := libraryType, hasInvalidLibraryType := True\<rparr>)"

definition target_key_value :: "string \<Rightarrow> string \<Rightarrow> build_target \<Rightarrow> build_target" where
  "target_key_value key value t =
     (if key = ''name'' then t\<lparr>tgt_name := unquote value\<rparr>
      else if key = ''entry'' then t\<lparr>tgt_entry := unquote value\<rparr>
      else if key = ''depends_on'' then t\<lparr>tgt_dependsOn := tgt_dependsOn t @ toml_string_list value\<rparr>
      else if key = ''type'' \<and> tgt_kind t \<noteq> Executable then set_library_type (unquote value) t
      else t\<lparr>tgt_config := parse_build_config_key_value key value (tgt_config t)\<rparr>)"

definition target_assign ::
  "target_reader \<Rightarrow> string \<Rightarrow> toml_assignment \<Rightarrow> (target_reader, 'r) flow" where
  "target_assign s t a =
     Continue (map_option (target_key_value (asg_key a) (asg_value a)) (fst s), snd s)"

definition parse_build_targets :: "string \<Rightarrow> build_target list" where
  "parse_build_targets content =
     flow_result flush_target
       (toml_loop target_header (\<lambda>s. fst s \<noteq> None) target_assign (None, []) (getlines content))"

subsection \<open>Ordering\<close>

datatype target_error =
    Duplicate_name string
  | Dependency_cycle string
  | Unknown_target string string
  | Not_a_library string string

text \<open>The message of an error; the manifest's path is only printed.\<close>

definition quoted :: "string \<Rightarrow> string" where
  "quoted s = squote # s @ [squote]"

fun target_error_text :: "string \<Rightarrow> target_error \<Rightarrow> string" where
  "target_error_text manifestPath (Duplicate_name n) =
     ''Duplicate package target name '' @ quoted n @ '' in '' @ manifestPath"
| "target_error_text manifestPath (Dependency_cycle n) =
     ''Package target dependency cycle involving '' @ quoted n @ '' in '' @ manifestPath"
| "target_error_text manifestPath (Unknown_target d n) =
     ''Unknown package target '' @ quoted d @ '' in depends_on for target '' @ quoted n"
| "target_error_text manifestPath (Not_a_library n d) =
     ''Package target '' @ quoted n @ '' can only depend_on [[lib]] targets; '' @ quoted d @
     '' is not a library''"

text \<open>\<^verbatim>\<open>byName\<close>: the index of each named target, or the first name met twice.\<close>

fun index_targets :: "nat \<Rightarrow> build_target list \<Rightarrow> (string, nat) omap \<Rightarrow> target_error + (string, nat) omap" where
  "index_targets i [] m = Inr m"
| "index_targets i (t # ts) m =
     (if tgt_name t = [] then index_targets (Suc i) ts m
      else if omap_find m (tgt_name t) \<noteq> None then Inl (Duplicate_name (tgt_name t))
      else index_targets (Suc i) ts (omap_put (tgt_name t) i m))"

text \<open>\<^verbatim>\<open>state\<close> is 0 for a target not met, 1 for one being visited, 2 for one done.\<close>

type_synonym visit_state = "nat list \<times> build_target list"

fun visit_target ::
  "nat \<Rightarrow> build_target list \<Rightarrow> (string, nat) omap \<Rightarrow> nat \<Rightarrow> visit_state \<Rightarrow> (target_error + visit_state) option" where
  "visit_target 0 targets byName index s = None"
| "visit_target (Suc fuel) targets byName index s =
     (if fst s ! index = 2 then Some (Inr s)
      else if fst s ! index = 1 then Some (Inl (Dependency_cycle (tgt_name (targets ! index))))
      else
        (case each_ok
            (\<lambda>d s. case omap_find byName d of
                None \<Rightarrow> Some (Inl (Unknown_target d (tgt_name (targets ! index))))
              | Some j \<Rightarrow>
                  if tgt_kind (targets ! j) = Executable
                  then Some (Inl (Not_a_library (tgt_name (targets ! index)) d))
                  else visit_target fuel targets byName j s)
            (tgt_dependsOn (targets ! index)) ((fst s)[index := 1], snd s) of
           None \<Rightarrow> None
         | Some (Inl e) \<Rightarrow> Some (Inl e)
         | Some (Inr s') \<Rightarrow> Some (Inr ((fst s')[index := 2], snd s' @ [targets ! index]))))"

text \<open>The recursion visits a target that is not being visited yet, so its depth is at most the
  number of targets and one more call for the target found visited.\<close>

definition order_build_targets :: "build_target list \<Rightarrow> (target_error + build_target list) option" where
  "order_build_targets targets =
     (case index_targets 0 targets omap_empty of
        Inl e \<Rightarrow> Some (Inl e)
      | Inr byName \<Rightarrow>
          map_option (map_sum id snd)
            (each_ok (visit_target (Suc (length targets)) targets byName) [0..<length targets]
              (replicate (length targets) 0, [])))"

subsection \<open>File names and link dependencies\<close>

datatype host_os = Apple | Windows | Other_os

fun dynamic_library_filename :: "host_os \<Rightarrow> string \<Rightarrow> string" where
  "dynamic_library_filename Apple name = ''lib'' @ name @ ''.dylib''"
| "dynamic_library_filename Windows name = name @ ''.dll''"
| "dynamic_library_filename Other_os name = ''lib'' @ name @ ''.so''"

definition static_library_filename :: "string \<Rightarrow> string" where
  "static_library_filename name = ''lib'' @ name @ ''.a''"

subsection \<open>The index of names\<close>

definition indexes :: "build_target list \<Rightarrow> (string, nat) omap \<Rightarrow> bool" where
  "indexes ts m \<longleftrightarrow> omap_wf m \<and>
     (\<forall>n k. omap_find m n = Some k \<longleftrightarrow> k < length ts \<and> tgt_name (ts ! k) = n \<and> n \<noteq> [])"

lemma indexes_empty: "indexes [] omap_empty"
  by (simp add: indexes_def om.find_empty)

lemma indexes_unnamed: "indexes pre m \<Longrightarrow> tgt_name t = [] \<Longrightarrow> indexes (pre @ [t]) m"
  by (auto simp: indexes_def nth_append less_Suc_eq)

lemma indexes_named:
  assumes "indexes pre m" and "tgt_name t \<noteq> []" and "omap_find m (tgt_name t) = None"
  shows "indexes (pre @ [t]) (omap_put (tgt_name t) (length pre) m)"
  using assms unfolding indexes_def
  by (auto simp: omap_wf_put omap_find_put nth_append less_Suc_eq) (metis option.distinct(1))+

lemma index_targets_sound:
  assumes "indexes pre m"
  shows "case index_targets (length pre) ts m of
      Inr m' \<Rightarrow> indexes (pre @ ts) m'
    | Inl e \<Rightarrow> \<exists>i j. i < j \<and> j < length (pre @ ts) \<and> tgt_name ((pre @ ts) ! i) = tgt_name ((pre @ ts) ! j) \<and>
        e = Duplicate_name (tgt_name ((pre @ ts) ! j))"
  using assms
proof (induction ts arbitrary: pre m)
  case (Cons t ts)
  show ?case
  proof (cases "tgt_name t \<noteq> [] \<and> omap_find m (tgt_name t) \<noteq> None")
    case True
    then obtain k where "k < length pre" "tgt_name (pre ! k) = tgt_name t"
      using Cons.prems by (auto simp: indexes_def)
    then have ex: "k < length pre \<and> length pre < length (pre @ t # ts) \<and>
        tgt_name ((pre @ t # ts) ! k) = tgt_name ((pre @ t # ts) ! length pre) \<and>
        Duplicate_name (tgt_name t) = Duplicate_name (tgt_name ((pre @ t # ts) ! length pre))"
      by (simp add: nth_append)
    have run: "index_targets (length pre) (t # ts) m = Inl (Duplicate_name (tgt_name t))"
      using True by simp
    show ?thesis unfolding run sum.case using ex by blast
  next
    case False
    define m' where "m' = (if tgt_name t = [] then m else omap_put (tgt_name t) (length pre) m)"
    have "indexes (pre @ [t]) m'"
      using False Cons.prems indexes_unnamed indexes_named by (auto simp: m'_def)
    note IH = Cons.IH [OF this]
    have run: "index_targets (length pre) (t # ts) m = index_targets (length (pre @ [t])) ts m'"
      using False by (auto simp: m'_def)
    have app: "pre @ t # ts = (pre @ [t]) @ ts" by simp
    show ?thesis unfolding run app by (rule IH)
  qed
qed simp

subsection \<open>The visits\<close>

definition marked :: "nat \<Rightarrow> nat list \<Rightarrow> nat set" where
  "marked c st = {i. i < length st \<and> st ! i = c}"

definition unvisited :: "nat list \<Rightarrow> nat set" where
  "unvisited st = {i. i < length st \<and> st ! i \<noteq> 1 \<and> st ! i \<noteq> 2}"

lemma marked_update:
  "i < length st \<Longrightarrow> marked c (st[i := d]) = (if c = d then insert i (marked c st) else marked c st - {i})"
  by (auto simp: marked_def nth_list_update)

lemma unvisited_update: "d \<in> {1, 2} \<Longrightarrow> unvisited (st[i := d]) = unvisited st - {i}"
  by (cases "i < length st") (auto simp: unvisited_def nth_list_update split: if_splits)

lemma finite_unvisited [simp]: "finite (unvisited st)"
  by (simp add: unvisited_def)

text \<open>Target \<open>i\<close> names \<open>j\<close> in its \<^verbatim>\<open>depends_on\<close>.\<close>

definition target_rel :: "build_target list \<Rightarrow> (string, nat) omap \<Rightarrow> (nat \<times> nat) set" where
  "target_rel ts m = {(i, j). \<exists>d \<in> set (tgt_dependsOn (ts ! i)). omap_find m d = Some j}"

definition dep_ready :: "build_target list \<Rightarrow> (string, nat) omap \<Rightarrow> nat list \<Rightarrow> nat \<Rightarrow> bool" where
  "dep_ready ts m js i \<longleftrightarrow>
     (\<forall>d \<in> set (tgt_dependsOn (ts ! i)). \<exists>j. omap_find m d = Some j \<and> tgt_kind (ts ! j) \<noteq> Executable \<and> before js j i)"

definition visit_inv :: "build_target list \<Rightarrow> (string, nat) omap \<Rightarrow> visit_state \<Rightarrow> bool" where
  "visit_inv ts m s \<longleftrightarrow> length (fst s) = length ts \<and>
     (\<exists>js. snd s = map (nth ts) js \<and> distinct js \<and> set js = marked 2 (fst s) \<and>
        (\<forall>i \<in> set js. dep_ready ts m js i))"

definition visit_le :: "visit_state \<Rightarrow> visit_state \<Rightarrow> bool" where
  "visit_le s t \<longleftrightarrow> marked 2 (fst s) \<subseteq> marked 2 (fst t) \<and> marked 1 (fst t) = marked 1 (fst s) \<and>
     unvisited (fst t) \<subseteq> unvisited (fst s)"

text \<open>What each error reports.\<close>

fun target_error_ok :: "build_target list \<Rightarrow> (string, nat) omap \<Rightarrow> target_error \<Rightarrow> bool" where
  "target_error_ok ts m (Duplicate_name n) = False"
| "target_error_ok ts m (Dependency_cycle n) =
     (\<exists>i < length ts. tgt_name (ts ! i) = n \<and> (i, i) \<in> (target_rel ts m)\<^sup>+)"
| "target_error_ok ts m (Unknown_target d n) =
     (\<exists>i < length ts. tgt_name (ts ! i) = n \<and> d \<in> set (tgt_dependsOn (ts ! i)) \<and> omap_find m d = None)"
| "target_error_ok ts m (Not_a_library n d) =
     (\<exists>i < length ts. tgt_name (ts ! i) = n \<and> d \<in> set (tgt_dependsOn (ts ! i)) \<and>
        (\<exists>j. omap_find m d = Some j \<and> tgt_kind (ts ! j) = Executable))"

lemma dep_ready_snoc: "dep_ready ts m js i \<Longrightarrow> dep_ready ts m (js @ [k]) i"
  unfolding dep_ready_def by (meson before_snoc_old)

lemma visit_inv_mark:
  assumes "visit_inv ts m s" and "i < length ts" and "fst s ! i \<noteq> 2"
  shows "visit_inv ts m ((fst s)[i := 1], snd s)"
proof -
  have "marked 2 ((fst s)[i := 1]) = marked 2 (fst s)"
    using assms by (simp add: visit_inv_def marked_update) (simp add: marked_def)
  with assms(1) show ?thesis by (simp add: visit_inv_def)
qed

lemma visit_inv_finish:
  assumes inv: "visit_inv ts m s" and i: "i \<in> marked 1 (fst s)"
    and deps: "\<forall>d \<in> set (tgt_dependsOn (ts ! i)). \<exists>j. omap_find m d = Some j \<and>
      tgt_kind (ts ! j) \<noteq> Executable \<and> j \<in> marked 2 (fst s)"
  shows "visit_inv ts m ((fst s)[i := 2], snd s @ [ts ! i])"
proof -
  obtain js where js_facts: "snd s = map (nth ts) js" "distinct js" "set js = marked 2 (fst s)"
    "\<forall>k \<in> set js. dep_ready ts m js k" using inv by (auto simp: visit_inv_def)
  have len: "i < length (fst s)" using i by (simp add: marked_def)
  have new: "i \<notin> marked 2 (fst s)" using i by (simp add: marked_def)
  have "dep_ready ts m (js @ [i]) i"
    unfolding dep_ready_def using deps js_facts(3) before_snoc_new by metis
  with js_facts have "\<forall>k \<in> set (js @ [i]). dep_ready ts m (js @ [i]) k" by (auto intro: dep_ready_snoc)
  moreover have "set (js @ [i]) = marked 2 ((fst s)[i := 2])"
    using js_facts(3) len by (auto simp: marked_update)
  moreover have "distinct (js @ [i])" using js_facts new by simp
  moreover have "snd s @ [ts ! i] = map (nth ts) (js @ [i])" using js_facts(1) by simp
  ultimately show ?thesis using inv unfolding visit_inv_def fst_conv snd_conv length_list_update by blast
qed

lemma visit_target_spec:
  assumes range: "\<And>d j. omap_find m d = Some j \<Longrightarrow> j < length ts"
  shows "visit_inv ts m s \<Longrightarrow> i < length ts \<Longrightarrow> \<forall>g \<in> marked 1 (fst s). (g, i) \<in> (target_rel ts m)\<^sup>+ \<Longrightarrow>
    card (unvisited (fst s)) < fuel \<Longrightarrow>
    outcome (target_error_ok ts m) (\<lambda>t. visit_inv ts m t \<and> visit_le s t \<and> i \<in> marked 2 (fst t))
      (visit_target fuel ts m i s)"
proof (induction fuel arbitrary: i s)
  case (Suc fuel)
  note inv = Suc.prems(1) and i = Suc.prems(2) and grey = Suc.prems(3) and card = Suc.prems(4)
  have len: "length (fst s) = length ts" using inv by (simp add: visit_inv_def)
  consider (done_) "fst s ! i = 2" | (active) "fst s ! i = 1" | (new) "fst s ! i \<noteq> 1" "fst s ! i \<noteq> 2" by blast
  then show ?case
  proof cases
    case done_
    then show ?thesis using inv i len by (simp add: visit_le_def marked_def)
  next
    case active
    then have "i \<in> marked 1 (fst s)" using i len by (simp add: marked_def)
    with grey i active show ?thesis by auto
  next
    case new
    let ?s1 = "((fst s)[i := 1], snd s)"
    let ?f = "\<lambda>d s. case omap_find m d of
        None \<Rightarrow> Some (Inl (Unknown_target d (tgt_name (ts ! i))))
      | Some j \<Rightarrow> if tgt_kind (ts ! j) = Executable then Some (Inl (Not_a_library (tgt_name (ts ! i)) d))
          else visit_target fuel ts m j s"
    let ?D = "\<lambda>d t. \<exists>j. omap_find m d = Some j \<and> tgt_kind (ts ! j) \<noteq> Executable \<and> j \<in> marked 2 (fst t)"
    have g1: "marked 1 (fst ?s1) = insert i (marked 1 (fst s))" using i len by (simp add: marked_update)
    have u1: "unvisited (fst ?s1) = unvisited (fst s) - {i}" by (simp add: unvisited_update)
    have "i \<in> unvisited (fst s)" using new i len by (simp add: unvisited_def)
    then have card1: "card (unvisited (fst ?s1)) < fuel"
      using card u1 by (simp add: card_Diff_singleton) (metis Suc_pred card_gt_0_iff empty_iff finite_unvisited less_Suc_eq_0_disj not_less_eq)
    have "outcome (target_error_ok ts m)
        (\<lambda>t. (visit_inv ts m t \<and> visit_le ?s1 t) \<and> visit_le ?s1 t \<and> (\<forall>d \<in> set (tgt_dependsOn (ts ! i)). ?D d t))
        (each_ok ?f (tgt_dependsOn (ts ! i)) ?s1)"
    proof (rule each_ok_rule [where le = visit_le])
      fix d t assume d: "d \<in> set (tgt_dependsOn (ts ! i))" and J: "visit_inv ts m t \<and> visit_le ?s1 t"
      show "outcome (target_error_ok ts m)
          (\<lambda>u. (visit_inv ts m u \<and> visit_le ?s1 u) \<and> visit_le t u \<and> ?D d u) (?f d t)"
      proof (cases "omap_find m d")
        case None
        with d i show ?thesis by auto
      next
        case (Some j)
        show ?thesis
        proof (cases "tgt_kind (ts ! j) = Executable")
          case True
          with Some d i show ?thesis by auto
        next
          case lib: False
          have ij: "(i, j) \<in> target_rel ts m" using d Some by (auto simp: target_rel_def)
          have "marked 1 (fst t) = insert i (marked 1 (fst s))" using J g1 by (simp add: visit_le_def)
          then have "\<forall>g \<in> marked 1 (fst t). (g, j) \<in> (target_rel ts m)\<^sup>+"
            using grey ij by (auto intro: trancl_into_trancl)
          moreover have "card (unvisited (fst t)) < fuel"
            using J card1 card_mono [of "unvisited (fst ?s1)" "unvisited (fst t)"]
            by (simp add: visit_le_def)
          ultimately have "outcome (target_error_ok ts m)
              (\<lambda>u. visit_inv ts m u \<and> visit_le t u \<and> j \<in> marked 2 (fst u)) (visit_target fuel ts m j t)"
            using Suc.IH J range [OF Some] by blast
          then have "outcome (target_error_ok ts m)
              (\<lambda>u. (visit_inv ts m u \<and> visit_le ?s1 u) \<and> visit_le t u \<and> ?D d u) (visit_target fuel ts m j t)"
            by (rule outcome_mono) (use J Some lib in \<open>auto simp: visit_le_def\<close>)
          with Some lib show ?thesis by simp
        qed
      qed
    qed (use inv i new visit_inv_mark in \<open>auto simp: visit_le_def\<close>)
    then show ?thesis
    proof (cases rule: outcome_cases)
      case (1 e)
      with new show ?thesis by simp
    next
      case (2 t)
      then have t: "visit_inv ts m t" "visit_le ?s1 t" and D: "\<forall>d \<in> set (tgt_dependsOn (ts ! i)). ?D d t"
        by auto
      have im: "i \<in> marked 1 (fst t)" using t g1 by (simp add: visit_le_def)
      let ?u = "((fst t)[i := 2], snd t @ [ts ! i])"
      have it: "i < length (fst t)" using im by (simp add: marked_def)
      have inot: "i \<notin> marked 1 (fst s)" "i \<notin> marked 2 (fst s)" using new by (simp_all add: marked_def)
      have "marked 2 (fst s) \<subseteq> marked 2 (fst ?s1)" using inot i len by (simp add: marked_update)
      then have "visit_le s ?u"
        using t g1 u1 it inot by (auto simp: visit_le_def marked_update unvisited_update)
      moreover have "visit_inv ts m ?u" by (rule visit_inv_finish [OF t(1) im D])
      moreover have "i \<in> marked 2 (fst ?u)" using it by (simp add: marked_update)
      ultimately show ?thesis using 2(1) new by simp
    qed
  qed
qed simp

subsection \<open>The order is correct\<close>

text \<open>The vocabulary of the specification: \<open>j\<close> is the target called \<open>d\<close>, the edges of the
  dependency graph, and what a reported problem means.\<close>

definition called :: "build_target list \<Rightarrow> string \<Rightarrow> nat \<Rightarrow> bool" where
  "called ts d j \<longleftrightarrow> j < length ts \<and> tgt_name (ts ! j) = d \<and> d \<noteq> []"

definition target_edges :: "build_target list \<Rightarrow> (nat \<times> nat) set" where
  "target_edges ts = {(i, j). \<exists>d \<in> set (tgt_dependsOn (ts ! i)). called ts d j}"

fun target_problem :: "build_target list \<Rightarrow> target_error \<Rightarrow> bool" where
  "target_problem ts (Duplicate_name n) = (\<exists>i j. i < j \<and> called ts n i \<and> called ts n j)"
| "target_problem ts (Dependency_cycle n) =
     (\<exists>i < length ts. tgt_name (ts ! i) = n \<and> (i, i) \<in> (target_edges ts)\<^sup>+)"
| "target_problem ts (Unknown_target d n) =
     (\<exists>i < length ts. tgt_name (ts ! i) = n \<and> d \<in> set (tgt_dependsOn (ts ! i)) \<and> \<not> (\<exists>j. called ts d j))"
| "target_problem ts (Not_a_library n d) =
     (\<exists>i < length ts. tgt_name (ts ! i) = n \<and> d \<in> set (tgt_dependsOn (ts ! i)) \<and>
        (\<exists>j. called ts d j \<and> tgt_kind (ts ! j) = Executable))"

definition dependencies_first :: "build_target list \<Rightarrow> build_target list \<Rightarrow> bool" where
  "dependencies_first ts ordered \<longleftrightarrow>
     (\<exists>js. ordered = map (nth ts) js \<and> distinct js \<and> set js = {..<length ts} \<and>
        (\<forall>i < length ts. \<forall>d \<in> set (tgt_dependsOn (ts ! i)).
           \<exists>j. called ts d j \<and> tgt_kind (ts ! j) \<noteq> Executable \<and> before js j i))"

lemma indexes_called: "indexes ts m \<Longrightarrow> omap_find m d = Some j \<longleftrightarrow> called ts d j"
  by (auto simp: indexes_def called_def)

lemma indexes_unique: "indexes ts m \<Longrightarrow> called ts n i \<Longrightarrow> called ts n j \<Longrightarrow> i = j"
  using indexes_called by (metis option.inject)

lemma indexes_edges: "indexes ts m \<Longrightarrow> target_rel ts m = target_edges ts"
  by (simp add: target_rel_def target_edges_def indexes_called)

lemma indexes_problem: "indexes ts m \<Longrightarrow> target_error_ok ts m e \<Longrightarrow> target_problem ts e"
  by (cases e) (auto simp: indexes_edges indexes_called, metis indexes_called not_None_eq)

lemma index_targets_start:
  "case index_targets 0 ts omap_empty of Inr m \<Rightarrow> indexes ts m | Inl e \<Rightarrow> target_problem ts e"
proof (cases "index_targets 0 ts omap_empty")
  case (Inl e)
  then obtain i j where "i < j" "j < length ts" "tgt_name (ts ! i) = tgt_name (ts ! j)"
      "e = Duplicate_name (tgt_name (ts ! j))"
    using index_targets_sound [OF indexes_empty, of ts] by auto
  moreover have "n \<noteq> []" if "index_targets k us m = Inl (Duplicate_name n)" for k us m n
    using that by (induction k us m rule: index_targets.induct) (auto split: if_splits)
  ultimately have "i < j" "called ts (tgt_name (ts ! j)) i" "called ts (tgt_name (ts ! j)) j"
      "e = Duplicate_name (tgt_name (ts ! j))"
    using Inl by (auto simp: called_def)
  then show ?thesis unfolding Inl by auto
next
  case (Inr m)
  then show ?thesis using index_targets_sound [OF indexes_empty, of ts] by simp
qed

lemma order_run:
  assumes m: "indexes ts m"
  shows "outcome (target_error_ok ts m)
    (\<lambda>s. visit_inv ts m s \<and> (\<forall>i < length ts. i \<in> marked 2 (fst s)))
    (each_ok (visit_target (Suc (length ts)) ts m) [0..<length ts] (replicate (length ts) 0, []))"
proof -
  let ?s0 = "(replicate (length ts) 0, [])"
  have range: "omap_find m d = Some j \<Longrightarrow> j < length ts" for d j using m by (simp add: indexes_def)
  have i0: "visit_inv ts m ?s0" by (auto simp: visit_inv_def marked_def)
  have m0: "marked 1 (fst ?s0) = {}" by (auto simp: marked_def)
  have u: "card (unvisited st) < Suc (length ts)" if "length st = length ts" for st
  proof -
    have "unvisited st \<subseteq> {..<length ts}" using that by (auto simp: unvisited_def)
    then show ?thesis using card_mono [of "{..<length ts}"] by (simp add: less_Suc_eq_le)
  qed
  have "outcome (target_error_ok ts m)
      (\<lambda>s. (visit_inv ts m s \<and> marked 1 (fst s) = {}) \<and> visit_le ?s0 s \<and>
        (\<forall>i \<in> set [0..<length ts]. i \<in> marked 2 (fst s)))
      (each_ok (visit_target (Suc (length ts)) ts m) [0..<length ts] ?s0)"
  proof (rule each_ok_rule [where le = visit_le])
    fix i s assume i: "i \<in> set [0..<length ts]" and J: "visit_inv ts m s \<and> marked 1 (fst s) = {}"
    then have "outcome (target_error_ok ts m) (\<lambda>t. visit_inv ts m t \<and> visit_le s t \<and> i \<in> marked 2 (fst t))
        (visit_target (Suc (length ts)) ts m i s)"
      using visit_target_spec [OF range, where s = s and i = i and fuel = "Suc (length ts)"] u by (simp add: visit_inv_def)
    then show "outcome (target_error_ok ts m)
        (\<lambda>t. (visit_inv ts m t \<and> marked 1 (fst t) = {}) \<and> visit_le s t \<and> i \<in> marked 2 (fst t))
        (visit_target (Suc (length ts)) ts m i s)"
      by (rule outcome_mono) (use J in \<open>auto simp: visit_le_def\<close>)
  qed (use i0 m0 in \<open>auto simp: visit_le_def\<close>)
  then show ?thesis by (rule outcome_mono) auto
qed

lemma dependencies_first_problem_free:
  assumes first: "dependencies_first ts ordered" and m: "indexes ts m"
  shows "\<not> target_problem ts e"
proof -
  obtain js where js: "distinct js" "set js = {..<length ts}" and
    deps: "\<And>i d. i < length ts \<Longrightarrow> d \<in> set (tgt_dependsOn (ts ! i)) \<Longrightarrow>
      \<exists>j. called ts d j \<and> tgt_kind (ts ! j) \<noteq> Executable \<and> before js j i"
    using first unfolding dependencies_first_def by blast
  have edge: "before js j i" if "(i, j) \<in> target_edges ts" "i < length ts" for i j
    using deps that indexes_unique [OF m] unfolding target_edges_def by blast
  have path: "before js j i" if "(i, j) \<in> (target_edges ts)\<^sup>+" "i < length ts" for i j
    using that
  proof (induction rule: trancl_induct)
    case (base j)
    then show ?case by (rule edge)
  next
    case (step j k)
    then have ji: "before js j i" by simp
    then have "j < length ts" using js(2) before_in_set [OF ji] by simp
    with step(2) have "before js k j" by (rule edge)
    from before_trans [OF this ji js(1)] show ?case .
  qed
  show ?thesis
  proof (cases e)
    case (Duplicate_name n)
    have "i = j" if "called ts n i" "called ts n j" for i j using indexes_unique [OF m that] .
    then show ?thesis unfolding Duplicate_name target_problem.simps by (metis less_irrefl)
  next
    case (Dependency_cycle n)
    have "(i, i) \<notin> (target_edges ts)\<^sup>+" if "i < length ts" for i
      using path [of i i] that before_irrefl [OF js(1)] by blast
    then show ?thesis unfolding Dependency_cycle target_problem.simps by blast
  next
    case (Unknown_target d n)
    then show ?thesis unfolding Unknown_target target_problem.simps using deps by blast
  next
    case (Not_a_library n d)
    have False if "i < length ts" "d \<in> set (tgt_dependsOn (ts ! i))" "called ts d j"
        "tgt_kind (ts ! j) = Executable" for i j
      using deps [OF that(1,2)] that(3,4) indexes_unique [OF m] by blast
    then show ?thesis unfolding Not_a_library target_problem.simps by blast
  qed
qed

text \<open>C20. Ordering the targets of a manifest ends with one of two outcomes. Either every target
  appears exactly once, after every target it depends on, each of which is a library, and the
  manifest then has no problem; or the error names a problem the manifest has: two targets of one
  name, a dependency cycle through the named target, an unknown name or a dependency that is not
  a library.\<close>

theorem order_build_targets_correct:
  "case order_build_targets ts of
     None \<Rightarrow> False
   | Some (Inr ordered) \<Rightarrow> dependencies_first ts ordered \<and> \<not> (\<exists>e. target_problem ts e)
   | Some (Inl e) \<Rightarrow> target_problem ts e"
proof (cases "index_targets 0 ts omap_empty")
  case (Inl e)
  then show ?thesis using index_targets_start [of ts] by (simp add: order_build_targets_def)
next
  case (Inr m)
  then have m: "indexes ts m" using index_targets_start [of ts] by simp
  let ?run = "each_ok (visit_target (Suc (length ts)) ts m) [0..<length ts] (replicate (length ts) 0, [])"
  have order: "order_build_targets ts = map_option (map_sum id snd) ?run"
    using Inr by (simp add: order_build_targets_def)
  from order_run [OF m] show ?thesis
  proof (cases rule: outcome_cases)
    case (1 e)
    then show ?thesis using indexes_problem [OF m] by (simp add: order)
  next
    case (2 s)
    then obtain js where js: "snd s = map (nth ts) js" "distinct js" "set js = marked 2 (fst s)"
        "\<forall>i \<in> set js. dep_ready ts m js i" and all: "\<forall>i < length ts. i \<in> marked 2 (fst s)"
        and len: "length (fst s) = length ts"
      by (auto simp: visit_inv_def)
    have set: "set js = {..<length ts}" using js(3) all len by (auto simp: marked_def)
    have "dependencies_first ts (snd s)"
      unfolding dependencies_first_def
    proof (intro exI conjI)
      show "\<forall>i < length ts. \<forall>d \<in> set (tgt_dependsOn (ts ! i)).
          \<exists>j. called ts d j \<and> tgt_kind (ts ! j) \<noteq> Executable \<and> before js j i"
        using js(4) set indexes_called [OF m] unfolding dep_ready_def by blast
    qed (use js set in auto)
    then show ?thesis using 2(1) dependencies_first_problem_free [OF _ m] by (auto simp: order)
  qed
qed

text \<open>In the order every target of the manifest is built exactly once.\<close>

theorem order_build_targets_permutes:
  assumes "order_build_targets ts = Some (Inr ordered)"
  shows "mset ordered = mset ts"
proof -
  obtain js where js: "ordered = map (nth ts) js" "distinct js" "set js = {..<length ts}"
    using order_build_targets_correct [of ts] assms by (auto simp: dependencies_first_def)
  then have "mset js = mset [0..<length ts]"
    by (metis atLeast_upt distinct_upt set_eq_iff_mset_eq_distinct)
  then have "mset ordered = mset (map (nth ts) [0..<length ts])" using js(1) by simp
  then show ?thesis by (simp only: map_nth)
qed

theorem order_build_targets_permutes_witness:
  "mset [default_target Static_library\<lparr>tgt_name := ''core''\<rparr>,
     default_target Executable\<lparr>tgt_name := ''app'', tgt_dependsOn := [''core'']\<rparr>] =
   mset [default_target Executable\<lparr>tgt_name := ''app'', tgt_dependsOn := [''core'']\<rparr>,
     default_target Static_library\<lparr>tgt_name := ''core''\<rparr>]"
proof -
  let ?core = "default_target Static_library\<lparr>tgt_name := ''core''\<rparr>"
  let ?app = "default_target Executable\<lparr>tgt_name := ''app'', tgt_dependsOn := [''core'']\<rparr>"
  have "order_build_targets [?app, ?core] = Some (Inr [?core, ?app])" by code_simp
  then show ?thesis by (rule order_build_targets_permutes)
qed

subsection \<open>Link dependencies\<close>

text \<open>
  The recursion of \<^verbatim>\<open>collect_target_link_dependencies\<close>: \<open>link_dependency\<close> is the body of its loop
  for one name. The state is the list of libraries found, in link order, and the names seen.
\<close>

type_synonym link_state = "build_target list \<times> string list"

fun link_dependency :: "nat \<Rightarrow> (string, build_target) omap \<Rightarrow> string \<Rightarrow> link_state \<Rightarrow> link_state option" where
  "link_dependency 0 byName d s = None"
| "link_dependency (Suc fuel) byName d s =
     (if d \<in> set (snd s) then Some s
      else (case omap_find byName d of
              None \<Rightarrow> Some (fst s, d # snd s)
            | Some t \<Rightarrow> each_opt (link_dependency fuel byName) (tgt_dependsOn t) (fst s @ [t], d # snd s)))"

definition collect_target_link_dependencies ::
  "nat \<Rightarrow> (string, build_target) omap \<Rightarrow> build_target \<Rightarrow> link_state \<Rightarrow> link_state option" where
  "collect_target_link_dependencies fuel byName target s =
     each_opt (link_dependency fuel byName) (tgt_dependsOn target) s"

definition link_succs :: "(string, build_target) omap \<Rightarrow> string \<Rightarrow> string list" where
  "link_succs byName d = (case omap_find byName d of None \<Rightarrow> [] | Some t \<Rightarrow> tgt_dependsOn t)"

definition link_mark :: "(string, build_target) omap \<Rightarrow> string \<Rightarrow> link_state \<Rightarrow> link_state" where
  "link_mark byName d s =
     (fst s @ (case omap_find byName d of None \<Rightarrow> [] | Some t \<Rightarrow> [t]), d # snd s)"

lemma link_sources: "{d. link_succs byName d \<noteq> []} \<subseteq> fst ` set byName"
proof
  fix d assume "d \<in> {d. link_succs byName d \<noteq> []}"
  then obtain t where "map_of byName d = Some t"
    by (auto simp: link_succs_def omap_find_def split: option.splits)
  then have "(d, t) \<in> set byName" by (rule map_of_SomeD)
  then show "d \<in> fst ` set byName" by force
qed

interpretation link: recursive_walk "link_succs byName" "\<lambda>_. True" "\<lambda>s. set (snd s)"
    "link_mark byName" "\<lambda>n. link_dependency n byName" for byName
proof unfold_locales
  show "link_dependency (Suc n) byName x s =
      (if \<not> True \<or> x \<in> set (snd s) then Some s
       else each_opt (link_dependency n byName) (link_succs byName x) (link_mark byName x s))" for n x s
    by (cases "omap_find byName x") (simp_all add: link_succs_def link_mark_def)
  show "finite {x. link_succs byName x \<noteq> []}" by (rule finite_subset [OF link_sources]) simp
qed (simp add: link_mark_def)

text \<open>The libraries listed are those of the names seen, without repetition.\<close>

definition links_of_seen :: "(string, build_target) omap \<Rightarrow> link_state \<Rightarrow> bool" where
  "links_of_seen byName s \<longleftrightarrow> distinct (snd s) \<and>
     fst s = List.map_filter (omap_find byName) (rev (snd s))"

lemma each_opt_inv:
  assumes "\<And>x s t. I s \<Longrightarrow> f x s = Some t \<Longrightarrow> I t"
  shows "I s \<Longrightarrow> each_opt f xs s = Some t \<Longrightarrow> I t"
  by (induction xs arbitrary: s) (auto split: option.splits intro: assms)

lemma link_dependency_links:
  "links_of_seen byName s \<Longrightarrow> link_dependency fuel byName d s = Some t \<Longrightarrow> links_of_seen byName t"
proof (induction fuel arbitrary: d s t)
  case (Suc fuel)
  have inv: "links_of_seen byName s \<Longrightarrow> each_opt (link_dependency fuel byName) xs s = Some t \<Longrightarrow>
      links_of_seen byName t" for xs s t
    by (rule each_opt_inv [of "links_of_seen byName"]) (rule Suc.IH)
  show ?case
  proof (cases "d \<in> set (snd s)")
    case True
    with Suc.prems show ?thesis by simp
  next
    case False
    have mark: "links_of_seen byName (link_mark byName d s)"
      using Suc.prems(1) False
      by (cases "omap_find byName d") (simp_all add: links_of_seen_def link_mark_def map_filter_def)
    show ?thesis
    proof (cases "omap_find byName d")
      case None
      then have "t = link_mark byName d s" using Suc.prems(2) False by (simp add: link_mark_def)
      with mark show ?thesis by simp
    next
      case (Some u)
      then have "each_opt (link_dependency fuel byName) (tgt_dependsOn u) (link_mark byName d s) = Some t"
        using Suc.prems(2) False by (simp add: link_mark_def)
      with mark show ?thesis by (rule inv)
    qed
  qed
qed simp

text \<open>The libraries a target links are exactly those of the names its \<^verbatim>\<open>depends_on\<close> lists reach,
  each listed once, and the recursion over them ends.\<close>

theorem link_dependencies_reach:
  "\<exists>deps seen. collect_target_link_dependencies (Suc (length byName)) byName target ([], []) = Some (deps, seen) \<and>
     set seen = reach (link_succs byName) (set (tgt_dependsOn target)) \<and>
     distinct seen \<and> deps = List.map_filter (omap_find byName) (rev seen)"
proof -
  have "card {d. link_succs byName d \<noteq> []} \<le> card (fst ` set byName)"
    by (rule card_mono [OF _ link_sources]) simp
  also have "\<dots> \<le> length byName" by (meson card_image_le card_length finite_set le_trans)
  finally have "card {d. link_succs byName d \<noteq> []} < Suc (length byName)" by simp
  then obtain t where t: "each_opt (link_dependency (Suc (length byName)) byName) (tgt_dependsOn target) ([], []) = Some t"
      and r: "set (snd t) = reach (link.next_live byName) (set (tgt_dependsOn target))"
    using link.walk_reach [of byName "Suc (length byName)" "([], [])" "tgt_dependsOn target"] by auto
  have "link.next_live byName = link_succs byName"
    by (rule ext) (simp add: link.next_live_def)
  moreover have "links_of_seen byName ([], [])" by (simp add: links_of_seen_def map_filter_def)
  then have "links_of_seen byName t"
    using t by (rule each_opt_inv [of "links_of_seen byName", rotated]) (rule link_dependency_links)
  ultimately show ?thesis
    using t r unfolding collect_target_link_dependencies_def links_of_seen_def
    by (cases t) (intro exI [of _ "fst t"] exI [of _ "snd t"], simp)
qed

end
