(* ===== verification/Tasks.thy ===== *)
theory Tasks
  imports Toml_Edit Graph_Search
begin

text \<open>
  Tasks of a manifest (\<^verbatim>\<open>src/package_manager.cpp\<close>): the keys of \<^verbatim>\<open>[[task]]\<close> and of its
  \<^verbatim>\<open>[task.host.NAME]\<close> overrides, the edges a task has on a host once phases are resolved, and the
  order in which a task and what it needs are run.
\<close>

subsection \<open>Keys\<close>

datatype task_toml_key =
    KName | KMessage | KPrint | KSupportedHosts | KUnsupportedMessage | KPhase | KWorkdir | KLanguage
  | KSource | KOutput | KInputs | KCompileOnly | KParallel | KLogOutput | KInlineOutput | KDependsOn
  | KPhaseDependsOn | KJoinOn | KPhaseJoinOn | KNext | KNextPhases | KCommand | KEnv | KScript | KShell
  | KCommands | KChmod | KChmodPath | KChmodPaths | KOptLevel | KTargetArch | KPathEntries
  | KCompilerFlags | KLinkerFlags | KLibPaths | KLibs | KStaticDeps | KStaticCppRuntime | KSign

definition kTaskTomlKeys :: "(task_toml_key \<times> string) list" where
  "kTaskTomlKeys =
     [(KName, ''name''), (KMessage, ''message''), (KPrint, ''print''),
      (KSupportedHosts, ''supported_hosts''), (KUnsupportedMessage, ''unsupported_message''),
      (KPhase, ''phase''), (KWorkdir, ''workdir''), (KLanguage, ''language''), (KSource, ''source''),
      (KOutput, ''output''), (KInputs, ''inputs''), (KCompileOnly, ''compile_only''),
      (KParallel, ''parallel''), (KLogOutput, ''log_output''), (KInlineOutput, ''inline_output''),
      (KDependsOn, ''depends_on''), (KPhaseDependsOn, ''phase_depends_on''), (KJoinOn, ''join_on''),
      (KPhaseJoinOn, ''phase_join_on''), (KNext, ''next''), (KNextPhases, ''next_phases''),
      (KCommand, ''command''), (KEnv, ''env''), (KScript, ''script''), (KShell, ''shell''),
      (KCommands, ''commands''), (KChmod, ''chmod''), (KChmodPath, ''chmod_path''),
      (KChmodPaths, ''chmod_paths''), (KOptLevel, ''opt_level''), (KTargetArch, ''target_arch''),
      (KPathEntries, ''path_entries''), (KCompilerFlags, ''compiler_flags''),
      (KLinkerFlags, ''linker_flags''), (KLibPaths, ''lib_paths''), (KLibs, ''libs''),
      (KStaticDeps, ''static_deps''), (KStaticCppRuntime, ''static_cpp_runtime''), (KSign, ''sign'')]"

fun apply_task_build_config_key_value :: "task_toml_key \<Rightarrow> string \<Rightarrow> build_config \<Rightarrow> build_config" where
  "apply_task_build_config_key_value KOptLevel value cfg =
     cfg\<lparr>optLevel := normalize_opt_level (unquote value)\<rparr>"
| "apply_task_build_config_key_value KTargetArch value cfg =
     cfg\<lparr>targetArch := normalize_target_arch_name (unquote value)\<rparr>"
| "apply_task_build_config_key_value KPathEntries value cfg =
     cfg\<lparr>pathEntries := pathEntries cfg @ toml_string_list value\<rparr>"
| "apply_task_build_config_key_value KCompilerFlags value cfg =
     cfg\<lparr>compilerFlags := compilerFlags cfg @ toml_string_list value\<rparr>"
| "apply_task_build_config_key_value KLinkerFlags value cfg =
     cfg\<lparr>linkerFlags := linkerFlags cfg @ toml_string_list value\<rparr>"
| "apply_task_build_config_key_value KLibPaths value cfg =
     cfg\<lparr>libPaths := libPaths cfg @ toml_string_list value\<rparr>"
| "apply_task_build_config_key_value KLibs value cfg =
     cfg\<lparr>libs := libs cfg @ toml_string_list value\<rparr>"
| "apply_task_build_config_key_value KStaticDeps value cfg =
     cfg\<lparr>staticDeps := Some (parse_toml_bool_value value)\<rparr>"
| "apply_task_build_config_key_value KStaticCppRuntime value cfg =
     cfg\<lparr>staticCppRuntime := Some (parse_toml_bool_value value)\<rparr>"
| "apply_task_build_config_key_value _ value cfg = cfg"

subsection \<open>Tasks and their overrides\<close>

text \<open>The fields the source declares twice, once in \<^verbatim>\<open>HostOverride\<close> and once in \<^verbatim>\<open>TaskSpec\<close>.\<close>

record host_override =
  t_message :: string
  t_print :: string
  t_supportedHosts :: "string list"
  t_unsupportedMessage :: string
  t_phase :: string
  t_workdir :: string
  t_language :: string
  t_source :: string
  t_output :: string
  t_inputs :: "string list"
  t_compileOnly :: "bool option"
  t_parallel :: "bool option"
  t_logOutput :: "bool option"
  t_inlineOutput :: "bool option"
  t_chmodMode :: string
  t_chmodPaths :: "string list"
  t_dependsOn :: "string list"
  t_phaseDependsOn :: "string list"
  t_joinOn :: "string list"
  t_phaseJoinOn :: "string list"
  t_nextTasks :: "string list"
  t_nextPhases :: "string list"
  t_env :: "string list"
  t_shellLines :: "string list"
  t_commands :: "string list"
  t_signOutputs :: "string list"
  t_buildConfig :: build_config

record task_spec = host_override +
  t_name :: string
  t_hostOverrides :: "(string, host_override) omap"

definition default_override :: host_override where
  "default_override =
     \<lparr>t_message = [], t_print = [], t_supportedHosts = [], t_unsupportedMessage = [], t_phase = [],
      t_workdir = [], t_language = [], t_source = [], t_output = [], t_inputs = [],
      t_compileOnly = None, t_parallel = None, t_logOutput = None, t_inlineOutput = None,
      t_chmodMode = [], t_chmodPaths = [], t_dependsOn = [], t_phaseDependsOn = [], t_joinOn = [],
      t_phaseJoinOn = [], t_nextTasks = [], t_nextPhases = [], t_env = [], t_shellLines = [],
      t_commands = [], t_signOutputs = [], t_buildConfig = default_build_config\<rparr>"

definition default_task :: task_spec where
  "default_task = host_override.extend default_override \<lparr>t_name = [], t_hostOverrides = omap_empty\<rparr>"

fun apply_common_task_kv ::
  "task_toml_key \<Rightarrow> string \<Rightarrow> 'a host_override_scheme \<Rightarrow> 'a host_override_scheme" where
  "apply_common_task_kv KMessage v t = t\<lparr>t_message := unquote_preserve v\<rparr>"
| "apply_common_task_kv KPrint v t = t\<lparr>t_print := unquote_preserve v\<rparr>"
| "apply_common_task_kv KSupportedHosts v t = t\<lparr>t_supportedHosts := t_supportedHosts t @ toml_string_list v\<rparr>"
| "apply_common_task_kv KUnsupportedMessage v t = t\<lparr>t_unsupportedMessage := unquote_preserve v\<rparr>"
| "apply_common_task_kv KPhase v t = t\<lparr>t_phase := unquote v\<rparr>"
| "apply_common_task_kv KWorkdir v t = t\<lparr>t_workdir := unquote v\<rparr>"
| "apply_common_task_kv KLanguage v t = t\<lparr>t_language := normalize_task_language (unquote v)\<rparr>"
| "apply_common_task_kv KSource v t = t\<lparr>t_source := unquote v\<rparr>"
| "apply_common_task_kv KOutput v t = t\<lparr>t_output := unquote v\<rparr>"
| "apply_common_task_kv KInputs v t = t\<lparr>t_inputs := t_inputs t @ toml_string_list v\<rparr>"
| "apply_common_task_kv KCompileOnly v t = t\<lparr>t_compileOnly := Some (parse_toml_bool_value v)\<rparr>"
| "apply_common_task_kv KParallel v t = t\<lparr>t_parallel := Some (parse_toml_bool_value v)\<rparr>"
| "apply_common_task_kv KLogOutput v t = t\<lparr>t_logOutput := Some (parse_toml_bool_value v)\<rparr>"
| "apply_common_task_kv KInlineOutput v t = t\<lparr>t_inlineOutput := Some (parse_toml_bool_value v)\<rparr>"
| "apply_common_task_kv KDependsOn v t = t\<lparr>t_dependsOn := t_dependsOn t @ toml_string_list v\<rparr>"
| "apply_common_task_kv KPhaseDependsOn v t = t\<lparr>t_phaseDependsOn := t_phaseDependsOn t @ toml_string_list v\<rparr>"
| "apply_common_task_kv KJoinOn v t = t\<lparr>t_joinOn := t_joinOn t @ toml_string_list v\<rparr>"
| "apply_common_task_kv KPhaseJoinOn v t = t\<lparr>t_phaseJoinOn := t_phaseJoinOn t @ toml_string_list v\<rparr>"
| "apply_common_task_kv KNext v t = t\<lparr>t_nextTasks := t_nextTasks t @ toml_string_list v\<rparr>"
| "apply_common_task_kv KNextPhases v t = t\<lparr>t_nextPhases := t_nextPhases t @ toml_string_list v\<rparr>"
| "apply_common_task_kv KCommand v t = t\<lparr>t_commands := t_commands t @ toml_command_value v\<rparr>"
| "apply_common_task_kv KEnv v t = t\<lparr>t_env := t_env t @ toml_string_list_preserve v\<rparr>"
| "apply_common_task_kv KScript v t = t\<lparr>t_shellLines := t_shellLines t @ toml_string_list_preserve v\<rparr>"
| "apply_common_task_kv KShell v t = t\<lparr>t_shellLines := t_shellLines t @ toml_string_list_preserve v\<rparr>"
| "apply_common_task_kv KCommands v t = t\<lparr>t_commands := t_commands t @ toml_commands_value v\<rparr>"
| "apply_common_task_kv KSign v t = t\<lparr>t_signOutputs := t_signOutputs t @ toml_string_list v\<rparr>"
| "apply_common_task_kv KChmod v t = t\<lparr>t_chmodMode := unquote v\<rparr>"
| "apply_common_task_kv KChmodPath v t = t\<lparr>t_chmodPaths := t_chmodPaths t @ toml_string_list v\<rparr>"
| "apply_common_task_kv KChmodPaths v t = t\<lparr>t_chmodPaths := t_chmodPaths t @ toml_string_list v\<rparr>"
| "apply_common_task_kv KName v t = t"
| "apply_common_task_kv k v t =
     t\<lparr>t_buildConfig := apply_task_build_config_key_value k v (t_buildConfig t)\<rparr>"

definition apply_task_kv :: "string \<Rightarrow> string \<Rightarrow> task_spec \<Rightarrow> task_spec" where
  "apply_task_kv key value t =
     (case find_enum_key key kTaskTomlKeys of
        None \<Rightarrow> t
      | Some k \<Rightarrow> if k = KName then t\<lparr>t_name := unquote value\<rparr> else apply_common_task_kv k value t)"

definition apply_override_kv :: "string \<Rightarrow> string \<Rightarrow> host_override \<Rightarrow> host_override" where
  "apply_override_kv key value ov =
     (case find_enum_key key kTaskTomlKeys of
        None \<Rightarrow> ov
      | Some k \<Rightarrow> if k = KName then ov else apply_common_task_kv k value ov)"

subsection \<open>Reading\<close>

text \<open>\<^verbatim>\<open>current\<close>, \<^verbatim>\<open>currentHostSection\<close> and \<^verbatim>\<open>tasks\<close>.\<close>

type_synonym task_reader = "task_spec option \<times> string \<times> task_spec list"

definition flush_task :: "task_reader \<Rightarrow> task_spec list" where
  "flush_task s = snd (snd s) @ (case fst s of None \<Rightarrow> [] | Some t \<Rightarrow> [t])"

definition task_header :: "task_reader \<Rightarrow> string \<Rightarrow> (task_reader, 'r) flow option" where
  "task_header s t =
     (if t = ''[[task]]'' then Some (Continue (Some default_task, [], flush_task s))
      else if \<not> is_header t then None
      else
        (let section = header_name t in
         if fst s \<noteq> None \<and> starts_with ''task.host.'' section \<and> length section > length ''task.host.''
         then Some (Continue (fst s, drop (length ''task.host.'') section, snd (snd s)))
         else if fst s \<noteq> None \<and> section = ''task'' then Some (Continue (fst s, [], snd (snd s)))
         else Some (Continue (None, [], flush_task s))))"

definition override_of :: "task_spec \<Rightarrow> string \<Rightarrow> host_override" where
  "override_of t host =
     (case omap_find (t_hostOverrides t) host of None \<Rightarrow> default_override | Some ov \<Rightarrow> ov)"

definition task_assign ::
  "task_reader \<Rightarrow> string \<Rightarrow> toml_assignment \<Rightarrow> (task_reader, 'r) flow" where
  "task_assign s t a =
     (case s of (current, host, tasks) \<Rightarrow>
        Continue (map_option
          (\<lambda>task. if host \<noteq> []
             then task\<lparr>t_hostOverrides := omap_put host
                    (apply_override_kv (asg_key a) (asg_value a) (override_of task host))
                    (t_hostOverrides task)\<rparr>
             else apply_task_kv (asg_key a) (asg_value a) task) current, host, tasks))"

definition parse_task_specs :: "string \<Rightarrow> task_spec list" where
  "parse_task_specs content =
     flow_result flush_task
       (toml_loop task_header (\<lambda>s. fst s \<noteq> None) task_assign (None, [], []) (getlines content))"

subsection \<open>Phases\<close>

definition effective_phase :: "task_spec \<Rightarrow> string \<Rightarrow> string" where
  "effective_phase task hostName =
     (case omap_find (t_hostOverrides task) hostName of
        Some ov \<Rightarrow> if t_phase ov \<noteq> [] then t_phase ov else t_phase task
      | None \<Rightarrow> t_phase task)"

definition task_names_for_phases :: "task_spec list \<Rightarrow> string list \<Rightarrow> string \<Rightarrow> string list" where
  "task_names_for_phases tasks phases hostName =
     fold (\<lambda>task names.
        let p = effective_phase task hostName in
        if p = [] \<or> p \<notin> set phases then names
        else if t_name task \<in> set names then names else names @ [t_name task]) tasks []"

definition task_list_contains_name :: "task_spec list \<Rightarrow> string \<Rightarrow> bool" where
  "task_list_contains_name tasks taskName \<longleftrightarrow> list_ex (\<lambda>t. t_name t = taskName) tasks"

definition task_roots_for_phase :: "task_spec list \<Rightarrow> string \<Rightarrow> string \<Rightarrow> string list \<Rightarrow> string list" where
  "task_roots_for_phase tasks hostName phase fallbackNames =
     (let roots = task_names_for_phases tasks [phase] hostName in
      if roots = []
      then (case find (task_list_contains_name tasks) fallbackNames of None \<Rightarrow> [] | Some f \<Rightarrow> [f])
      else roots)"

subsection \<open>Looking up and running\<close>

definition find_task_spec :: "task_spec list \<Rightarrow> string \<Rightarrow> task_spec option" where
  "find_task_spec tasks taskName = find (\<lambda>t. t_name t = taskName) tasks"

definition host_supported_by_task :: "task_spec \<Rightarrow> string \<Rightarrow> bool" where
  "host_supported_by_task task hostName \<longleftrightarrow>
     (if t_supportedHosts task = [] then True else hostName \<in> set (t_supportedHosts task))"

fun comma_separated :: "string list \<Rightarrow> string" where
  "comma_separated [] = []"
| "comma_separated [h] = h"
| "comma_separated (h # g # hs) = h @ '', '' @ comma_separated (g # hs)"

definition task_unsupported_host_message :: "task_spec \<Rightarrow> string \<Rightarrow> string" where
  "task_unsupported_host_message task hostName =
     (if t_unsupportedMessage task \<noteq> [] then t_unsupportedMessage task
      else ''Task '' @ [squote] @ t_name task @ [squote] @ '' does not support host '' @ [squote] @
        hostName @ [squote] @
        (if t_supportedHosts task \<noteq> []
         then '' (supported: '' @ comma_separated (t_supportedHosts task) @ '')'' else []))"

record effective_task_edges =
  e_dependsOn :: "string list"
  e_next :: "string list"
  e_parallel :: bool

text \<open>A list field of the task followed by that of its override for the host.\<close>

definition with_override :: "(host_override \<Rightarrow> 'a list) \<Rightarrow> 'a list \<Rightarrow> host_override option \<Rightarrow> 'a list" where
  "with_override f own ov = own @ (case ov of None \<Rightarrow> [] | Some o' \<Rightarrow> f o')"

definition resolve_effective_task_edges ::
  "task_spec \<Rightarrow> task_spec list \<Rightarrow> string \<Rightarrow> effective_task_edges" where
  "resolve_effective_task_edges task tasks hostName =
     (let ov = omap_find (t_hostOverrides task) hostName;
          phases = (\<lambda>f own. task_names_for_phases tasks (with_override f own ov) hostName);
          deps1 = append_unique_strings (with_override t_dependsOn (t_dependsOn task) ov)
                    (phases t_phaseDependsOn (t_phaseDependsOn task));
          joinOn = append_unique_strings (with_override t_joinOn (t_joinOn task) ov)
                    (phases t_phaseJoinOn (t_phaseJoinOn task));
          nxt = append_unique_strings (with_override t_nextTasks (t_nextTasks task) ov)
                    (phases t_nextPhases (t_nextPhases task));
          par = (case ov of
                   Some o' \<Rightarrow> (case t_parallel o' of Some b \<Rightarrow> b
                       | None \<Rightarrow> (case t_parallel task of Some b \<Rightarrow> b | None \<Rightarrow> False))
                 | None \<Rightarrow> (case t_parallel task of Some b \<Rightarrow> b | None \<Rightarrow> False))
      in \<lparr>e_dependsOn = append_unique_strings deps1 joinOn, e_next = nxt, e_parallel = par\<rparr>)"

definition find_manifest_task_entrypoints :: "task_spec list \<Rightarrow> string \<Rightarrow> string list" where
  "find_manifest_task_entrypoints tasks hostName =
     (let runs = filter (\<lambda>t. host_supported_by_task t hostName) tasks;
          referenced = concat (map (\<lambda>t. let e = resolve_effective_task_edges t tasks hostName in
                                  e_dependsOn e @ e_next e) runs);
          entrypoints = map t_name (filter (\<lambda>t. t_name t \<notin> set referenced) runs)
      in if entrypoints = [] then map t_name runs else entrypoints)"

subsection \<open>The execution order\<close>

datatype task_error = Cyclic_task string | Task_not_found string | Unsupported_task task_spec

fun task_error_text :: "string \<Rightarrow> task_error \<Rightarrow> string" where
  "task_error_text hostName (Cyclic_task n) =
     ''Detected cyclic task dependency while expanding '' @ [squote] @ n @ [squote]"
| "task_error_text hostName (Task_not_found n) = ''Task not found: '' @ n"
| "task_error_text hostName (Unsupported_task t) = task_unsupported_host_message t hostName"

text \<open>The names emitted so far, as a set and in order.\<close>

type_synonym order_state = "string list \<times> string list"

definition emit_task :: "string \<Rightarrow> order_state \<Rightarrow> order_state" where
  "emit_task n s = (if n \<in> set (fst s) then s else (n # fst s, snd s @ [n]))"

fun append_task_execution_order ::
  "nat \<Rightarrow> task_spec list \<Rightarrow> string \<Rightarrow> string list \<Rightarrow> string \<Rightarrow> order_state \<Rightarrow>
   (task_error + order_state) option" where
  "append_task_execution_order 0 tasks hostName stack taskName s = None"
| "append_task_execution_order (Suc fuel) tasks hostName stack taskName s =
     (if taskName = [] then Some (Inr s)
      else if taskName \<in> set stack then Some (Inl (Cyclic_task taskName))
      else (case find_task_spec tasks taskName of
              None \<Rightarrow> Some (Inl (Task_not_found taskName))
            | Some task \<Rightarrow>
                if \<not> host_supported_by_task task hostName then Some (Inl (Unsupported_task task))
                else
                  (let edges = resolve_effective_task_edges task tasks hostName;
                       visit = append_task_execution_order fuel tasks hostName (taskName # stack) in
                   case each_ok visit (e_dependsOn edges) s of
                     Some (Inr s1) \<Rightarrow> each_ok visit (e_next edges) (emit_task taskName s1)
                   | r \<Rightarrow> r)))"

text \<open>The edges of a task by name; none for a name without a task.\<close>

definition deps_of :: "task_spec list \<Rightarrow> string \<Rightarrow> string \<Rightarrow> string list" where
  "deps_of tasks host n = (case find_task_spec tasks n of
     None \<Rightarrow> [] | Some t \<Rightarrow> e_dependsOn (resolve_effective_task_edges t tasks host))"

definition next_of :: "task_spec list \<Rightarrow> string \<Rightarrow> string \<Rightarrow> string list" where
  "next_of tasks host n = (case find_task_spec tasks n of
     None \<Rightarrow> [] | Some t \<Rightarrow> e_next (resolve_effective_task_edges t tasks host))"

definition task_succs :: "task_spec list \<Rightarrow> string \<Rightarrow> string \<Rightarrow> string list" where
  "task_succs tasks host n = deps_of tasks host n @ next_of tasks host n"

definition live_succs :: "task_spec list \<Rightarrow> string \<Rightarrow> string \<Rightarrow> string list" where
  "live_succs tasks host n = filter (\<lambda>m. m \<noteq> []) (task_succs tasks host n)"

abbreviation task_rel :: "task_spec list \<Rightarrow> string \<Rightarrow> (string \<times> string) set" where
  "task_rel tasks host \<equiv> succ_rel (live_succs tasks host)"

lemma find_task_name: "find_task_spec tasks n = Some t \<Longrightarrow> n \<in> set (map t_name tasks) \<and> t_name t = n"
  by (auto simp: find_task_spec_def find_Some_iff)

text \<open>What an error means, for a walk from the names in \<open>R\<close>.\<close>

fun task_problem :: "task_spec list \<Rightarrow> string \<Rightarrow> string set \<Rightarrow> task_error \<Rightarrow> bool" where
  "task_problem tasks host R (Cyclic_task n) =
     (n \<in> reach (live_succs tasks host) R \<and> (n, n) \<in> (task_rel tasks host)\<^sup>+)"
| "task_problem tasks host R (Task_not_found n) =
     (n \<in> reach (live_succs tasks host) R \<and> find_task_spec tasks n = None)"
| "task_problem tasks host R (Unsupported_task t) =
     (\<exists>n \<in> reach (live_succs tasks host) R. find_task_spec tasks n = Some t \<and> \<not> host_supported_by_task t host)"

definition placed :: "string \<Rightarrow> order_state \<Rightarrow> bool" where
  "placed n s \<longleftrightarrow> n = [] \<or> n \<in> set (snd s)"

definition task_ready :: "task_spec list \<Rightarrow> string \<Rightarrow> string list \<Rightarrow> string \<Rightarrow> bool" where
  "task_ready tasks host order n \<longleftrightarrow>
     (\<exists>t. find_task_spec tasks n = Some t \<and> host_supported_by_task t host) \<and>
     (\<forall>d \<in> set (deps_of tasks host n). d = [] \<or> before order d n)"

definition order_ok :: "task_spec list \<Rightarrow> string \<Rightarrow> string set \<Rightarrow> order_state \<Rightarrow> bool" where
  "order_ok tasks host R s \<longleftrightarrow> set (fst s) = set (snd s) \<and> distinct (snd s) \<and>
     set (snd s) \<subseteq> reach (live_succs tasks host) R \<and> (\<forall>n \<in> set (snd s). task_ready tasks host (snd s) n)"

definition order_closed :: "task_spec list \<Rightarrow> string \<Rightarrow> string set \<Rightarrow> order_state \<Rightarrow> bool" where
  "order_closed tasks host active s \<longleftrightarrow>
     (\<forall>n \<in> set (snd s) - active. \<forall>m \<in> set (next_of tasks host n). placed m s)"

definition order_inv :: "task_spec list \<Rightarrow> string \<Rightarrow> string set \<Rightarrow> string list \<Rightarrow> order_state \<Rightarrow> bool" where
  "order_inv tasks host R stack s \<longleftrightarrow> order_ok tasks host R s \<and> order_closed tasks host (set stack) s"

definition order_le :: "order_state \<Rightarrow> order_state \<Rightarrow> bool" where
  "order_le s t \<longleftrightarrow> set (snd s) \<subseteq> set (snd t)"

lemma order_inv_stack: "order_inv tasks host R stack s \<Longrightarrow> order_inv tasks host R (n # stack) s"
  unfolding order_inv_def order_closed_def by auto

lemma order_inv_pop:
  assumes "order_inv tasks host R (n # stack) s" and "\<forall>m \<in> set (next_of tasks host n). placed m s"
  shows "order_inv tasks host R stack s"
  using assms unfolding order_inv_def order_closed_def by (metis DiffD1 DiffD2 DiffI insertE list.simps(15))

lemma task_ready_snoc: "task_ready tasks host order n \<Longrightarrow> task_ready tasks host (order @ [k]) n"
  unfolding task_ready_def using before_snoc_old by metis

lemma order_inv_emit:
  assumes inv: "order_inv tasks host R (n # stack) s" and n: "n \<in> reach (live_succs tasks host) R"
    and t: "find_task_spec tasks n = Some t" "host_supported_by_task t host"
    and deps: "\<forall>d \<in> set (deps_of tasks host n). placed d s"
  shows "order_inv tasks host R (n # stack) (emit_task n s)"
proof (cases "n \<in> set (fst s)")
  case True
  with inv show ?thesis by (simp add: emit_task_def)
next
  case False
  have ok: "order_ok tasks host R s" and cl: "order_closed tasks host (set (n # stack)) s"
    using inv by (simp_all add: order_inv_def)
  have "\<forall>d \<in> set (deps_of tasks host n). d = [] \<or> before (snd s @ [n]) d n"
    using deps before_snoc_new unfolding placed_def by metis
  with t have "task_ready tasks host (snd s @ [n]) n" by (simp add: task_ready_def)
  moreover have "\<forall>k \<in> set (snd s). task_ready tasks host (snd s @ [n]) k"
    using ok task_ready_snoc by (simp add: order_ok_def)
  moreover have "n \<notin> set (snd s)" using ok False by (simp add: order_ok_def)
  ultimately have "order_ok tasks host R (n # fst s, snd s @ [n])"
    using ok n by (simp add: order_ok_def)
  moreover have "order_closed tasks host (set (n # stack)) (n # fst s, snd s @ [n])"
    using cl unfolding order_closed_def placed_def by auto
  ultimately show ?thesis using False by (simp add: emit_task_def order_inv_def)
qed

lemma emit_task_le: "order_le s (emit_task n s)"
  by (auto simp: order_le_def emit_task_def)

lemma emit_task_placed: "set (fst s) = set (snd s) \<Longrightarrow> n \<in> set (snd (emit_task n s))"
  by (simp add: emit_task_def)

lemma execution_order_spec:
  "order_inv tasks host R stack s \<Longrightarrow> taskName \<noteq> [] \<longrightarrow> taskName \<in> reach (live_succs tasks host) R \<Longrightarrow>
   \<forall>g \<in> set stack. taskName \<noteq> [] \<longrightarrow> (g, taskName) \<in> (task_rel tasks host)\<^sup>+ \<Longrightarrow>
   card (set (map t_name tasks) - set stack) < fuel \<Longrightarrow>
   outcome (task_problem tasks host R)
     (\<lambda>s'. order_inv tasks host R stack s' \<and> order_le s s' \<and> placed taskName s')
     (append_task_execution_order fuel tasks host stack taskName s)"
proof (induction fuel arbitrary: stack taskName s)
  case (Suc fuel)
  note inv = Suc.prems(1)
  consider (blank) "taskName = []" | (cycle) "taskName \<noteq> []" "taskName \<in> set stack"
    | (missing) "taskName \<noteq> []" "taskName \<notin> set stack" "find_task_spec tasks taskName = None"
    | (unsupported) t where "taskName \<noteq> []" "taskName \<notin> set stack"
        "find_task_spec tasks taskName = Some t" "\<not> host_supported_by_task t host"
    | (run) t where "taskName \<noteq> []" "taskName \<notin> set stack"
        "find_task_spec tasks taskName = Some t" "host_supported_by_task t host"
    by (cases "find_task_spec tasks taskName") auto
  then show ?case
  proof cases
    case blank
    then show ?thesis using inv by (simp add: placed_def order_le_def)
  next
    case cycle
    then have "(taskName, taskName) \<in> (task_rel tasks host)\<^sup>+" using Suc.prems(3) by blast
    then show ?thesis using cycle Suc.prems(2) by simp
  next
    case missing
    then show ?thesis using Suc.prems(2) by simp
  next
    case (unsupported t)
    then have "task_problem tasks host R (Unsupported_task t)" using Suc.prems(2) by auto
    then show ?thesis using unsupported by simp
  next
    case (run t)
    let ?st = "taskName # stack"
    let ?visit = "append_task_execution_order fuel tasks host ?st"
    have nr: "taskName \<in> reach (live_succs tasks host) R" using Suc.prems(2) run(1) by blast
    have succs: "set (deps_of tasks host taskName) \<union> set (next_of tasks host taskName) =
        set (task_succs tasks host taskName)" by (simp add: task_succs_def)
    have "taskName \<in> set (map t_name tasks) - set stack" using find_task_name [OF run(3)] run(2) by simp
    then have "card (set (map t_name tasks) - set ?st) < card (set (map t_name tasks) - set stack)"
      by (intro psubset_card_mono) auto
    then have card: "card (set (map t_name tasks) - set ?st) < fuel" using Suc.prems(4) by linarith
    have visit: "outcome (task_problem tasks host R)
        (\<lambda>u. order_inv tasks host R ?st u \<and> order_le s' u \<and> placed m u) (?visit m s')"
      if "order_inv tasks host R ?st s'" "m \<in> set (task_succs tasks host taskName)" for m s'
    proof -
      have edge: "(taskName, m) \<in> task_rel tasks host" if "m \<noteq> []"
        using \<open>m \<in> _\<close> that by (simp add: succ_rel_def live_succs_def)
      have "m \<noteq> [] \<longrightarrow> m \<in> reach (live_succs tasks host) R"
        using edge nr reach_step [of taskName "live_succs tasks host" R m] by (simp add: succ_rel_def)
      moreover have "\<forall>g \<in> set ?st. m \<noteq> [] \<longrightarrow> (g, m) \<in> (task_rel tasks host)\<^sup>+"
        using edge Suc.prems(3) run(1) by (auto intro: trancl_into_trancl)
      ultimately show ?thesis using Suc.IH [OF that(1)] card by blast
    qed
    have keep: "placed m u'" if "placed m u" "order_le u u'" for m u u'
      using that by (auto simp: placed_def order_le_def)
    have each: "outcome (task_problem tasks host R)
        (\<lambda>u. order_inv tasks host R ?st u \<and> order_le s' u \<and> (\<forall>m \<in> set ms. placed m u)) (each_ok ?visit ms s')"
      if "order_inv tasks host R ?st s'" "set ms \<subseteq> set (task_succs tasks host taskName)" for ms s'
      by (rule each_ok_rule [where J = "order_inv tasks host R ?st" and le = order_le])
        (use that visit keep in \<open>auto simp: order_le_def\<close>)
    have d: "e_dependsOn (resolve_effective_task_edges t tasks host) = deps_of tasks host taskName"
      and x: "e_next (resolve_effective_task_edges t tasks host) = next_of tasks host taskName"
      using run(3) by (simp_all add: deps_of_def next_of_def)
    have go: "append_task_execution_order (Suc fuel) tasks host stack taskName s =
        (case each_ok ?visit (deps_of tasks host taskName) s of
           Some (Inr s1) \<Rightarrow> each_ok ?visit (next_of tasks host taskName) (emit_task taskName s1)
         | r \<Rightarrow> r)"
      unfolding d [symmetric] x [symmetric] using run by (simp add: Let_def)
    have "set (deps_of tasks host taskName) \<subseteq> set (task_succs tasks host taskName)"
      and xs: "set (next_of tasks host taskName) \<subseteq> set (task_succs tasks host taskName)"
      using succs by blast+
    from each [OF order_inv_stack [OF inv] this(1)] show ?thesis
    proof (cases rule: outcome_cases)
      case (1 e)
      then show ?thesis unfolding go by simp
    next
      case (2 s1)
      let ?s2 = "emit_task taskName s1"
      have i2: "order_inv tasks host R ?st ?s2" using order_inv_emit nr run(3,4) 2(2) by blast
      have here: "taskName \<in> set (snd ?s2)"
        using 2(2) by (intro emit_task_placed) (simp add: order_inv_def order_ok_def)
      have le2: "order_le s ?s2" using 2(2) emit_task_le [of s1 taskName] by (auto simp: order_le_def)
      have "outcome (task_problem tasks host R)
          (\<lambda>u. order_inv tasks host R stack u \<and> order_le s u \<and> placed taskName u)
          (each_ok ?visit (next_of tasks host taskName) ?s2)"
        using each [OF i2 xs]
      proof (rule outcome_mono)
        fix u assume u: "order_inv tasks host R ?st u \<and> order_le ?s2 u \<and>
            (\<forall>m \<in> set (next_of tasks host taskName). placed m u)"
        have "order_inv tasks host R stack u"
          using order_inv_pop [of tasks host R taskName stack u] u by blast
        moreover have "order_le s u" using u le2 unfolding order_le_def by blast
        moreover have "placed taskName u" using u here unfolding order_le_def placed_def by blast
        ultimately show "order_inv tasks host R stack u \<and> order_le s u \<and> placed taskName u" by blast
      qed
      with 2(1) show ?thesis unfolding go by simp
    qed
  qed
qed simp

text \<open>C21. The execution order of a task ends with one of two outcomes. Either it lists, once each,
  exactly the tasks reachable over the dependency and follow-up edges of the host, all of them
  known and supported there, every task after all of its dependencies; or the error reports a
  reachable task that lies on a cycle, is unknown, or does not support the host.\<close>

theorem task_execution_order:
  assumes "root \<noteq> []"
  shows "case append_task_execution_order (Suc (length tasks)) tasks host [] root ([], []) of
      None \<Rightarrow> False
    | Some (Inl e) \<Rightarrow> task_problem tasks host {root} e
    | Some (Inr s) \<Rightarrow> distinct (snd s) \<and> set (snd s) = reach (live_succs tasks host) {root} \<and>
        (\<forall>n \<in> set (snd s). task_ready tasks host (snd s) n)"
proof -
  have "card (set (map t_name tasks)) \<le> length (map t_name tasks)" by (rule card_length)
  then have fuel: "card (set (map t_name tasks) - set []) < Suc (length tasks)" by simp
  have start: "order_inv tasks host {root} [] ([], [])"
    by (simp add: order_inv_def order_ok_def order_closed_def)
  have "outcome (task_problem tasks host {root})
      (\<lambda>s. order_inv tasks host {root} [] s \<and> order_le ([], []) s \<and> placed root s)
      (append_task_execution_order (Suc (length tasks)) tasks host [] root ([], []))"
    using fuel start by (intro execution_order_spec) (auto intro: reach_refl)
  then show ?thesis
  proof (cases rule: outcome_cases)
    case (1 e)
    then show ?thesis unfolding 1(1) by simp
  next
    case (2 s)
    then have ok: "order_ok tasks host {root} s" and cl: "order_closed tasks host {} s" and r: "root \<in> set (snd s)"
      using assms by (auto simp: order_inv_def placed_def)
    have "m \<in> set (snd s)" if "n \<in> set (snd s)" "m \<in> set (live_succs tasks host n)" for n m
    proof (cases "m \<in> set (deps_of tasks host n)")
      case True
      with ok that have "before (snd s) m n"
        by (auto simp: order_ok_def task_ready_def live_succs_def)
      then show ?thesis using before_in_set by metis
    next
      case False
      with that have "m \<in> set (next_of tasks host n)" "m \<noteq> []"
        by (auto simp: live_succs_def task_succs_def)
      with cl that(1) show ?thesis by (auto simp: order_closed_def placed_def)
    qed
    then have "set (snd s) = reach (live_succs tasks host) {root}"
      using ok r by (intro reach_eqI) (auto simp: order_ok_def)
    with ok show ?thesis unfolding 2(1) by (simp add: order_ok_def)
  qed
qed

theorem task_execution_order_witness:
  "append_task_execution_order 3
     [default_task\<lparr>t_name := ''build'', t_dependsOn := [''gen'']\<rparr>, default_task\<lparr>t_name := ''gen''\<rparr>]
     ''linux'' [] ''build'' ([], []) \<noteq> None"
  using task_execution_order [of "''build''"
      "[default_task\<lparr>t_name := ''build'', t_dependsOn := [''gen'']\<rparr>, default_task\<lparr>t_name := ''gen''\<rparr>]" "''linux''"]
  by (simp del: append_task_execution_order.simps add: numeral_3_eq_3 split: option.splits)

subsection \<open>Reachable tasks\<close>

fun collect_reachable_task_names ::
  "nat \<Rightarrow> task_spec list \<Rightarrow> string \<Rightarrow> string \<Rightarrow> string list \<Rightarrow> string list option" where
  "collect_reachable_task_names 0 tasks hostName taskName visited = None"
| "collect_reachable_task_names (Suc fuel) tasks hostName taskName visited =
     (if taskName = [] \<or> taskName \<in> set visited then Some visited
      else (case find_task_spec tasks taskName of
              None \<Rightarrow> Some (taskName # visited)
            | Some task \<Rightarrow>
                (let edges = resolve_effective_task_edges task tasks hostName;
                     visit = collect_reachable_task_names fuel tasks hostName in
                 case each_opt visit (e_dependsOn edges) (taskName # visited) of
                   None \<Rightarrow> None
                 | Some visited' \<Rightarrow> each_opt visit (e_next edges) visited')))"

definition count_reachable_task_steps :: "task_spec list \<Rightarrow> string \<Rightarrow> string list \<Rightarrow> nat option" where
  "count_reachable_task_steps tasks hostName roots =
     map_option length
       (each_opt (collect_reachable_task_names (Suc (length tasks)) tasks hostName) roots [])"

lemma task_sources: "{n. task_succs tasks host n \<noteq> []} \<subseteq> set (map t_name tasks)"
proof
  fix n assume "n \<in> {n. task_succs tasks host n \<noteq> []}"
  then obtain t where "find_task_spec tasks n = Some t"
    by (auto simp: task_succs_def deps_of_def next_of_def split: option.splits)
  then show "n \<in> set (map t_name tasks)" using find_task_name by blast
qed

interpretation task_walk: recursive_walk "task_succs tasks host" "\<lambda>n. n \<noteq> []" set "(#)"
    "\<lambda>n. collect_reachable_task_names n tasks host" for tasks host
proof unfold_locales
  show "collect_reachable_task_names (Suc n) tasks host x s =
      (if \<not> x \<noteq> [] \<or> x \<in> set s then Some s
       else each_opt (collect_reachable_task_names n tasks host) (task_succs tasks host x) (x # s))" for n x s
    by (cases "find_task_spec tasks x")
      (simp_all add: task_succs_def deps_of_def next_of_def each_opt_append Let_def)
  show "finite {x. task_succs tasks host x \<noteq> []}" by (rule finite_subset [OF task_sources]) simp
qed simp

lemma collect_distinct:
  "distinct visited \<Longrightarrow> collect_reachable_task_names fuel tasks host n visited = Some t \<Longrightarrow> distinct t"
proof (induction fuel arbitrary: n visited t)
  case (Suc fuel)
  have each: "distinct v \<Longrightarrow> each_opt (collect_reachable_task_names fuel tasks host) xs v = Some w \<Longrightarrow> distinct w"
    for xs v w by (induction xs arbitrary: v) (auto split: option.splits dest: Suc.IH)
  show ?case
  proof (cases "n = [] \<or> n \<in> set visited")
    case True
    with Suc.prems show ?thesis by auto
  next
    case False
    then have "each_opt (collect_reachable_task_names fuel tasks host) (task_succs tasks host n) (n # visited) = Some t"
      using Suc.prems(2) unfolding task_walk.visit_Suc by simp
    then show ?thesis using each [of "n # visited"] False Suc.prems(1) by simp
  qed
qed simp

text \<open>The number of steps announced for a set of roots is the number of task names reachable
  from them over the edges of the host, each counted once however often it is reached, and is
  always computed.\<close>

theorem reachable_task_steps:
  "count_reachable_task_steps tasks host roots =
    Some (card (reach (live_succs tasks host) (set roots - {[]})))"
proof -
  have "card {n. task_succs tasks host n \<noteq> []} \<le> card (set (map t_name tasks))"
    by (rule card_mono [OF _ task_sources]) simp
  also have "\<dots> \<le> length tasks" by (metis card_length length_map)
  finally have "card {n. task_succs tasks host n \<noteq> []} < Suc (length tasks)" by simp
  then obtain t where t: "each_opt (collect_reachable_task_names (Suc (length tasks)) tasks host) roots [] = Some t"
      and r: "set t = reach (task_walk.next_live tasks host) {x \<in> set roots. x \<noteq> []}"
    using task_walk.walk_reach [of tasks host "Suc (length tasks)" "[]" roots] by auto
  have d: "distinct v \<Longrightarrow> each_opt (collect_reachable_task_names n tasks host) xs v = Some w \<Longrightarrow> distinct w"
    for n xs v w by (induction xs arbitrary: v) (auto split: option.splits dest: collect_distinct)
  have "distinct t" using d [OF _ t] by simp
  moreover have "{x \<in> set roots. x \<noteq> []} = set roots - {[]}" by auto
  moreover have "task_walk.next_live tasks host = live_succs tasks host"
    by (rule ext) (simp add: task_walk.next_live_def live_succs_def)
  ultimately have "length t = card (reach (live_succs tasks host) (set roots - {[]}))"
    using r by (metis distinct_card)
  with t show ?thesis by (simp add: count_reachable_task_steps_def)
qed

subsection \<open>Text expansion\<close>

function replace_all :: "string \<Rightarrow> string \<Rightarrow> string \<Rightarrow> string" where
  "replace_all str needle v =
     (if needle = [] then str
      else (case find_str needle str of
              None \<Rightarrow> str
            | Some i \<Rightarrow> take i str @ v @ replace_all (drop (i + length needle) str) needle v))"
  by pat_completeness auto
termination
proof (relation "measure (\<lambda>(str, _, _). length str)", goal_cases)
  case (2 str needle v i)
  then have "i \<le> length str" "starts_with needle (drop i str)" using find_str_SomeD by blast+
  then obtain r where "drop i str = needle @ r" by (auto simp: starts_with_conv)
  then have "length str - i = length needle + length r" by (metis length_append length_drop)
  with 2 show ?case by (cases needle) auto
qed simp

declare replace_all.simps [simp del]

definition braces :: "string \<Rightarrow> string" where
  "braces key = ''{{'' @ key @ ''}}''"

text \<open>The directories come from the file system layer and are parameters.\<close>

definition expand_task_text ::
  "string \<Rightarrow> string \<Rightarrow> string \<Rightarrow> string \<Rightarrow> string \<Rightarrow> build_config \<Rightarrow> string" where
  "expand_task_text str packageDir manifestPath buildDirectory depsDirectory cfg =
     fold (\<lambda>(key, v) out. replace_all out (braces key) v)
       ([(''root'', packageDir), (''manifest'', manifestPath), (''build_dir'', buildDirectory),
         (''deps_dir'', depsDirectory),
         (''make'', if makeProgram cfg = [] then ''make'' else makeProgram cfg),
         (''cmake_build_type'', build_config_cmake_build_type cfg),
         (''asan_enabled'', if build_config_asan_enabled cfg then ''1'' else ''0''),
         (''cmake_c_flags'', build_config_asan_compile_flags cfg),
         (''cmake_cxx_flags'', build_config_asan_compile_flags cfg),
         (''cmake_exe_linker_flags'', build_config_asan_link_flags cfg),
         (''cmake_shared_linker_flags'', build_config_asan_link_flags cfg),
         (''cmake_module_linker_flags'', build_config_asan_link_flags cfg)]
        @ map (\<lambda>(k, v). (''option.'' @ k, v)) (optionValues cfg)) str"

definition occurs :: "string \<Rightarrow> string \<Rightarrow> bool" where
  "occurs needle s \<longleftrightarrow> (\<exists>a b. s = a @ needle @ b)"

lemma find_str_None_occurs: "find_str p s = None \<Longrightarrow> \<not> occurs p s"
proof
  assume n: "find_str p s = None" and "occurs p s"
  then obtain a b where "s = a @ p @ b" by (auto simp: occurs_def)
  then have "length a \<le> length s" "starts_with p (drop (length a) s)" by auto
  with n show False by (simp add: find_str_None)
qed

lemma find_str_take_occurs:
  assumes "find_str p s = Some i" and "p \<noteq> []"
  shows "\<not> occurs p (take i s)"
proof
  assume "occurs p (take i s)"
  then obtain a b where ab: "take i s = a @ p @ b" by (auto simp: occurs_def)
  have le: "i \<le> length s" using find_str_SomeD [OF assms(1)] by blast
  have "length a < i"
    using ab assms(2) le by (metis append_is_Nil_conv length_append length_greater_0_conv length_take less_add_same_cancel1 min.absorb2)
  then have "\<not> starts_with p (drop (length a) s)" by (rule find_str_first [OF assms(1)])
  moreover have "s = a @ p @ b @ drop i s" by (metis ab append.assoc append_take_drop_id)
  then have "starts_with p (drop (length a) s)" by (metis append_eq_conv_conj starts_with_append)
  ultimately show False by blast
qed

text \<open>Replacing a placeholder cuts the text at its occurrences, from the left and without
  overlap, and joins the pieces with the value; no piece holds the placeholder, and what a value
  brings in is not scanned again.\<close>

theorem replace_all_pieces:
  assumes "needle \<noteq> []"
  shows "\<exists>ps. ps \<noteq> [] \<and> str = joined needle ps \<and> replace_all str needle v = joined v ps \<and>
    (\<forall>p \<in> set ps. \<not> occurs needle p)"
  using assms
proof (induction str needle v rule: replace_all.induct)
  case (1 str needle v)
  show ?case
  proof (cases "find_str needle str")
    case None
    then show ?thesis
      using 1 find_str_None_occurs [OF None] by (intro exI [of _ "[str]"]) (simp add: replace_all.simps)
  next
    case (Some i)
    let ?r = "drop (i + length needle) str"
    obtain ps where ps: "ps \<noteq> []" "?r = joined needle ps" "replace_all ?r needle v = joined v ps"
        "\<forall>p \<in> set ps. \<not> occurs needle p"
      using 1(1) [OF 1(2) Some 1(2)] by blast
    obtain r where r: "drop i str = needle @ r"
      using find_str_SomeD [OF Some] by (auto simp: starts_with_conv)
    then have "str = take i str @ needle @ ?r"
      by (metis add.commute append_eq_conv_conj append_take_drop_id drop_drop)
    moreover have "replace_all str needle v = take i str @ v @ replace_all ?r needle v"
      using 1(2) Some by (subst replace_all.simps) simp
    ultimately show ?thesis
      using ps find_str_take_occurs [OF Some 1(2)]
      by (intro exI [of _ "take i str # ps"]) (simp add: joined_Cons)
  qed
qed

theorem replace_all_pieces_witness:
  "\<exists>ps. ''a{{x}}b{{x}}'' = joined ''{{x}}'' ps \<and> replace_all ''a{{x}}b{{x}}'' ''{{x}}'' ''{{x}}{{x}}'' = joined ''{{x}}{{x}}'' ps"
  using replace_all_pieces [of "''{{x}}''" "''a{{x}}b{{x}}''" "''{{x}}{{x}}''"] by auto

end
