(* ===== verification/Features_Profiles.thy ===== *)
theory Features_Profiles
  imports Toml_Edit Graph_Search
begin

text \<open>
  Profiles and features of a manifest: \<^verbatim>\<open>parse_feature_definitions\<close>, the recursive reading of a
  profile and what it inherits, and \<^verbatim>\<open>configure_profile_and_features\<close>, which enables the
  features the requested ones imply (\<^verbatim>\<open>src/package_manager.cpp\<close>).
\<close>

type_synonym feature_defs = "(string, string list) omap"

subsection \<open>Reading the definitions\<close>

definition feature_values :: "feature_defs \<Rightarrow> string \<Rightarrow> string list" where
  "feature_values defs name = (case omap_find defs name of None \<Rightarrow> [] | Some vs \<Rightarrow> vs)"

definition feature_assign ::
  "string \<times> feature_defs \<Rightarrow> string \<Rightarrow> toml_assignment \<Rightarrow> (string \<times> feature_defs, feature_defs) flow" where
  "feature_assign s t a =
     Continue (fst s, omap_put (asg_key a)
       (feature_values (snd s) (asg_key a) @ toml_string_list (asg_value a)) (snd s))"

definition parse_feature_definitions :: "string \<Rightarrow> feature_defs" where
  "parse_feature_definitions content =
     flow_result snd
       (toml_loop section_header (\<lambda>s. fst s = ''features'') feature_assign ([], omap_empty)
         (getlines content))"

lemma omap_wf_feature_definitions: "omap_wf (parse_feature_definitions content)"
proof -
  have "flow_all (\<lambda>s. omap_wf (snd s)) omap_wf
      (toml_loop section_header (\<lambda>s. fst s = ''features'') feature_assign ([], omap_empty) (getlines content))"
    by (rule toml_loop_inv) (auto simp: section_header_def feature_assign_def omap_wf_put split: if_splits)
  then show ?thesis
    unfolding parse_feature_definitions_def
    by (cases "toml_loop section_header (\<lambda>s. fst s = ''features'') feature_assign ([], omap_empty)
        (getlines content)") simp_all
qed

subsection \<open>Enabling features\<close>

text \<open>What enabling a feature asks for: nothing for an optional dependency \<^verbatim>\<open>dep:name\<close>.\<close>

definition feature_succs :: "feature_defs \<Rightarrow> string \<Rightarrow> string list" where
  "feature_succs defs feature =
     (if starts_with ''dep:'' feature then [] else feature_values defs feature)"

definition feature_universe :: "feature_defs \<Rightarrow> string set" where
  "feature_universe defs = (\<Union>p \<in> set defs. set (snd p))"

lemma feature_succs_universe: "set (feature_succs defs f) \<subseteq> feature_universe defs"
proof (cases "omap_find defs f")
  case (Some vs)
  then have "(f, vs) \<in> set defs" by (simp add: omap_find_def map_of_SomeD)
  then have "set vs \<subseteq> feature_universe defs" by (force simp: feature_universe_def)
  with Some show ?thesis by (simp add: feature_succs_def feature_values_def)
qed (simp add: feature_succs_def feature_values_def)

lemma finite_feature_universe [simp]: "finite (feature_universe defs)"
  by (simp add: feature_universe_def)

text \<open>The loop over \<^verbatim>\<open>pending\<close>, a stack whose top is its last element.\<close>

function enable_features :: "feature_defs \<Rightarrow> string list \<Rightarrow> string list \<Rightarrow> string list" where
  "enable_features defs pending enabled =
     (if pending = [] then enabled
      else
        (let feature = last pending; rest = butlast pending in
         if feature = [] \<or> feature \<in> set enabled then enable_features defs rest enabled
         else enable_features defs (rest @ feature_succs defs feature) (feature # enabled)))"
  by pat_completeness auto
termination
proof (relation "measures [\<lambda>(defs, p, e). card (feature_universe defs \<union> set p - set e),
    \<lambda>(defs, p, e). length p]", goal_cases)
  case (2 defs pending enabled feature rest)
  have sub: "set rest \<subseteq> set pending" using 2 by (auto dest: in_set_butlastD)
  have "card (feature_universe defs \<union> set rest - set enabled) \<le>
      card (feature_universe defs \<union> set pending - set enabled)"
    by (rule card_mono) (use sub in auto)
  then show ?case using 2 by (auto simp: le_less)
next
  case (3 defs pending enabled feature rest)
  have sub: "set rest \<subseteq> set pending" using 3 by (auto dest: in_set_butlastD)
  have "feature \<in> set pending" using 3 by auto
  then have "feature_universe defs \<union> set (rest @ feature_succs defs feature) - set (feature # enabled) \<subset>
      feature_universe defs \<union> set pending - set enabled"
    using 3 sub feature_succs_universe [of defs feature] by auto
  then have "card (feature_universe defs \<union> set (rest @ feature_succs defs feature) - set (feature # enabled)) <
      card (feature_universe defs \<union> set pending - set enabled)"
    by (rule psubset_card_mono [rotated]) simp
  then show ?case by simp
qed simp

declare enable_features.simps [simp del]

definition feature_next :: "feature_defs \<Rightarrow> string \<Rightarrow> string list" where
  "feature_next defs f = filter (\<lambda>v. v \<noteq> []) (feature_succs defs f)"

lemma enable_features_inv:
  assumes "search_inv (feature_next defs) R (set (filter (\<lambda>v. v \<noteq> []) pending)) (set enabled)"
  shows "set (enable_features defs pending enabled) = reach (feature_next defs) R"
  using assms
proof (induction defs pending enabled rule: enable_features.induct)
  case (1 defs pending enabled)
  show ?case
  proof (cases "pending = []")
    case True
    with 1(3) show ?thesis by (simp add: enable_features.simps search_inv_done)
  next
    case False
    let ?f = "last pending" and ?r = "butlast pending"
    have p: "set pending = insert ?f (set ?r)"
      using False by (metis append_butlast_last_id list.simps(15) rotate1.simps(2) set_rotate1)
    show ?thesis
    proof (cases "?f = [] \<or> ?f \<in> set enabled")
      case True
      have "search_inv (feature_next defs) R (set (filter (\<lambda>v. v \<noteq> []) ?r)) (set enabled)"
      proof (cases "?f = []")
        case True
        then have "set (filter (\<lambda>v. v \<noteq> []) ?r) = set (filter (\<lambda>v. v \<noteq> []) pending)" using p by auto
        then show ?thesis using 1(3) by simp
      next
        case False
        then have "set (filter (\<lambda>v. v \<noteq> []) pending) = insert ?f (set (filter (\<lambda>v. v \<noteq> []) ?r))"
          using p by auto
        then show ?thesis using 1(3) search_inv_skip True False by metis
      qed
      with 1(1) [OF False refl refl True] True False show ?thesis
        by (simp add: enable_features.simps [of defs pending] Let_def)
    next
      case new: False
      have "set (filter (\<lambda>v. v \<noteq> []) pending) = insert ?f (set (filter (\<lambda>v. v \<noteq> []) ?r))"
        using p new by auto
      then have "search_inv (feature_next defs) R
          (set (filter (\<lambda>v. v \<noteq> []) ?r) \<union> set (feature_next defs ?f)) (insert ?f (set enabled))"
        using 1(3) search_inv_visit by metis
      then have "search_inv (feature_next defs) R
          (set (filter (\<lambda>v. v \<noteq> []) (?r @ feature_succs defs ?f))) (set (?f # enabled))"
        by (simp add: feature_next_def)
      with 1(2) [OF False refl refl new] new False show ?thesis
        by (simp add: enable_features.simps [of defs pending] Let_def)
    qed
  qed
qed

lemma enable_features_reach:
  "set (enable_features defs pending []) =
    reach (\<lambda>f. filter (\<lambda>v. v \<noteq> []) (feature_succs defs f)) (set (filter (\<lambda>v. v \<noteq> []) pending))"
  using enable_features_inv [of defs "set (filter (\<lambda>v. v \<noteq> []) pending)" pending "[]"]
  by (simp add: search_inv_start feature_next_def [abs_def])

interpretation features: graph_search feature_succs "\<lambda>v. v \<noteq> []"
    "\<lambda>defs pending. set (enable_features defs pending [])"
  by unfold_locales (auto simp: enable_features_reach intro: reach_refl reach_step)

lemma distinct_enable_features: "distinct enabled \<Longrightarrow> distinct (enable_features defs pending enabled)"
  by (induction defs pending enabled rule: enable_features.induct)
    (subst enable_features.simps, simp add: Let_def)

subsection \<open>Profiles\<close>

definition profile_section :: "string \<Rightarrow> string" where
  "profile_section name = ''profile.'' @ name"

definition profile_assign ::
  "string \<times> build_config \<Rightarrow> string \<Rightarrow> toml_assignment \<Rightarrow> (string \<times> build_config, build_config) flow" where
  "profile_assign s t a =
     (if asg_key a \<noteq> ''inherits''
      then Continue (fst s, parse_build_config_key_value (asg_key a) (asg_value a) (snd s))
      else Continue s)"

text \<open>The settings of one profile section, without what it inherits.\<close>

definition read_profile :: "string \<Rightarrow> string \<Rightarrow> build_config" where
  "read_profile content name =
     flow_result snd
       (toml_loop section_header (\<lambda>s. fst s = profile_section name) profile_assign
         ([], default_build_config) (getlines content))"

text \<open>The profile a section inherits from, when it names one.\<close>

definition profile_parent :: "string \<Rightarrow> string \<Rightarrow> string option" where
  "profile_parent content name =
     (case find_section_toml_string content (profile_section name) ''inherits'' of
        Some p \<Rightarrow> if p \<noteq> [] then Some p else None
      | None \<Rightarrow> None)"

definition cycle_error :: "string \<Rightarrow> string" where
  "cycle_error name = ''Profile inheritance cycle at '' @ [squote] @ name @ [squote]"

definition declared_profiles :: "string \<Rightarrow> string set" where
  "declared_profiles content = {n. has_section content (profile_section n)}"

lemma finite_declared_profiles [simp]: "finite (declared_profiles content)"
proof -
  let ?f = "\<lambda>n. CHR ''['' # profile_section n @ [CHR '']'']"
  have "?f ` declared_profiles content \<subseteq> strip_toml_comment ` set (getlines content)"
    by (auto simp: declared_profiles_def has_section_def list_ex_iff is_section_line_def) (metis imageI)
  then have "finite (?f ` declared_profiles content)" by (rule finite_subset) simp
  moreover have "inj_on ?f (declared_profiles content)" by (auto simp: inj_on_def profile_section_def)
  ultimately show ?thesis by (rule finite_imageD)
qed

text \<open>\<open>active\<close> holds the profiles on the current path of inheritance.\<close>

function parse_profile_recursive ::
  "string \<Rightarrow> string \<Rightarrow> string list \<Rightarrow> build_config \<Rightarrow> string + build_config" where
  "parse_profile_recursive content name active result =
     (if \<not> has_section content (profile_section name) then Inr result
      else if name \<in> set active then Inl (cycle_error name)
      else
        (case (case profile_parent content name of
                 Some inherited \<Rightarrow>
                   parse_profile_recursive content inherited (name # active) result
               | None \<Rightarrow> Inr result) of
           Inl e \<Rightarrow> Inl e
         | Inr r \<Rightarrow> Inr (merge_build_config r (read_profile content name))))"
  by pat_completeness auto
termination
proof (relation "measure (\<lambda>(content, name, active, _). card (declared_profiles content - set active))", goal_cases)
  case (2 content name active result inherited)
  then have "name \<in> declared_profiles content - set active" by (simp add: declared_profiles_def)
  then have "declared_profiles content - set (name # active) \<subset> declared_profiles content - set active"
    by auto
  then show ?case by (simp add: psubset_card_mono)
qed simp

declare parse_profile_recursive.simps [simp del]

text \<open>The specification: the chain of sections a profile stands for, itself first.\<close>

inductive profile_chain :: "string \<Rightarrow> string \<Rightarrow> string list \<Rightarrow> bool" for content where
  undeclared: "\<not> has_section content (profile_section n) \<Longrightarrow> profile_chain content n []"
| root: "has_section content (profile_section n) \<Longrightarrow> profile_parent content n = None \<Longrightarrow>
    profile_chain content n [n]"
| inherits: "has_section content (profile_section n) \<Longrightarrow> profile_parent content n = Some p \<Longrightarrow>
    profile_chain content p ns \<Longrightarrow> profile_chain content n (n # ns)"

definition profile_rel :: "string \<Rightarrow> (string \<times> string) set" where
  "profile_rel content =
     {(n, p). has_section content (profile_section n) \<and> profile_parent content n = Some p}"

lemma profile_chain_fun: "profile_chain content n ns \<Longrightarrow> profile_chain content n ms \<Longrightarrow> ns = ms"
proof (induction arbitrary: ms rule: profile_chain.induct)
  case (undeclared n)
  from undeclared(2,1) show ?case by (cases rule: profile_chain.cases) simp_all
next
  case (root n)
  from root(3,1,2) show ?case by (cases rule: profile_chain.cases) simp_all
next
  case (inherits n p ns)
  from inherits(5,1,2,4) show ?case by (cases rule: profile_chain.cases) auto
qed

lemma profile_chain_step:
  assumes "(n, p) \<in> profile_rel content" and "profile_chain content n ns"
  shows "\<exists>ps. profile_chain content p ps \<and> ns = n # ps"
  using assms(2,1) by (cases rule: profile_chain.cases) (auto simp: profile_rel_def)

lemma profile_chain_shrinks:
  assumes "(n, m) \<in> (profile_rel content)\<^sup>+"
  shows "profile_chain content n ns \<Longrightarrow> \<exists>ms. profile_chain content m ms \<and> length ms < length ns"
  using assms
proof (induction arbitrary: ns rule: trancl_induct)
  case (base y)
  then show ?case using profile_chain_step by fastforce
next
  case (step y z)
  then obtain ys where "profile_chain content y ys" "length ys < length ns" by blast
  with step(2) show ?case using profile_chain_step by fastforce
qed

lemma profile_chain_no_cycle: "profile_chain content n ns \<Longrightarrow> (n, n) \<notin> (profile_rel content)\<^sup>+"
  using profile_chain_shrinks profile_chain_fun by blast

lemma profile_chain_reaches:
  assumes "(n, m) \<in> (profile_rel content)\<^sup>*" and "profile_chain content n ns"
  shows "\<exists>ms. profile_chain content m ms"
  using assms by (induction rule: rtrancl_induct) (auto dest: profile_chain_step)

definition merged_chain :: "string \<Rightarrow> string list \<Rightarrow> build_config \<Rightarrow> build_config" where
  "merged_chain content ns = foldr (\<lambda>n c. merge_build_config c (read_profile content n)) ns"

lemma profile_recursive_chain:
  "profile_chain content name ns \<Longrightarrow> \<forall>a \<in> set active. (a, name) \<in> (profile_rel content)\<^sup>+ \<Longrightarrow>
   parse_profile_recursive content name active r = Inr (merged_chain content ns r)"
proof (induction arbitrary: active rule: profile_chain.induct)
  case (undeclared n)
  then show ?case by (simp add: parse_profile_recursive.simps merged_chain_def)
next
  case (root n)
  then have "n \<notin> set active" using profile_chain_no_cycle profile_chain.root by blast
  with root show ?case by (subst parse_profile_recursive.simps) (simp add: merged_chain_def)
next
  case (inherits n p ns)
  have "profile_chain content n (n # ns)" using inherits profile_chain.inherits by blast
  then have "n \<notin> set active" using profile_chain_no_cycle inherits.prems by blast
  moreover have "(n, p) \<in> profile_rel content" using inherits by (simp add: profile_rel_def)
  then have "\<forall>a \<in> set (n # active). (a, p) \<in> (profile_rel content)\<^sup>+"
    using inherits.prems by (auto intro: trancl_into_trancl)
  then have "parse_profile_recursive content p (n # active) r = Inr (merged_chain content ns r)"
    by (rule inherits.IH)
  ultimately show ?case
    using inherits by (subst parse_profile_recursive.simps) (simp add: merged_chain_def)
qed

lemma profile_recursive_error:
  "parse_profile_recursive content name active r = Inl e \<Longrightarrow>
   \<forall>a \<in> set active. (a, name) \<in> (profile_rel content)\<^sup>+ \<Longrightarrow>
   \<exists>m. e = cycle_error m \<and> (name, m) \<in> (profile_rel content)\<^sup>* \<and> (m, m) \<in> (profile_rel content)\<^sup>+"
proof (induction content name active r rule: parse_profile_recursive.induct)
  case (1 content name active r)
  from 1(2) have d: "has_section content (profile_section name)"
    by (subst (asm) parse_profile_recursive.simps) (auto split: if_splits)
  show ?case
  proof (cases "name \<in> set active")
    case True
    then have "e = cycle_error name" using 1(2) d by (subst (asm) parse_profile_recursive.simps) simp
    with True 1(3) show ?thesis by blast
  next
    case False
    then obtain p where p: "profile_parent content name = Some p"
      and rec: "parse_profile_recursive content p (name # active) r = Inl e"
      using 1(2) d by (subst (asm) parse_profile_recursive.simps) (auto split: option.splits sum.splits)
    have np: "(name, p) \<in> profile_rel content" using d p by (simp add: profile_rel_def)
    then have "\<forall>a \<in> set (name # active). (a, p) \<in> (profile_rel content)\<^sup>+"
      using 1(3) by (auto intro: trancl_into_trancl)
    from 1(1) [OF _ False p rec this] d np show ?thesis by (meson converse_rtrancl_into_rtrancl)
  qed
qed

text \<open>C26. Reading a profile always ends. It fails, naming a profile on the cycle, exactly when the
  inheritance of the named profile runs into a cycle; otherwise the sections along the chain are
  merged from the furthest ancestor to the profile itself, so the profile's own settings win.\<close>

theorem profile_inheritance:
  "case parse_profile_recursive content name [] r of
     Inr cfg \<Rightarrow> \<exists>ns. profile_chain content name ns \<and> cfg = merged_chain content ns r
   | Inl e \<Rightarrow> \<not> (\<exists>ns. profile_chain content name ns) \<and>
       (\<exists>m. e = cycle_error m \<and> (name, m) \<in> (profile_rel content)\<^sup>* \<and> (m, m) \<in> (profile_rel content)\<^sup>+)"
proof (cases "\<exists>ns. profile_chain content name ns")
  case True
  then obtain ns where "profile_chain content name ns" by blast
  with profile_recursive_chain [OF this, of "[]" r] show ?thesis by auto
next
  case False
  show ?thesis
  proof (cases "parse_profile_recursive content name [] r")
    case (Inl e)
    with False profile_recursive_error [OF Inl] show ?thesis by simp
  next
    case (Inr cfg)
    have "\<exists>ns. profile_chain content n ns" if "parse_profile_recursive content n act r = Inr c" for n act c
      using that
    proof (induction content n act r arbitrary: c rule: parse_profile_recursive.induct)
      case (1 content n act r)
      show ?case
      proof (cases "has_section content (profile_section n) \<and> n \<notin> set act")
        case True
        then show ?thesis
        proof (cases "profile_parent content n")
          case None
          with True show ?thesis using profile_chain.root by blast
        next
          case (Some p)
          then obtain c' where "parse_profile_recursive content p (n # act) r = Inr c'"
            using 1(2) True by (subst (asm) parse_profile_recursive.simps) (auto split: sum.splits)
          with 1(1) True Some show ?thesis using profile_chain.inherits by (metis (no_types, lifting))
        qed
      next
        case False
        then show ?thesis using 1(2) profile_chain.undeclared
          by (subst (asm) parse_profile_recursive.simps) (auto split: if_splits)
      qed
    qed
    with Inr False show ?thesis by blast
  qed
qed

subsection \<open>Configuring a build\<close>

text \<open>The first half of \<^verbatim>\<open>configure_profile_and_features\<close>: the selected profile.\<close>

definition builtin_profile :: "string \<Rightarrow> build_config" where
  "builtin_profile name =
     (if name = ''dev''
      then default_build_config\<lparr>optLevel := ''-O0'', compilerFlags := append_unique_flag [] ''--debug''\<rparr>
      else if name = ''release'' then default_build_config\<lparr>optLevel := ''-O3''\<rparr>
      else default_build_config)"

definition configure_profile :: "string \<Rightarrow> build_config \<Rightarrow> string \<Rightarrow> string + build_config" where
  "configure_profile content config name =
     (if name = [] then Inr config
      else
        (case parse_profile_recursive content name [] (builtin_profile name) of
           Inl e \<Rightarrow> Inl e
         | Inr profile \<Rightarrow>
             (let c1 = merge_build_config config profile;
                  c2 = c1\<lparr>compilerFlags := fold (\<lambda>f fs. append_unique_flag fs f) (compilerFlags c1) [],
                          profileName := name\<rparr>
              in Inr (if buildDir c2 = [] \<and> includedBuildDir c2 = []
                      then c2\<lparr>buildDir := ''build/'' @ name\<rparr> else c2))))"

text \<open>The second half: the enabled features and the options tasks see.\<close>

definition requested_features :: "feature_defs \<Rightarrow> string list \<Rightarrow> bool \<Rightarrow> bool \<Rightarrow> string list" where
  "requested_features defs requested noDefault everything =
     requested
     @ (if noDefault then [] else feature_values defs ''default'')
     @ (if everything then filter (\<lambda>n. n \<noteq> ''default'') (omap_keys defs) else [])"

definition feature_option :: "string \<Rightarrow> string" where
  "feature_option feature = ''feature.'' @ feature"

definition configure_features ::
  "string \<Rightarrow> build_config \<Rightarrow> string list \<Rightarrow> bool \<Rightarrow> bool \<Rightarrow> build_config" where
  "configure_features content config requested noDefault everything =
     (let defs = parse_feature_definitions content;
          enabled = sort (enable_features defs (requested_features defs requested noDefault everything) []);
          opts1 = fold (\<lambda>f. omap_put (feature_option f) ''0'')
                    (filter (\<lambda>n. n \<noteq> ''default'') (omap_keys defs)) (optionValues config);
          opts2 = fold (\<lambda>f. omap_put (feature_option f) ''1'') enabled opts1;
          opts3 = omap_put ''profile''
                    (if profileName config = [] then ''default'' else profileName config) opts2
      in config\<lparr>enabledFeatures := enabled, optionValues := opts3, allFeatures := everything\<rparr>)"

definition configure_profile_and_features ::
  "string \<Rightarrow> build_config \<Rightarrow> string \<Rightarrow> string list \<Rightarrow> bool \<Rightarrow> bool \<Rightarrow> string + build_config" where
  "configure_profile_and_features content config name requested noDefault everything =
     (case configure_profile content config name of
        Inl e \<Rightarrow> Inl e
      | Inr c \<Rightarrow> Inr (configure_features content c requested noDefault everything))"

lemma enabledFeatures_configured:
  "enabledFeatures (configure_features content config requested nd all) =
    sort (enable_features (parse_feature_definitions content)
      (requested_features (parse_feature_definitions content) requested nd all) [])"
  by (simp add: configure_features_def Let_def)

lemma sorted_distinct_set: "sorted xs \<Longrightarrow> distinct xs \<Longrightarrow> xs = sorted_list_of_set (set xs)"
  by (simp add: sorted_list_of_set.idem_if_sorted_distinct)

text \<open>C25. The enabled features are the least set that holds the requested ones, the defaults unless
  declined and every feature if asked, and that contains, with a feature, the nonempty members of
  its definition (nothing below a \<^verbatim>\<open>dep:\<close> entry); they are listed in order, without repetition, and
  do not depend on the order of the request.\<close>

theorem enabled_features_closure:
  fixes content :: string and requested :: "string list" and noDefault everything :: bool
    and config :: build_config
  defines "defs \<equiv> parse_feature_definitions content"
  defines "wanted \<equiv> set (requested_features defs requested noDefault everything) - {[]}"
  shows "enabledFeatures (configure_features content config requested noDefault everything) =
      sorted_list_of_set (reach (\<lambda>f. filter (\<lambda>v. v \<noteq> []) (feature_succs defs f)) wanted) \<and>
    distinct (enabledFeatures (configure_features content config requested noDefault everything))"
proof -
  let ?p = "requested_features defs requested noDefault everything"
  let ?e = "sort (enable_features defs ?p [])"
  have "set ?e = reach (\<lambda>f. filter (\<lambda>v. v \<noteq> []) (feature_succs defs f)) (set (filter (\<lambda>v. v \<noteq> []) ?p))"
    by (simp add: features.run_eq_reach)
  also have "set (filter (\<lambda>v. v \<noteq> []) ?p) = wanted" by (auto simp: wanted_def)
  finally have set: "set ?e = reach (\<lambda>f. filter (\<lambda>v. v \<noteq> []) (feature_succs defs f)) wanted" .
  have "distinct ?e" by (simp add: distinct_enable_features)
  then show ?thesis
    unfolding enabledFeatures_configured defs_def [symmetric]
    using sorted_distinct_set [of ?e] set by simp
qed

lemma feature_option_inj: "feature_option f = feature_option g \<longleftrightarrow> f = g"
  by (simp add: feature_option_def)

lemma profile_not_feature_option: "''profile'' \<noteq> feature_option f"
  by (simp add: feature_option_def)

text \<open>A task can read the outcome from the options: \<^verbatim>\<open>feature.NAME\<close> is \<^verbatim>\<open>1\<close> for an enabled feature,
  \<^verbatim>\<open>0\<close> for a declared one that is not enabled, and untouched for any other name.\<close>

theorem feature_options:
  fixes content f :: string and requested :: "string list" and noDefault everything :: bool
    and config :: build_config
  assumes "build_config_wf config"
  defines "out \<equiv> configure_features content config requested noDefault everything"
  shows "omap_find (optionValues out) (feature_option f) =
    (if f \<in> set (enabledFeatures out) then Some ''1''
     else if f \<in> set (omap_keys (parse_feature_definitions content)) - {''default''} then Some ''0''
     else omap_find (optionValues config) (feature_option f))"
proof -
  let ?defs = "parse_feature_definitions content"
  let ?e = "enabledFeatures out"
  let ?d = "filter (\<lambda>n. n \<noteq> ''default'') (omap_keys ?defs)"
  let ?o1 = "fold (\<lambda>f. omap_put (feature_option f) ''0'') ?d (optionValues config)"
  let ?o2 = "fold (\<lambda>f. omap_put (feature_option f) ''1'') ?e ?o1"
  have wf: "omap_wf (optionValues config)" using assms(1) by (simp add: build_config_wf_def)
  then have w1: "omap_wf ?o1" by (rule om.wf_puts_const)
  then have w2: "omap_wf ?o2" by (rule om.wf_puts_const)
  have "optionValues out =
      omap_put ''profile'' (if profileName config = [] then ''default'' else profileName config) ?o2"
    unfolding out_def enabledFeatures_configured by (simp add: configure_features_def Let_def)
  then have "omap_find (optionValues out) (feature_option f) = omap_find ?o2 (feature_option f)"
    using omap_find_put [OF w2] profile_not_feature_option [of f] by simp
  also have "\<dots> = (if f \<in> set ?e then Some ''1'' else omap_find ?o1 (feature_option f))"
    using om.find_puts_const [OF w1, of feature_option "''1''" ?e "feature_option f"]
    by (auto simp: feature_option_inj)
  also have "omap_find ?o1 (feature_option f) =
      (if f \<in> set ?d then Some ''0'' else omap_find (optionValues config) (feature_option f))"
    using om.find_puts_const [OF wf, of feature_option "''0''" ?d "feature_option f"]
    by (auto simp: feature_option_inj)
  finally show ?thesis by simp
qed

theorem feature_options_witness:
  "omap_find (optionValues (configure_features (''[features]'' @ newline # ''full = ['' @ dquote # ''json'' @ dquote # '']'')
     default_build_config [''full''] False False)) ''feature.json'' = Some ''1''"
proof -
  let ?c = "''[features]'' @ newline # ''full = ['' @ dquote # ''json'' @ dquote # '']''"
  have "build_config_wf default_build_config" by code_simp
  from feature_options [OF this, of ?c "[''full'']" False False "''json''"]
  have "omap_find (optionValues (configure_features ?c default_build_config [''full''] False False))
      (feature_option ''json'') = Some ''1'' \<or>
    ''json'' \<notin> set (enabledFeatures (configure_features ?c default_build_config [''full''] False False))"
    by auto
  moreover have "''json'' \<in> set (enabledFeatures (configure_features ?c default_build_config [''full''] False False))"
    by code_simp
  moreover have "feature_option ''json'' = ''feature.json''" by (simp add: feature_option_def)
  ultimately show ?thesis by auto
qed

end
