(* ===== verification/Dependencies.thy ===== *)
theory Dependencies
  imports Features_Profiles
begin

text \<open>
  Source dependencies and toolchain requirements of a manifest (\<^verbatim>\<open>src/package_manager.cpp\<close>):
  reading them, which optional dependencies the enabled features switch on, the check of feature
  references and the configuration a dependency is built with.
\<close>

subsection \<open>Toolchains\<close>

record toolchain_requirement =
  tc_name :: string
  tc_command :: string
  tc_minVersion :: string
  tc_versionArgs :: string
  tc_host :: string
  tc_install :: string

text \<open>\<^verbatim>\<open>if(const auto it = values.find(key); it != values.end()) field = it->second;\<close>\<close>

definition table_value :: "(string, string) omap \<Rightarrow> string \<Rightarrow> string \<Rightarrow> string" where
  "table_value values key dflt = (case omap_find values key of None \<Rightarrow> dflt | Some v \<Rightarrow> v)"

definition toolchain_of :: "string \<Rightarrow> (string, string) omap \<Rightarrow> toolchain_requirement" where
  "toolchain_of key values =
     \<lparr>tc_name = table_value values ''name'' key, tc_command = table_value values ''command'' [],
      tc_minVersion = table_value values ''min_version'' [],
      tc_versionArgs = table_value values ''version_args'' ''--version'',
      tc_host = table_value values ''host'' [], tc_install = table_value values ''install'' []\<rparr>"

definition toolchain_assign ::
  "string \<times> toolchain_requirement list \<Rightarrow> string \<Rightarrow> toml_assignment \<Rightarrow>
   (string \<times> toolchain_requirement list, toolchain_requirement list) flow" where
  "toolchain_assign s t a =
     Continue (fst s, snd s @ [toolchain_of (asg_key a) (parse_inline_table (asg_value a))])"

definition parse_toolchain_requirements :: "string \<Rightarrow> toolchain_requirement list" where
  "parse_toolchain_requirements content =
     flow_result snd
       (toml_loop section_header (\<lambda>s. fst s = ''tool.mlang.toolchains'') toolchain_assign ([], [])
         (getlines content))"

subsection \<open>Dependencies\<close>

record dep_spec =
  d_name :: string
  d_git :: string
  d_url :: string
  d_path :: string
  d_versionRequirement :: string
  d_features :: "string list"
  d_archiveType :: string
  d_rev :: string
  d_tag :: string
  d_build :: string
  d_cmakeArgs :: string
  d_subdir :: string
  d_stripComponents :: int
  d_spinner :: bool
  d_submodules :: bool
  d_optional :: bool
  d_defaultFeatures :: bool

text \<open>The fields as the table gives them.\<close>

definition raw_dep_spec :: "string \<Rightarrow> (string, string) omap \<Rightarrow> dep_spec" where
  "raw_dep_spec name kv =
     \<lparr>d_name = name, d_git = table_value kv ''git'' [], d_url = table_value kv ''url'' [],
      d_path = table_value kv ''path'' [], d_versionRequirement = table_value kv ''version'' [],
      d_features = (case omap_find kv ''features'' of None \<Rightarrow> [] | Some v \<Rightarrow> toml_string_list v),
      d_archiveType = table_value kv ''archive'' [], d_rev = table_value kv ''rev'' [],
      d_tag = table_value kv ''tag'' [], d_build = table_value kv ''build'' [],
      d_cmakeArgs = table_value kv ''cmake_args'' [], d_subdir = table_value kv ''subdir'' [],
      d_stripComponents =
        (case omap_find kv ''strip_components'' of None \<Rightarrow> 1 | Some v \<Rightarrow> parse_int_or_default v 1),
      d_spinner = (case omap_find kv ''spinner'' of None \<Rightarrow> True | Some v \<Rightarrow> parse_toml_bool_value v),
      d_submodules = (case omap_find kv ''submodules'' of None \<Rightarrow> False | Some v \<Rightarrow> parse_toml_bool_value v),
      d_optional = (case omap_find kv ''optional'' of None \<Rightarrow> False | Some v \<Rightarrow> parse_toml_bool_value v),
      d_defaultFeatures =
        (case omap_find kv ''default_features'' of None \<Rightarrow> True | Some v \<Rightarrow> parse_toml_bool_value v)\<rparr>"

definition infer_archive_type :: "dep_spec \<Rightarrow> dep_spec" where
  "infer_archive_type dep =
     (if d_archiveType dep = [] \<and> d_url dep \<noteq> [] \<and>
         (ends_with ''.tar.gz'' (d_url dep) \<or> ends_with ''.tgz'' (d_url dep))
      then dep\<lparr>d_archiveType := ''tar.gz''\<rparr> else dep)"

definition default_build :: "dep_spec \<Rightarrow> dep_spec" where
  "default_build dep =
     (if d_build dep = [] then dep\<lparr>d_build := if d_path dep = [] then ''cmake'' else ''mlang''\<rparr> else dep)"

definition dep_spec_of :: "string \<Rightarrow> (string, string) omap \<Rightarrow> dep_spec" where
  "dep_spec_of name kv = default_build (infer_archive_type (raw_dep_spec name kv))"

text \<open>The reader works on the first line of an assignment: \<open>t\<close> is that line.\<close>

definition dep_assign ::
  "string \<times> dep_spec list \<Rightarrow> string \<Rightarrow> toml_assignment \<Rightarrow> (string \<times> dep_spec list, dep_spec list) flow" where
  "dep_assign s t a =
     (if asg_key a = [] \<or> CHR ''{'' \<notin> set t then Continue s
      else
        (let kv = parse_inline_table t;
             hasSource = (omap_find kv ''git'' \<noteq> None \<or> omap_find kv ''url'' \<noteq> None \<or> omap_find kv ''path'' \<noteq> None)
         in if \<not> hasSource \<and> fst s = ''c-dependencies'' then Continue s
            else Continue (fst s, snd s @ [dep_spec_of (asg_key a) kv])))"

definition parse_source_deps :: "string \<Rightarrow> dep_spec list" where
  "parse_source_deps content =
     flow_result snd
       (toml_loop section_header (\<lambda>s. fst s = ''dependencies'' \<or> fst s = ''c-dependencies'') dep_assign
         ([], []) (getlines content))"

definition dependency_enabled :: "dep_spec \<Rightarrow> build_config \<Rightarrow> bool" where
  "dependency_enabled dep config \<longleftrightarrow>
     (if \<not> d_optional dep \<or> allFeatures config then True
      else d_name dep \<in> set (enabledFeatures config) \<or>
        (''dep:'' @ d_name dep) \<in> set (enabledFeatures config))"

definition filter_disabled_dependencies :: "dep_spec list \<Rightarrow> build_config \<Rightarrow> dep_spec list" where
  "filter_disabled_dependencies deps config = filter (\<lambda>dep. dependency_enabled dep config) deps"

subsection \<open>Feature references\<close>

definition valid_include_target :: "string \<Rightarrow> bool" where
  "valid_include_target target \<longleftrightarrow>
     (if target = [] \<or> target = ''.'' \<or> target = ''..'' then False
      else list_all (\<lambda>c. isalnum c \<or> c = CHR ''-'' \<or> c = CHR ''_'') target)"

definition optional_dependencies :: "string \<Rightarrow> string list" where
  "optional_dependencies content = map d_name (filter d_optional (parse_source_deps content))"

definition valid_reference :: "string \<Rightarrow> string \<Rightarrow> bool" where
  "valid_reference content reference \<longleftrightarrow>
     (if starts_with ''dep:'' reference
      then drop 4 reference \<in> set (optional_dependencies content)
      else reference \<in> set (omap_keys (parse_feature_definitions content)) \<or>
        reference \<in> set (optional_dependencies content))"

datatype feature_error = Unknown_feature string | Unknown_member string string

definition validate_package_features :: "string \<Rightarrow> string list \<Rightarrow> feature_error option" where
  "validate_package_features content requested =
     (case find (\<lambda>f. \<not> valid_reference content f) requested of
        Some f \<Rightarrow> Some (Unknown_feature f)
      | None \<Rightarrow>
          (case find (\<lambda>(f, m). \<not> valid_reference content m)
              (concat (map (\<lambda>(f, ms). map (Pair f) ms) (parse_feature_definitions content))) of
             Some (f, m) \<Rightarrow> Some (Unknown_member f m)
           | None \<Rightarrow> None))"

text \<open>The text printed for an error; the package's name comes from its manifest.\<close>

fun feature_error_text :: "string \<Rightarrow> feature_error \<Rightarrow> string" where
  "feature_error_text package (Unknown_feature f) =
     ''Unknown feature '' @ [squote] @ f @ [squote] @ '' for package '' @ [squote] @ package @ [squote]"
| "feature_error_text package (Unknown_member f m) =
     ''Feature '' @ [squote] @ f @ [squote] @ '' in package '' @ [squote] @ package @ [squote] @
     '' refers to unknown feature or optional dependency '' @ [squote] @ m @ [squote]"

text \<open>The configuration of a dependency's own build. \<open>childConfig\<close> is what
  \<^verbatim>\<open>parse_manifest_build_config\<close> gives for the child, output paths of an include included.\<close>

definition dependency_build_config ::
  "string \<Rightarrow> build_config \<Rightarrow> dep_spec \<Rightarrow> build_config \<Rightarrow> build_config option" where
  "dependency_build_config childContent childConfig dep parent =
     (if validate_package_features childContent (d_features dep) \<noteq> None then None
      else
        (case configure_profile_and_features childContent childConfig (profileName parent)
            (d_features dep) (\<not> d_defaultFeatures dep) (allFeatures parent) of
           Inl e \<Rightarrow> None
         | Inr config \<Rightarrow>
             (let config1 =
                (if profileName parent \<noteq> [] \<and>
                    \<not> has_section childContent (profile_section (profileName parent)) \<and>
                    profileName parent \<noteq> ''dev'' \<and> profileName parent \<noteq> ''release'' \<and> optLevel parent \<noteq> []
                 then config\<lparr>optLevel := optLevel parent\<rparr> else config)
              in Some (config1\<lparr>compilerProgram := compilerProgram parent,
                   globalCacheDir := globalCacheDir parent, vendorDir := vendorDir parent,
                   useGlobalCache := useGlobalCache parent,
                   globalCacheExplicit := globalCacheExplicit parent\<rparr>))))"

subsection \<open>Optional dependencies and features\<close>

text \<open>After the features of a build are configured, a dependency takes part in it exactly when it
  is not optional, all features were asked for, or its name or its \<^verbatim>\<open>dep:\<close> entry is in the closure of
  the requested features.\<close>

theorem dependency_enabled_closure:
  fixes content :: string and requested :: "string list" and noDefault everything :: bool
    and config :: build_config
  defines "defs \<equiv> parse_feature_definitions content"
  defines "on \<equiv> reach (\<lambda>f. filter (\<lambda>v. v \<noteq> []) (feature_succs defs f))
    (set (requested_features defs requested noDefault everything) - {[]})"
  shows "dependency_enabled dep (configure_features content config requested noDefault everything) \<longleftrightarrow>
    \<not> d_optional dep \<or> everything \<or> d_name dep \<in> on \<or> (''dep:'' @ d_name dep) \<in> on"
proof -
  let ?r = "requested_features defs requested noDefault everything"
  have "set (enable_features defs ?r []) = reach (\<lambda>f. filter (\<lambda>v. v \<noteq> []) (feature_succs defs f))
      (set (filter (\<lambda>v. v \<noteq> []) ?r))"
    by (simp add: features.run_eq_reach)
  also have "set (filter (\<lambda>v. v \<noteq> []) ?r) = set ?r - {[]}" by auto
  finally have on: "set (enabledFeatures (configure_features content config requested noDefault everything)) = on"
    by (simp add: enabledFeatures_configured defs_def on_def)
  have "allFeatures (configure_features content config requested noDefault everything) = everything"
    by (simp add: configure_features_def Let_def)
  then show ?thesis unfolding dependency_enabled_def on by simp
qed

theorem dependency_enabled_closure_witness:
  "dependency_enabled ((raw_dep_spec ''json'' omap_empty)\<lparr>d_optional := True\<rparr>)
    (configure_features [] default_build_config [] True True)"
  using dependency_enabled_closure [of "(raw_dep_spec ''json'' omap_empty)\<lparr>d_optional := True\<rparr>" "[]" default_build_config "[]" True True]
  by simp

lemma validate_None_iff:
  "validate_package_features content requested = None \<longleftrightarrow>
    (\<forall>f \<in> set requested. valid_reference content f) \<and>
    (\<forall>(f, ms) \<in> set (parse_feature_definitions content). \<forall>m \<in> set ms. valid_reference content m)"
proof -
  let ?pairs = "concat (map (\<lambda>(f, ms). map (Pair f) ms) (parse_feature_definitions content))"
  have members: "find (\<lambda>(f, m). \<not> valid_reference content m) ?pairs = None \<longleftrightarrow>
    (\<forall>(f, ms) \<in> set (parse_feature_definitions content). \<forall>m \<in> set ms. valid_reference content m)"
    by (fastforce simp: find_None_iff)
  have asked: "find (\<lambda>f. \<not> valid_reference content f) requested = None \<longleftrightarrow>
      (\<forall>f \<in> set requested. valid_reference content f)"
    by (auto simp: find_None_iff)
  have "validate_package_features content requested = None \<longleftrightarrow>
    find (\<lambda>f. \<not> valid_reference content f) requested = None \<and>
    find (\<lambda>(f, m). \<not> valid_reference content m) ?pairs = None"
    unfolding validate_package_features_def by (simp split: option.split)
  then show ?thesis unfolding members asked .
qed

text \<open>A package whose feature references were validated never enables an unknown feature: every
  enabled feature of the configured build is a declared feature, an optional dependency or a
  \<^verbatim>\<open>dep:\<close> entry of one.\<close>

theorem validated_features_known:
  assumes "validate_package_features content requested = None"
    and "f \<in> set (enabledFeatures (configure_features content config requested noDefault everything))"
  shows "valid_reference content f \<or> f \<in> set (omap_keys (parse_feature_definitions content))"
proof -
  let ?defs = "parse_feature_definitions content"
  let ?r = "requested_features ?defs requested noDefault everything"
  have req: "\<forall>f \<in> set requested. valid_reference content f"
    and mem: "\<And>k ms m. (k, ms) \<in> set ?defs \<Longrightarrow> m \<in> set ms \<Longrightarrow> valid_reference content m"
    using assms(1) unfolding validate_None_iff by blast+
  have vals: "valid_reference content m" if m: "m \<in> set (feature_values ?defs k)" for k m
  proof (cases "omap_find ?defs k")
    case (Some ms)
    then have "(k, ms) \<in> set ?defs" by (simp add: omap_find_def map_of_SomeD)
    with m Some mem show ?thesis by (simp add: feature_values_def)
  qed (use m in \<open>simp add: feature_values_def\<close>)
  have succs: "set (feature_succs ?defs k) \<subseteq> {f. valid_reference content f}" for k
    using vals by (auto simp: feature_succs_def)
  have "set (enable_features ?defs ?r []) =
      reach (\<lambda>f. filter (\<lambda>v. v \<noteq> []) (feature_succs ?defs f)) (set (filter (\<lambda>v. v \<noteq> []) ?r))"
    by (rule features.run_eq_reach)
  also have "\<dots> \<subseteq> {f. valid_reference content f} \<union> set (omap_keys ?defs)"
  proof (rule reach_least)
    show "set (filter (\<lambda>v. v \<noteq> []) ?r) \<subseteq> {f. valid_reference content f} \<union> set (omap_keys ?defs)"
      using req vals [of _ "''default''"] by (auto simp: requested_features_def split: if_splits)
    show "set (filter (\<lambda>v. v \<noteq> []) (feature_succs ?defs x)) \<subseteq>
        {f. valid_reference content f} \<union> set (omap_keys ?defs)" for x
      using succs [of x] by auto
  qed
  finally show ?thesis using assms(2) by (auto simp: enabledFeatures_configured)
qed

theorem validated_features_known_witness:
  "valid_reference (''[features]'' @ newline # ''full = ['' @ dquote # ''json'' @ dquote # '']'' @ newline # ''json = []'') ''json''
   \<or> ''json'' \<in> set (omap_keys (parse_feature_definitions
        (''[features]'' @ newline # ''full = ['' @ dquote # ''json'' @ dquote # '']'' @ newline # ''json = []'')))"
proof -
  let ?c = "''[features]'' @ newline # ''full = ['' @ dquote # ''json'' @ dquote # '']'' @ newline # ''json = []''"
  have "validate_package_features ?c [''full''] = None"
    "''json'' \<in> set (enabledFeatures (configure_features ?c default_build_config [''full''] False False))"
    by code_simp+
  then show ?thesis by (rule validated_features_known)
qed

subsection \<open>The line the add command writes\<close>

text \<open>A word of an inline table: scanning it outside quotes ends outside quotes and meets no
  separator.\<close>

definition csv_word :: "string \<Rightarrow> bool" where
  "csv_word w \<longleftrightarrow> (\<forall>cur r. split_csv_loop Bare 0 cur (w @ r) = split_csv_loop Bare 0 (cur @ w) r)"

definition csv_plain :: "string \<Rightarrow> bool" where
  "csv_plain w \<longleftrightarrow> (\<forall>c \<in> set w. c \<noteq> dquote \<and> c \<noteq> squote \<and> c \<noteq> CHR '','' \<and> c \<noteq> CHR ''{'' \<and> c \<noteq> CHR ''}'')"

lemma csv_wordI: "csv_plain w \<Longrightarrow> csv_word w"
proof (induction w)
  case (Cons c w)
  then have "csv_word w" by (simp add: csv_plain_def)
  with Cons.prems show ?case by (simp add: csv_word_def csv_plain_def)
qed (simp add: csv_word_def)

lemma csv_word_append: "csv_word v \<Longrightarrow> csv_word w \<Longrightarrow> csv_word (v @ w)"
  by (simp add: csv_word_def)

lemma csv_in_double:
  "dquote \<notin> set v \<Longrightarrow> bslash \<notin> set v \<Longrightarrow>
   split_csv_loop InDouble d cur (v @ dquote # r) = split_csv_loop Bare d (cur @ v @ [dquote]) r"
  by (induction v arbitrary: cur) auto

lemma csv_word_quoted: "clean_value v \<Longrightarrow> csv_word (raw_quoted v)"
  using csv_in_double [of v 0] by (simp add: csv_word_def raw_quoted_def clean_value_def)

text \<open>A field \<open>key = word\<close>; the word is a quoted clean value or a bare literal.\<close>

definition table_field :: "string \<times> string \<Rightarrow> string" where
  "table_field f = fst f @ '' = '' @ snd f"

definition field_ok :: "string \<times> string \<Rightarrow> bool" where
  "field_ok f \<longleftrightarrow> bare_key (fst f) \<and> csv_plain (fst f) \<and>
     ((\<exists>v. clean_value v \<and> snd f = raw_quoted v) \<or> snd f = ''true'')"

lemma field_word_facts:
  assumes "field_ok f"
  shows "csv_word (table_field f)" and "trim (table_field f) = table_field f" and "table_field f \<noteq> []"
    and "hash_free Bare (table_field f)" and "quote_run Bare (table_field f) = Bare"
proof -
  let ?k = "fst f" and ?w = "snd f"
  have k: "bare_key ?k" "csv_plain ?k" using assms by (auto simp: field_ok_def)
  note kf = bare_key_facts [OF k(1)]
  have w: "csv_word ?w \<and> hash_free Bare ?w \<and> quote_run Bare ?w = Bare \<and> ?w \<noteq> [] \<and> \<not> isspace (last ?w)"
  proof (cases "?w = ''true''")
    case True
    have "csv_plain ''true''" "hash_free Bare ''true'' \<and> quote_run Bare ''true'' = Bare"
      "\<not> isspace (last ''true'')" by code_simp+
    with True csv_wordI show ?thesis by simp
  next
    case False
    then obtain v where v: "clean_value v" "?w = raw_quoted v" using assms by (auto simp: field_ok_def)
    then show ?thesis
      using csv_word_quoted hash_free_raw_quoted [OF v(1)] by (simp add: raw_quoted_def isspace_def)
  qed
  have "csv_plain '' = ''" by code_simp
  then show "csv_word (table_field f)"
    unfolding table_field_def
    using w csv_word_append [OF csv_wordI [OF k(2)] csv_word_append [OF csv_wordI, of "'' = ''" ?w]] by blast
  have "?k \<noteq> []" "key_char (hd ?k)" using k(1) by (auto simp: bare_key_def)
  then show "trim (table_field f) = table_field f"
    unfolding table_field_def using w bare_key_char by (intro trim_tight) simp
  show "table_field f \<noteq> []" by (simp add: table_field_def)
  show "hash_free Bare (table_field f)" "quote_run Bare (table_field f) = Bare"
    using w kf by (simp_all add: table_field_def hash_free_append hash_free_plain quote_run_free)
qed

lemma split_csv_fields:
  assumes "\<forall>f \<in> set fs. field_ok f" and "fs \<noteq> []" and "\<forall>c \<in> set cur. isspace c"
  shows "split_csv_loop Bare 0 cur (joined '', '' (map table_field fs) @ '' '') = map table_field fs"
  using assms
proof (induction fs arbitrary: cur)
  case (Cons f fs)
  then have f: "field_ok f" by simp
  have pad: "trim (cur @ table_field f) = table_field f" "trim (cur @ table_field f @ '' '') = table_field f"
    using trim_pad [of cur "[]" "table_field f"] trim_pad [of cur "'' ''" "table_field f"]
      field_word_facts(2) [OF f] Cons.prems(3) by auto
  show ?case
  proof (cases "fs = []")
    case True
    then show ?thesis
      using field_word_facts(1,3) [OF f] pad by (simp add: csv_word_def)
  next
    case False
    have "split_csv_loop Bare 0 '' '' (joined '', '' (map table_field fs) @ '' '') = map table_field fs"
      using Cons False by (simp add: isspace_def)
    then show ?thesis
      using field_word_facts(1) [OF f] pad False by (simp add: joined_Cons csv_word_def)
  qed
qed simp

lemma put_table_field:
  assumes "field_ok f"
  shows "put_table_entry (table_field f) m = omap_put (fst f) (unquote (snd f)) m"
proof -
  let ?k = "fst f"
  have k: "bare_key ?k" using assms by (simp add: field_ok_def)
  have "CHR ''='' \<notin> set (?k @ '' '')" using bare_key_facts(2) [OF k] by simp
  from find_char_append [OF this, of "'' '' @ snd f"]
  have eq: "find_char (CHR ''='') (table_field f) = Some (Suc (length ?k))" by (simp add: table_field_def)
  have "trim (?k @ '' '') = trim ?k" using trim_pad [of "[]" "'' ''" ?k] by simp
  then have "trim (take (Suc (length ?k)) (table_field f)) = ?k"
    using bare_key_facts(4) [OF k] by (simp add: table_field_def)
  moreover have "unquote (drop (Suc (Suc (length ?k))) (table_field f)) = unquote (snd f)"
    by (simp add: table_field_def unquote_def)
  moreover have "table_field f \<noteq> []" by (simp add: table_field_def)
  ultimately show ?thesis by (simp add: put_table_entry_def eq)
qed

definition inline_table :: "(string \<times> string) list \<Rightarrow> string" where
  "inline_table fs = ''{ '' @ joined '', '' (map table_field fs) @ '' }''"

lemma parse_inline_fields:
  assumes "\<forall>f \<in> set fs. field_ok f" and "fs \<noteq> []" and "CHR ''{'' \<notin> set pre"
  shows "parse_inline_table (pre @ inline_table fs) =
    fold (\<lambda>(k, v). omap_put k v) (map (\<lambda>(k, w). (k, unquote w)) fs) omap_empty"
proof -
  let ?b = "joined '', '' (map table_field fs)"
  let ?l = "pre @ inline_table fs"
  have l: "?l = pre @ CHR ''{'' # ('' '' @ ?b @ '' '') @ [CHR ''}'']" by (simp add: inline_table_def)
  have a: "find_char (CHR ''{'') ?l = Some (length pre)"
    unfolding l using find_char_append [OF assms(3)] .
  have b: "rfind_char (CHR ''}'') ?l = Some (length ?l - 1)"
    unfolding l by (simp add: rfind_char_def)
  have mid: "substr ?l (length pre + 1) (length ?l - 1 - length pre - 1) = '' '' @ ?b @ '' ''"
    unfolding l by (simp add: substr_def)
  have csv: "split_csv ('' '' @ ?b @ '' '') = map table_field fs"
    using split_csv_fields [OF assms(1,2), of "'' ''"] by (simp add: split_csv_def isspace_def)
  have "\<not> length ?l - 1 \<le> length pre" unfolding l by simp
  then have "parse_inline_table ?l = fold put_table_entry (map table_field fs) omap_empty"
    unfolding parse_inline_table_def a b by (simp only: option.case prod.case mid csv if_False)
  also have "\<dots> = fold (\<lambda>(k, v). omap_put k v) (map (\<lambda>(k, w). (k, unquote w)) fs) omap_empty"
  proof -
    have "fold put_table_entry (map table_field gs) m =
        fold (\<lambda>(k, v). omap_put k v) (map (\<lambda>(k, w). (k, unquote w)) gs) m" if "\<forall>f \<in> set gs. field_ok f" for gs m
      using that by (induction gs arbitrary: m) (auto simp: put_table_field split: prod.splits)
    from this [OF assms(1)] show ?thesis .
  qed
  finally show ?thesis .
qed

text \<open>The fields the line carries.\<close>

definition opt_field :: "string \<Rightarrow> string \<Rightarrow> (string \<times> string) list" where
  "opt_field key v = (if v \<noteq> [] then [(key, raw_quoted v)] else [])"

definition dependency_fields ::
  "string \<Rightarrow> string \<Rightarrow> string \<Rightarrow> string \<Rightarrow> string \<Rightarrow> bool \<Rightarrow> string \<Rightarrow> int \<Rightarrow> (string \<times> string) list" where
  "dependency_fields gitUrl archiveUrl archiveType revision tag subs subdir strip =
     (if archiveUrl \<noteq> []
      then (''url'', raw_quoted archiveUrl) # opt_field ''archive'' archiveType
        @ (if strip \<noteq> 1 then [(''strip_components'', raw_quoted (int_str strip))] else [])
        @ opt_field ''subdir'' subdir
      else (''git'', raw_quoted gitUrl) # opt_field ''rev'' revision @ opt_field ''tag'' tag
        @ (if subs then [(''submodules'', ''true'')] else []) @ opt_field ''subdir'' subdir)"

lemma joined_fields_append:
  "joined '', '' (map table_field (f # fs)) = table_field f @ concat (map (\<lambda>g. '', '' @ table_field g) fs)"
proof (induction fs arbitrary: f)
  case (Cons g fs)
  have "joined '', '' (map table_field (f # g # fs)) = table_field f @ '', '' @ joined '', '' (map table_field (g # fs))"
    by simp
  also have "\<dots> = table_field f @ concat (map (\<lambda>g. '', '' @ table_field g) (g # fs))"
    unfolding Cons.IH by simp
  finally show ?case .
qed simp

lemma concat_opt_field:
  "concat (map (\<lambda>g. '', '' @ table_field g) (opt_field k v)) =
    (if v \<noteq> [] then '', '' @ k @ '' = '' @ [dquote] @ v @ [dquote] else [])"
  by (simp add: opt_field_def table_field_def raw_quoted_def)

lemma manifest_line_fields:
  assumes "gitUrl \<noteq> [] \<or> archiveUrl \<noteq> []"
  shows "make_dependency_manifest_line name gitUrl archiveUrl archiveType revision tag subs subdir strip =
    name @ '' = '' @ inline_table (dependency_fields gitUrl archiveUrl archiveType revision tag subs subdir strip)"
proof (cases "archiveUrl = []")
  case True
  with assms show ?thesis
    unfolding make_dependency_manifest_line_def inline_table_def dependency_fields_def Let_def
    by (simp only: True if_True if_False simp_thms not_False_eq_True joined_fields_append map_append concat_append concat_opt_field)
      (simp add: table_field_def raw_quoted_def)
next
  case False
  then show ?thesis
    unfolding make_dependency_manifest_line_def inline_table_def dependency_fields_def Let_def
    by (simp only: if_P [OF False] if_True if_False simp_thms not_False_eq_True joined_fields_append map_append concat_append concat_opt_field)
      (simp add: table_field_def raw_quoted_def)
qed

text \<open>What the options of the command may hold.\<close>

definition manifest_text :: "string \<Rightarrow> bool" where
  "manifest_text v \<longleftrightarrow> v = [] \<or> clean_value v"

lemma opt_field_ok: "manifest_text v \<Longrightarrow> bare_key k \<Longrightarrow> csv_plain k \<Longrightarrow> \<forall>f \<in> set (opt_field k v). field_ok f"
  by (auto simp: opt_field_def field_ok_def manifest_text_def)

lemma int_str_clean: "0 \<le> n \<Longrightarrow> clean_value (int_str n)"
proof (rule clean_value_solid)
  assume n: "0 \<le> n"
  then show "int_str n \<noteq> []" using dec_str_digits [of "nat n"] by (auto simp: int_str_def)
  have "\<forall>c \<in> set (dec_str (nat n)). isdigit c"
    using dec_str_digits [of "nat n"] by (auto simp: list_all_iff)
  then show "\<forall>c \<in> set (int_str n). \<not> isspace c \<and> c \<noteq> dquote \<and> c \<noteq> bslash"
    using n by (auto simp: int_str_def isdigit_def isspace_def)
qed

lemma dependency_fields_ok:
  assumes "manifest_text gitUrl" "manifest_text archiveUrl" "manifest_text archiveType"
    "manifest_text revision" "manifest_text tag" "manifest_text subdir" "0 \<le> strip"
    and "gitUrl \<noteq> [] \<or> archiveUrl \<noteq> []"
  shows "\<forall>f \<in> set (dependency_fields gitUrl archiveUrl archiveType revision tag subs subdir strip). field_ok f"
proof -
  have k: "bare_key ''url'' \<and> csv_plain ''url''"
    "bare_key ''archive'' \<and> csv_plain ''archive''"
    "bare_key ''strip_components'' \<and> csv_plain ''strip_components''"
    "bare_key ''subdir'' \<and> csv_plain ''subdir''"
    "bare_key ''git'' \<and> csv_plain ''git''"
    "bare_key ''rev'' \<and> csv_plain ''rev''"
    "bare_key ''tag'' \<and> csv_plain ''tag''"
    "bare_key ''submodules'' \<and> csv_plain ''submodules''"
    by code_simp+
  have q: "field_ok (k, raw_quoted v)" if "bare_key k \<and> csv_plain k" "clean_value v" for k v
    unfolding field_ok_def using that by simp blast
  have t: "field_ok (''submodules'', ''true'')" using k by (simp add: field_ok_def)
  have o: "\<forall>f \<in> set (opt_field ''rev'' revision). field_ok f" "\<forall>f \<in> set (opt_field ''tag'' tag). field_ok f"
      "\<forall>f \<in> set (opt_field ''archive'' archiveType). field_ok f" "\<forall>f \<in> set (opt_field ''subdir'' subdir). field_ok f"
    by (rule opt_field_ok, rule assms, use k in simp, use k in simp)+
  have n: "field_ok (''strip_components'', raw_quoted (int_str strip))" using k int_str_clean assms(7) q by blast
  show ?thesis
  proof (cases "archiveUrl = []")
    case True
    then have "field_ok (''git'', raw_quoted gitUrl)"
      using assms(1,8) k q by (simp add: manifest_text_def)
    with True o t show ?thesis by (simp add: dependency_fields_def ball_Un)
  next
    case False
    then have "field_ok (''url'', raw_quoted archiveUrl)"
      using assms(2) k q by (simp add: manifest_text_def)
    with False o n show ?thesis by (simp add: dependency_fields_def ball_Un)
  qed
qed

text \<open>The dependency the line stands for.\<close>

definition written_dependency ::
  "string \<Rightarrow> string \<Rightarrow> string \<Rightarrow> string \<Rightarrow> string \<Rightarrow> string \<Rightarrow> bool \<Rightarrow> string \<Rightarrow> int \<Rightarrow> dep_spec" where
  "written_dependency name gitUrl archiveUrl archiveType revision tag subs subdir strip =
     (let archive = (archiveUrl \<noteq> []) in
      default_build (infer_archive_type
        \<lparr>d_name = name, d_git = if archive then [] else gitUrl, d_url = archiveUrl, d_path = [],
         d_versionRequirement = [], d_features = [],
         d_archiveType = if archive then archiveType else [],
         d_rev = if archive then [] else revision, d_tag = if archive then [] else tag, d_build = [],
         d_cmakeArgs = [], d_subdir = subdir, d_stripComponents = if archive then strip else 1,
         d_spinner = True, d_submodules = (\<not> archive \<and> subs), d_optional = False,
         d_defaultFeatures = True\<rparr>))"

definition opt_pair :: "string \<Rightarrow> string \<Rightarrow> string \<Rightarrow> string option" where
  "opt_pair key v = (if v \<noteq> [] then [key \<mapsto> v] else Map.empty)"

definition unquote_field :: "string \<times> string \<Rightarrow> string \<times> string" where
  "unquote_field f = (fst f, unquote (snd f))"

lemma map_of_opt_field:
  "manifest_text v \<Longrightarrow> map_of (rev (map unquote_field (opt_field k v))) = opt_pair k v"
  by (auto simp: manifest_text_def opt_field_def opt_pair_def unquote_field_def unquote_raw_quoted)

lemma table_lookup:
  "omap_find (fold (\<lambda>(k, v). omap_put k v) (map (\<lambda>(k, w). (k, unquote w)) fs) omap_empty) =
    map_of (rev (map unquote_field fs))"
proof -
  have m: "map (\<lambda>(k, w). (k, unquote w)) fs = map unquote_field fs"
    by (simp add: unquote_field_def case_prod_beta)
  have e: "omap_find omap_empty = Map.empty" by (simp add: omap_find_def omap_empty_def)
  show ?thesis unfolding m om.find_puts [OF omap_wf_empty] e by simp
qed

lemma fields_lookup:
  assumes "manifest_text gitUrl" "manifest_text archiveUrl" "manifest_text archiveType"
    "manifest_text revision" "manifest_text tag" "manifest_text subdir" "0 \<le> strip"
    and "gitUrl \<noteq> [] \<or> archiveUrl \<noteq> []"
  shows "map_of (rev (map unquote_field
      (dependency_fields gitUrl archiveUrl archiveType revision tag subs subdir strip))) =
    (if archiveUrl \<noteq> []
     then [''url'' \<mapsto> archiveUrl] ++ opt_pair ''archive'' archiveType
       ++ (if strip \<noteq> 1 then [''strip_components'' \<mapsto> int_str strip] else Map.empty)
       ++ opt_pair ''subdir'' subdir
     else [''git'' \<mapsto> gitUrl] ++ opt_pair ''rev'' revision ++ opt_pair ''tag'' tag
       ++ (if subs then [''submodules'' \<mapsto> ''true''] else Map.empty) ++ opt_pair ''subdir'' subdir)"
proof -
  have t: "unquote ''true'' = ''true''" by code_simp
  note o = map_of_opt_field [OF assms(3)] map_of_opt_field [OF assms(4)] map_of_opt_field [OF assms(5)]
    map_of_opt_field [OF assms(6)]
  note n = unquote_raw_quoted [OF int_str_clean [OF assms(7)]]
  show ?thesis
  proof (cases "archiveUrl = []")
    case True
    then have "unquote (raw_quoted gitUrl) = gitUrl"
      using assms(1,8) by (simp add: manifest_text_def unquote_raw_quoted)
    with True show ?thesis
      by (simp add: dependency_fields_def unquote_field_def [of "(_, _)"] o t)
  next
    case False
    then have "unquote (raw_quoted archiveUrl) = archiveUrl"
      using assms(2) by (simp add: manifest_text_def unquote_raw_quoted)
    with False show ?thesis
      by (simp add: dependency_fields_def unquote_field_def [of "(_, _)"] o n)
  qed
qed

lemma opt_pair_simps:
  "opt_pair k v k = (if v \<noteq> [] then Some v else None)" "k \<noteq> j \<Longrightarrow> opt_pair k v j = None"
  by (simp_all add: opt_pair_def)

lemma table_value_map:
  "omap_find kv = m \<Longrightarrow> table_value kv key dflt = (case m key of None \<Rightarrow> dflt | Some v \<Rightarrow> v)"
  by (simp add: table_value_def)

lemma parse_int_str: "0 \<le> n \<Longrightarrow> n \<le> int_max \<Longrightarrow> parse_int_or_default (int_str n) d = n"
  using stoi_dec_str [of "nat n"] int_str_clean [of n]
  by (simp add: parse_int_or_default_def int_str_def clean_value_def)

lemma dep_spec_of_written:
  assumes "manifest_text gitUrl" "manifest_text archiveUrl" "manifest_text archiveType"
    "manifest_text revision" "manifest_text tag" "manifest_text subdir" "0 \<le> strip" "strip \<le> int_max"
    and "gitUrl \<noteq> [] \<or> archiveUrl \<noteq> []"
    and kv: "omap_find kv = map_of (rev (map unquote_field
      (dependency_fields gitUrl archiveUrl archiveType revision tag subs subdir strip)))"
  shows "dep_spec_of name kv = written_dependency name gitUrl archiveUrl archiveType revision tag subs subdir strip \<and>
    (omap_find kv ''git'' \<noteq> None \<or> omap_find kv ''url'' \<noteq> None)"
proof -
  note look = kv [unfolded fields_lookup [OF assms(1-7) assms(9)]]
  have b: "parse_toml_bool_value ''true''" by code_simp
  note i = parse_int_str [OF assms(7,8)]
  show ?thesis
  proof (cases "archiveUrl = []")
    case True
    have l: "omap_find kv = [''git'' \<mapsto> gitUrl] ++ opt_pair ''rev'' revision ++ opt_pair ''tag'' tag
        ++ (if subs then [''submodules'' \<mapsto> ''true''] else Map.empty) ++ opt_pair ''subdir'' subdir"
      using look True by simp
    have "raw_dep_spec name kv = \<lparr>d_name = name, d_git = gitUrl, d_url = [], d_path = [],
        d_versionRequirement = [], d_features = [], d_archiveType = [], d_rev = revision, d_tag = tag,
        d_build = [], d_cmakeArgs = [], d_subdir = subdir, d_stripComponents = 1, d_spinner = True,
        d_submodules = subs, d_optional = False, d_defaultFeatures = True\<rparr>"
      by (simp add: raw_dep_spec_def table_value_def l map_add_def opt_pair_simps b)
    moreover have "omap_find kv ''git'' = Some gitUrl" by (simp add: l map_add_def opt_pair_simps)
    ultimately show ?thesis using True by (simp add: dep_spec_of_def written_dependency_def)
  next
    case False
    have l: "omap_find kv = [''url'' \<mapsto> archiveUrl] ++ opt_pair ''archive'' archiveType
        ++ (if strip \<noteq> 1 then [''strip_components'' \<mapsto> int_str strip] else Map.empty)
        ++ opt_pair ''subdir'' subdir"
      using look False by simp
    have "raw_dep_spec name kv = \<lparr>d_name = name, d_git = [], d_url = archiveUrl, d_path = [],
        d_versionRequirement = [], d_features = [], d_archiveType = archiveType, d_rev = [], d_tag = [],
        d_build = [], d_cmakeArgs = [], d_subdir = subdir, d_stripComponents = strip, d_spinner = True,
        d_submodules = False, d_optional = False, d_defaultFeatures = True\<rparr>"
      by (simp add: raw_dep_spec_def table_value_def l map_add_def opt_pair_simps i)
    moreover have "omap_find kv ''url'' = Some archiveUrl" by (simp add: l map_add_def opt_pair_simps)
    ultimately show ?thesis using False by (simp add: dep_spec_of_def written_dependency_def)
  qed
qed

lemma hash_free_inline_table:
  assumes "\<forall>f \<in> set fs. field_ok f"
  shows "hash_free Bare (inline_table fs)"
proof -
  have "hash_free Bare (joined '', '' (map table_field fs)) \<and> quote_run Bare (joined '', '' (map table_field fs)) = Bare"
    using assms
  proof (induction fs)
    case (Cons f fs)
    then show ?case
      using field_word_facts(4,5) [of f] by (cases "fs = []") (simp_all add: joined_Cons hash_free_append)
  qed simp
  then show ?thesis by (simp add: inline_table_def hash_free_append)
qed

lemma inline_table_no_newline:
  assumes "\<forall>f \<in> set fs. field_ok f"
  shows "newline \<notin> set (inline_table fs)"
proof -
  have f: "newline \<notin> set (table_field f)" if "field_ok f" for f
  proof -
    have "newline \<notin> set (fst f)"
    proof
      assume "newline \<in> set (fst f)"
      then have "key_char newline" using that unfolding field_ok_def bare_key_def by blast
      then have "\<not> isspace newline" using bare_key_char by blast
      then show False by (simp add: isspace_def)
    qed
    moreover have "newline \<notin> set (snd f)"
      using that clean_value_no_newline by (auto simp: field_ok_def raw_quoted_def)
    ultimately show ?thesis by (simp add: table_field_def)
  qed
  have "newline \<notin> set (joined '', '' (map table_field fs))"
    using assms
  proof (induction fs)
    case (Cons g fs)
    then show ?case using f [of g] by (cases "fs = []") (simp_all add: joined_Cons)
  qed simp
  then show ?thesis by (simp add: inline_table_def)
qed

text \<open>C24. Adding a dependency and reading the manifest agree: the line the command writes for a git
  or archive source, put into the dependencies section, is read back as the dependency with
  exactly the given source, revision, tag, subdirectory, strip count and submodule setting, and
  the defaults elsewhere. The name must be a bare key, each text empty or free of double
  quotes and backslashes and unchanged by the reader's trimming and joining of blanks, and the strip count from 0 to the largest \<^verbatim>\<open>int\<close>.\<close>

theorem dependency_line_round_trip:
  assumes "bare_key name" and "manifest_text gitUrl" "manifest_text archiveUrl" "manifest_text archiveType"
    "manifest_text revision" "manifest_text tag" "manifest_text subdir" "0 \<le> strip" "strip \<le> int_max"
    and "gitUrl \<noteq> [] \<or> archiveUrl \<noteq> []"
  shows "parse_source_deps (''[dependencies]'' @ newline #
      make_dependency_manifest_line name gitUrl archiveUrl archiveType revision tag subs subdir strip) =
    [written_dependency name gitUrl archiveUrl archiveType revision tag subs subdir strip]"
proof -
  let ?fs = "dependency_fields gitUrl archiveUrl archiveType revision tag subs subdir strip"
  let ?l = "name @ '' = '' @ inline_table ?fs"
  let ?s0 = "([], []) :: string \<times> dep_spec list"
  have ok: "\<forall>f \<in> set ?fs. field_ok f" by (rule dependency_fields_ok [OF assms(2-8) assms(10)])
  have ne: "?fs \<noteq> []" by (simp add: dependency_fields_def)
  note line = manifest_line_fields [OF assms(10), of name archiveType revision tag subs subdir strip]
  have name: "CHR ''{'' \<notin> set (name @ '' = '')" "newline \<notin> set name"
    "hd ?l \<noteq> CHR ''[''" "?l \<noteq> []"
  proof -
    have kc: "\<And>c. c \<in> set name \<Longrightarrow> key_char c" using assms(1) by (simp add: bare_key_def)
    have "\<not> key_char (CHR ''{'')" "\<not> key_char newline" "\<not> key_char (CHR ''['')" by code_simp+
    moreover have "name \<noteq> []" using assms(1) by (simp add: bare_key_def)
    moreover from this have "key_char (hd name)" using kc by simp
    then have "hd name \<noteq> CHR ''[''" using calculation(3) by metis
    ultimately show "CHR ''{'' \<notin> set (name @ '' = '')" "newline \<notin> set name"
      "hd ?l \<noteq> CHR ''[''" "?l \<noteq> []" using kc by auto
  qed
  have nl: "newline \<notin> set ?l" using name(2) inline_table_no_newline [OF ok] by simp
  have h: "strip_toml_comment ''[dependencies]'' = ''[dependencies]''" by code_simp
  have "getlines (''[dependencies]'' @ newline # ?l) = ''[dependencies]'' # getlines ?l"
    by (rule getlines_append_line) simp
  also have "getlines ?l = [?l]" by (rule getlines_single [OF nl name(4)])
  finally have ls: "getlines (''[dependencies]'' @ newline # ?l) = [''[dependencies]'', ?l]" .
  have tab: "trim (inline_table ?fs) = inline_table ?fs" "last (inline_table ?fs) = CHR ''}''"
    "hd (inline_table ?fs) = CHR ''{''" "inline_table ?fs \<noteq> []"
    by (auto simp: inline_table_def isspace_def intro!: trim_tight)
  have strip: "strip_toml_comment ?l = ?l"
    by (rule key_value_strip [OF assms(1) hash_free_inline_table [OF ok] tab(4)])
      (simp add: tab(2) isspace_def)
  have "toml_value_is_complete (inline_table ?fs)"
    unfolding toml_value_is_complete_def Let_def tab(1) by (simp add: tab(3,4))
  then have asg: "parse_toml_assignment ?l [] =
      (Some \<lparr>asg_key = name, asg_value = inline_table ?fs, asg_append = False\<rparr>, [])"
    by (rule key_value_assignment [OF assms(1) tab(1)])
  have kv: "omap_find (parse_inline_table ?l) = map_of (rev (map unquote_field ?fs))"
    using parse_inline_fields [OF ok ne name(1)] table_lookup [of ?fs] by simp
  note dep = dep_spec_of_written [OF assms(2-10) kv]
  have "name \<noteq> []" using assms(1) by (simp add: bare_key_def)
  moreover have "CHR ''{'' \<in> set ?l" by (simp add: inline_table_def)
  ultimately have step: "dep_assign (''dependencies'', []) ?l
      \<lparr>asg_key = name, asg_value = inline_table ?fs, asg_append = False\<rparr> =
    Continue (''dependencies'', [written_dependency name gitUrl archiveUrl archiveType revision tag subs subdir strip])"
    using dep by (simp add: dep_assign_def Let_def)
  have "\<not> is_header ?l" using name(3) by (simp add: is_header_def)
  then have "toml_loop section_header (\<lambda>s. fst s = ''dependencies'' \<or> fst s = ''c-dependencies'') dep_assign
      (''dependencies'', []) [?l] =
    Continue (''dependencies'', [written_dependency name gitUrl archiveUrl archiveType revision tag subs subdir strip])"
    using strip asg step name(4) by (simp add: section_header_def)
  then show ?thesis
    unfolding line parse_source_deps_def ls
    by (simp add: h section_header_def is_header_def header_name_def substr_def)
qed

theorem dependency_line_round_trip_witness:
  "map d_git (parse_source_deps (''[dependencies]'' @ newline #
     make_dependency_manifest_line ''my-json'' ''https://example.org/json.git'' [] [] [] ''v1'' True [] 1)) =
   [''https://example.org/json.git'']"
proof -
  have "bare_key ''my-json''" "manifest_text ''https://example.org/json.git''" "manifest_text ''v1''"
    "manifest_text []" by code_simp+
  then show ?thesis
    using dependency_line_round_trip [of "''my-json''" "''https://example.org/json.git''" "[]" "[]" "[]" "''v1''" "[]" 1 True]
    by (simp add: written_dependency_def default_build_def infer_archive_type_def int_max_def)
qed

end
