(* ===== verification/Lockfile.thy ===== *)
theory Lockfile
  imports Dependencies
begin

text \<open>
  The dependency lock (\<^verbatim>\<open>mlang.lock\<close>, \<^verbatim>\<open>src/package_manager.cpp\<close>): its entries, the text the writer
  produces and the reader. The file itself (opening it, the temporary file and its rename) is not
  modelled; the reader gets the text of the file.
\<close>

record lock_entry =
  l_manifest :: string
  l_name :: string
  l_source :: string
  l_url :: string
  l_path :: string
  l_versionRequirement :: string
  l_resolvedVersion :: string
  l_requestedFeatures :: string
  l_requestedRev :: string
  l_requestedTag :: string
  l_revision :: string
  l_checksum :: string
  l_archiveType :: string
  l_subdir :: string
  l_stripComponents :: int
  l_submodules :: bool
  l_optional :: bool
  l_defaultFeatures :: bool

definition default_lock_entry :: lock_entry where
  "default_lock_entry =
     \<lparr>l_manifest = [], l_name = [], l_source = [], l_url = [], l_path = [], l_versionRequirement = [],
      l_resolvedVersion = [], l_requestedFeatures = [], l_requestedRev = [], l_requestedTag = [],
      l_revision = [], l_checksum = [], l_archiveType = [], l_subdir = [], l_stripComponents = 1,
      l_submodules = False, l_optional = False, l_defaultFeatures = True\<rparr>"

definition dependency_lock_key :: "string \<Rightarrow> string \<Rightarrow> string" where
  "dependency_lock_key manifest name = manifest @ newline # name"

text \<open>\<open>manifestName\<close> is the manifest's path relative to the lock, from the file system layer.\<close>

definition make_dependency_lock_entry :: "string \<Rightarrow> dep_spec \<Rightarrow> lock_entry" where
  "make_dependency_lock_entry manifestName dep = default_lock_entry
     \<lparr>l_manifest := manifestName, l_name := d_name dep,
      l_source := (if d_path dep \<noteq> [] then ''path'' else if d_git dep \<noteq> [] then ''git'' else ''archive''),
      l_url := (if d_git dep \<noteq> [] then d_git dep else d_url dep), l_path := d_path dep,
      l_versionRequirement := d_versionRequirement dep,
      l_requestedFeatures :=
        fold (\<lambda>f acc. (if acc \<noteq> [] then acc @ '','' else acc) @ f) (sort (d_features dep)) [],
      l_requestedRev := d_rev dep, l_requestedTag := d_tag dep, l_archiveType := d_archiveType dep,
      l_subdir := d_subdir dep, l_stripComponents := d_stripComponents dep,
      l_submodules := d_submodules dep, l_optional := d_optional dep,
      l_defaultFeatures := d_defaultFeatures dep\<rparr>"

definition lock_entry_matches_dependency :: "lock_entry \<Rightarrow> lock_entry \<Rightarrow> bool" where
  "lock_entry_matches_dependency entry expected \<longleftrightarrow>
     l_manifest entry = l_manifest expected \<and> l_name entry = l_name expected \<and>
     l_source entry = l_source expected \<and> l_url entry = l_url expected \<and>
     l_path entry = l_path expected \<and> l_versionRequirement entry = l_versionRequirement expected \<and>
     l_requestedFeatures entry = l_requestedFeatures expected \<and>
     l_requestedRev entry = l_requestedRev expected \<and> l_requestedTag entry = l_requestedTag expected \<and>
     l_archiveType entry = l_archiveType expected \<and> l_subdir entry = l_subdir expected \<and>
     l_stripComponents entry = l_stripComponents expected \<and>
     l_submodules entry = l_submodules expected \<and> l_optional entry = l_optional expected \<and>
     l_defaultFeatures entry = l_defaultFeatures expected"

type_synonym lock_entries = "(string, lock_entry) omap"

subsection \<open>Writing\<close>

definition opt_line :: "string \<Rightarrow> string \<Rightarrow> string list" where
  "opt_line key v = (if v \<noteq> [] then [lock_line key v] else [])"

definition lock_entry_lines :: "lock_entry \<Rightarrow> string list" where
  "lock_entry_lines e =
     [[], ''[[package]]'', lock_line ''manifest'' (l_manifest e), lock_line ''name'' (l_name e),
      lock_line ''source'' (l_source e)]
     @ opt_line ''url'' (l_url e) @ opt_line ''path'' (l_path e)
     @ opt_line ''requirement'' (l_versionRequirement e)
     @ opt_line ''resolved_version'' (l_resolvedVersion e)
     @ opt_line ''features'' (l_requestedFeatures e)
     @ opt_line ''requested_rev'' (l_requestedRev e) @ opt_line ''requested_tag'' (l_requestedTag e)
     @ opt_line ''revision'' (l_revision e)
     @ (if l_checksum e \<noteq> [] then [lock_line ''checksum'' (''sha256:'' @ l_checksum e)] else [])
     @ opt_line ''archive'' (l_archiveType e) @ opt_line ''subdir'' (l_subdir e)
     @ (if l_stripComponents e \<noteq> 1
        then [''strip_components = '' @ int_str (l_stripComponents e)] else [])
     @ (if l_submodules e then [''submodules = true''] else [])
     @ (if l_optional e then [''optional = true''] else [])
     @ (if \<not> l_defaultFeatures e then [''default_features = false''] else [])"

definition lock_lines :: "lock_entries \<Rightarrow> string list" where
  "lock_lines entries =
     [''# Generated by mlang pkg. Do not edit manually.'', ''version = 1'']
     @ concat (map (\<lambda>p. lock_entry_lines (snd p)) entries)"

definition write_dependency_lock :: "lock_entries \<Rightarrow> string" where
  "write_dependency_lock entries = concat (map (\<lambda>l. l @ [newline]) (lock_lines entries))"

subsection \<open>Reading\<close>

datatype lock_error =
    Incomplete_entry
  | Duplicate_dependency string string
  | Unsupported_section string
  | Unsupported_version
  | Missing_version

fun lock_error_text :: "string \<Rightarrow> lock_error \<Rightarrow> string" where
  "lock_error_text path Incomplete_entry = ''Invalid incomplete package entry in '' @ path"
| "lock_error_text path (Duplicate_dependency n m) =
     ''Duplicate dependency '' @ [squote] @ n @ [squote] @ '' for '' @ m @ '' in '' @ path"
| "lock_error_text path (Unsupported_section t) = ''Unsupported section in '' @ path @ '': '' @ t"
| "lock_error_text path Unsupported_version = ''Unsupported mlang.lock version in '' @ path"
| "lock_error_text path Missing_version = ''Missing lockfile version in '' @ path"

text \<open>\<^verbatim>\<open>current\<close>, \<^verbatim>\<open>versionSeen\<close> and the entries read so far.\<close>

type_synonym lock_reader = "lock_entry option \<times> bool \<times> lock_entries"

definition complete_entry :: "lock_entry \<Rightarrow> bool" where
  "complete_entry e \<longleftrightarrow> \<not> (l_manifest e = [] \<or> l_name e = [] \<or> l_source e = [] \<or>
     (l_source e \<noteq> ''path'' \<and> l_url e = []) \<or> (l_source e = ''path'' \<and> l_path e = []))"

definition flush_entry :: "lock_entry option \<Rightarrow> lock_entries \<Rightarrow> lock_error + lock_entries" where
  "flush_entry current entries =
     (case current of
        None \<Rightarrow> Inr entries
      | Some e \<Rightarrow>
          if \<not> complete_entry e then Inl Incomplete_entry
          else
            (let key = dependency_lock_key (l_manifest e) (l_name e) in
             if omap_find entries key \<noteq> None
             then Inl (Duplicate_dependency (l_name e) (l_manifest e))
             else Inr (omap_put key e entries)))"

definition lock_header ::
  "lock_reader \<Rightarrow> string \<Rightarrow> (lock_reader, lock_error + lock_entries) flow option" where
  "lock_header s t =
     (if t = ''[[package]]''
      then Some (case flush_entry (fst s) (snd (snd s)) of
             Inl e \<Rightarrow> Return (Inl e)
           | Inr entries \<Rightarrow> Continue (Some default_lock_entry, fst (snd s), entries))
      else if is_header t then Some (Return (Inl (Unsupported_section t)))
      else None)"

definition set_lock_field :: "string \<Rightarrow> string \<Rightarrow> lock_entry \<Rightarrow> lock_entry" where
  "set_lock_field key v e =
     (if key = ''manifest'' then e\<lparr>l_manifest := v\<rparr>
      else if key = ''name'' then e\<lparr>l_name := v\<rparr>
      else if key = ''source'' then e\<lparr>l_source := v\<rparr>
      else if key = ''url'' then e\<lparr>l_url := v\<rparr>
      else if key = ''path'' then e\<lparr>l_path := v\<rparr>
      else if key = ''requirement'' then e\<lparr>l_versionRequirement := v\<rparr>
      else if key = ''resolved_version'' then e\<lparr>l_resolvedVersion := v\<rparr>
      else if key = ''features'' then e\<lparr>l_requestedFeatures := v\<rparr>
      else if key = ''requested_rev'' then e\<lparr>l_requestedRev := v\<rparr>
      else if key = ''requested_tag'' then e\<lparr>l_requestedTag := v\<rparr>
      else if key = ''revision'' then e\<lparr>l_revision := v\<rparr>
      else if key = ''checksum''
        then e\<lparr>l_checksum := if starts_with ''sha256:'' v then drop 7 v else v\<rparr>
      else if key = ''archive'' then e\<lparr>l_archiveType := v\<rparr>
      else if key = ''subdir'' then e\<lparr>l_subdir := v\<rparr>
      else if key = ''strip_components'' then e\<lparr>l_stripComponents := parse_int_or_default v 1\<rparr>
      else if key = ''submodules'' then e\<lparr>l_submodules := parse_toml_bool_value v\<rparr>
      else if key = ''optional'' then e\<lparr>l_optional := parse_toml_bool_value v\<rparr>
      else if key = ''default_features'' then e\<lparr>l_defaultFeatures := parse_toml_bool_value v\<rparr>
      else e)"

definition lock_assign ::
  "lock_reader \<Rightarrow> string \<Rightarrow> toml_assignment \<Rightarrow> (lock_reader, lock_error + lock_entries) flow" where
  "lock_assign s t a =
     (case s of
        (None, seen, entries) \<Rightarrow>
          if asg_key a = ''version''
          then (if unquote (asg_value a) \<noteq> ''1'' then Return (Inl Unsupported_version)
                else Continue (None, True, entries))
          else Continue s
      | (Some e, seen, entries) \<Rightarrow>
          Continue (Some (set_lock_field (asg_key a) (unquote (asg_value a)) e), seen, entries))"

definition finish_lock :: "lock_reader \<Rightarrow> lock_error + lock_entries" where
  "finish_lock s =
     (case flush_entry (fst s) (snd (snd s)) of
        Inl e \<Rightarrow> Inl e
      | Inr entries \<Rightarrow> if \<not> fst (snd s) then Inl Missing_version else Inr entries)"

text \<open>The entries already in the context, normally none, come first.\<close>

definition read_dependency_lock :: "string \<Rightarrow> lock_entries \<Rightarrow> lock_error + lock_entries" where
  "read_dependency_lock content entries =
     flow_result finish_lock
       (toml_loop lock_header (\<lambda>_. True) lock_assign (None, False, entries) (getlines content))"

subsection \<open>One entry\<close>

abbreviation lock_run :: "lock_reader \<Rightarrow> string list \<Rightarrow> (lock_reader, lock_error + lock_entries) flow" where
  "lock_run \<equiv> toml_loop lock_header (\<lambda>_. True) lock_assign"

declare toml_loop.simps [simp del]

lemma lock_run_value:
  assumes k: "bare_key k" and v: "hash_free Bare v" "v \<noteq> []" "trim v = v" "\<not> isspace (last v)" "toml_value_is_complete v"
  shows "lock_run (Some e, seen, m) ((k @ '' = '' @ v) # ls) =
    lock_run (Some (set_lock_field k (unquote v) e), seen, m) ls"
proof -
  let ?l = "k @ '' = '' @ v"
  have s: "strip_toml_comment ?l = ?l" by (rule key_value_strip [OF k v(1,2,4)])
  have "key_char (hd k)" "k \<noteq> []" using k by (auto simp: bare_key_def)
  moreover have "\<not> key_char (CHR ''['')" by code_simp
  ultimately have hd: "hd ?l \<noteq> CHR ''[''" "?l \<noteq> []" by (metis hd_append2) simp
  then have "lock_header (Some e, seen, m) ?l = None"
    by (auto simp: lock_header_def is_header_def)
  then show ?thesis
    using hd(2) key_value_assignment [OF k v(3,5), of ls]
    by (simp only: toml_loop.simps Let_def s) (simp add: lock_assign_def)
qed

lemma lock_run_line:
  assumes "bare_key k"
  shows "lock_run (Some e, seen, m) (lock_line k v # ls) =
    lock_run (Some (set_lock_field k (trim (collapse_blanks False v)) e), seen, m) ls"
  unfolding lock_line_def unquote_lock_quote [symmetric]
  by (rule lock_run_value [OF assms hash_free_lock_quote _ lock_quote_tight _ lock_quote_complete])
    (simp_all add: lock_quote_def isspace_def)


text \<open>A text the reader returns as it was written: it has no blank at an end, no run of blanks, no
  tab and no line end.\<close>

definition lock_text :: "string \<Rightarrow> bool" where
  "lock_text v \<longleftrightarrow> trim (collapse_blanks False v) = v"

definition opt_set :: "string \<Rightarrow> string \<Rightarrow> lock_entry \<Rightarrow> lock_entry" where
  "opt_set key v e = (if v = [] then e else set_lock_field key v e)"

lemma opt_set_simps:
  "l_url e = [] \<Longrightarrow> opt_set ''url'' v e = e\<lparr>l_url := v\<rparr>"
  "l_path e = [] \<Longrightarrow> opt_set ''path'' v e = e\<lparr>l_path := v\<rparr>"
  "l_versionRequirement e = [] \<Longrightarrow> opt_set ''requirement'' v e = e\<lparr>l_versionRequirement := v\<rparr>"
  "l_resolvedVersion e = [] \<Longrightarrow> opt_set ''resolved_version'' v e = e\<lparr>l_resolvedVersion := v\<rparr>"
  "l_requestedFeatures e = [] \<Longrightarrow> opt_set ''features'' v e = e\<lparr>l_requestedFeatures := v\<rparr>"
  "l_requestedRev e = [] \<Longrightarrow> opt_set ''requested_rev'' v e = e\<lparr>l_requestedRev := v\<rparr>"
  "l_requestedTag e = [] \<Longrightarrow> opt_set ''requested_tag'' v e = e\<lparr>l_requestedTag := v\<rparr>"
  "l_revision e = [] \<Longrightarrow> opt_set ''revision'' v e = e\<lparr>l_revision := v\<rparr>"
  "l_archiveType e = [] \<Longrightarrow> opt_set ''archive'' v e = e\<lparr>l_archiveType := v\<rparr>"
  "l_subdir e = [] \<Longrightarrow> opt_set ''subdir'' v e = e\<lparr>l_subdir := v\<rparr>"
  by (cases e; simp add: opt_set_def set_lock_field_def)+

lemma lock_run_opt:
  assumes "bare_key k" and "lock_text v"
  shows "lock_run (Some e, seen, m) (opt_line k v @ ls) = lock_run (Some (opt_set k v e), seen, m) ls"
  using assms(2) by (simp add: opt_line_def opt_set_def lock_run_line [OF assms(1)] lock_text_def)

lemma lock_keys:
  "bare_key ''manifest''" "bare_key ''name''" "bare_key ''source''" "bare_key ''url''" "bare_key ''path''"
  "bare_key ''requirement''" "bare_key ''resolved_version''" "bare_key ''features''"
  "bare_key ''requested_rev''" "bare_key ''requested_tag''" "bare_key ''revision''" "bare_key ''checksum''"
  "bare_key ''archive''" "bare_key ''subdir''" "bare_key ''strip_components''" "bare_key ''submodules''"
  "bare_key ''optional''" "bare_key ''default_features''"
  by code_simp+

text \<open>What a written entry has to satisfy to be read back.\<close>

definition lock_clean :: "lock_entry \<Rightarrow> bool" where
  "lock_clean e \<longleftrightarrow> complete_entry e \<and> 0 \<le> l_stripComponents e \<and> l_stripComponents e \<le> int_max \<and>
     list_all lock_text [l_manifest e, l_name e, l_source e, l_url e, l_path e, l_versionRequirement e,
       l_resolvedVersion e, l_requestedFeatures e, l_requestedRev e, l_requestedTag e, l_revision e,
       ''sha256:'' @ l_checksum e, l_archiveType e, l_subdir e]"

text \<open>The value lines without quotes.\<close>

lemma lock_run_plain:
  assumes "bare_key k" and "v \<noteq> []"
    and plain: "\<forall>c \<in> set v. isalnum c"
  shows "lock_run (Some e, seen, m) ((k @ '' = '' @ v) # ls) =
    lock_run (Some (set_lock_field k v e), seen, m) ls"
proof -
  have n: "\<not> isspace c \<and> c \<noteq> dquote \<and> c \<noteq> squote \<and> c \<noteq> CHR ''#'' \<and> c \<noteq> CHR ''[''" if "c \<in> set v" for c
    using plain that by (auto simp: isalnum_def isdigit_def isupper_def islower_def isspace_def)
  have t: "trim v = v" by (rule trim_tight) (use n assms(2) in \<open>simp add: hd_in_set last_in_set\<close>)
  have "quote_free v" "CHR ''#'' \<notin> set v" using n by (auto simp: quote_free_def)
  then have h: "hash_free Bare v" by (rule hash_free_plain)
  have "hd v \<in> set v" using assms(2) by simp
  from n [OF this] have hd: "hd v \<noteq> dquote" "hd v \<noteq> squote" "hd v \<noteq> CHR ''[''" by blast+
  then have c: "toml_value_is_complete v"
    unfolding toml_value_is_complete_def Let_def t by simp
  have u: "unquote v = v"
    unfolding unquote_def Let_def t is_quoted_def using hd by simp
  have "\<not> isspace (last v)" using n assms(2) by simp
  from lock_run_value [OF assms(1) h assms(2) t this c] show ?thesis unfolding u .
qed

lemma isalnum_digit: "isdigit c \<Longrightarrow> isalnum c"
  by (simp add: isalnum_def)

lemma int_str_alnum: "0 \<le> n \<Longrightarrow> int_str n \<noteq> [] \<and> (\<forall>c \<in> set (int_str n). isalnum c)"
  using dec_str_digits [of "nat n"] by (auto simp: int_str_def list_all_iff isalnum_digit)

lemma lock_run_rest:
  assumes "0 \<le> l_stripComponents x" and "l_stripComponents x \<le> int_max"
    and e: "l_stripComponents e = 1" "\<not> l_submodules e" "\<not> l_optional e" "l_defaultFeatures e"
  shows "lock_run (Some e, seen, m)
      ((if l_stripComponents x \<noteq> 1 then [''strip_components = '' @ int_str (l_stripComponents x)] else [])
       @ (if l_submodules x then [''submodules = true''] else [])
       @ (if l_optional x then [''optional = true''] else [])
       @ (if \<not> l_defaultFeatures x then [''default_features = false''] else []) @ ls) =
    lock_run (Some (e\<lparr>l_stripComponents := l_stripComponents x, l_submodules := l_submodules x,
      l_optional := l_optional x, l_defaultFeatures := l_defaultFeatures x\<rparr>), seen, m) ls"
proof -
  let ?n = "l_stripComponents x"
  have t: "\<forall>c \<in> set ''true''. isalnum c" "\<forall>c \<in> set ''false''. isalnum c"
    "parse_toml_bool_value ''true''" "\<not> parse_toml_bool_value ''false''" by code_simp+
  have 1: "lock_run (Some f, seen, m) ((if ?n \<noteq> 1 then [''strip_components = '' @ int_str ?n] else []) @ ks) =
      lock_run (Some (f\<lparr>l_stripComponents := ?n\<rparr>), seen, m) ks" if "l_stripComponents f = 1" for f ks
    using lock_run_plain [OF lock_keys(15), of "int_str ?n" f seen m ks] int_str_alnum [OF assms(1)]
      parse_int_str [OF assms(1,2)] that by (cases f) (simp add: set_lock_field_def)
  have 2: "lock_run (Some f, seen, m) ((if b then [''submodules = true''] else []) @ ks) =
      lock_run (Some (f\<lparr>l_submodules := b\<rparr>), seen, m) ks" if "\<not> l_submodules f" for f ks b
    using lock_run_plain [OF lock_keys(16), of "''true''" f seen m ks] t that
    by (cases f) (simp add: set_lock_field_def)
  have 3: "lock_run (Some f, seen, m) ((if b then [''optional = true''] else []) @ ks) =
      lock_run (Some (f\<lparr>l_optional := b\<rparr>), seen, m) ks" if "\<not> l_optional f" for f ks b
    using lock_run_plain [OF lock_keys(17), of "''true''" f seen m ks] t that
    by (cases f) (simp add: set_lock_field_def)
  have 4: "lock_run (Some f, seen, m) ((if \<not> b then [''default_features = false''] else []) @ ks) =
      lock_run (Some (f\<lparr>l_defaultFeatures := b\<rparr>), seen, m) ks" if "l_defaultFeatures f" for f ks b
    using lock_run_plain [OF lock_keys(18), of "''false''" f seen m ks] t that
    by (cases f) (simp add: set_lock_field_def)
  show ?thesis
    using e by (simp only: 1) (subst 2, simp, subst 3, simp, subst 4, simp, simp)
qed

lemma lock_run_header:
  "lock_run (cur, seen, m) ([] # ''[[package]]'' # ls) =
    (case flush_entry cur m of
       Inl err \<Rightarrow> Return (Inl err)
     | Inr m' \<Rightarrow> lock_run (Some default_lock_entry, seen, m') ls)"
proof -
  have "strip_toml_comment [] = []" "strip_toml_comment ''[[package]]'' = ''[[package]]''" by code_simp+
  then show ?thesis by (simp add: toml_loop.simps lock_header_def split: sum.split)
qed

lemma lock_run_entry:
  assumes "lock_clean e"
  shows "lock_run (cur, seen, m) (lock_entry_lines e @ ls) =
    (case flush_entry cur m of
       Inl err \<Rightarrow> Return (Inl err)
     | Inr m' \<Rightarrow> lock_run (Some e, seen, m') ls)"
proof -
  have t: "lock_text (l_manifest e)" "lock_text (l_name e)" "lock_text (l_source e)" "lock_text (l_url e)"
      "lock_text (l_path e)" "lock_text (l_versionRequirement e)" "lock_text (l_resolvedVersion e)"
      "lock_text (l_requestedFeatures e)" "lock_text (l_requestedRev e)" "lock_text (l_requestedTag e)"
      "lock_text (l_revision e)" "lock_text (''sha256:'' @ l_checksum e)" "lock_text (l_archiveType e)"
      "lock_text (l_subdir e)"
    and n: "0 \<le> l_stripComponents e" "l_stripComponents e \<le> int_max"
    using assms by (simp_all add: lock_clean_def)
  have line: "lock_run (Some f, seen, m') (lock_line k v # ks) = lock_run (Some (set_lock_field k v f), seen, m') ks"
    if "bare_key k" "lock_text v" for k v f m' ks
    using lock_run_line [OF that(1)] that(2) by (simp add: lock_text_def)
  have cs: "lock_run (Some f, seen, m')
      ((if l_checksum e \<noteq> [] then [lock_line ''checksum'' (''sha256:'' @ l_checksum e)] else []) @ ks) =
      lock_run (Some (f\<lparr>l_checksum := l_checksum e\<rparr>), seen, m') ks" if "l_checksum f = []" for f m' ks
  proof (cases "l_checksum e = []")
    case True
    then show ?thesis using that by (cases f) simp
  next
    case False
    have "set_lock_field ''checksum'' (''sha256:'' @ l_checksum e) f = f\<lparr>l_checksum := l_checksum e\<rparr>"
      using starts_with_append [of "''sha256:''" "l_checksum e"] by (simp add: set_lock_field_def)
    with False line [OF lock_keys(12) t(12), of f m' ks] show ?thesis by simp
  qed
  have base: "set_lock_field ''source'' (l_source e) (set_lock_field ''name'' (l_name e)
      (set_lock_field ''manifest'' (l_manifest e) default_lock_entry)) =
    default_lock_entry\<lparr>l_manifest := l_manifest e, l_name := l_name e, l_source := l_source e\<rparr>"
    by (simp add: set_lock_field_def)
  let ?d = "default_lock_entry\<lparr>l_manifest := l_manifest e, l_name := l_name e, l_source := l_source e\<rparr>"
  have run: "lock_run (Some default_lock_entry, seen, m') (drop 2 (lock_entry_lines e) @ ls) =
      lock_run (Some e, seen, m') ls" for m'
  proof -
    let ?d2 = "?d\<lparr>l_url := l_url e, l_path := l_path e, l_versionRequirement := l_versionRequirement e,
      l_resolvedVersion := l_resolvedVersion e, l_requestedFeatures := l_requestedFeatures e,
      l_requestedRev := l_requestedRev e, l_requestedTag := l_requestedTag e, l_revision := l_revision e\<rparr>"
    let ?d3 = "?d2\<lparr>l_checksum := l_checksum e, l_archiveType := l_archiveType e, l_subdir := l_subdir e\<rparr>"
    let ?rest = "(if l_stripComponents e \<noteq> 1 then [''strip_components = '' @ int_str (l_stripComponents e)] else [])
       @ (if l_submodules e then [''submodules = true''] else [])
       @ (if l_optional e then [''optional = true''] else [])
       @ (if \<not> l_defaultFeatures e then [''default_features = false''] else []) @ ls"
    let ?sum = "if l_checksum e \<noteq> [] then [lock_line ''checksum'' (''sha256:'' @ l_checksum e)] else []"
    let ?arch = "opt_line ''archive'' (l_archiveType e) @ opt_line ''subdir'' (l_subdir e) @ ?rest"
    let ?opts = "opt_line ''url'' (l_url e) @ opt_line ''path'' (l_path e) @ opt_line ''requirement'' (l_versionRequirement e)
        @ opt_line ''resolved_version'' (l_resolvedVersion e) @ opt_line ''features'' (l_requestedFeatures e)
        @ opt_line ''requested_rev'' (l_requestedRev e) @ opt_line ''requested_tag'' (l_requestedTag e)
        @ opt_line ''revision'' (l_revision e) @ ?sum @ ?arch"
    have s0: "drop 2 (lock_entry_lines e) @ ls =
        lock_line ''manifest'' (l_manifest e) # lock_line ''name'' (l_name e) # lock_line ''source'' (l_source e) # ?opts"
      by (simp add: lock_entry_lines_def)
    have s1: "lock_run (Some default_lock_entry, seen, m')
        (lock_line ''manifest'' (l_manifest e) # lock_line ''name'' (l_name e) # lock_line ''source'' (l_source e) # ?opts) =
        lock_run (Some ?d, seen, m') ?opts"
      by (simp only: line [OF lock_keys(1) t(1)] line [OF lock_keys(2) t(2)] line [OF lock_keys(3) t(3)] base)
    have s2: "lock_run (Some ?d, seen, m') ?opts = lock_run (Some ?d2, seen, m') (?sum @ ?arch)"
      by (simp only: lock_run_opt [OF lock_keys(4) t(4)] lock_run_opt [OF lock_keys(5) t(5)]
          lock_run_opt [OF lock_keys(6) t(6)] lock_run_opt [OF lock_keys(7) t(7)]
          lock_run_opt [OF lock_keys(8) t(8)] lock_run_opt [OF lock_keys(9) t(9)]
          lock_run_opt [OF lock_keys(10) t(10)] lock_run_opt [OF lock_keys(11) t(11)])
        (simp add: opt_set_simps default_lock_entry_def)
    have s3: "lock_run (Some ?d2, seen, m') (?sum @ ?arch) =
        lock_run (Some (?d2\<lparr>l_checksum := l_checksum e\<rparr>), seen, m') ?arch"
      by (rule cs) (simp add: default_lock_entry_def)
    have s4: "lock_run (Some (?d2\<lparr>l_checksum := l_checksum e\<rparr>), seen, m') ?arch = lock_run (Some ?d3, seen, m') ?rest"
      by (simp only: lock_run_opt [OF lock_keys(13) t(13)] lock_run_opt [OF lock_keys(14) t(14)])
        (simp add: opt_set_simps default_lock_entry_def)
    have s5: "lock_run (Some ?d3, seen, m') ?rest =
        lock_run (Some (?d3\<lparr>l_stripComponents := l_stripComponents e, l_submodules := l_submodules e,
        l_optional := l_optional e, l_defaultFeatures := l_defaultFeatures e\<rparr>), seen, m') ls"
      by (rule lock_run_rest [OF n]) (simp_all add: default_lock_entry_def)
    have s6: "?d3\<lparr>l_stripComponents := l_stripComponents e, l_submodules := l_submodules e,
        l_optional := l_optional e, l_defaultFeatures := l_defaultFeatures e\<rparr> = e"
      by (cases e) (simp add: default_lock_entry_def)
    show ?thesis unfolding s0 s1 s2 s3 s4 s5 s6 ..
  qed
  have "lock_entry_lines e @ ls = [] # ''[[package]]'' # drop 2 (lock_entry_lines e) @ ls"
    by (simp add: lock_entry_lines_def)
  then show ?thesis by (simp only: lock_run_header run)
qed

subsection \<open>The whole file\<close>

definition entry_key :: "lock_entry \<Rightarrow> string" where
  "entry_key e = dependency_lock_key (l_manifest e) (l_name e)"

definition lock_entries_clean :: "lock_entries \<Rightarrow> bool" where
  "lock_entries_clean entries \<longleftrightarrow> omap_wf entries \<and>
     list_all (\<lambda>p. lock_clean (snd p) \<and> fst p = entry_key (snd p)) entries"

definition pending :: "lock_entry option \<Rightarrow> lock_entry list \<Rightarrow> lock_entry list" where
  "pending cur es = (case cur of None \<Rightarrow> es | Some c \<Rightarrow> c # es)"

lemma lock_run_entries:
  assumes "\<forall>e \<in> set es. lock_clean e" and "\<forall>e \<in> set (pending cur es). complete_entry e"
    and "distinct (map entry_key (pending cur es))" and "omap_wf m"
    and "\<forall>e \<in> set (pending cur es). omap_find m (entry_key e) = None"
  shows "flow_result finish_lock (lock_run (cur, True, m) (concat (map lock_entry_lines es))) =
    Inr (fold (\<lambda>e. omap_put (entry_key e) e) (pending cur es) m)"
  using assms
proof (induction es arbitrary: cur m)
  case Nil
  then show ?case
    by (cases cur) (simp_all add: toml_loop.simps finish_lock_def flush_entry_def pending_def entry_key_def)
next
  case (Cons e es)
  define m' where "m' = (case cur of None \<Rightarrow> m | Some c \<Rightarrow> omap_put (entry_key c) c m)"
  have flush: "flush_entry cur m = Inr m'"
    using Cons.prems by (cases cur) (simp_all add: flush_entry_def m'_def pending_def entry_key_def)
  have wf: "omap_wf m'" using Cons.prems(4) by (simp add: m'_def omap_wf_put split: option.split)
  have none: "\<forall>x \<in> set (pending (Some e) es). omap_find m' (entry_key x) = None"
    using Cons.prems(3-5) by (cases cur) (auto simp: m'_def pending_def omap_find_put image_iff)
  have "flow_result finish_lock (lock_run (Some e, True, m') (concat (map lock_entry_lines es))) =
      Inr (fold (\<lambda>e. omap_put (entry_key e) e) (pending (Some e) es) m')"
    by (rule Cons.IH [OF _ _ _ wf none])
      (use Cons.prems in \<open>auto simp: pending_def lock_clean_def split: option.splits\<close>)
  moreover have "fold (\<lambda>e. omap_put (entry_key e) e) (pending (Some e) es) m' =
      fold (\<lambda>e. omap_put (entry_key e) e) (pending cur (e # es)) m"
    by (cases cur) (simp_all add: pending_def m'_def)
  ultimately show ?case
    using Cons.prems(1) by (simp add: lock_run_entry flush)
qed

lemma fold_entries:
  "list_all (\<lambda>p. lock_clean (snd p) \<and> fst p = entry_key (snd p)) ps \<Longrightarrow>
   fold (\<lambda>e. omap_put (entry_key e) e) (map snd ps) m = omap_put_all ps m"
  by (induction ps arbitrary: m) (auto simp: omap_put_all_def split: prod.splits)

lemma omap_put_all_self: "omap_wf ps \<Longrightarrow> omap_put_all ps omap_empty = ps"
proof (rule omap_ext)
  assume "omap_wf ps"
  then show "omap_find (omap_put_all ps omap_empty) = omap_find ps"
    by (simp add: omap_find_put_all) (simp add: omap_find_def omap_empty_def)
qed (simp_all add: omap_wf_put_all)

lemma lock_line_no_newline: "bare_key k \<Longrightarrow> newline \<notin> set (lock_line k v)"
proof -
  assume k: "bare_key k"
  have "newline \<notin> set k"
  proof
    assume "newline \<in> set k"
    then have "key_char newline" using k by (simp add: bare_key_def)
    moreover have "\<not> key_char newline" by code_simp
    ultimately show False by blast
  qed
  then show ?thesis using lock_body_no_newline [of v] by (auto simp: lock_line_def lock_quote_def)
qed

lemma opt_line_no_newline: "bare_key k \<Longrightarrow> \<forall>l \<in> set (opt_line k v). newline \<notin> set l"
  by (simp add: opt_line_def lock_line_no_newline)

lemma lock_entry_lines_no_newline:
  assumes "0 \<le> l_stripComponents e"
  shows "\<forall>l \<in> set (lock_entry_lines e). newline \<notin> set l"
proof -
  have d: "newline \<notin> set (int_str (l_stripComponents e))"
  proof
    assume "newline \<in> set (int_str (l_stripComponents e))"
    then have "isalnum newline" using int_str_alnum [OF assms] by blast
    moreover have "\<not> isalnum newline" by code_simp
    ultimately show False by blast
  qed
  show ?thesis
    unfolding lock_entry_lines_def set_append ball_Un
    using d by (intro conjI opt_line_no_newline lock_keys)
      (simp_all add: lock_line_no_newline lock_keys)
qed

text \<open>C22. The lockfile round trip: reading the text written for a set of entries gives the same
  entries, keyed and ordered alike, for entries that are complete, whose texts hold no tab, line
  end or run of blanks, and whose strip count is a nonnegative \<^verbatim>\<open>int\<close>.\<close>

theorem lockfile_round_trip:
  assumes "lock_entries_clean entries"
  shows "read_dependency_lock (write_dependency_lock entries) omap_empty = Inr entries"
proof -
  let ?es = "map snd entries"
  have wf: "omap_wf entries" and each: "list_all (\<lambda>p. lock_clean (snd p) \<and> fst p = entry_key (snd p)) entries"
    using assms by (simp_all add: lock_entries_clean_def)
  have clean: "\<forall>e \<in> set ?es. lock_clean e" using each by (auto simp: list_all_iff)
  have keys: "map entry_key ?es = map fst entries" using each by (simp add: list_all_iff)
  have head: "strip_toml_comment ''# Generated by mlang pkg. Do not edit manually.'' = []"
    "strip_toml_comment ''version = 1'' = ''version = 1''"
    "lock_header (None, False, omap_empty) ''version = 1'' = None"
    "unquote ''1'' = ''1''" by code_simp+
  have asg: "parse_toml_assignment ''version = 1'' ls =
      (Some \<lparr>asg_key = ''version'', asg_value = ''1'', asg_append = False\<rparr>, ls)" for ls
  proof -
    have "bare_key ''version''" "trim ''1'' = ''1''" "toml_value_is_complete ''1''" by code_simp+
    from key_value_assignment [OF this, of ls] show ?thesis by simp
  qed
  have "\<forall>l \<in> set (lock_lines entries). newline \<notin> set l"
    using clean lock_entry_lines_no_newline by (auto simp: lock_lines_def lock_clean_def)
  then have "getlines (write_dependency_lock entries) = lock_lines entries"
    unfolding write_dependency_lock_def by (rule getlines_terminated)
  moreover have "lock_run (None, False, omap_empty) (lock_lines entries) =
      lock_run (None, True, omap_empty) (concat (map lock_entry_lines ?es))"
    unfolding lock_lines_def
    by (simp only: append.simps toml_loop.simps head asg Let_def)
      (simp add: lock_assign_def head(4) comp_def)
  moreover have "flow_result finish_lock (lock_run (None, True, omap_empty) (concat (map lock_entry_lines ?es))) =
      Inr (fold (\<lambda>e. omap_put (entry_key e) e) (pending None ?es) omap_empty)"
  proof (rule lock_run_entries [OF clean])
    show "distinct (map entry_key (pending None ?es))"
      unfolding pending_def option.case keys by (rule omap_wf_distinct [OF wf])
    show "\<forall>e \<in> set (pending None ?es). omap_find omap_empty (entry_key e) = None"
      by (simp add: omap_find_def omap_empty_def)
  qed (use clean in \<open>auto simp: pending_def lock_clean_def\<close>)
  moreover have "fold (\<lambda>e. omap_put (entry_key e) e) (pending None ?es) omap_empty = entries"
    using fold_entries [OF each] omap_put_all_self [OF wf] by (simp add: pending_def)
  ultimately show ?thesis unfolding read_dependency_lock_def by simp
qed

theorem lockfile_round_trip_witness:
  "read_dependency_lock (write_dependency_lock
     [(dependency_lock_key ''mlang.toml'' ''json'', default_lock_entry\<lparr>l_manifest := ''mlang.toml'',
        l_name := ''json'', l_source := ''git'', l_url := ''https://example.org/a b'', l_submodules := True\<rparr>)])
     omap_empty =
   Inr [(dependency_lock_key ''mlang.toml'' ''json'', default_lock_entry\<lparr>l_manifest := ''mlang.toml'',
        l_name := ''json'', l_source := ''git'', l_url := ''https://example.org/a b'', l_submodules := True\<rparr>)]"
  by (rule lockfile_round_trip) code_simp

end
