(* ===== verification/Workspace_Graph.thy ===== *)
theory Workspace_Graph
  imports Graph_Search Ordered_Map
begin

text \<open>
  The workspace graph of the editor support (\<^verbatim>\<open>include/workspace_graph.h\<close>,
  \<^verbatim>\<open>src/workspace_graph.cpp\<close>): the open documents, and two indexes from module names to the
  documents that provide and import them. The indexes are redundant; the theorems show that
  every sequence of updates keeps them equal to what the documents say, and that the queries,
  which only look at the indexes, answer for the documents.
\<close>

record workspace_import =
  moduleName :: string
  itemName :: string
  importAll :: bool

record workspace_document =
  uri :: string
  path :: string
  providedModules :: "string list"
  docImports :: "workspace_import list"

record workspace_graph =
  documents :: "string \<rightharpoonup> workspace_document"
  moduleProviders :: "string \<rightharpoonup> string set"
  moduleImporters :: "string \<rightharpoonup> string set"

definition ws_empty :: workspace_graph where
  "ws_empty = \<lparr>documents = Map.empty, moduleProviders = Map.empty, moduleImporters = Map.empty\<rparr>"

subsection \<open>Updates\<close>

text \<open>The bodies of the loops over modules: taking a document out of an entry of an index, which
  goes away when it becomes empty, and putting one in.\<close>

definition index_erase :: "string \<Rightarrow> string \<Rightarrow> (string \<rightharpoonup> string set) \<Rightarrow> (string \<rightharpoonup> string set)" where
  "index_erase u m ix =
     (case ix m of
        None \<Rightarrow> ix
      | Some us \<Rightarrow> if us - {u} = {} then ix(m := None) else ix(m \<mapsto> us - {u}))"

definition index_insert :: "string \<Rightarrow> string \<Rightarrow> (string \<rightharpoonup> string set) \<Rightarrow> (string \<rightharpoonup> string set)" where
  "index_insert u m ix =
     (if m = [] then ix
      else ix(m \<mapsto> insert u (case ix m of None \<Rightarrow> {} | Some us \<Rightarrow> us)))"

definition removeDocumentIndexes :: "workspace_document \<Rightarrow> workspace_graph \<Rightarrow> workspace_graph" where
  "removeDocumentIndexes d g =
     g\<lparr>moduleProviders := fold (index_erase (uri d)) (providedModules d) (moduleProviders g),
       moduleImporters :=
         fold (\<lambda>i. index_erase (uri d) (moduleName i)) (docImports d) (moduleImporters g)\<rparr>"

definition upsertDocument :: "workspace_document \<Rightarrow> workspace_graph \<Rightarrow> workspace_graph" where
  "upsertDocument d g =
     (let g1 = (case documents g (uri d) of None \<Rightarrow> g | Some old \<Rightarrow> removeDocumentIndexes old g);
          g2 = g1\<lparr>documents := (documents g1)(uri d \<mapsto> d)\<rparr>
      in g2\<lparr>moduleProviders := fold (index_insert (uri d)) (providedModules d) (moduleProviders g2),
            moduleImporters :=
              fold (\<lambda>i. index_insert (uri d) (moduleName i)) (docImports d) (moduleImporters g2)\<rparr>)"

definition removeDocument :: "string \<Rightarrow> workspace_graph \<Rightarrow> workspace_graph" where
  "removeDocument u g =
     (case documents g u of
        None \<Rightarrow> g
      | Some d \<Rightarrow>
          (let g1 = removeDocumentIndexes d g in g1\<lparr>documents := (documents g1)(u := None)\<rparr>))"

subsection \<open>Queries\<close>

definition hasDocument :: "workspace_graph \<Rightarrow> string \<Rightarrow> bool" where
  "hasDocument g u \<longleftrightarrow> documents g u \<noteq> None"

definition documentCount :: "workspace_graph \<Rightarrow> nat" where
  "documentCount g = card (dom (documents g))"

text \<open>
  The order in which an \<^verbatim>\<open>unordered_set\<close> is iterated is up to the C++ library; the queries
  take it as \<open>it\<close>, the sequence in which the entry of a module is walked.
\<close>

type_synonym set_order = "string \<Rightarrow> string set \<Rightarrow> string list"

definition enumerates :: "set_order \<Rightarrow> bool" where
  "enumerates it \<longleftrightarrow> (\<forall>m us. finite us \<longrightarrow> set (it m us) = us \<and> distinct (it m us))"

definition findProviderUris :: "set_order \<Rightarrow> workspace_graph \<Rightarrow> string \<Rightarrow> string list" where
  "findProviderUris it g m =
     (case moduleProviders g m of None \<Rightarrow> [] | Some us \<Rightarrow> sort (it m us))"

text \<open>\<^verbatim>\<open>if(seen.insert(x).second) out.push_back(x);\<close> The list holds the same elements as the set.\<close>

definition push_new :: "'a \<Rightarrow> 'a list \<Rightarrow> 'a list" where
  "push_new x out = (if x \<in> set out then out else out @ [x])"

definition directDependencyModules :: "workspace_graph \<Rightarrow> string \<Rightarrow> string list" where
  "directDependencyModules g u =
     (case documents g u of
        None \<Rightarrow> []
      | Some d \<Rightarrow>
          sort (fold (\<lambda>i out. if moduleName i = [] then out else push_new (moduleName i) out)
                  (docImports d) []))"

definition directDependentUris :: "set_order \<Rightarrow> workspace_graph \<Rightarrow> string \<Rightarrow> string list" where
  "directDependentUris it g u =
     (case documents g u of
        None \<Rightarrow> []
      | Some d \<Rightarrow>
          sort (fold (\<lambda>m out.
                   case moduleImporters g m of
                     None \<Rightarrow> out
                   | Some us \<Rightarrow> fold (\<lambda>v out. if v = uri d then out else push_new v out) (it m us) out)
                  (providedModules d) []))"

text \<open>The breadth first walk. \<open>visited\<close> is the set of names seen so far, \<open>queue\<close> the deque.\<close>

definition enqueue_import :: "workspace_import \<Rightarrow> string set \<times> string list \<Rightarrow> string set \<times> string list" where
  "enqueue_import i s =
     (if moduleName i = [] \<or> moduleName i \<in> fst s then s
      else (insert (moduleName i) (fst s), snd s @ [moduleName i]))"

definition provider_imports :: "set_order \<Rightarrow> workspace_graph \<Rightarrow> string \<Rightarrow> workspace_import list" where
  "provider_imports it g m =
     (case moduleProviders g m of
        None \<Rightarrow> []
      | Some us \<Rightarrow>
          concat (map (\<lambda>u. case documents g u of None \<Rightarrow> [] | Some d \<Rightarrow> docImports d) (it m us)))"

partial_function (option) dependency_loop ::
  "set_order \<Rightarrow> workspace_graph \<Rightarrow> string set \<Rightarrow> string list \<Rightarrow> string list \<Rightarrow> string list option" where
  "dependency_loop it g visited queue out =
     (case queue of
        [] \<Rightarrow> Some out
      | m # rest \<Rightarrow>
          (let s = fold enqueue_import (provider_imports it g m) (visited, rest)
           in dependency_loop it g (fst s) (snd s) (out @ [m])))"

definition transitiveDependencyModules ::
  "set_order \<Rightarrow> workspace_graph \<Rightarrow> string \<Rightarrow> string list option" where
  "transitiveDependencyModules it g u =
     (case documents g u of
        None \<Rightarrow> Some []
      | Some d \<Rightarrow>
          (let s = fold enqueue_import (docImports d) ({}, [])
           in dependency_loop it g (fst s) (snd s) []))"

subsection \<open>The indexes agree with the documents\<close>

text \<open>The specification: a workspace is its documents; an index is what they say.\<close>

definition import_names :: "workspace_document \<Rightarrow> string list" where
  "import_names d = map moduleName (docImports d)"

definition index_of :: "(workspace_document \<Rightarrow> string list) \<Rightarrow> (string \<rightharpoonup> workspace_document) \<Rightarrow> string \<Rightarrow> string set" where
  "index_of names ds m = {u. \<exists>d. ds u = Some d \<and> m \<noteq> [] \<and> m \<in> set (names d)}"

definition as_entry :: "string set \<Rightarrow> string set option" where
  "as_entry us = (if us = {} then None else Some us)"

definition ws_inv :: "workspace_graph \<Rightarrow> bool" where
  "ws_inv g \<longleftrightarrow>
     finite (dom (documents g)) \<and> (\<forall>u d. documents g u = Some d \<longrightarrow> uri d = u) \<and>
     moduleProviders g = as_entry \<circ> index_of providedModules (documents g) \<and>
     moduleImporters g = as_entry \<circ> index_of import_names (documents g)"

datatype ws_op = Upsert workspace_document | Remove string

fun ws_apply :: "ws_op \<Rightarrow> workspace_graph \<Rightarrow> workspace_graph" where
  "ws_apply (Upsert d) g = upsertDocument d g"
| "ws_apply (Remove u) g = removeDocument u g"

fun docs_apply :: "ws_op \<Rightarrow> (string \<rightharpoonup> workspace_document) \<Rightarrow> (string \<rightharpoonup> workspace_document)" where
  "docs_apply (Upsert d) ds = ds(uri d \<mapsto> d)"
| "docs_apply (Remove u) ds = ds(u := None)"

lemma as_entry_simps [simp]: "as_entry {} = None" "as_entry us = None \<longleftrightarrow> us = {}"
  "as_entry us = Some vs \<longleftrightarrow> us = vs \<and> vs \<noteq> {}"
  by (auto simp: as_entry_def)

lemma index_erase_entry:
  "index_erase u m (as_entry \<circ> f) = as_entry \<circ> f(m := f m - {u})"
  by (auto simp: index_erase_def as_entry_def fun_eq_iff split: option.splits)

lemma fold_index_erase:
  "fold (index_erase u) ms (as_entry \<circ> f) = as_entry \<circ> (\<lambda>m. if m \<in> set ms then f m - {u} else f m)"
proof (induction ms arbitrary: f)
  case (Cons m ms)
  have "(\<lambda>k. if k \<in> set ms then (f(m := f m - {u})) k - {u} else (f(m := f m - {u})) k) =
    (\<lambda>k. if k \<in> set (m # ms) then f k - {u} else f k)" by (auto simp: fun_eq_iff)
  then show ?case by (simp only: fold_simps index_erase_entry Cons.IH)
qed simp

lemma index_insert_entry:
  "m \<noteq> [] \<Longrightarrow> index_insert u m (as_entry \<circ> f) = as_entry \<circ> f(m := insert u (f m))"
  by (auto simp: index_insert_def as_entry_def fun_eq_iff split: option.splits)

lemma fold_index_insert:
  "fold (index_insert u) ms (as_entry \<circ> f) =
     as_entry \<circ> (\<lambda>m. if m \<noteq> [] \<and> m \<in> set ms then insert u (f m) else f m)"
proof (induction ms arbitrary: f)
  case (Cons m ms)
  show ?case
  proof (cases "m = []")
    case True
    have "index_insert u m (as_entry \<circ> f) = as_entry \<circ> f" using True by (simp add: index_insert_def)
    moreover have "(\<lambda>k. if k \<noteq> [] \<and> k \<in> set ms then insert u (f k) else f k) =
      (\<lambda>k. if k \<noteq> [] \<and> k \<in> set (m # ms) then insert u (f k) else f k)" using True by (auto simp: fun_eq_iff)
    ultimately show ?thesis by (simp only: fold_simps Cons.IH)
  next
    case False
    have "(\<lambda>k. if k \<noteq> [] \<and> k \<in> set ms then insert u ((f(m := insert u (f m))) k) else (f(m := insert u (f m))) k) =
      (\<lambda>k. if k \<noteq> [] \<and> k \<in> set (m # ms) then insert u (f k) else f k)" using False by (auto simp: fun_eq_iff)
    then show ?thesis by (simp only: fold_simps index_insert_entry [OF False] Cons.IH)
  qed
qed simp

lemma fold_names: "fold (\<lambda>i. f (moduleName i)) js ix = fold f (map moduleName js) ix"
  by (induction js arbitrary: ix) auto

text \<open>One index under the three ways the documents change.\<close>

lemma index_of_erase:
  assumes "ds u = Some d"
  shows "(\<lambda>m. if m \<in> set (names d) then index_of names ds m - {u} else index_of names ds m) =
    index_of names (ds(u := None))"
  using assms by (auto simp: index_of_def fun_eq_iff split: if_splits)

lemma index_of_insert:
  assumes "ds u = None"
  shows "(\<lambda>m. if m \<noteq> [] \<and> m \<in> set (names d) then insert u (index_of names ds m) else index_of names ds m) =
    index_of names (ds(u \<mapsto> d))"
  using assms by (auto simp: index_of_def fun_eq_iff split: if_splits)

lemma removeDocumentIndexes_index:
  assumes "ws_inv g" and "documents g u = Some d"
  shows "moduleProviders (removeDocumentIndexes d g) = as_entry \<circ> index_of providedModules ((documents g)(u := None))"
    and "moduleImporters (removeDocumentIndexes d g) = as_entry \<circ> index_of import_names ((documents g)(u := None))"
    and "documents (removeDocumentIndexes d g) = documents g"
proof -
  have u: "uri d = u" and p: "moduleProviders g = as_entry \<circ> index_of providedModules (documents g)"
    and i: "moduleImporters g = as_entry \<circ> index_of import_names (documents g)"
    using assms by (auto simp: ws_inv_def)
  note e = index_of_erase [where ds = "documents g" and u = u and d = d, OF assms(2)]
  show "moduleProviders (removeDocumentIndexes d g) = as_entry \<circ> index_of providedModules ((documents g)(u := None))"
    by (simp add: removeDocumentIndexes_def u p fold_index_erase e)
  show "moduleImporters (removeDocumentIndexes d g) = as_entry \<circ> index_of import_names ((documents g)(u := None))"
    using e [of import_names]
    by (simp add: removeDocumentIndexes_def u i fold_names fold_index_erase import_names_def)
  show "documents (removeDocumentIndexes d g) = documents g" by (simp add: removeDocumentIndexes_def)
qed

lemma ws_inv_remove: "ws_inv g \<Longrightarrow> ws_inv (removeDocument u g)"
proof (cases "documents g u")
  case (Some d)
  assume inv: "ws_inv g"
  note r = removeDocumentIndexes_index [OF inv Some]
  show ?thesis using inv Some
    by (auto simp: removeDocument_def Let_def r ws_inv_def)
qed (simp add: removeDocument_def)

lemma documents_remove: "documents (removeDocument u g) = (documents g)(u := None)"
  by (auto simp: removeDocument_def removeDocumentIndexes_def Let_def fun_upd_idem split: option.splits)

lemma documents_upsert: "documents (upsertDocument d g) = (documents g)(uri d \<mapsto> d)"
  by (auto simp: upsertDocument_def removeDocumentIndexes_def Let_def split: option.splits)

lemma ws_inv_upsert:
  assumes "ws_inv g"
  shows "ws_inv (upsertDocument d g)"
proof -
  define g1 where "g1 = (case documents g (uri d) of None \<Rightarrow> g | Some old \<Rightarrow> removeDocumentIndexes old g)"
  define ds where "ds = (documents g)(uri d := None)"
  have g1: "moduleProviders g1 = as_entry \<circ> index_of providedModules ds"
    "moduleImporters g1 = as_entry \<circ> index_of import_names ds" "documents g1 = documents g"
  proof (atomize (full), cases "documents g (uri d)")
    case None
    then have "ds = documents g" by (simp add: ds_def fun_upd_idem)
    with None assms show "moduleProviders g1 = as_entry \<circ> index_of providedModules ds \<and>
      moduleImporters g1 = as_entry \<circ> index_of import_names ds \<and> documents g1 = documents g"
      by (simp add: g1_def ws_inv_def)
  next
    case (Some old)
    with removeDocumentIndexes_index [OF assms Some]
    show "moduleProviders g1 = as_entry \<circ> index_of providedModules ds \<and>
      moduleImporters g1 = as_entry \<circ> index_of import_names ds \<and> documents g1 = documents g"
      by (simp add: g1_def ds_def)
  qed
  have ds: "ds (uri d) = None" "ds(uri d \<mapsto> d) = (documents g)(uri d \<mapsto> d)" by (simp_all add: ds_def)
  note i = index_of_insert [where ds = ds and u = "uri d" and d = d, OF ds(1), unfolded ds(2)]
  have "moduleProviders (upsertDocument d g) = as_entry \<circ> index_of providedModules ((documents g)(uri d \<mapsto> d))"
    by (simp add: upsertDocument_def Let_def g1_def [symmetric] g1 fold_index_insert i)
  moreover have "moduleImporters (upsertDocument d g) = as_entry \<circ> index_of import_names ((documents g)(uri d \<mapsto> d))"
    using i [of import_names]
    by (simp add: upsertDocument_def Let_def g1_def [symmetric] g1 fold_names fold_index_insert import_names_def)
  ultimately show ?thesis using assms by (simp add: ws_inv_def documents_upsert)
qed

lemma ws_inv_empty: "ws_inv ws_empty"
  by (auto simp: ws_inv_def ws_empty_def index_of_def fun_eq_iff)

lemma ws_apply_inv: "ws_inv g \<Longrightarrow> ws_inv (ws_apply o1 g)"
  by (cases o1) (simp_all add: ws_inv_upsert ws_inv_remove)

lemma ws_apply_documents: "documents (ws_apply o1 g) = docs_apply o1 (documents g)"
  by (cases o1) (simp_all add: documents_upsert documents_remove)

text \<open>The states a session reaches.\<close>

definition ws_run :: "ws_op list \<Rightarrow> workspace_graph" where
  "ws_run os = fold ws_apply os ws_empty"

definition docs_run :: "ws_op list \<Rightarrow> (string \<rightharpoonup> workspace_document)" where
  "docs_run os = fold docs_apply os Map.empty"

lemma fold_ws_apply:
  "ws_inv g \<Longrightarrow> ws_inv (fold ws_apply os g) \<and> documents (fold ws_apply os g) = fold docs_apply os (documents g)"
  by (induction os arbitrary: g) (simp_all add: ws_apply_inv ws_apply_documents)

lemma ws_run_inv: "ws_inv (ws_run os)"
  using fold_ws_apply [OF ws_inv_empty] by (simp add: ws_run_def)

lemma ws_run_documents: "documents (ws_run os) = docs_run os"
  using fold_ws_apply [OF ws_inv_empty, of os] by (simp add: ws_run_def docs_run_def ws_empty_def)

subsection \<open>What the queries answer\<close>

lemma fold_push_new: "distinct out \<Longrightarrow> distinct (fold push_new xs out) \<and> set (fold push_new xs out) = set out \<union> set xs"
  by (induction xs arbitrary: out) (auto simp: push_new_def)

lemma push_new_nil: "set (fold push_new xs []) = set xs" "distinct (fold push_new xs [])"
  using fold_push_new [of "[]" xs] by simp_all

lemma fold_push_new_filter:
  "fold (\<lambda>x out. if P x then out else push_new (f x) out) xs out =
     fold push_new (map f (filter (\<lambda>x. \<not> P x) xs)) out"
  by (induction xs arbitrary: out) auto

lemma dependency_modules:
  "directDependencyModules g u =
     (case documents g u of
        None \<Rightarrow> [] | Some d \<Rightarrow> sort (fold push_new (filter (\<lambda>m. m \<noteq> []) (import_names d)) []))"
  by (simp add: directDependencyModules_def fold_push_new_filter import_names_def filter_map comp_def
      split: option.splits)

definition importers_but :: "set_order \<Rightarrow> workspace_graph \<Rightarrow> string \<Rightarrow> string \<Rightarrow> string list" where
  "importers_but it g u m =
     (case moduleImporters g m of None \<Rightarrow> [] | Some us \<Rightarrow> filter (\<lambda>v. v \<noteq> u) (it m us))"

lemma dependent_loop:
  "fold (\<lambda>m out. case moduleImporters g m of
             None \<Rightarrow> out
           | Some us \<Rightarrow> fold (\<lambda>v out. if v = u then out else push_new v out) (it m us) out) ms out =
     fold push_new (concat (map (importers_but it g u) ms)) out"
proof (induction ms arbitrary: out)
  case (Cons m ms)
  have "fold (\<lambda>v out. if v = u then out else push_new v out) vs o1 = fold push_new (filter (\<lambda>v. v \<noteq> u) vs) o1"
    for vs :: "string list" and o1
    using fold_push_new_filter [of "\<lambda>v. v = u" "\<lambda>v. v" vs o1] by simp
  with Cons.IH show ?case by (cases "moduleImporters g m") (simp_all add: importers_but_def)
qed simp

lemma dependent_uris:
  "directDependentUris it g u =
     (case documents g u of
        None \<Rightarrow> []
      | Some d \<Rightarrow> sort (fold push_new (concat (map (importers_but it g (uri d)) (providedModules d))) []))"
  by (simp add: directDependentUris_def dependent_loop split: option.splits)

lemma index_of_finite: "finite (dom ds) \<Longrightarrow> finite (index_of names ds m)"
  by (rule finite_subset [of _ "dom ds"]) (auto simp: index_of_def)

lemma set_it_entry:
  assumes "enumerates it" and "finite (dom ds)"
  shows "set (it m (index_of names ds m)) = index_of names ds m" "distinct (it m (index_of names ds m))"
  using assms index_of_finite by (auto simp: enumerates_def)

lemma provider_uris:
  assumes "ws_inv g" and "enumerates it"
  shows "set (findProviderUris it g m) = index_of providedModules (documents g) m"
    and "sorted (findProviderUris it g m)" and "distinct (findProviderUris it g m)"
proof -
  have fin: "finite (dom (documents g))"
    and p: "moduleProviders g m = as_entry (index_of providedModules (documents g) m)"
    using assms(1) by (auto simp: ws_inv_def)
  note i = set_it_entry [OF assms(2) fin]
  show "set (findProviderUris it g m) = index_of providedModules (documents g) m"
    by (simp add: findProviderUris_def p i as_entry_def)
  show "sorted (findProviderUris it g m)" by (simp add: findProviderUris_def split: option.splits)
  show "distinct (findProviderUris it g m)" by (simp add: findProviderUris_def p i as_entry_def)
qed

lemma set_importers_but:
  assumes "ws_inv g" and "enumerates it"
  shows "set (importers_but it g u m) = index_of import_names (documents g) m - {u}"
proof -
  have fin: "finite (dom (documents g))"
    and p: "moduleImporters g m = as_entry (index_of import_names (documents g) m)"
    using assms(1) by (auto simp: ws_inv_def)
  then show ?thesis
    using set_it_entry [OF assms(2) fin, of m import_names] by (auto simp: importers_but_def as_entry_def)
qed

lemma set_dependency_modules:
  "m \<in> set (directDependencyModules g v) \<longleftrightarrow> v \<in> index_of import_names (documents g) m"
  by (cases "documents g v") (auto simp: dependency_modules push_new_nil index_of_def)

lemma set_dependent_uris:
  assumes "ws_inv g" and "enumerates it"
  shows "set (directDependentUris it g u) =
    {v. v \<noteq> u \<and> (\<exists>m. u \<in> index_of providedModules (documents g) m \<and> v \<in> index_of import_names (documents g) m)}"
proof (cases "documents g u")
  case None
  then show ?thesis by (simp add: dependent_uris index_of_def)
next
  case (Some d)
  then have u: "uri d = u" using assms(1) by (simp add: ws_inv_def)
  have "set (directDependentUris it g u) =
    (\<Union>m \<in> set (providedModules d). index_of import_names (documents g) m - {u})"
    using Some u by (simp add: dependent_uris push_new_nil set_importers_but [OF assms])
  also have "\<dots> = {v. v \<noteq> u \<and> (\<exists>m. u \<in> index_of providedModules (documents g) m \<and> v \<in> index_of import_names (documents g) m)}"
    using Some by (auto simp: index_of_def)
  finally show ?thesis .
qed

subsection \<open>The breadth first walk\<close>

text \<open>The successors of a module: what the documents that provide it import.\<close>

definition module_succs :: "set_order \<Rightarrow> workspace_graph \<Rightarrow> string \<Rightarrow> string list" where
  "module_succs it g m = filter (\<lambda>n. n \<noteq> []) (map moduleName (provider_imports it g m))"

lemma enqueue_imports:
  assumes "visited = V \<union> set queue" and "distinct queue" and "set queue \<inter> V = {}"
  shows "\<exists>fresh. fold enqueue_import js (visited, queue) = (V \<union> set (queue @ fresh), queue @ fresh) \<and>
    distinct (queue @ fresh) \<and> set (queue @ fresh) \<inter> V = {} \<and>
    V \<union> set (queue @ fresh) = visited \<union> set (filter (\<lambda>n. n \<noteq> []) (map moduleName js))"
  using assms
proof (induction js arbitrary: visited queue)
  case Nil
  then show ?case by (intro exI [of _ "[]"]) simp
next
  case (Cons j js)
  show ?case
  proof (cases "moduleName j = [] \<or> moduleName j \<in> visited")
    case True
    then have "enqueue_import j (visited, queue) = (visited, queue)" by (simp add: enqueue_import_def)
    with Cons.IH [OF Cons.prems] True show ?thesis by (auto simp: insert_absorb)
  next
    case False
    then have e: "enqueue_import j (visited, queue) = (insert (moduleName j) visited, queue @ [moduleName j])"
      by (simp add: enqueue_import_def)
    have "\<exists>fresh. fold enqueue_import js (insert (moduleName j) visited, queue @ [moduleName j]) =
        (V \<union> set ((queue @ [moduleName j]) @ fresh), (queue @ [moduleName j]) @ fresh) \<and>
      distinct ((queue @ [moduleName j]) @ fresh) \<and> set ((queue @ [moduleName j]) @ fresh) \<inter> V = {} \<and>
      V \<union> set ((queue @ [moduleName j]) @ fresh) =
        insert (moduleName j) visited \<union> set (filter (\<lambda>n. n \<noteq> []) (map moduleName js))"
      by (rule Cons.IH) (use Cons.prems False in auto)
    then obtain fresh where f: "fold enqueue_import js (insert (moduleName j) visited, queue @ [moduleName j]) =
        (V \<union> set ((queue @ [moduleName j]) @ fresh), (queue @ [moduleName j]) @ fresh)"
      "distinct ((queue @ [moduleName j]) @ fresh)" "set ((queue @ [moduleName j]) @ fresh) \<inter> V = {}"
      "V \<union> set ((queue @ [moduleName j]) @ fresh) =
        insert (moduleName j) visited \<union> set (filter (\<lambda>n. n \<noteq> []) (map moduleName js))"
      by blast
    show ?thesis
      by (rule exI [of _ "moduleName j # fresh"]) (use False f e in simp)
  qed
qed

lemma search_inv_grow:
  assumes "search_inv succs R (insert x todo) seen"
    and "insert x seen \<union> todo' = insert x seen \<union> todo \<union> set (succs x)"
  shows "search_inv succs R todo' (insert x seen)"
  using search_inv_visit [OF assms(1)] assms(2) unfolding search_inv_def by auto

lemma dependency_loop_reach:
  assumes "finite U" and "R \<subseteq> U" and "\<And>m. set (module_succs it g m) \<subseteq> U"
    and "search_inv (module_succs it g) R (set queue) (set out)"
    and "visited = set out \<union> set queue" and "distinct (out @ queue)" and "set out \<subseteq> U"
  shows "\<exists>ms. dependency_loop it g visited queue out = Some ms \<and> distinct ms \<and>
    set ms = reach (module_succs it g) R"
  using assms(4-)
proof (induction "card U - length out" arbitrary: visited queue out rule: less_induct)
  case less
  show ?case
  proof (cases queue)
    case Nil
    have "dependency_loop it g visited queue out = Some out" using Nil by (subst dependency_loop.simps) simp
    moreover have "set out = reach (module_succs it g) R"
      using search_inv_done less.prems(1) Nil by simp
    ultimately show ?thesis using less.prems(3) by simp
  next
    case (Cons m rest)
    let ?V = "insert m (set out)"
    let ?s = "fold enqueue_import (provider_imports it g m) (visited, rest)"
    have mU: "m \<in> U"
    proof -
      have "m \<in> reach (module_succs it g) R" using less.prems(1) Cons by (simp add: search_inv_def)
      moreover have "reach (module_succs it g) R \<subseteq> U"
        using assms(2,3) by (intro reach_least) auto
      ultimately show ?thesis by blast
    qed
    have "distinct rest" "visited = ?V \<union> set rest" "set rest \<inter> ?V = {}"
      using less.prems(2,3) Cons by auto
    from enqueue_imports [OF this(2,1,3), of "provider_imports it g m"]
    obtain fresh where f: "?s = (?V \<union> set (rest @ fresh), rest @ fresh)" "distinct (rest @ fresh)"
      "set (rest @ fresh) \<inter> ?V = {}" "?V \<union> set (rest @ fresh) = visited \<union> set (module_succs it g m)"
      unfolding module_succs_def by blast
    have "length (out @ [m]) \<le> card U"
    proof -
      have "distinct (out @ [m])" using less.prems(3) Cons by simp
      then have "length (out @ [m]) = card (set (out @ [m]))" by (simp only: distinct_card)
      also have "\<dots> \<le> card U" using assms(1) less.prems(4) mU by (intro card_mono) auto
      finally show ?thesis .
    qed
    then have dec: "card U - length (out @ [m]) < card U - length out" by simp
    have inv: "search_inv (module_succs it g) R (set (rest @ fresh)) (set (out @ [m]))"
    proof -
      have "search_inv (module_succs it g) R (insert m (set rest)) (set out)"
        using less.prems(1) Cons by simp
      moreover have "?V \<union> set (rest @ fresh) = ?V \<union> set rest \<union> set (module_succs it g m)"
        unfolding f(4) using less.prems(2) Cons by auto
      ultimately show ?thesis using search_inv_grow by fastforce
    qed
    have "\<exists>ms. dependency_loop it g (?V \<union> set (rest @ fresh)) (rest @ fresh) (out @ [m]) = Some ms \<and> distinct ms \<and>
      set ms = reach (module_succs it g) R"
      by (rule less.hyps [OF dec inv]) (use less.prems f(2,3) mU Cons in auto)
    moreover have "dependency_loop it g visited queue out =
      dependency_loop it g (?V \<union> set (rest @ fresh)) (rest @ fresh) (out @ [m])"
      using Cons f(1) by (subst dependency_loop.simps) simp
    ultimately show ?thesis by simp
  qed
qed

text \<open>The specification: one module depends on another when a document that provides it imports
  the other.\<close>

definition module_deps :: "(string \<rightharpoonup> workspace_document) \<Rightarrow> (string \<times> string) set" where
  "module_deps ds = {(m, n). \<exists>u. u \<in> index_of providedModules ds m \<and> u \<in> index_of import_names ds n}"

lemma succ_rel_module_succs:
  assumes "ws_inv g" and "enumerates it"
  shows "succ_rel (module_succs it g) = module_deps (documents g)"
proof -
  have fin: "finite (dom (documents g))"
    and p: "moduleProviders g m = as_entry (index_of providedModules (documents g) m)" for m
    using assms(1) by (auto simp: ws_inv_def)
  have prov: "set (provider_imports it g m) =
    (\<Union>u \<in> index_of providedModules (documents g) m. case documents g u of None \<Rightarrow> {} | Some d \<Rightarrow> set (docImports d))" for m
    using set_it_entry [OF assms(2) fin, of m providedModules]
    by (simp add: provider_imports_def p as_entry_def option.case_distrib [of set] cong: option.case_cong)
  have "n \<in> set (module_succs it g m) \<longleftrightarrow>
    (\<exists>u \<in> index_of providedModules (documents g) m. u \<in> index_of import_names (documents g) n)" for m n
    by (force simp: module_succs_def prov index_of_def import_names_def split: option.splits)
  then show ?thesis by (auto simp: succ_rel_def module_deps_def)
qed

lemma transitive_reach:
  assumes "ws_inv g" and "enumerates it"
  shows "\<exists>ms. transitiveDependencyModules it g u = Some ms \<and> distinct ms \<and>
    set ms = (module_deps (documents g))\<^sup>* `` {m. u \<in> index_of import_names (documents g) m}"
proof (cases "documents g u")
  case None
  then show ?thesis by (simp add: transitiveDependencyModules_def index_of_def)
next
  case (Some d)
  define R where "R = set (filter (\<lambda>n. n \<noteq> []) (map moduleName (docImports d)))"
  define U where "U = (\<Union>e \<in> ran (documents g). set (import_names e))"
  have R: "R = {m. u \<in> index_of import_names (documents g) m}"
    using Some by (auto simp: R_def index_of_def import_names_def)
  have succ: "set (module_succs it g m) \<subseteq> U" for m
  proof -
    have "set (module_succs it g m) \<subseteq> {n. (m, n) \<in> module_deps (documents g)}"
      using succ_rel_module_succs [OF assms] by (auto simp: succ_rel_def)
    then show ?thesis by (force simp: module_deps_def index_of_def U_def ran_def)
  qed
  have "finite U" using assms(1) by (auto simp: U_def ws_inv_def intro: finite_ran)
  moreover have "R \<subseteq> U" using Some by (force simp: R_def U_def ran_def import_names_def)
  moreover from enqueue_imports [of "{}" "{}" "[]" "docImports d"]
  obtain q where q: "fold enqueue_import (docImports d) ({}, []) = (set q, q)" "distinct q" "set q = R"
    by (auto simp: R_def)
  ultimately have "\<exists>ms. dependency_loop it g (set q) q [] = Some ms \<and> distinct ms \<and>
    set ms = reach (module_succs it g) R"
    using succ by (intro dependency_loop_reach [of U]) (auto simp: search_inv_start)
  then show ?thesis
    using Some q(1) R succ_rel_module_succs [OF assms]
    by (simp add: transitiveDependencyModules_def Let_def reach_def)
qed

subsection \<open>Properties\<close>

text \<open>A workspace determined by its documents.\<close>

definition graph_of :: "(string \<rightharpoonup> workspace_document) \<Rightarrow> workspace_graph" where
  "graph_of ds = \<lparr>documents = ds,
     moduleProviders = as_entry \<circ> index_of providedModules ds,
     moduleImporters = as_entry \<circ> index_of import_names ds\<rparr>"

text \<open>C6. However documents are opened, changed and closed, the two indexes are exactly what the
  documents that are left say: the graph refines the map of documents, no stale entry and no
  empty entry stays behind, and every document is filed under its own address.\<close>

theorem workspace_indexes_refine:
  "ws_run os = graph_of (docs_run os) \<and> finite (dom (docs_run os)) \<and>
   documentCount (ws_run os) = card (dom (docs_run os)) \<and>
   (hasDocument (ws_run os) u \<longleftrightarrow> u \<in> dom (docs_run os)) \<and>
   map_option uri (docs_run os u) = (if u \<in> dom (docs_run os) then Some u else None)"
proof -
  note inv = ws_run_inv [of os] and docs = ws_run_documents [of os]
  have "ws_run os = graph_of (docs_run os)"
    using inv docs by (simp add: ws_inv_def graph_of_def)
  moreover have "finite (dom (docs_run os))" using inv docs by (simp add: ws_inv_def)
  moreover have "map_option uri (docs_run os u) = (if u \<in> dom (docs_run os) then Some u else None)"
    using inv docs by (cases "docs_run os u") (auto simp: ws_inv_def)
  ultimately show ?thesis using docs by (auto simp: documentCount_def hasDocument_def)
qed

text \<open>The two directions of the graph agree: a document is listed as a dependent of another
  exactly when it imports, directly, a module the other is listed as a provider of, and the
  lists are sorted and free of duplicates, whatever order the hash sets are iterated in.\<close>

theorem workspace_dependents_dual:
  assumes "enumerates it"
  shows "(v \<in> set (directDependentUris it (ws_run os) u) \<longleftrightarrow>
      v \<noteq> u \<and> (\<exists>m \<in> set (directDependencyModules (ws_run os) v). u \<in> set (findProviderUris it (ws_run os) m))) \<and>
    sorted (directDependentUris it (ws_run os) u) \<and> distinct (directDependentUris it (ws_run os) u)"
proof -
  note inv = ws_run_inv [of os]
  have "v \<in> set (directDependentUris it (ws_run os) u) \<longleftrightarrow>
      v \<noteq> u \<and> (\<exists>m \<in> set (directDependencyModules (ws_run os) v). u \<in> set (findProviderUris it (ws_run os) m))"
    by (auto simp: set_dependent_uris [OF inv assms] set_dependency_modules provider_uris(1) [OF inv assms])
  moreover have "sorted (directDependentUris it (ws_run os) u) \<and> distinct (directDependentUris it (ws_run os) u)"
    by (simp add: dependent_uris push_new_nil split: option.splits)
  ultimately show ?thesis by blast
qed

text \<open>The breadth first walk over the modules a document needs ends for every workspace, cyclic
  ones included, and lists each module once: those reachable from its imports over "a document
  that provides this module imports that one".\<close>

theorem workspace_transitive_dependencies:
  assumes "enumerates it"
  shows "\<exists>ms. transitiveDependencyModules it (ws_run os) u = Some ms \<and> distinct ms \<and>
    set ms = (module_deps (docs_run os))\<^sup>* `` {m. u \<in> index_of import_names (docs_run os) m}"
  using transitive_reach [OF ws_run_inv [of os] assms, of u] by (simp add: ws_run_documents)

subsection \<open>A workspace of two documents that import each other\<close>

definition import_of :: "string \<Rightarrow> workspace_import" where
  "import_of m = \<lparr>moduleName = m, itemName = [], importAll = True\<rparr>"

definition sample_ops :: "ws_op list" where
  "sample_ops =
     [Upsert \<lparr>uri = ''a'', path = ''a.mla'', providedModules = [''x''], docImports = [import_of ''old'']\<rparr>,
      Upsert \<lparr>uri = ''b'', path = ''b.mla'', providedModules = [''y''], docImports = [import_of ''x'', import_of []]\<rparr>,
      Upsert \<lparr>uri = ''a'', path = ''a.mla'', providedModules = [''x''], docImports = [import_of ''y'']\<rparr>]"

lemma enumerates_sorted: "enumerates (\<lambda>_. sorted_list_of_set)"
  by (simp add: enumerates_def)

lemma workspace_dependents_dual_witness:
  "''b'' \<in> set (directDependentUris (\<lambda>_. sorted_list_of_set) (ws_run sample_ops) ''a'')"
  using workspace_dependents_dual [OF enumerates_sorted, of "''b''" sample_ops "''a''"]
  by (simp add: sample_ops_def ws_run_def upsertDocument_def removeDocumentIndexes_def ws_empty_def
      index_insert_def index_erase_def import_of_def directDependencyModules_def findProviderUris_def push_new_def)

lemma workspace_transitive_dependencies_witness:
  "\<exists>ms. transitiveDependencyModules (\<lambda>_. sorted_list_of_set) (ws_run sample_ops) ''a'' = Some ms \<and>
     ''y'' \<in> set ms"
proof -
  have "''a'' \<in> index_of import_names (docs_run sample_ops) ''y''"
    by (simp add: index_of_def docs_run_def sample_ops_def import_names_def import_of_def)
  then show ?thesis
    using workspace_transitive_dependencies [OF enumerates_sorted, of sample_ops "''a''"] by blast
qed

end
