(* ===== verification/Source_Filter.thy ===== *)
theory Source_Filter
  imports Cxx_Strings
begin

text \<open>
  Conditional source regions (\<^verbatim>\<open>include/source_filter.h\<close>): before a file is parsed, the lines
  between \<^verbatim>\<open>[linux]\<close> and \<^verbatim>\<open>[/linux]\<close> (and the like, for platforms and processors) are blanked
  unless the tag matches the target. The preprocessor symbols that describe the host are a
  record, so the model covers every host.
\<close>

record host_macros =
  m_WIN32 :: bool
  m_APPLE :: bool
  m_linux :: bool
  m_unix :: bool
  m_aarch64 :: bool
  m_x86_64 :: bool
  m_i386 :: bool

definition normalize_region_arch_name :: "string \<Rightarrow> string" where
  "normalize_region_arch_name arch =
     (let s = tolower_str arch in
      if s = ''x86_64'' \<or> s = ''amd64'' \<or> s = ''x64'' \<or> s = ''x86-64'' then ''x86-64''
      else if s = ''aarch64'' \<or> s = ''arm64'' then ''aarch64''
      else if s = ''x86'' \<or> s = ''i386'' \<or> s = ''i686'' then ''x86''
      else s)"

definition host_platform_region_name :: "host_macros \<Rightarrow> string" where
  "host_platform_region_name h =
     (if m_WIN32 h then ''windows'' else if m_APPLE h then ''macos''
      else if m_linux h then ''linux'' else if m_unix h then ''posix'' else ''unknown'')"

definition host_arch_region_name :: "host_macros \<Rightarrow> string" where
  "host_arch_region_name h =
     (if m_aarch64 h then ''aarch64'' else if m_x86_64 h then ''x86-64''
      else if m_i386 h then ''x86'' else ''unknown'')"

definition host_platform_is_posix :: "host_macros \<Rightarrow> bool" where
  "host_platform_is_posix h \<longleftrightarrow> m_unix h \<or> m_APPLE h \<or> m_linux h"

definition region_tag_matches :: "host_macros \<Rightarrow> string \<Rightarrow> string \<Rightarrow> bool" where
  "region_tag_matches h tag targetArch =
     (let arch0 = normalize_region_arch_name targetArch;
          arch = (if arch0 = [] then host_arch_region_name h else arch0)
      in if tag = ''x86-64'' then arch = ''x86-64''
         else if tag = ''aarch64'' then arch = ''aarch64''
         else if tag = ''windows'' then host_platform_region_name h = ''windows''
         else if tag = ''linux'' then host_platform_region_name h = ''linux''
         else if tag = ''macos'' then host_platform_region_name h = ''macos''
         else if tag = ''posix'' then host_platform_is_posix h
         else False)"

text \<open>The flag is \<^verbatim>\<open>isClosing\<close>; \<^const>\<open>None\<close> where the function returns \<^verbatim>\<open>false\<close>.\<close>

definition parse_region_tag :: "string \<Rightarrow> (bool \<times> string) option" where
  "parse_region_tag trimmed =
     (if length trimmed < 3 \<or> hd trimmed \<noteq> CHR ''['' \<or> last trimmed \<noteq> CHR '']'' then None
      else
        let inner0 = substr trimmed 1 (length trimmed - 2);
            isClosing = (inner0 \<noteq> [] \<and> hd inner0 = CHR ''/'');
            inner = (if isClosing then tl inner0 else inner0)
        in if inner = [] then None
           else
             let normalized = normalize_region_arch_name inner
             in if normalized = ''x86-64'' \<or> normalized = ''aarch64'' \<or> normalized = ''windows'' \<or>
                   normalized = ''posix'' \<or> normalized = ''linux'' \<or> normalized = ''macos''
                then Some (isClosing, normalized) else None)"

text \<open>One line: the stack of active flags after it and whether its text is written. The head of
  the list is the back of the vector.\<close>

definition region_line :: "host_macros \<Rightarrow> string \<Rightarrow> bool list \<Rightarrow> string \<Rightarrow> bool list \<times> bool" where
  "region_line h targetArch activeStack line =
     (case parse_region_tag (trim line) of
        Some (isClosing, tag) \<Rightarrow>
          (if isClosing then (if 1 < length activeStack then tl activeStack else activeStack)
           else (hd activeStack \<and> region_tag_matches h tag targetArch) # activeStack, False)
      | None \<Rightarrow> (activeStack, hd activeStack))"

lemma dropWhile_tl_less: "s \<noteq> [] \<Longrightarrow> length (tl (dropWhile P s)) < length s"
proof -
  assume "s \<noteq> []"
  then have "0 < length s" by simp
  with length_dropWhile_le [of P s] show ?thesis by (simp only: length_tl)
qed

function region_loop :: "host_macros \<Rightarrow> string \<Rightarrow> bool list \<Rightarrow> string \<Rightarrow> string" where
  "region_loop h targetArch activeStack s =
     (if s = [] then []
      else
        let line = takeWhile (\<lambda>c. c \<noteq> newline) s;
            rest = dropWhile (\<lambda>c. c \<noteq> newline) s;
            hasNewline = (rest \<noteq> []);
            (stack1, keep) = region_line h targetArch activeStack line
        in (if keep then line else []) @ (if hasNewline then [newline] else []) @
           region_loop h targetArch stack1 (tl rest))"
  by pat_completeness auto
termination
  by (relation "measure (\<lambda>(_, _, _, s). length s)") (auto simp: dropWhile_tl_less simp del: length_tl)

declare region_loop.simps [simp del]

lemma region_loop_Nil [simp]: "region_loop h targetArch activeStack [] = []"
  by (simp add: region_loop.simps)

definition preprocess_conditional_regions :: "host_macros \<Rightarrow> string \<Rightarrow> string \<Rightarrow> string" where
  "preprocess_conditional_regions h s targetArch = region_loop h targetArch [True] s"

subsection \<open>Lines of a text\<close>

text \<open>All the pieces between newlines, the last one included even when it is empty.\<close>

fun lines_of :: "string \<Rightarrow> string list" where
  "lines_of [] = [[]]"
| "lines_of (c # cs) =
     (if c = newline then [] # lines_of cs else (c # hd (lines_of cs)) # tl (lines_of cs))"

lemma lines_of_ne [simp]: "lines_of s \<noteq> []"
  by (cases s) auto

lemma lines_of_plain: "newline \<notin> set l \<Longrightarrow> lines_of l = [l]"
  by (induction l) auto

lemma lines_of_append: "newline \<notin> set l \<Longrightarrow> lines_of (l @ newline # s) = l # lines_of s"
  by (induction l) auto

lemma lines_of_no_newline: "l \<in> set (lines_of s) \<Longrightarrow> newline \<notin> set l"
proof (induction s arbitrary: l)
  case (Cons c cs)
  have "hd (lines_of cs) \<in> set (lines_of cs)" by simp
  moreover have "set (tl (lines_of cs)) \<subseteq> set (lines_of cs)" by (cases "lines_of cs") auto
  ultimately show ?case using Cons by (auto split: if_splits)
qed simp

lemma lines_of_inject: "lines_of s = lines_of t \<Longrightarrow> s = t"
proof (induction s arbitrary: t)
  case Nil
  then show ?case by (cases t) (auto split: if_splits simp: lines_of_ne [THEN not_sym])
next
  case (Cons c cs)
  from Cons.prems obtain d ds where t: "t = d # ds" by (cases t) (auto split: if_splits)
  have ne: "lines_of cs = hd (lines_of cs) # tl (lines_of cs)"
    "lines_of ds = hd (lines_of ds) # tl (lines_of ds)" by simp_all
  show ?case
  proof (cases "c = newline \<or> d = newline")
    case True
    with Cons.prems t have "c = d" "lines_of cs = lines_of ds" by (auto split: if_splits)
    with Cons.IH t show ?thesis by simp
  next
    case False
    with Cons.prems t have "c = d" "hd (lines_of cs) = hd (lines_of ds)" "tl (lines_of cs) = tl (lines_of ds)"
      by auto
    with ne have "lines_of cs = lines_of ds" by metis
    with Cons.IH t \<open>c = d\<close> show ?thesis by simp
  qed
qed

subsection \<open>The specification\<close>

text \<open>The tags open before a line: a closing tag closes the innermost open one.\<close>

fun open_after :: "string \<Rightarrow> string list \<Rightarrow> string list" where
  "open_after line tags =
     (case parse_region_tag (trim line) of
        None \<Rightarrow> tags
      | Some (isClosing, tag) \<Rightarrow> if isClosing then tl tags else tag # tags)"

definition open_tags :: "string list \<Rightarrow> string list" where
  "open_tags ls = fold open_after ls []"

text \<open>A line is kept when it is not a tag itself and every region around it matches.\<close>

definition kept :: "host_macros \<Rightarrow> string \<Rightarrow> string list \<Rightarrow> string \<Rightarrow> bool" where
  "kept h targetArch tags line \<longleftrightarrow>
     parse_region_tag (trim line) = None \<and> (\<forall>tag \<in> set tags. region_tag_matches h tag targetArch)"

fun blanked :: "host_macros \<Rightarrow> string \<Rightarrow> string list \<Rightarrow> string list \<Rightarrow> string list" where
  "blanked h targetArch tags [] = []"
| "blanked h targetArch tags (l # ls) =
     (if kept h targetArch tags l then l else []) # blanked h targetArch (open_after l tags) ls"

lemma length_blanked [simp]: "length (blanked h targetArch tags ls) = length ls"
  by (induction ls arbitrary: tags) auto

lemma nth_blanked:
  "i < length ls \<Longrightarrow> blanked h targetArch tags ls ! i =
     (if kept h targetArch (fold open_after (take i ls) tags) (ls ! i) then ls ! i else [])"
proof (induction ls arbitrary: tags i)
  case (Cons l ls)
  then show ?case by (cases i) auto
qed simp

text \<open>The stack of flags is determined by the open tags.\<close>

fun flags_of :: "host_macros \<Rightarrow> string \<Rightarrow> string list \<Rightarrow> bool list" where
  "flags_of h targetArch [] = [True]"
| "flags_of h targetArch (tag # tags) =
     (\<forall>t \<in> set (tag # tags). region_tag_matches h t targetArch) # flags_of h targetArch tags"

lemma hd_flags_of: "hd (flags_of h targetArch tags) \<longleftrightarrow> (\<forall>t \<in> set tags. region_tag_matches h t targetArch)"
  by (cases tags) auto

lemma length_flags_of [simp]: "length (flags_of h targetArch tags) = Suc (length tags)"
  by (induction tags) auto

lemma region_line_flags:
  "region_line h targetArch (flags_of h targetArch tags) line =
     (flags_of h targetArch (open_after line tags), kept h targetArch tags line)"
proof (cases "parse_region_tag (trim line)")
  case None
  then show ?thesis by (simp add: region_line_def kept_def hd_flags_of)
next
  case (Some p)
  obtain cl tag where p: "p = (cl, tag)" by (cases p)
  show ?thesis
  proof (cases cl)
    case True
    with Some p show ?thesis by (cases tags) (simp_all add: region_line_def kept_def)
  next
    case False
    with Some p show ?thesis by (auto simp add: region_line_def kept_def hd_flags_of)
  qed
qed

lemma parse_region_tag_Nil [simp]: "parse_region_tag [] = None"
  by (simp add: parse_region_tag_def)

lemma lines_of_split:
  assumes "dropWhile (\<lambda>c. c \<noteq> newline) s \<noteq> []"
  shows "s = takeWhile (\<lambda>c. c \<noteq> newline) s @ newline # tl (dropWhile (\<lambda>c. c \<noteq> newline) s)"
proof -
  have "hd (dropWhile (\<lambda>c. c \<noteq> newline) s) = newline" using hd_dropWhile [OF assms] by simp
  then show ?thesis using assms takeWhile_dropWhile_id [of "\<lambda>c. c \<noteq> newline" s]
    by (cases "dropWhile (\<lambda>c. c \<noteq> newline) s") auto
qed

lemma lines_of_region_loop:
  "lines_of (region_loop h targetArch (flags_of h targetArch tags) s) = blanked h targetArch tags (lines_of s)"
proof (induction "length s" arbitrary: s tags rule: less_induct)
  case less
  show ?case
  proof (cases "s = []")
    case True
    then show ?thesis by simp
  next
    case False
    let ?line = "takeWhile (\<lambda>c. c \<noteq> newline) s" and ?rest = "dropWhile (\<lambda>c. c \<noteq> newline) s"
    have nl: "newline \<notin> set ?line" by (auto dest: set_takeWhileD)
    have loop: "region_loop h targetArch (flags_of h targetArch tags) s =
      (if kept h targetArch tags ?line then ?line else []) @ (if ?rest \<noteq> [] then [newline] else []) @
      region_loop h targetArch (flags_of h targetArch (open_after ?line tags)) (tl ?rest)"
      using False by (subst region_loop.simps) (simp add: region_line_flags Let_def del: open_after.simps)
    let ?out = "if kept h targetArch tags ?line then ?line else []"
    have out: "newline \<notin> set ?out" using nl by auto
    show ?thesis
    proof (cases "?rest = []")
      case True
      then have "?line = s" using takeWhile_dropWhile_id [of "\<lambda>c. c \<noteq> newline" s] by (metis append_Nil2)
      then have "lines_of s = [?line]" using lines_of_plain [OF nl] by metis
      moreover have "region_loop h targetArch (flags_of h targetArch tags) s = ?out"
        unfolding loop True by simp
      ultimately show ?thesis using lines_of_plain [OF out] by simp
    next
      case more: False
      have "length (tl ?rest) < length s" using False by (rule dropWhile_tl_less)
      from less.hyps [OF this] more loop
      have "lines_of (region_loop h targetArch (flags_of h targetArch tags) s) =
        ?out # blanked h targetArch (open_after ?line tags) (lines_of (tl ?rest))"
        using lines_of_append [OF out] by (simp del: open_after.simps)
      moreover have "lines_of s = ?line # lines_of (tl ?rest)"
        using lines_of_split [OF more] lines_of_append [OF nl] by metis
      ultimately show ?thesis by (simp del: open_after.simps)
    qed
  qed
qed

lemma preprocess_lines:
  "lines_of (preprocess_conditional_regions h s targetArch) = blanked h targetArch [] (lines_of s)"
  using lines_of_region_loop [of h targetArch "[]" s] by (simp add: preprocess_conditional_regions_def)

lemma blanked_plain:
  "\<forall>l \<in> set ls. parse_region_tag (trim l) = None \<Longrightarrow> blanked h targetArch [] ls = ls"
  by (induction ls) (auto simp: kept_def)

lemma blanked_no_tags: "l \<in> set (blanked h targetArch tags ls) \<Longrightarrow> parse_region_tag (trim l) = None"
  by (induction ls arbitrary: tags) (auto simp: kept_def split: if_splits)

text \<open>C37. Filtering keeps the line structure of the file, so the line numbers of diagnostics stay
  true: the output has as many lines as the input, and a line is either the one of the input,
  exactly when it is no tag and every region open around it matches the target and the host, or
  empty.\<close>

theorem preprocess_regions_lines:
  "lines_of (preprocess_conditional_regions h s targetArch) =
     map (\<lambda>i. if kept h targetArch (open_tags (take i (lines_of s))) (lines_of s ! i)
              then lines_of s ! i else []) [0..<length (lines_of s)]"
  by (rule nth_equalityI) (simp_all add: preprocess_lines nth_blanked open_tags_def)

text \<open>Filtering is idempotent, for whatever second target: what is left holds no region.\<close>

theorem preprocess_regions_idem:
  "preprocess_conditional_regions h' (preprocess_conditional_regions h s targetArch) targetArch' =
     preprocess_conditional_regions h s targetArch"
  by (rule lines_of_inject) (simp add: preprocess_lines blanked_plain blanked_no_tags)

end
