(* ===== verification/Incremental_Compiler.thy ===== *)
theory Incremental_Compiler
  imports Source_Filter
begin

text \<open>
  The editor's view of a file being typed (\<^verbatim>\<open>include/incremental_compiler.h\<close>,
  \<^verbatim>\<open>src/incremental_compiler.cpp\<close>): documents, the edits the client sends, the parse after
  every edit, and the recovery when it fails. The parser is generated from a grammar, so it is a
  parameter: \<open>yyparse\<close> maps the filtered text to what the parser leaves behind. A syntax tree is
  a value of an arbitrary type.
\<close>

subsection \<open>Recovery suffix\<close>

definition closing_for :: "char \<Rightarrow> char" where
  "closing_for opener =
     (if opener = CHR ''{'' then CHR ''}'' else if opener = CHR ''['' then CHR '']''
      else if opener = CHR ''('' then CHR '')'' else CHR 0x00)"

definition matches_pair :: "char \<Rightarrow> char \<Rightarrow> bool" where
  "matches_pair opener closer \<longleftrightarrow> closing_for opener = closer"

datatype scan_state = InCode | InString | LineComment | BlockComment

text \<open>An opener is pushed, a closer that matches the last opener pops it. The head of \<open>os\<close> is the
  back of the vector \<^verbatim>\<open>openers\<close>.\<close>

definition is_opener :: "char \<Rightarrow> bool" where
  "is_opener c \<longleftrightarrow> c = CHR ''{'' \<or> c = CHR ''['' \<or> c = CHR ''(''"

definition track_delimiter :: "char \<Rightarrow> char list \<Rightarrow> char list" where
  "track_delimiter c os =
     (if is_opener c then c # os
      else if c = CHR ''}'' \<or> c = CHR '']'' \<or> c = CHR '')''
      then (if os \<noteq> [] \<and> matches_pair (hd os) c then tl os else os)
      else os)"

fun recovery_scan :: "scan_state \<Rightarrow> char list \<Rightarrow> string \<Rightarrow> scan_state \<times> char list" where
  "recovery_scan st os [] = (st, os)"
| "recovery_scan InCode os (c # cs) =
     (if c = dquote then recovery_scan InString os cs
      else if c = CHR ''/'' \<and> cs \<noteq> [] \<and> hd cs = CHR ''/'' then recovery_scan LineComment os (tl cs)
      else if c = CHR ''/'' \<and> cs \<noteq> [] \<and> hd cs = CHR ''*'' then recovery_scan BlockComment os (tl cs)
      else recovery_scan InCode (track_delimiter c os) cs)"
| "recovery_scan InString os (c # cs) =
     (if c = bslash \<and> cs \<noteq> [] then recovery_scan InString os (tl cs)
      else if c = dquote then recovery_scan InCode os cs
      else recovery_scan InString os cs)"
| "recovery_scan LineComment os (c # cs) =
     (if c = newline then recovery_scan InCode os cs else recovery_scan LineComment os cs)"
| "recovery_scan BlockComment os (c # cs) =
     (if c = CHR ''*'' \<and> cs \<noteq> [] \<and> hd cs = CHR ''/'' then recovery_scan InCode os (tl cs)
      else recovery_scan BlockComment os cs)"

fun close_openers :: "char list \<Rightarrow> string" where
  "close_openers [] = []"
| "close_openers (opener # os) =
     (if closing_for opener \<noteq> CHR 0x00 then [closing_for opener] else []) @ close_openers os"

definition recovery_suffix_for :: "string \<Rightarrow> string" where
  "recovery_suffix_for s =
     (case recovery_scan InCode [] s of (st, os) \<Rightarrow>
        (if st = InString then [dquote] else if st = BlockComment then ''*/'' else []) @ close_openers os)"

subsection \<open>Positions and edits\<close>

record position =
  pos_line :: int
  pos_character :: int

record range =
  range_start :: position
  range_end :: position

record text_change =
  change_text :: string
  change_range :: "range option"

definition isFullDocumentReplace :: "text_change \<Rightarrow> bool" where
  "isFullDocumentReplace c \<longleftrightarrow> change_range c = None"

text \<open>The loop to the start of a line; \<open>n\<close> is how many lines are still to go.\<close>

fun line_start :: "string \<Rightarrow> nat \<Rightarrow> nat \<Rightarrow> nat option" where
  "line_start s 0 offset = Some offset"
| "line_start s (Suc n) offset =
     (case find_char_from newline s offset of None \<Rightarrow> None | Some nl \<Rightarrow> line_start s n (nl + 1))"

definition lspPositionToOffset :: "string \<Rightarrow> position \<Rightarrow> nat option" where
  "lspPositionToOffset s p =
     (if pos_line p < 0 \<or> pos_character p < 0 then None
      else case line_start s (nat (pos_line p)) 0 of
        None \<Rightarrow> None
      | Some offset \<Rightarrow>
          (let lineEnd = (case find_char_from newline s offset of None \<Rightarrow> length s | Some e \<Rightarrow> e);
               lineLen = lineEnd - offset
           in if lineLen < nat (pos_character p) then None
              else Some (offset + nat (pos_character p))))"

definition applyChangeToText :: "string \<Rightarrow> text_change \<Rightarrow> string option" where
  "applyChangeToText s c =
     (case change_range c of
        None \<Rightarrow> Some (change_text c)
      | Some r \<Rightarrow>
          (case (lspPositionToOffset s (range_start r), lspPositionToOffset s (range_end r)) of
             (Some start, Some end) \<Rightarrow>
               if end < start \<or> length s < end then None
               else Some (take start s @ change_text c @ drop end s)
           | _ \<Rightarrow> None))"

subsection \<open>Documents and parsing\<close>

datatype recovery_kind = RecoveryNone | DelimiterClosure | LastGoodAst

record 'a incremental_document =
  doc_uri :: string
  doc_path :: string
  doc_text :: string
  doc_version :: int
  doc_ast :: "'a option"
  lastGoodAst :: "'a option"
  parseSuccess :: bool
  usedRecovery :: bool
  recoveryKind :: recovery_kind

type_synonym 'a store = "string \<rightharpoonup> 'a incremental_document"

text \<open>What a run of the generated parser leaves: its result, the error flag and the root, which
  may be a node other than a program.\<close>

datatype 'a root_node = ProgramRoot 'a | OtherRoot

record 'a parser_run =
  run_result :: int
  parseHadError :: bool
  programRoot :: "'a root_node option"

type_synonym 'a parser = "string \<Rightarrow> 'a parser_run"

definition parseText :: "host_macros \<Rightarrow> 'a parser \<Rightarrow> string \<Rightarrow> 'a option" where
  "parseText h yyparse s =
     (let r = yyparse (preprocess_conditional_regions h s [])
      in if run_result r = 0 \<and> \<not> parseHadError r
         then (case programRoot r of Some (ProgramRoot p) \<Rightarrow> Some p | _ \<Rightarrow> None)
         else None)"

text \<open>\<^verbatim>\<open>parseDocument\<close> on the document it found; it returns the document's new \<open>ast\<close>.\<close>

definition parse_doc :: "host_macros \<Rightarrow> 'a parser \<Rightarrow> 'a incremental_document \<Rightarrow> 'a incremental_document" where
  "parse_doc h yyparse d =
     (let d0 = d\<lparr>doc_ast := None, parseSuccess := False, usedRecovery := False, recoveryKind := RecoveryNone\<rparr>;
          last_good = (case lastGoodAst d0 of
              Some a \<Rightarrow> d0\<lparr>doc_ast := Some a, usedRecovery := True, recoveryKind := LastGoodAst\<rparr>
            | None \<Rightarrow> d0)
      in case parseText h yyparse (doc_text d0) of
           Some p \<Rightarrow> d0\<lparr>doc_ast := Some p, lastGoodAst := Some p, parseSuccess := True\<rparr>
         | None \<Rightarrow>
             (let sfx = recovery_suffix_for (doc_text d0)
              in if sfx = [] then last_good
                 else case parseText h yyparse (doc_text d0 @ sfx) of
                   Some p \<Rightarrow> d0\<lparr>doc_ast := Some p, lastGoodAst := Some p, parseSuccess := True,
                               usedRecovery := True, recoveryKind := DelimiterClosure\<rparr>
                 | None \<Rightarrow> last_good))"

definition parseDocument :: "host_macros \<Rightarrow> 'a parser \<Rightarrow> string \<Rightarrow> 'a store \<Rightarrow> 'a store \<times> 'a option" where
  "parseDocument h yyparse u ds =
     (case ds u of
        None \<Rightarrow> (ds, None)
      | Some d \<Rightarrow> (let d' = parse_doc h yyparse d in (ds(u \<mapsto> d'), doc_ast d')))"

definition parsed_ok :: "'a store \<times> 'a option \<Rightarrow> 'a store \<times> bool" where
  "parsed_ok r = (fst r, snd r \<noteq> None)"

definition openDocument ::
  "host_macros \<Rightarrow> 'a parser \<Rightarrow> string \<Rightarrow> string \<Rightarrow> string \<Rightarrow> int \<Rightarrow> 'a store \<Rightarrow> 'a store \<times> bool" where
  "openDocument h yyparse u pth body v ds =
     (let d = \<lparr>doc_uri = u, doc_path = pth, doc_text = body, doc_version = v, doc_ast = None,
               lastGoodAst = None, parseSuccess = False, usedRecovery = False,
               recoveryKind = RecoveryNone\<rparr>
      in parsed_ok (parseDocument h yyparse u (ds(u \<mapsto> d))))"

definition set_version :: "int \<Rightarrow> 'a incremental_document \<Rightarrow> 'a incremental_document" where
  "set_version v d = (if 0 \<le> v then d\<lparr>doc_version := v\<rparr> else d)"

definition setDocumentText ::
  "host_macros \<Rightarrow> 'a parser \<Rightarrow> string \<Rightarrow> string \<Rightarrow> int \<Rightarrow> 'a store \<Rightarrow> 'a store \<times> bool" where
  "setDocumentText h yyparse u body v ds =
     (case ds u of
        None \<Rightarrow> (ds, False)
      | Some d \<Rightarrow>
          parsed_ok (parseDocument h yyparse u (ds(u \<mapsto> set_version v (d\<lparr>doc_text := body\<rparr>)))))"

text \<open>The loop over the changes edits the text in place: the text reached is kept, also when a
  change is rejected and the flag is \<open>False\<close>.\<close>

fun apply_change_list :: "text_change list \<Rightarrow> string \<Rightarrow> string \<times> bool" where
  "apply_change_list [] s = (s, True)"
| "apply_change_list (c # cs) s =
     (case applyChangeToText s c of None \<Rightarrow> (s, False) | Some t \<Rightarrow> apply_change_list cs t)"

definition applyChanges ::
  "host_macros \<Rightarrow> 'a parser \<Rightarrow> string \<Rightarrow> text_change list \<Rightarrow> int \<Rightarrow> 'a store \<Rightarrow> 'a store \<times> bool" where
  "applyChanges h yyparse u cs v ds =
     (case ds u of
        None \<Rightarrow> (ds, False)
      | Some d \<Rightarrow>
          (case apply_change_list cs (doc_text d) of (body, ok) \<Rightarrow>
             let d' = d\<lparr>doc_text := body\<rparr>
             in if ok then parsed_ok (parseDocument h yyparse u (ds(u \<mapsto> set_version v d')))
                else (ds(u \<mapsto> d'), False)))"

definition closeDocument :: "string \<Rightarrow> 'a store \<Rightarrow> 'a store" where
  "closeDocument u ds = ds(u := None)"

definition getDocument :: "string \<Rightarrow> 'a store \<Rightarrow> 'a incremental_document option" where
  "getDocument u ds = ds u"

subsection \<open>Lemmas on the recovery scan\<close>

lemma track_delimiter_openers:
  "\<forall>x \<in> set os. is_opener x \<Longrightarrow> \<forall>x \<in> set (track_delimiter c os). is_opener x"
  by (cases os) (simp_all add: track_delimiter_def)

lemma recovery_scan_openers:
  "\<forall>x \<in> set os. is_opener x \<Longrightarrow> \<forall>x \<in> set (snd (recovery_scan st os s)). is_opener x"
proof (induction st os s rule: recovery_scan.induct)
  case (2 os c cs)
  then show ?case using track_delimiter_openers [of os c] by simp
qed simp_all

text \<open>Scanning on over a continuation: the look-ahead of one byte must not see across the seam.\<close>

lemma recovery_scan_append:
  assumes "recovery_scan st os s = (st', os')" and "t \<noteq> []" and "hd t \<noteq> CHR ''/''"
    and "hd t = CHR ''*'' \<Longrightarrow> st' = BlockComment"
    and "st' = InString \<Longrightarrow> s \<noteq> [] \<Longrightarrow> last s \<noteq> bslash"
  shows "recovery_scan st os (s @ t) = recovery_scan st' os' t"
  using assms
proof (induction st os s rule: recovery_scan.induct)
  case (1 st os)
  then show ?case by simp
next
  case (2 os c cs)
  have ll: "tl cs \<noteq> [] \<Longrightarrow> last (tl cs) = last cs" by (rule last_tl) auto
  consider "c = dquote" | "c = CHR ''/''" "cs \<noteq> []" "hd cs = CHR ''/''" | "c = CHR ''/''" "cs \<noteq> []" "hd cs = CHR ''*''"
    | "c \<noteq> dquote" "\<not> (c = CHR ''/'' \<and> cs \<noteq> [] \<and> (hd cs = CHR ''/'' \<or> hd cs = CHR ''*''))"
    by blast
  then show ?case
  proof cases
    case 1
    with "2.prems"(1) have r: "recovery_scan InString os cs = (st', os')" by simp
    have "recovery_scan InString os (cs @ t) = recovery_scan st' os' t"
      by (rule "2.IH"(1) [OF 1 r "2.prems"(2,3)]) (use "2.prems"(4,5) in simp_all)
    with 1 show ?thesis by simp
  next
    case 2
    then have nd: "c \<noteq> dquote" by simp
    have r: "recovery_scan LineComment os (tl cs) = (st', os')" using "2.prems"(1) 2 by simp
    have "recovery_scan LineComment os (tl cs @ t) = recovery_scan st' os' t"
      by (rule "2.IH"(2) [OF nd _ r]) (use 2 "2.prems" ll in auto)
    with 2 show ?thesis by simp
  next
    case 3
    then have nd: "c \<noteq> dquote" "\<not> (c = CHR ''/'' \<and> cs \<noteq> [] \<and> hd cs = CHR ''/'')" by simp_all
    have r: "recovery_scan BlockComment os (tl cs) = (st', os')" using "2.prems"(1) 3 by simp
    have "recovery_scan BlockComment os (tl cs @ t) = recovery_scan st' os' t"
      by (rule "2.IH"(3) [OF nd _ r]) (use 3 "2.prems" ll in auto)
    with 3 show ?thesis by simp
  next
    case 4
    have ih: "recovery_scan InCode (track_delimiter c os) (cs @ t) = recovery_scan st' os' t"
      by (rule "2.IH"(4)) (use 4 "2.prems" ll in auto)
    have "\<not> (c = CHR ''/'' \<and> (cs @ t) \<noteq> [] \<and> (hd (cs @ t) = CHR ''/'' \<or> hd (cs @ t) = CHR ''*''))"
    proof (cases cs)
      case Nil
      then have "st' = InCode" using 4 "2.prems"(1) by simp
      with "2.prems"(4) have "hd t \<noteq> CHR ''*''" by blast
      with "2.prems"(3) Nil show ?thesis by simp
    qed (use 4 in simp)
    with 4 have "recovery_scan InCode os ((c # cs) @ t) = recovery_scan InCode (track_delimiter c os) (cs @ t)"
      by auto
    with ih show ?thesis by (simp only:)
  qed
next
  case (3 os c cs)
  have tl: "tl cs \<noteq> [] \<Longrightarrow> last (tl cs) = last cs" by (rule last_tl) auto
  consider "c = bslash" "cs \<noteq> []" | "c = bslash" "cs = []" | "c = dquote" | "c \<noteq> bslash" "c \<noteq> dquote"
    by blast
  then show ?case
  proof cases
    case 1
    have "recovery_scan InString os (tl cs @ t) = recovery_scan st' os' t"
      by (rule "3.IH"(1)) (use 1 "3.prems" tl in auto)
    with 1 show ?thesis by simp
  next
    case 2
    with "3.prems" show ?thesis by simp
  next
    case 3
    then have "c \<noteq> bslash" by simp
    have "recovery_scan InCode os (cs @ t) = recovery_scan st' os' t"
      by (rule "3.IH"(2)) (use 3 "3.prems" in auto)
    with 3 show ?thesis by simp
  next
    case 4
    have "recovery_scan InString os (cs @ t) = recovery_scan st' os' t"
      by (rule "3.IH"(3)) (use 4 "3.prems" in auto)
    with 4 show ?thesis by simp
  qed
next
  case (4 os c cs)
  show ?case
  proof (cases "c = newline")
    case True
    have "recovery_scan InCode os (cs @ t) = recovery_scan st' os' t"
      by (rule "4.IH"(1)) (use True "4.prems" in auto)
    with True show ?thesis by simp
  next
    case False
    have "recovery_scan LineComment os (cs @ t) = recovery_scan st' os' t"
      by (rule "4.IH"(2)) (use False "4.prems" in auto)
    with False show ?thesis by simp
  qed
next
  case (5 os c cs)
  have tl: "tl cs \<noteq> [] \<Longrightarrow> last (tl cs) = last cs" by (rule last_tl) auto
  show ?case
  proof (cases "c = CHR ''*'' \<and> cs \<noteq> [] \<and> hd cs = CHR ''/''")
    case True
    have "recovery_scan InCode os (tl cs @ t) = recovery_scan st' os' t"
      by (rule "5.IH"(1)) (use True "5.prems" tl in auto)
    with True show ?thesis by simp
  next
    case False
    have ih: "recovery_scan BlockComment os (cs @ t) = recovery_scan st' os' t"
      by (rule "5.IH"(2)) (use False "5.prems" in auto)
    have "\<not> (c = CHR ''*'' \<and> (cs @ t) \<noteq> [] \<and> hd (cs @ t) = CHR ''/'')"
      using False "5.prems"(3) by (cases cs) simp_all
    then have "recovery_scan BlockComment os ((c # cs) @ t) = recovery_scan BlockComment os (cs @ t)"
      by auto
    with ih show ?thesis by (simp only:)
  qed
qed

lemma is_opener_cases: "is_opener c \<Longrightarrow> closing_for c = CHR ''}'' \<or> closing_for c = CHR '']'' \<or> closing_for c = CHR '')''"
  by (auto simp: is_opener_def closing_for_def)

lemma track_closing: "is_opener c \<Longrightarrow> track_delimiter (closing_for c) (c # os) = os"
  using is_opener_cases [of c] by (auto simp: track_delimiter_def is_opener_def matches_pair_def)

lemma scan_close_openers:
  "\<forall>x \<in> set os. is_opener x \<Longrightarrow> recovery_scan InCode os (close_openers os) = (InCode, [])"
proof (induction os)
  case (Cons c os)
  then have c: "is_opener c" by simp
  from is_opener_cases [OF c]
  have k: "closing_for c \<noteq> CHR 0x00" "closing_for c \<noteq> dquote" "closing_for c \<noteq> CHR ''/''" by auto
  then have "recovery_scan InCode (c # os) (close_openers (c # os)) =
    recovery_scan InCode (track_delimiter (closing_for c) (c # os)) (close_openers os)" by simp
  with Cons track_closing [OF c] show ?case by (simp only:) simp
qed simp

lemma scan_line_comment: "newline \<notin> set t \<Longrightarrow> recovery_scan LineComment os t = (LineComment, os)"
  by (induction t) auto

lemma close_openers_chars: "\<forall>x \<in> set os. is_opener x \<Longrightarrow> set (close_openers os) \<subseteq> {CHR ''}'', CHR '']'', CHR '')''}"
proof (induction os)
  case (Cons c os)
  then show ?case using is_opener_cases [of c] by auto
qed simp

lemma close_openers_Nil [simp]: "\<forall>x \<in> set os. is_opener x \<Longrightarrow> close_openers os = [] \<longleftrightarrow> os = []"
  using is_opener_cases [of "hd os"] by (cases os) auto

lemma recovery_scan_suffix:
  assumes scan: "recovery_scan InCode [] s = (st, os)"
    and esc: "st = InString \<Longrightarrow> last s \<noteq> bslash"
  shows "recovery_scan InCode [] (s @ recovery_suffix_for s) =
    (if st = LineComment then (LineComment, os) else (InCode, []))"
proof -
  have ops: "\<forall>x \<in> set os. is_opener x" using recovery_scan_openers [of "[]" InCode s] scan by simp
  note sfx = recovery_suffix_for_def [of s, unfolded scan, simplified]
  have "hd (close_openers os) \<in> {CHR ''}'', CHR '']'', CHR '')''}" if "os \<noteq> []"
    using close_openers_chars [OF ops] close_openers_Nil [OF ops] that list.set_sel(1) by blast
  then have hd: "hd (close_openers os) \<noteq> CHR ''/''" "hd (close_openers os) \<noteq> CHR ''*''" if "os \<noteq> []"
    using that by auto
  show ?thesis
  proof (cases st)
    case InCode
    have "recovery_scan InCode [] (s @ close_openers os) = recovery_scan InCode os (close_openers os)"
    proof (cases "os = []")
      case False
      then show ?thesis using hd ops InCode scan
        by (intro recovery_scan_append) auto
    qed (use scan InCode in simp)
    then show ?thesis using InCode sfx scan_close_openers [OF ops] by simp
  next
    case InString
    have "recovery_scan InCode [] (s @ dquote # close_openers os) = recovery_scan InString os (dquote # close_openers os)"
      using InString scan esc by (intro recovery_scan_append) auto
    then show ?thesis using InString sfx scan_close_openers [OF ops] by simp
  next
    case LineComment
    have nl: "newline \<notin> set (close_openers os)" using close_openers_chars [OF ops] by auto
    have "recovery_scan InCode [] (s @ close_openers os) = recovery_scan LineComment os (close_openers os)"
    proof (cases "os = []")
      case False
      then show ?thesis using hd ops LineComment scan by (intro recovery_scan_append) auto
    qed (use scan LineComment in simp)
    then show ?thesis using LineComment sfx scan_line_comment [OF nl] by simp
  next
    case BlockComment
    have "recovery_scan InCode [] (s @ ''*/'' @ close_openers os) = recovery_scan BlockComment os (''*/'' @ close_openers os)"
      using BlockComment scan by (intro recovery_scan_append) auto
    then show ?thesis using BlockComment sfx scan_close_openers [OF ops] by simp
  qed
qed

subsection \<open>Lemmas on positions\<close>

text \<open>The specification: the position of an offset is the number of newlines before it and the
  number of bytes since the last of them.\<close>

definition position_at :: "string \<Rightarrow> nat \<Rightarrow> position" where
  "position_at s i =
     \<lparr>pos_line = int (count_list (take i s) newline),
      pos_character = int (length (takeWhile (\<lambda>c. c \<noteq> newline) (rev (take i s))))\<rparr>"

definition pos_nat :: "string \<Rightarrow> nat \<Rightarrow> nat \<times> nat" where
  "pos_nat s i = (count_list (take i s) newline, length (takeWhile (\<lambda>c. c \<noteq> newline) (rev (take i s))))"

definition offset_nat :: "string \<Rightarrow> nat \<Rightarrow> nat \<Rightarrow> nat option" where
  "offset_nat s l c =
     (case line_start s l 0 of
        None \<Rightarrow> None
      | Some off \<Rightarrow> if length (takeWhile (\<lambda>x. x \<noteq> newline) (drop off s)) < c then None else Some (off + c))"

lemma find_char_takeWhile_Some: "find_char c s = Some e \<Longrightarrow> length (takeWhile (\<lambda>x. x \<noteq> c) s) = e"
  by (induction s arbitrary: e) (auto split: if_splits)

lemma find_char_takeWhile:
  "(case find_char c s of None \<Rightarrow> length s | Some e \<Rightarrow> e) = length (takeWhile (\<lambda>x. x \<noteq> c) s)"
proof (cases "find_char c s")
  case None
  then have e: "takeWhile (\<lambda>x. x \<noteq> c) s = s" by (auto simp: takeWhile_eq_all_conv)
  show ?thesis unfolding None by (simp add: e)
qed (simp add: find_char_takeWhile_Some)

lemma line_start_drop:
  "off \<le> length s \<Longrightarrow> line_start s n off = map_option ((+) off) (line_start (drop off s) n 0)"
proof (induction n arbitrary: s off)
  case (Suc n)
  show ?case
  proof (cases "find_char newline (drop off s)")
    case (Some k)
    from find_char_SomeD [OF this] have k: "k < length (drop off s)" by blast
    have "line_start s n (off + k + 1) = map_option ((+) (off + k + 1)) (line_start (drop (off + k + 1) s) n 0)"
      by (rule Suc.IH) (use k in simp)
    moreover have "line_start (drop off s) n (k + 1) = map_option ((+) (k + 1)) (line_start (drop (k + 1) (drop off s)) n 0)"
      by (rule Suc.IH) (use k in simp)
    ultimately show ?thesis using Some
      by (cases "line_start (drop (off + k + 1) s) n 0") (simp_all add: find_char_from_def add.commute add.left_commute)
  qed (simp add: find_char_from_def del: find_char_None)
qed simp

lemma line_start_bound: "line_start s n off = Some k \<Longrightarrow> off \<le> length s \<Longrightarrow> k \<le> length s"
proof (induction n arbitrary: off)
  case (Suc n)
  then obtain j where "find_char newline (drop off s) = Some j" "line_start s n (off + j + 1) = Some k"
    by (auto simp: find_char_from_def split: option.splits)
  moreover from this(1) have "off + j + 1 \<le> length s" by (auto dest: find_char_SomeD)
  ultimately show ?case using Suc.IH by blast
qed simp

lemma line_start_Cons:
  "line_start (x # xs) (Suc n) 0 =
     map_option Suc (if x = newline then line_start xs n 0 else line_start xs (Suc n) 0)"
proof -
  have shift: "line_start (x # xs) n (Suc k) = map_option Suc (line_start xs n k)" if "k \<le> length xs" for k
    using line_start_drop [of "Suc k" "x # xs" n] line_start_drop [of k xs n] that
    by (cases "line_start (drop k xs) n 0") simp_all
  show ?thesis
  proof (cases "x = newline")
    case True
    then show ?thesis using shift [of 0] by (simp add: find_char_from_def)
  next
    case False
    show ?thesis
    proof (cases "find_char newline xs")
      case (Some k)
      then have "k < length xs" using find_char_SomeD by blast
      with Some False shift [of "Suc k"] show ?thesis by (simp add: find_char_from_def)
    qed (use False in \<open>simp add: find_char_from_def del: find_char_None\<close>)
  qed
qed

lemma offset_nat_simps:
  "offset_nat [] l c = (if l = 0 \<and> c = 0 then Some 0 else None)"
  "offset_nat (x # xs) 0 c =
     (if c = 0 then Some 0 else if x = newline then None else map_option Suc (offset_nat xs 0 (c - 1)))"
  "offset_nat (x # xs) (Suc l) c =
     map_option Suc (offset_nat xs (if x = newline then l else Suc l) c)"
proof -
  show "offset_nat [] l c = (if l = 0 \<and> c = 0 then Some 0 else None)"
    by (cases l) (simp_all add: offset_nat_def find_char_from_def)
  show "offset_nat (x # xs) 0 c =
     (if c = 0 then Some 0 else if x = newline then None else map_option Suc (offset_nat xs 0 (c - 1)))"
    by (cases c) (simp_all add: offset_nat_def)
  have "offset_nat (x # xs) (Suc l) c =
    (case line_start (x # xs) (Suc l) 0 of
       None \<Rightarrow> None
     | Some off \<Rightarrow> if length (takeWhile (\<lambda>y. y \<noteq> newline) (drop off (x # xs))) < c then None else Some (off + c))"
    by (simp only: offset_nat_def)
  then show "offset_nat (x # xs) (Suc l) c =
     map_option Suc (offset_nat xs (if x = newline then l else Suc l) c)"
    unfolding line_start_Cons
    by (cases "line_start xs (if x = newline then l else Suc l) 0") (auto simp: offset_nat_def split: if_splits)
qed

lemma pos_nat_simps:
  "pos_nat s 0 = (0, 0)"
  "pos_nat (x # xs) (Suc i) =
     (case pos_nat xs i of (l, c) \<Rightarrow>
        if x = newline then (Suc l, c) else (l, if l = 0 then Suc c else c))"
proof -
  show "pos_nat s 0 = (0, 0)" by (simp add: pos_nat_def)
  let ?t = "rev (take i xs)" and ?P = "\<lambda>c. c \<noteq> newline"
  have zero: "count_list (take i xs) newline = 0 \<longleftrightarrow> newline \<notin> set ?t" by (simp add: count_list_0_iff)
  have tw: "takeWhile ?P (?t @ [x]) =
    (if newline \<in> set ?t then takeWhile ?P ?t else if x = newline then ?t else ?t @ [x])"
  proof (cases "newline \<in> set ?t")
    case True
    then show ?thesis using takeWhile_append1 [of newline ?t ?P "[x]"] by simp
  next
    case False
    then have "\<And>c. c \<in> set ?t \<Longrightarrow> c \<noteq> newline" by auto
    then show ?thesis using False takeWhile_append2 [of ?t ?P "[x]"] by simp
  qed
  have all: "takeWhile ?P ?t = ?t" if "newline \<notin> set ?t" using that by (auto simp: takeWhile_eq_all_conv)
  show "pos_nat (x # xs) (Suc i) =
     (case pos_nat xs i of (l, c) \<Rightarrow>
        if x = newline then (Suc l, c) else (l, if l = 0 then Suc c else c))"
  proof (cases "newline \<in> set ?t")
    case True
    then have "takeWhile ?P (?t @ [x]) = takeWhile ?P ?t" "count_list (take i xs) newline \<noteq> 0"
      using tw zero by simp_all
    then show ?thesis unfolding pos_nat_def by simp
  next
    case False
    then have e: "takeWhile ?P (?t @ [x]) = (if x = newline then ?t else ?t @ [x])"
      "count_list (take i xs) newline = 0" "takeWhile ?P ?t = ?t"
      using tw all zero by simp_all
    show ?thesis unfolding pos_nat_def by (simp add: e)
  qed
qed

lemma offset_nat_iff: "offset_nat s l c = Some i \<longleftrightarrow> i \<le> length s \<and> pos_nat s i = (l, c)"
proof (induction s arbitrary: l c i)
  case Nil
  then show ?case by (auto simp: offset_nat_simps pos_nat_def)
next
  case (Cons x xs)
  show ?case
  proof (cases i)
    case 0
    then show ?thesis by (cases l) (auto simp: offset_nat_simps pos_nat_simps)
  next
    case (Suc j)
    obtain l' c' where p: "pos_nat xs j = (l', c')" by (cases "pos_nat xs j")
    show ?thesis
    proof (cases l)
      case 0
      then show ?thesis using Suc p Cons.IH [of 0 "c - 1" j]
        by (auto simp: offset_nat_simps pos_nat_simps)
    next
      case (Suc l0)
      then show ?thesis using \<open>i = Suc j\<close> p Cons.IH [of "if x = newline then l0 else Suc l0" c j]
        by (auto simp: offset_nat_simps pos_nat_simps)
    qed
  qed
qed

lemma lspPositionToOffset_nat:
  "lspPositionToOffset s p =
     (if pos_line p < 0 \<or> pos_character p < 0 then None
      else offset_nat s (nat (pos_line p)) (nat (pos_character p)))"
proof (cases "line_start s (nat (pos_line p)) 0")
  case (Some off)
  from line_start_bound [OF this] have off: "off \<le> length s" by simp
  have "(case find_char_from newline s off of None \<Rightarrow> length s | Some e \<Rightarrow> e) - off =
    (case find_char newline (drop off s) of None \<Rightarrow> length (drop off s) | Some e \<Rightarrow> e)"
    using off by (simp add: find_char_from_def split: option.split del: find_char_None)
  then have "(case find_char_from newline s off of None \<Rightarrow> length s | Some e \<Rightarrow> e) - off =
    length (takeWhile (\<lambda>x. x \<noteq> newline) (drop off s))" by (simp only: find_char_takeWhile)
  with Some show ?thesis by (simp add: lspPositionToOffset_def offset_nat_def Let_def)
qed (simp add: lspPositionToOffset_def offset_nat_def)

lemma lspPositionToOffset_iff:
  "lspPositionToOffset s p = Some i \<longleftrightarrow> i \<le> length s \<and> position_at s i = p"
proof -
  have "position_at s i = p \<longleftrightarrow> 0 \<le> pos_line p \<and> 0 \<le> pos_character p \<and>
    pos_nat s i = (nat (pos_line p), nat (pos_character p))"
    by (cases p) (auto simp: position_at_def pos_nat_def)
  then show ?thesis by (auto simp: lspPositionToOffset_nat offset_nat_iff)
qed

text \<open>C39. An edit of a range is a splice: it is accepted exactly when its ends are the positions of
  two offsets of the text in the right order, and then it replaces the bytes between them. The
  position of every offset, the end of the text included, finds that offset again.\<close>

theorem apply_change_splices:
  "(applyChangeToText s \<lparr>change_text = new, change_range = Some r\<rparr> = Some t \<longleftrightarrow>
     (\<exists>i j. i \<le> j \<and> j \<le> length s \<and> position_at s i = range_start r \<and> position_at s j = range_end r \<and>
        t = take i s @ new @ drop j s)) \<and>
   lspPositionToOffset s (position_at s (min k (length s))) = Some (min k (length s))"
proof -
  have pos: "lspPositionToOffset s (position_at s i) = Some i" if "i \<le> length s" for i
    using that lspPositionToOffset_iff by blast
  let ?l = "lspPositionToOffset s (range_start r)" and ?r = "lspPositionToOffset s (range_end r)"
  have "applyChangeToText s \<lparr>change_text = new, change_range = Some r\<rparr> = Some t \<longleftrightarrow>
    (\<exists>i j. ?l = Some i \<and> ?r = Some j \<and> i \<le> j \<and> j \<le> length s \<and> t = take i s @ new @ drop j s)"
    by (auto simp: applyChangeToText_def split: option.splits)
  moreover have "\<dots> \<longleftrightarrow> (\<exists>i j. i \<le> j \<and> j \<le> length s \<and> position_at s i = range_start r \<and>
      position_at s j = range_end r \<and> t = take i s @ new @ drop j s)"
    unfolding lspPositionToOffset_iff using order_trans by blast
  ultimately show ?thesis using pos [of "min k (length s)"] by simp
qed

subsection \<open>Editing sessions\<close>

text \<open>The states the operations reach from an empty compiler, failing operations included.\<close>

inductive ic_reach :: "host_macros \<Rightarrow> 'a parser \<Rightarrow> 'a store \<Rightarrow> bool" for h :: host_macros and yyparse :: "'a parser" where
  ic_start: "ic_reach h yyparse Map.empty"
| ic_open: "ic_reach h yyparse ds \<Longrightarrow> ic_reach h yyparse (fst (openDocument h yyparse u pth body v ds))"
| ic_set: "ic_reach h yyparse ds \<Longrightarrow> ic_reach h yyparse (fst (setDocumentText h yyparse u body v ds))"
| ic_change: "ic_reach h yyparse ds \<Longrightarrow> ic_reach h yyparse (fst (applyChanges h yyparse u cs v ds))"
| ic_parse: "ic_reach h yyparse ds \<Longrightarrow> ic_reach h yyparse (fst (parseDocument h yyparse u ds))"
| ic_close: "ic_reach h yyparse ds \<Longrightarrow> ic_reach h yyparse (closeDocument u ds)"

text \<open>What holds of every document: its trees are the last good one, which the parser gave for some
  text, and the three flags say how it was obtained.\<close>

definition doc_ok :: "host_macros \<Rightarrow> 'a parser \<Rightarrow> string \<Rightarrow> 'a incremental_document \<Rightarrow> bool" where
  "doc_ok h yyparse u d \<longleftrightarrow>
     doc_uri d = u \<and> doc_ast d = lastGoodAst d \<and>
     (parseSuccess d \<longrightarrow> doc_ast d \<noteq> None) \<and>
     (usedRecovery d \<longleftrightarrow> recoveryKind d \<noteq> RecoveryNone) \<and>
     (recoveryKind d = DelimiterClosure \<longrightarrow> parseSuccess d) \<and>
     (recoveryKind d = LastGoodAst \<longleftrightarrow> doc_ast d \<noteq> None \<and> \<not> parseSuccess d) \<and>
     (\<forall>a. doc_ast d = Some a \<longrightarrow> (\<exists>s. parseText h yyparse s = Some a))"

lemma parse_doc_ok:
  assumes "doc_uri d = u" and "\<forall>a. lastGoodAst d = Some a \<longrightarrow> (\<exists>s. parseText h yyparse s = Some a)"
  shows "doc_ok h yyparse u (parse_doc h yyparse d)"
  using assms unfolding parse_doc_def doc_ok_def Let_def
  by (cases "parseText h yyparse (doc_text d)"; cases "lastGoodAst d";
      cases "parseText h yyparse (doc_text d @ recovery_suffix_for (doc_text d))") auto

definition store_ok :: "host_macros \<Rightarrow> 'a parser \<Rightarrow> 'a store \<Rightarrow> bool" where
  "store_ok h yyparse ds \<longleftrightarrow> (\<forall>u d. ds u = Some d \<longrightarrow> doc_ok h yyparse u d)"

text \<open>The parse step needs only that the address and the last good tree of its document are right.\<close>

lemma parse_store_ok:
  assumes "store_ok h yyparse ds" and "doc_uri d = u"
    and "\<forall>a. lastGoodAst d = Some a \<longrightarrow> (\<exists>s. parseText h yyparse s = Some a)"
  shows "store_ok h yyparse (fst (parseDocument h yyparse u (ds(u \<mapsto> d))))"
  using assms parse_doc_ok [OF assms(2,3)] by (auto simp: store_ok_def parseDocument_def Let_def)

lemma doc_ok_good: "doc_ok h yyparse u d \<Longrightarrow> lastGoodAst d = Some a \<Longrightarrow> \<exists>s. parseText h yyparse s = Some a"
  by (auto simp: doc_ok_def)

lemma fst_parsed_ok [simp]: "fst (parsed_ok r) = fst r"
  by (simp add: parsed_ok_def)

lemma store_ok_upd: "store_ok h yyparse ds \<Longrightarrow> doc_ok h yyparse u d \<Longrightarrow> store_ok h yyparse (ds(u \<mapsto> d))"
  by (simp add: store_ok_def)

lemma store_ok_get: "store_ok h yyparse ds \<Longrightarrow> ds u = Some d \<Longrightarrow> doc_ok h yyparse u d"
  by (simp add: store_ok_def)

lemma edited_store_ok:
  assumes "store_ok h yyparse ds" and "doc_ok h yyparse u d"
  shows "store_ok h yyparse (fst (parseDocument h yyparse u (ds(u \<mapsto> set_version v (d\<lparr>doc_text := body\<rparr>)))))"
  by (rule parse_store_ok [OF assms(1)])
    (use assms(2) doc_ok_good [OF assms(2)] in \<open>auto simp: set_version_def doc_ok_def\<close>)

lemma ic_reach_ok: "ic_reach h yyparse ds \<Longrightarrow> store_ok h yyparse ds"
proof (induction rule: ic_reach.induct)
  case (ic_open ds u pth body v)
  then show ?case by (simp add: openDocument_def Let_def parse_store_ok)
next
  case (ic_set ds u body v)
  show ?case
  proof (cases "ds u")
    case (Some d)
    from store_ok_get [OF ic_set.IH Some] have d: "doc_ok h yyparse u d" .
    show ?thesis using Some by (simp add: setDocumentText_def edited_store_ok [OF ic_set.IH d])
  qed (simp add: setDocumentText_def ic_set.IH)
next
  case (ic_change ds u cs v)
  show ?case
  proof (cases "ds u")
    case (Some d)
    from store_ok_get [OF ic_change.IH Some] have d: "doc_ok h yyparse u d" .
    obtain body ok where a: "apply_change_list cs (doc_text d) = (body, ok)" by fastforce
    show ?thesis
    proof (cases ok)
      case True
      then show ?thesis using Some a by (simp add: applyChanges_def Let_def edited_store_ok [OF ic_change.IH d])
    next
      case False
      have "doc_ok h yyparse u (d\<lparr>doc_text := body\<rparr>)" using d by (auto simp: doc_ok_def)
      from store_ok_upd [OF ic_change.IH this] False Some a show ?thesis
        by (simp add: applyChanges_def fun_upd_def)
    qed
  qed (simp add: applyChanges_def ic_change.IH)
next
  case (ic_parse ds u)
  show ?case
  proof (cases "ds u")
    case (Some d)
    from store_ok_get [OF ic_parse.IH Some] have d: "doc_ok h yyparse u d" .
    have "ds(u \<mapsto> d) = ds" using Some by (simp add: fun_upd_idem)
    moreover have "store_ok h yyparse (fst (parseDocument h yyparse u (ds(u \<mapsto> d))))"
      by (rule parse_store_ok [OF ic_parse.IH]) (use d doc_ok_good [OF d] in \<open>auto simp: doc_ok_def\<close>)
    ultimately show ?thesis by simp
  qed (simp add: parseDocument_def ic_parse.IH)
next
  case (ic_close ds u)
  then show ?case by (simp add: closeDocument_def store_ok_def)
qed (simp add: store_ok_def)

text \<open>C13. In every state an editing session can reach, rejected edits and failed parses included: a
  document is filed under its address; the tree shown is the last one the parser accepted, and
  the parser did accept it for some text; the recovery flags are consistent, the last good tree
  being in use exactly when there is a tree and the parse failed.\<close>

theorem incremental_session_invariant:
  assumes "ic_reach h yyparse ds" and "getDocument u ds = Some d"
  shows "doc_ok h yyparse u d"
  using store_ok_get [OF ic_reach_ok [OF assms(1)]] assms(2) by (simp add: getDocument_def)

text \<open>The recovery suffix closes what the edit left open: after a text with the suffix appended,
  the scan is back in code with no delimiter open. The two texts it cannot close are excluded or
  named: one that ends inside a string literal in a backslash, and one that ends inside a line
  comment, where the suffix becomes part of the comment and the delimiters stay open.\<close>

theorem recovery_suffix_closes:
  assumes "fst (recovery_scan InCode [] s) = InString \<Longrightarrow> last s \<noteq> bslash"
  shows "recovery_scan InCode [] (s @ recovery_suffix_for s) =
    (if fst (recovery_scan InCode [] s) = LineComment then recovery_scan InCode [] s else (InCode, []))"
  by (cases "recovery_scan InCode [] s") (use recovery_scan_suffix assms in fastforce)

lemma recovery_suffix_closes_witness:
  "recovery_scan InCode [] (''f(a[1'' @ recovery_suffix_for ''f(a[1'') = (InCode, [])"
proof -
  have s: "recovery_scan InCode [] ''f(a[1'' = (InCode, ''[('')"
    by (simp add: track_delimiter_def is_opener_def)
  show ?thesis using recovery_suffix_closes [of "''f(a[1''"] by (simp add: s)
qed

text \<open>A batch of changes is not atomic: when one of them is rejected the call fails, and the
  document keeps the text the changes before it made, with the tree, the flags and the version of
  the text before the batch. When all are accepted the text is the result of applying them in
  order, and it is parsed.\<close>

theorem apply_changes_outcome:
  assumes "ds u = Some d" and "apply_change_list cs (doc_text d) = (body, True)"
  shows "applyChanges h yyparse u (cs @ [c]) v ds =
    (case applyChangeToText body c of
       None \<Rightarrow> (ds(u \<mapsto> d\<lparr>doc_text := body\<rparr>), False)
     | Some t \<Rightarrow> parsed_ok (parseDocument h yyparse u (ds(u \<mapsto> set_version v (d\<lparr>doc_text := t\<rparr>)))))"
proof -
  have "apply_change_list (cs @ [c]) s =
      (case applyChangeToText body c of None \<Rightarrow> (body, False) | Some t \<Rightarrow> (t, True))"
    if "apply_change_list cs s = (body, True)" for s
    using that by (induction cs arbitrary: s) (auto split: option.splits)
  with assms show ?thesis by (simp add: applyChanges_def Let_def split: option.split)
qed

subsection \<open>A sample session\<close>

definition sample_host :: host_macros where
  "sample_host = \<lparr>m_WIN32 = False, m_APPLE = False, m_linux = True, m_unix = True,
     m_aarch64 = False, m_x86_64 = True, m_i386 = False\<rparr>"

text \<open>A parser that accepts the empty text only.\<close>

definition sample_parser :: "nat parser" where
  "sample_parser s = \<lparr>run_result = (if s = [] then 0 else 1), parseHadError = False,
     programRoot = Some (ProgramRoot 0)\<rparr>"

definition sample_doc :: "nat incremental_document" where
  "sample_doc = \<lparr>doc_uri = ''u'', doc_path = ''p'', doc_text = ''ab'', doc_version = 1, doc_ast = None,
     lastGoodAst = None, parseSuccess = False, usedRecovery = False, recoveryKind = RecoveryNone\<rparr>"

lemma apply_changes_outcome_witness:
  "applyChanges sample_host sample_parser ''u'' ([\<lparr>change_text = ''x'', change_range = None\<rparr>] @
      [\<lparr>change_text = ''y'', change_range = Some \<lparr>range_start = \<lparr>pos_line = 3, pos_character = 0\<rparr>,
         range_end = \<lparr>pos_line = 3, pos_character = 0\<rparr>\<rparr>\<rparr>]) 2 [''u'' \<mapsto> sample_doc] =
   ([''u'' \<mapsto> sample_doc\<lparr>doc_text := ''x''\<rparr>], False)"
proof -
  have "apply_change_list [\<lparr>change_text = ''x'', change_range = None\<rparr>] (doc_text sample_doc) = (''x'', True)"
    by (simp add: applyChangeToText_def)
  from apply_changes_outcome [OF _ this, of "[''u'' \<mapsto> sample_doc]" "''u''" sample_host sample_parser
      "\<lparr>change_text = ''y'', change_range = Some \<lparr>range_start = \<lparr>pos_line = 3, pos_character = 0\<rparr>,
         range_end = \<lparr>pos_line = 3, pos_character = 0\<rparr>\<rparr>\<rparr>" 2]
  show ?thesis
    by (simp add: applyChangeToText_def lspPositionToOffset_def numeral_3_eq_3 find_char_from_def)
qed

lemma incremental_session_invariant_witness:
  "\<exists>d. getDocument ''u'' (fst (openDocument sample_host sample_parser ''u'' ''p'' [] 1 Map.empty)) = Some d \<and>
     doc_ok sample_host sample_parser ''u'' d"
proof -
  have r: "ic_reach sample_host sample_parser (fst (openDocument sample_host sample_parser ''u'' ''p'' [] 1 Map.empty))"
    by (intro ic_reach.intros)
  have "getDocument ''u'' (fst (openDocument sample_host sample_parser ''u'' ''p'' [] 1 Map.empty)) \<noteq> None"
    by (simp add: getDocument_def openDocument_def parseDocument_def Let_def)
  then show ?thesis using incremental_session_invariant [OF r] by blast
qed

end
