(* ===== verification/Ide_Query.thy ===== *)
theory Ide_Query
  imports Incremental_Compiler
begin

text \<open>
  Looking up words in the text of a document (\<^verbatim>\<open>include/ide_query.h\<close>, \<^verbatim>\<open>src/ide_query.cpp\<close>):
  the identifier at a position, its prefix, and all whole-word occurrences of a name, which
  references and renaming are built on.
\<close>

record identifier_match =
  match_text :: string
  startCharacter :: int
  endCharacter :: int

definition isIdentifierChar :: "char \<Rightarrow> bool" where
  "isIdentifierChar c \<longleftrightarrow> isalnum c \<or> c = CHR ''_''"

text \<open>The two loops that walk to the left and to the right.\<close>

fun ident_left :: "string \<Rightarrow> nat \<Rightarrow> nat" where
  "ident_left s 0 = 0"
| "ident_left s (Suc i) = (if isIdentifierChar (s ! i) then ident_left s i else Suc i)"

function ident_right :: "string \<Rightarrow> nat \<Rightarrow> nat" where
  "ident_right s i = (if i < length s \<and> isIdentifierChar (s ! i) then ident_right s (Suc i) else i)"
  by pat_completeness auto
termination by (relation "measure (\<lambda>(s, i). length s - i)") auto

declare ident_right.simps [simp del]

definition clamp_index :: "string \<Rightarrow> int \<Rightarrow> nat option" where
  "clamp_index lineText character =
     (if character < 0 then None
      else if int (length lineText) < character then Some (length lineText)
      else Some (nat character))"

definition identifierAt :: "string \<Rightarrow> int \<Rightarrow> identifier_match option" where
  "identifierAt lineText character =
     (case clamp_index lineText character of
        None \<Rightarrow> None
      | Some idx \<Rightarrow>
          (let left = ident_left lineText idx;
               right = ident_right lineText idx
           in if right \<le> left then None
              else Some \<lparr>match_text = substr lineText left (right - left),
                         startCharacter = int left, endCharacter = int right\<rparr>))"

definition identifierAtPosition :: "string list \<Rightarrow> position \<Rightarrow> identifier_match option" where
  "identifierAtPosition ls p =
     (if pos_line p < 0 \<or> int (length ls) \<le> pos_line p then None
      else identifierAt (ls ! nat (pos_line p)) (pos_character p))"

definition identifierPrefixAt :: "string \<Rightarrow> int \<Rightarrow> string" where
  "identifierPrefixAt lineText character =
     (case clamp_index lineText character of
        None \<Rightarrow> []
      | Some idx \<Rightarrow>
          (let start = ident_left lineText idx in substr lineText start (idx - start)))"

definition whole_word_ends :: "string \<Rightarrow> nat \<Rightarrow> nat \<Rightarrow> bool" where
  "whole_word_ends line start end \<longleftrightarrow>
     (start = 0 \<or> \<not> isIdentifierChar (line ! (start - 1))) \<and>
     (length line \<le> end \<or> \<not> isIdentifierChar (line ! end))"

definition match_range :: "nat \<Rightarrow> nat \<Rightarrow> nat \<Rightarrow> range" where
  "match_range lineNo start end =
     \<lparr>range_start = \<lparr>pos_line = int lineNo, pos_character = int start\<rparr>,
      range_end = \<lparr>pos_line = int lineNo, pos_character = int end\<rparr>\<rparr>"

lemma find_str_from_bound: "find_str_from p s pos = Some f \<Longrightarrow> pos \<le> f \<and> f \<le> length s \<and> starts_with p (drop f s)"
  by (auto simp: find_str_from_def split: if_splits dest!: find_str_SomeD) (simp add: add.commute)

function word_loop :: "nat \<Rightarrow> string \<Rightarrow> string \<Rightarrow> nat \<Rightarrow> range list" where
  "word_loop lineNo line word searchPos =
     (case find_str_from word line searchPos of
        None \<Rightarrow> []
      | Some found \<Rightarrow>
          (if whole_word_ends line found (found + length word)
           then [match_range lineNo found (found + length word)] else []) @
          word_loop lineNo line word (found + 1))"
  by pat_completeness auto
termination
  by (relation "measure (\<lambda>(_, line, _, pos). Suc (length line) - pos)") (auto dest: find_str_from_bound)

declare word_loop.simps [simp del]

definition findWholeWordMatches :: "string list \<Rightarrow> string \<Rightarrow> range list" where
  "findWholeWordMatches ls word =
     (if word = [] then []
      else concat (map (\<lambda>lineNo. word_loop lineNo (ls ! lineNo) word 0) [0..<length ls]))"

subsection \<open>Identifiers\<close>

lemma ident_left:
  "ident_left s i \<le> i \<and> (\<forall>j. ident_left s i \<le> j \<longrightarrow> j < i \<longrightarrow> isIdentifierChar (s ! j)) \<and>
   (0 < ident_left s i \<longrightarrow> \<not> isIdentifierChar (s ! (ident_left s i - 1)))"
  by (induction i) (auto simp: less_Suc_eq)

lemma ident_right:
  assumes "i \<le> length s"
  shows "i \<le> ident_right s i \<and> ident_right s i \<le> length s \<and>
    (\<forall>j. i \<le> j \<longrightarrow> j < ident_right s i \<longrightarrow> isIdentifierChar (s ! j)) \<and>
    (ident_right s i < length s \<longrightarrow> \<not> isIdentifierChar (s ! ident_right s i))"
  using assms
proof (induction s i rule: ident_right.induct)
  case (1 s i)
  show ?case
  proof (cases "i < length s \<and> isIdentifierChar (s ! i)")
    case True
    then have r: "ident_right s i = ident_right s (Suc i)" by (simp add: ident_right.simps [of s i])
    from 1 True have ih: "Suc i \<le> ident_right s (Suc i)" "ident_right s (Suc i) \<le> length s"
      "\<forall>j. Suc i \<le> j \<longrightarrow> j < ident_right s (Suc i) \<longrightarrow> isIdentifierChar (s ! j)"
      "ident_right s (Suc i) < length s \<longrightarrow> \<not> isIdentifierChar (s ! ident_right s (Suc i))" by auto
    have "isIdentifierChar (s ! j)" if "i \<le> j" "j < ident_right s (Suc i)" for j
      using ih(3) True that by (cases "j = i") auto
    with ih show ?thesis unfolding r by auto
  next
    case False
    then have "ident_right s i = i" using ident_right.simps [of s i] by auto
    with False 1 show ?thesis by auto
  qed
qed

text \<open>A word of a line: a non-empty run of identifier characters, bounded on both sides.\<close>

definition is_word_at :: "string \<Rightarrow> nat \<Rightarrow> nat \<Rightarrow> bool" where
  "is_word_at s l r \<longleftrightarrow> l < r \<and> r \<le> length s \<and> (\<forall>j. l \<le> j \<longrightarrow> j < r \<longrightarrow> isIdentifierChar (s ! j)) \<and>
     whole_word_ends s l r"

lemma is_word_at_unique:
  assumes "is_word_at s l r" and "is_word_at s l' r'" and "l \<le> i" "i \<le> r" "l' \<le> i" "i \<le> r'"
  shows "l = l' \<and> r = r'"
proof -
  have aux: "l' \<le> l \<and> r \<le> r'" if a: "is_word_at s l r" and b: "is_word_at s l' r'" and i: "l \<le> i" "i \<le> r" "l' \<le> i" "i \<le> r'"
    for l r l' r'
  proof
    show "l' \<le> l"
    proof (rule ccontr)
      assume "\<not> l' \<le> l"
      then have "isIdentifierChar (s ! (l' - 1))" using a i unfolding is_word_at_def by auto
      with b \<open>\<not> l' \<le> l\<close> show False by (auto simp: is_word_at_def whole_word_ends_def)
    qed
    show "r \<le> r'"
    proof (rule ccontr)
      assume "\<not> r \<le> r'"
      then have "isIdentifierChar (s ! r')" "r' < length s" using a b i unfolding is_word_at_def by auto
      with b show False by (auto simp: is_word_at_def whole_word_ends_def)
    qed
  qed
  from aux [OF assms] aux [OF assms(2,1,5,6,3,4)] show ?thesis by auto
qed

text \<open>The identifier found at a position is the word of the line that touches it: a run of
  identifier characters that cannot be extended, with the position inside it or at one of its
  ends. There is at most one such word, and no answer exactly when there is none; a position
  past the end of the line counts as its end.\<close>

theorem identifier_at_position:
  assumes "0 \<le> character"
  shows "identifierAt s character = Some m \<longleftrightarrow>
    (\<exists>l r. is_word_at s l r \<and> l \<le> min (nat character) (length s) \<and> min (nat character) (length s) \<le> r \<and>
       m = \<lparr>match_text = substr s l (r - l), startCharacter = int l, endCharacter = int r\<rparr>)"
proof -
  define i where "i = min (nat character) (length s)"
  have c: "clamp_index s character = Some i" using assms(1) by (auto simp: clamp_index_def i_def)
  let ?l = "ident_left s i" and ?r = "ident_right s i"
  have ir: "i \<le> length s" by (simp add: i_def)
  note L = ident_left [of s i] and R = ident_right [OF ir]
  have id: "isIdentifierChar (s ! j)" if "?l \<le> j" "j < ?r" for j
    using L R that by (cases "j < i") auto
  have word: "is_word_at s ?l ?r" if "?l < ?r"
    using that L R id unfolding is_word_at_def whole_word_ends_def by auto
  have some: "?l < ?r" if w: "is_word_at s l r" "l \<le> i" "i \<le> r" for l r
  proof (rule ccontr)
    assume "\<not> ?l < ?r"
    with L R have eq: "?l = i" "?r = i" by auto
    have "l < i \<or> i < r" using w by (auto simp: is_word_at_def)
    then show False
    proof
      assume "l < i"
      then have "isIdentifierChar (s ! (i - 1))" "0 < i" using w unfolding is_word_at_def by auto
      with L eq show False by auto
    next
      assume "i < r"
      then have "isIdentifierChar (s ! i)" "i < length s" using w unfolding is_word_at_def by auto
      with R eq show False by auto
    qed
  qed
  have at: "identifierAt s character =
    (if ?l < ?r then Some \<lparr>match_text = substr s ?l (?r - ?l), startCharacter = int ?l, endCharacter = int ?r\<rparr>
     else None)"
    by (simp add: identifierAt_def c Let_def not_less)
  have uniq: "l = ?l \<and> r = ?r" if "is_word_at s l r" "l \<le> i" "i \<le> r" for l r
    using is_word_at_unique [OF that(1) word that(2,3)] some [OF that] L R by blast
  show ?thesis unfolding i_def [symmetric]
  proof
    assume m: "identifierAt s character = Some m"
    with at have lr: "?l < ?r"
      and "m = \<lparr>match_text = substr s ?l (?r - ?l), startCharacter = int ?l, endCharacter = int ?r\<rparr>"
      by (simp_all split: if_splits)
    with word [OF lr] L R show "\<exists>l r. is_word_at s l r \<and> l \<le> i \<and> i \<le> r \<and>
       m = \<lparr>match_text = substr s l (r - l), startCharacter = int l, endCharacter = int r\<rparr>" by blast
  next
    assume "\<exists>l r. is_word_at s l r \<and> l \<le> i \<and> i \<le> r \<and>
       m = \<lparr>match_text = substr s l (r - l), startCharacter = int l, endCharacter = int r\<rparr>"
    then obtain l r where w: "is_word_at s l r" "l \<le> i" "i \<le> r"
      and m: "m = \<lparr>match_text = substr s l (r - l), startCharacter = int l, endCharacter = int r\<rparr>" by blast
    from uniq [OF w] some [OF w] m show "identifierAt s character = Some m" unfolding at by simp
  qed
qed

lemma identifier_at_position_witness:
  "identifierAt ''a foo+1'' 9 = Some \<lparr>match_text = ''1'', startCharacter = 6, endCharacter = 7\<rparr>"
proof -
  have "is_word_at ''a foo+1'' 6 7"
    by (auto simp: is_word_at_def whole_word_ends_def isIdentifierChar_def isalnum_def isdigit_def
        isupper_def islower_def less_Suc_eq nth_Cons' numeral_eq_Suc)
  then show ?thesis
    using identifier_at_position [of 9 "''a foo+1''"]
    by (force simp: substr_def)
qed

subsection \<open>Whole words\<close>

definition word_here :: "string \<Rightarrow> string \<Rightarrow> nat \<Rightarrow> bool" where
  "word_here line word i \<longleftrightarrow>
     starts_with word (drop i line) \<and> whole_word_ends line i (i + length word)"

lemma filter_upt_empty: "(\<And>j. a \<le> j \<Longrightarrow> j < b \<Longrightarrow> \<not> P j) \<Longrightarrow> filter P [a..<b] = []"
  by (simp add: filter_empty_conv)

lemma word_loop_eq:
  "word_loop n line word pos =
     map (\<lambda>i. match_range n i (i + length word)) (filter (word_here line word) [pos..<Suc (length line)])"
proof (induction n line word pos rule: word_loop.induct)
  case (1 n line word pos)
  show ?case
  proof (cases "find_str_from word line pos")
    case None
    have "\<not> word_here line word j" if "pos \<le> j" "j < Suc (length line)" for j
    proof -
      have "find_str word (drop pos line) = None" using None that by (simp add: find_str_from_def)
      then have "\<not> starts_with word (drop (j - pos) (drop pos line))"
        using find_str_None [THEN iffD1, rule_format, of word "drop pos line" "j - pos"] that by simp
      then show ?thesis using that by (simp add: word_here_def)
    qed
    then show ?thesis using None by (subst word_loop.simps) (simp add: filter_upt_empty del: upt_Suc)
  next
    case (Some f)
    from find_str_from_bound [OF Some] have f: "pos \<le> f" "f \<le> length line" "starts_with word (drop f line)" by auto
    have "\<not> word_here line word j" if "pos \<le> j" "j < f" for j
    proof -
      have "find_str word (drop pos line) = Some (f - pos)" using Some by (auto simp: find_str_from_def split: if_splits)
      from find_str_first [OF this, of "j - pos"] that show ?thesis by (simp add: word_here_def)
    qed
    moreover have "[pos..<Suc (length line)] = [pos..<f] @ f # [Suc f..<Suc (length line)]"
    proof -
      have "[pos..<Suc (length line)] = [pos..<f] @ [f..<Suc (length line)]"
        using f upt_add_eq_append [of pos f "Suc (length line) - f"] by (simp del: upt_Suc)
      also have "[f..<Suc (length line)] = f # [Suc f..<Suc (length line)]"
        using f by (intro upt_conv_Cons) simp
      finally show ?thesis .
    qed
    ultimately have "filter (word_here line word) [pos..<Suc (length line)] =
      (if word_here line word f then [f] else []) @ filter (word_here line word) [Suc f..<Suc (length line)]"
      by (simp add: filter_upt_empty del: upt_Suc)
    moreover have "word_here line word f = whole_word_ends line f (f + length word)"
      using f by (simp add: word_here_def)
    ultimately show ?thesis using 1 Some by (subst word_loop.simps) (simp del: upt_Suc)
  qed
qed

text \<open>The search for a name finds all its whole-word occurrences, overlapping ones included, in
  the order of the text, and nothing else: line by line, the columns at which the name starts with
  no identifier character before and none after it.\<close>

theorem whole_word_matches:
  "findWholeWordMatches ls word =
     (if word = [] then []
      else concat (map (\<lambda>n. map (\<lambda>i. match_range n i (i + length word))
             (filter (word_here (ls ! n) word) [0..<Suc (length (ls ! n))])) [0..<length ls]))"
  by (simp add: findWholeWordMatches_def word_loop_eq del: upt_Suc)

end
