(* ===== verification/Type_Nodes.thy ===== *)
theory Type_Nodes
  imports Ordered_Map
begin

text \<open>
  The compiler's type nodes (\<^verbatim>\<open>include/ast.h\<close>) and the functions that read and rewrite them: the
  names mangled for overload keys (\<^verbatim>\<open>src/module.cpp\<close>, \<^verbatim>\<open>src/ir/type_aliases.cpp\<close>) and for
  instances of generic structs (\<^verbatim>\<open>src/ast.cpp\<close>, \<^verbatim>\<open>src/ir/monomorphization.cpp\<close>), copying,
  substitution of type parameters, and the expansion of type aliases. A node is a value; \<open>NullType\<close>
  is the null pointer, and a list of types that may be null is an option.
\<close>

subsection \<open>Nodes\<close>

datatype type_kind =
  TYPE_VOID | TYPE_BOOL | TYPE_BIT | TYPE_INT | TYPE_FLOAT | TYPE_DOUBLE | TYPE_STRING | TYPE_STR8
| TYPE_STR16 | TYPE_LIST | TYPE_MAP | TYPE_TUPLE | TYPE_PTR | TYPE_TRAIT_OBJECT | TYPE_STRUCT
| TYPE_I8 | TYPE_I16 | TYPE_I32 | TYPE_I64 | TYPE_U8 | TYPE_U16 | TYPE_U32 | TYPE_U64
| TYPE_REF | TYPE_REF_MUT | TYPE_FUNCTION

datatype type_node =
  NullType
| PlainType type_kind
| PointerType type_node
| TraitObjectType string
| ReferenceType type_node bool
| GenericListType type_node
| ArrayType type_node int
| MultiArrayType type_node int bool
| MapType type_node type_node
| TupleType "type_node list option"
| FunctionType "type_node list option" type_node
| StructTypeRef string
| GenericStructTypeRef string "type_node list"

text \<open>The field \<^verbatim>\<open>kind\<close> each constructor of the source sets.\<close>

fun kind_of :: "type_node \<Rightarrow> type_kind option" where
  "kind_of NullType = None"
| "kind_of (PlainType k) = Some k"
| "kind_of (PointerType e) = Some TYPE_PTR"
| "kind_of (TraitObjectType n) = Some TYPE_TRAIT_OBJECT"
| "kind_of (ReferenceType e m) = Some (if m then TYPE_REF_MUT else TYPE_REF)"
| "kind_of (GenericListType e) = Some TYPE_LIST"
| "kind_of (ArrayType e n) = Some TYPE_LIST"
| "kind_of (MultiArrayType e n m) = Some TYPE_LIST"
| "kind_of (MapType k v) = Some TYPE_MAP"
| "kind_of (TupleType ts) = Some TYPE_TUPLE"
| "kind_of (FunctionType ps r) = Some TYPE_FUNCTION"
| "kind_of (StructTypeRef n) = Some TYPE_STRUCT"
| "kind_of (GenericStructTypeRef n as) = Some TYPE_STRUCT"

definition int_str :: "int \<Rightarrow> string" where
  "int_str n = (if n < 0 then CHR ''-'' # dec_str (nat (- n)) else dec_str (nat n))"

subsection \<open>Mangled types of overload keys\<close>

text \<open>The switch that ends both functions.\<close>

fun mangle_kind :: "type_kind \<Rightarrow> string" where
  "mangle_kind TYPE_VOID = ''void''"
| "mangle_kind TYPE_BOOL = ''bool''"
| "mangle_kind TYPE_INT = ''i32''"
| "mangle_kind TYPE_FLOAT = ''f32''"
| "mangle_kind TYPE_DOUBLE = ''f64''"
| "mangle_kind TYPE_STRING = ''str8''"
| "mangle_kind TYPE_STR8 = ''str8''"
| "mangle_kind TYPE_STR16 = ''str16''"
| "mangle_kind TYPE_LIST = ''list''"
| "mangle_kind TYPE_MAP = ''map''"
| "mangle_kind TYPE_TUPLE = ''tuple''"
| "mangle_kind TYPE_PTR = ''ptr''"
| "mangle_kind TYPE_REF = ''ref''"
| "mangle_kind TYPE_REF_MUT = ''ref_mut''"
| "mangle_kind TYPE_STRUCT = ''struct''"
| "mangle_kind TYPE_I8 = ''i8''"
| "mangle_kind TYPE_I16 = ''i16''"
| "mangle_kind TYPE_I32 = ''i32''"
| "mangle_kind TYPE_I64 = ''i64''"
| "mangle_kind TYPE_U8 = ''u8''"
| "mangle_kind TYPE_U16 = ''u16''"
| "mangle_kind TYPE_U32 = ''u32''"
| "mangle_kind TYPE_U64 = ''u64''"
| "mangle_kind _ = ''unknown''"

text \<open>The module loader's version.\<close>

fun type_mangle :: "type_node \<Rightarrow> string" where
  "type_mangle NullType = ''void''"
| "type_mangle (ReferenceType e m) = (if m then ''ref_mut_'' else ''ref_'') @ type_mangle e"
| "type_mangle (PointerType e) = ''ptr_'' @ type_mangle e"
| "type_mangle (GenericListType e) = ''list_'' @ type_mangle e"
| "type_mangle (ArrayType e n) = ''list_'' @ type_mangle e"
| "type_mangle (MultiArrayType e n m) = ''list_'' @ type_mangle e"
| "type_mangle (MapType k v) = ''map_'' @ type_mangle k @ ''_'' @ type_mangle v"
| "type_mangle (TupleType ts) =
     ''tuple'' @ concat (map (\<lambda>e. CHR ''_'' # type_mangle e) (case ts of None \<Rightarrow> [] | Some es \<Rightarrow> es))"
| "type_mangle (GenericStructTypeRef n as) = ''struct_'' @ n @ concat (map (\<lambda>a. CHR ''_'' # type_mangle a) as)"
| "type_mangle (StructTypeRef n) = ''struct_'' @ n"
| "type_mangle (PlainType k) = mangle_kind k"
| "type_mangle (TraitObjectType n) = mangle_kind TYPE_TRAIT_OBJECT"
| "type_mangle (FunctionType ps r) = mangle_kind TYPE_FUNCTION"

text \<open>The code generator's version.\<close>

fun typeMangle :: "type_node \<Rightarrow> string" where
  "typeMangle NullType = ''void''"
| "typeMangle (ReferenceType e m) = (if m then ''ref_mut_'' else ''ref_'') @ typeMangle e"
| "typeMangle (TraitObjectType n) = ''dyn_'' @ n"
| "typeMangle (PointerType e) = ''ptr_'' @ typeMangle e"
| "typeMangle (MultiArrayType e n m) =
     (if m then ''mutmultiarray_'' else ''multiarray_'') @ typeMangle e @ ''_'' @ int_str n"
| "typeMangle (ArrayType e n) = ''array_'' @ typeMangle e @ ''_'' @ int_str n"
| "typeMangle (GenericListType e) = ''list_'' @ typeMangle e"
| "typeMangle (MapType k v) = ''map_'' @ typeMangle k @ ''_'' @ typeMangle v"
| "typeMangle (TupleType ts) =
     ''tuple'' @ concat (map (\<lambda>e. CHR ''_'' # typeMangle e) (case ts of None \<Rightarrow> [] | Some es \<Rightarrow> es))"
| "typeMangle (FunctionType ps r) =
     ''fn'' @ concat (map (\<lambda>e. CHR ''_'' # typeMangle e) (case ps of None \<Rightarrow> [] | Some es \<Rightarrow> es)) @
     ''_to_'' @ typeMangle r"
| "typeMangle (GenericStructTypeRef n as) = ''struct_'' @ n @ concat (map (\<lambda>a. CHR ''_'' # typeMangle a) as)"
| "typeMangle (StructTypeRef n) = ''struct_'' @ n"
| "typeMangle (PlainType k) = mangle_kind k"

subsection \<open>Names of generic instances\<close>

fun normalize_loop :: "char \<Rightarrow> string \<Rightarrow> string" where
  "normalize_loop prev [] = []"
| "normalize_loop prev (c # cs) =
     (let w = (if isalnum c \<or> c = CHR ''_'' then c else CHR ''_'')
      in if w = CHR ''_'' \<and> prev = CHR ''_'' then normalize_loop prev cs else w # normalize_loop w cs)"

definition normalize_type_name :: "string \<Rightarrow> string" where
  "normalize_type_name n =
     (let out = rev (dropWhile (\<lambda>c. c = CHR ''_'') (rev (normalize_loop (CHR 0x00) n)))
      in if out = [] then ''unknown'' else out)"

text \<open>The switch of \<^verbatim>\<open>GenericStructTypeRefNode::getMangledName\<close>, and the one of the instance
  table, which has no case for \<^verbatim>\<open>bit\<close>.\<close>

fun instance_kind :: "type_kind \<Rightarrow> string" where
  "instance_kind TYPE_BOOL = ''bool''"
| "instance_kind TYPE_BIT = ''bit''"
| "instance_kind TYPE_INT = ''i32''"
| "instance_kind TYPE_I32 = ''i32''"
| "instance_kind TYPE_I8 = ''i8''"
| "instance_kind TYPE_I16 = ''i16''"
| "instance_kind TYPE_I64 = ''i64''"
| "instance_kind TYPE_U8 = ''u8''"
| "instance_kind TYPE_U16 = ''u16''"
| "instance_kind TYPE_U32 = ''u32''"
| "instance_kind TYPE_U64 = ''u64''"
| "instance_kind TYPE_FLOAT = ''f32''"
| "instance_kind TYPE_DOUBLE = ''f64''"
| "instance_kind TYPE_STRING = ''str8''"
| "instance_kind TYPE_STR8 = ''str8''"
| "instance_kind TYPE_STR16 = ''str16''"
| "instance_kind TYPE_LIST = ''list''"
| "instance_kind TYPE_MAP = ''map''"
| "instance_kind TYPE_TUPLE = ''tuple''"
| "instance_kind _ = ''unknown''"

definition instance_table_kind :: "type_kind \<Rightarrow> string" where
  "instance_table_kind k = (if k = TYPE_BIT then ''unknown'' else instance_kind k)"

fun mangle_arg :: "type_node \<Rightarrow> string" where
  "mangle_arg NullType = ''unknown''"
| "mangle_arg (StructTypeRef n) = normalize_type_name n"
| "mangle_arg (GenericStructTypeRef n as) = n @ concat (map (\<lambda>a. CHR ''_'' # mangle_arg a) as)"
| "mangle_arg (GenericListType e) = ''list_'' @ mangle_arg e"
| "mangle_arg (ArrayType e n) = ''list_'' @ mangle_arg e"
| "mangle_arg (MultiArrayType e n m) = ''list_'' @ mangle_arg e"
| "mangle_arg (MapType k v) = ''map_'' @ mangle_arg k @ ''_'' @ mangle_arg v"
| "mangle_arg (TupleType ts) =
     ''tuple'' @ concat (map (\<lambda>e. CHR ''_'' # mangle_arg e) (case ts of None \<Rightarrow> [] | Some es \<Rightarrow> es))"
| "mangle_arg (PlainType k) = instance_kind k"
| "mangle_arg (PointerType e) = instance_kind TYPE_PTR"
| "mangle_arg (ReferenceType e m) = instance_kind (if m then TYPE_REF_MUT else TYPE_REF)"
| "mangle_arg (TraitObjectType n) = instance_kind TYPE_TRAIT_OBJECT"
| "mangle_arg (FunctionType ps r) = instance_kind TYPE_FUNCTION"

definition getMangledName :: "string \<Rightarrow> type_node list \<Rightarrow> string" where
  "getMangledName structName as = structName @ concat (map (\<lambda>a. CHR ''_'' # mangle_arg a) as)"

fun mangle_table_arg :: "type_node \<Rightarrow> string" where
  "mangle_table_arg NullType = ''unknown''"
| "mangle_table_arg (StructTypeRef n) = normalize_type_name n"
| "mangle_table_arg (GenericStructTypeRef n as) = getMangledName n as"
| "mangle_table_arg (GenericListType e) = ''list_'' @ mangle_table_arg e"
| "mangle_table_arg (ArrayType e n) = ''list_'' @ mangle_table_arg e"
| "mangle_table_arg (MultiArrayType e n m) = ''list_'' @ mangle_table_arg e"
| "mangle_table_arg (MapType k v) = ''map_'' @ mangle_table_arg k @ ''_'' @ mangle_table_arg v"
| "mangle_table_arg (TupleType ts) =
     ''tuple'' @ concat (map (\<lambda>e. CHR ''_'' # mangle_table_arg e) (case ts of None \<Rightarrow> [] | Some es \<Rightarrow> es))"
| "mangle_table_arg (PlainType k) = instance_table_kind k"
| "mangle_table_arg (PointerType e) = instance_table_kind TYPE_PTR"
| "mangle_table_arg (ReferenceType e m) = instance_table_kind (if m then TYPE_REF_MUT else TYPE_REF)"
| "mangle_table_arg (TraitObjectType n) = instance_table_kind TYPE_TRAIT_OBJECT"
| "mangle_table_arg (FunctionType ps r) = instance_table_kind TYPE_FUNCTION"

definition generateMangledName :: "string \<Rightarrow> type_node list \<Rightarrow> string" where
  "generateMangledName baseName as = baseName @ concat (map (\<lambda>a. CHR ''_'' # mangle_table_arg a) as)"

text \<open>The instance table: \<open>known\<close> are the names it has, \<open>templates\<close> the generic structs. The second
  component is the call of \<^verbatim>\<open>monomorphizeStruct\<close>, which enters the name, if there is one.\<close>

definition getOrCreateMonomorphizedStruct ::
  "string set \<Rightarrow> string set \<Rightarrow> string \<Rightarrow> type_node list \<Rightarrow> string \<times> (string \<times> type_node list \<times> string) option" where
  "getOrCreateMonomorphizedStruct known templates genericName as =
     (let mangledName = generateMangledName genericName as
      in if mangledName \<in> known then (mangledName, None)
         else if genericName \<notin> templates then (genericName, None)
         else (mangledName, Some (genericName, as, mangledName)))"

subsection \<open>Properties of the names\<close>

text \<open>Types for which the two overload keys are computed in the same way.\<close>

fun plain_key :: "type_node \<Rightarrow> bool" where
  "plain_key (ReferenceType e m) = plain_key e"
| "plain_key (PointerType e) = plain_key e"
| "plain_key (GenericListType e) = plain_key e"
| "plain_key (MapType k v) \<longleftrightarrow> plain_key k \<and> plain_key v"
| "plain_key (TupleType ts) \<longleftrightarrow> (\<forall>e \<in> set (case ts of None \<Rightarrow> [] | Some es \<Rightarrow> es). plain_key e)"
| "plain_key (GenericStructTypeRef n as) \<longleftrightarrow> (\<forall>a \<in> set as. plain_key a)"
| "plain_key (ArrayType e n) = False"
| "plain_key (MultiArrayType e n m) = False"
| "plain_key (TraitObjectType n) = False"
| "plain_key (FunctionType ps r) = False"
| "plain_key _ = True"

text \<open>The module loader and the code generator each mangle parameter types for the key that
  tells overloads apart. The keys are the same for types without fixed arrays, trait objects and
  callables; for those the loader's key forgets the size, the trait or the signature that the
  generator keeps apart, so overloads the generator can hold are one to the loader.\<close>

theorem overload_keys_agree:
  "plain_key t \<Longrightarrow> type_mangle t = typeMangle t"
  by (induction t rule: type_mangle.induct) (auto intro!: arg_cong [where f = concat])

lemma overload_keys_agree_witness:
  "type_mangle (MapType (PlainType TYPE_STR8) (GenericStructTypeRef ''Box'' [PlainType TYPE_U8])) =
   typeMangle (MapType (PlainType TYPE_STR8) (GenericStructTypeRef ''Box'' [PlainType TYPE_U8]))"
  by (rule overload_keys_agree) simp

lemma loader_key_collisions:
  "type_mangle (ArrayType e n) = type_mangle (GenericListType e)"
  "type_mangle (FunctionType ps r) = type_mangle (FunctionType qs s)"
  "type_mangle (TraitObjectType a) = type_mangle (TraitObjectType b)"
  by simp_all

lemma generator_key_distinct:
  "typeMangle (ArrayType e n) \<noteq> typeMangle (GenericListType e)"
  "a \<noteq> b \<Longrightarrow> typeMangle (TraitObjectType a) \<noteq> typeMangle (TraitObjectType b)"
  by simp_all

text \<open>A \<^verbatim>\<open>bit\<close> among the type arguments, seen through lists, maps and tuples.\<close>

fun bit_exposed :: "type_node \<Rightarrow> bool" where
  "bit_exposed (PlainType k) \<longleftrightarrow> k = TYPE_BIT"
| "bit_exposed (GenericListType e) = bit_exposed e"
| "bit_exposed (ArrayType e n) = bit_exposed e"
| "bit_exposed (MultiArrayType e n m) = bit_exposed e"
| "bit_exposed (MapType k v) \<longleftrightarrow> bit_exposed k \<or> bit_exposed v"
| "bit_exposed (TupleType ts) \<longleftrightarrow> (\<exists>e \<in> set (case ts of None \<Rightarrow> [] | Some es \<Rightarrow> es). bit_exposed e)"
| "bit_exposed _ = False"

lemma mangle_table_arg_eq: "\<not> bit_exposed t \<Longrightarrow> mangle_table_arg t = mangle_arg t"
  by (induction t rule: mangle_table_arg.induct)
    (auto simp: getMangledName_def instance_table_kind_def intro!: arg_cong [where f = concat])

text \<open>The name under which an instance of a generic struct is entered and the one under which
  the rest of the compiler looks it up are computed by two functions. They agree for arguments
  without \<^verbatim>\<open>bit\<close>.\<close>

theorem instance_names_agree:
  assumes "list_all (\<lambda>a. \<not> bit_exposed a) as"
  shows "generateMangledName n as = getMangledName n as"
  using assms by (simp add: generateMangledName_def getMangledName_def list_all_iff mangle_table_arg_eq cong: map_cong)

lemma instance_names_agree_witness:
  "generateMangledName ''Box'' [PlainType TYPE_BOOL, GenericStructTypeRef ''Box'' [PlainType TYPE_BIT]] = ''Box_bool_Box_bit''"
  using instance_names_agree [of "[PlainType TYPE_BOOL, GenericStructTypeRef ''Box'' [PlainType TYPE_BIT]]" "''Box''"]
  by (simp add: getMangledName_def)

text \<open>The types whose instances all get the name \<^verbatim>\<open>unknown\<close>.\<close>

fun opaque_arg :: "type_node \<Rightarrow> bool" where
  "opaque_arg (PointerType e) = True"
| "opaque_arg (ReferenceType e m) = True"
| "opaque_arg (FunctionType ps r) = True"
| "opaque_arg (TraitObjectType n) = True"
| "opaque_arg (PlainType k) \<longleftrightarrow> k = TYPE_BIT"
| "opaque_arg _ = False"

text \<open>Instances whose arguments are pointers, references, callables, trait objects or bits are
  not told apart: once one of them is in the table, a request for any other one returns its name
  and instantiates nothing, whatever the layouts are. A \<^verbatim>\<open>bit\<close> instance is moreover entered under
  a name other than the one it is looked up by.\<close>

theorem instance_names_collide:
  assumes "opaque_arg a" and "opaque_arg b" and "generateMangledName n [a] \<in> known"
  shows "getOrCreateMonomorphizedStruct known templates n [b] = (generateMangledName n [a], None) \<and>
    generateMangledName n [PlainType TYPE_BIT] \<noteq> getMangledName n [PlainType TYPE_BIT]"
proof -
  have "mangle_table_arg c = ''unknown''" if "opaque_arg c" for c
    using that by (cases c) (auto simp: instance_table_kind_def)
  then have "generateMangledName n [a] = generateMangledName n [b]"
    using assms by (simp add: generateMangledName_def)
  with assms(3) show ?thesis
    by (simp add: getOrCreateMonomorphizedStruct_def generateMangledName_def getMangledName_def instance_table_kind_def)
qed

lemma instance_names_collide_witness:
  "getOrCreateMonomorphizedStruct {''Box_unknown''} {''Box''} ''Box''
     [FunctionType (Some [PlainType TYPE_I32]) (PlainType TYPE_I32)] = (''Box_unknown'', None)"
  using instance_names_collide [of "PointerType (PlainType TYPE_U8)"
      "FunctionType (Some [PlainType TYPE_I32]) (PlainType TYPE_I32)" "''Box''" "{''Box_unknown''}" "{''Box''}"]
  by (simp add: generateMangledName_def instance_table_kind_def)

end
