(* ===== verification/Type_Aliases.thy ===== *)
theory Type_Aliases
  imports Type_Nodes
begin

text \<open>
  Type aliases (\<^verbatim>\<open>src/ir/type_aliases.cpp\<close>) and the substitution of type parameters
  (\<^verbatim>\<open>src/ir/monomorphization.cpp\<close>): the table of aliases of a program, the copy of a type, and
  the expansion of every alias in a type, with the stack that detects cycles. Errors the compiler
  reports are collected in a list. The expansion rewrites nodes in place; as an argument that is
  shared has been expanded before it is shared, the tree computed here is the tree it leaves.
\<close>

subsection \<open>Copies and substitution\<close>

fun cloneTypeNode :: "type_node \<Rightarrow> type_node" where
  "cloneTypeNode NullType = NullType"
| "cloneTypeNode (PointerType e) = PointerType (cloneTypeNode e)"
| "cloneTypeNode (ReferenceType e m) = ReferenceType (cloneTypeNode e) m"
| "cloneTypeNode (TraitObjectType n) = TraitObjectType n"
| "cloneTypeNode (MultiArrayType e n m) = MultiArrayType (cloneTypeNode e) n m"
| "cloneTypeNode (ArrayType e n) = ArrayType (cloneTypeNode e) n"
| "cloneTypeNode (GenericListType e) = GenericListType (cloneTypeNode e)"
| "cloneTypeNode (MapType k v) = MapType (cloneTypeNode k) (cloneTypeNode v)"
| "cloneTypeNode (TupleType ts) =
     TupleType (Some (map cloneTypeNode (case ts of None \<Rightarrow> [] | Some es \<Rightarrow> es)))"
| "cloneTypeNode (FunctionType ps r) =
     FunctionType (Some (map cloneTypeNode (case ps of None \<Rightarrow> [] | Some es \<Rightarrow> es))) (cloneTypeNode r)"
| "cloneTypeNode (StructTypeRef n) = StructTypeRef n"
| "cloneTypeNode (GenericStructTypeRef n as) = GenericStructTypeRef n (map cloneTypeNode as)"
| "cloneTypeNode (PlainType k) = PlainType k"

text \<open>A tuple node always has its list where this is called; the code would read through a null
  pointer otherwise.\<close>

fun substituteTypeParams :: "string list \<Rightarrow> type_node list \<Rightarrow> type_node \<Rightarrow> type_node" where
  "substituteTypeParams ps as NullType = NullType"
| "substituteTypeParams ps as (ReferenceType e m) = ReferenceType (substituteTypeParams ps as e) m"
| "substituteTypeParams ps as (PointerType e) = PointerType (substituteTypeParams ps as e)"
| "substituteTypeParams ps as (StructTypeRef n) =
     (case map_of (zip ps as) n of Some a \<Rightarrow> a | None \<Rightarrow> StructTypeRef n)"
| "substituteTypeParams ps as (GenericStructTypeRef n bs) =
     GenericStructTypeRef n (map (substituteTypeParams ps as) bs)"
| "substituteTypeParams ps as (MultiArrayType e n m) = MultiArrayType (substituteTypeParams ps as e) n m"
| "substituteTypeParams ps as (ArrayType e n) = ArrayType (substituteTypeParams ps as e) n"
| "substituteTypeParams ps as (GenericListType e) = GenericListType (substituteTypeParams ps as e)"
| "substituteTypeParams ps as (MapType k v) = MapType (substituteTypeParams ps as k) (substituteTypeParams ps as v)"
| "substituteTypeParams ps as (TupleType ts) =
     TupleType (Some (map (substituteTypeParams ps as) (case ts of None \<Rightarrow> [] | Some es \<Rightarrow> es)))"
| "substituteTypeParams ps as (FunctionType qs r) =
     FunctionType (Some (map (substituteTypeParams ps as) (case qs of None \<Rightarrow> [] | Some es \<Rightarrow> es)))
       (substituteTypeParams ps as r)"
| "substituteTypeParams ps as (PlainType k) = PlainType k"
| "substituteTypeParams ps as (TraitObjectType n) = TraitObjectType n"

subsection \<open>The alias table\<close>

record alias_info =
  aliasedType :: type_node
  aliasParams :: "string list"
  aliasLine :: int
  aliasCol :: int

type_synonym alias_table = "(string, alias_info) omap"

record alias_def =
  aliasName :: string
  aliasDefType :: type_node
  aliasDefParams :: "string list"
  aliasDefLine :: int
  aliasDefCol :: int

definition is_param_candidate :: "string \<Rightarrow> bool" where
  "is_param_candidate n \<longleftrightarrow> n \<noteq> [] \<and> isupper (hd n) \<and>
     list_all (\<lambda>c. isupper c \<or> isdigit c \<or> c = CHR ''_'') n"

text \<open>The names that look like type parameters, in the order of their first occurrence.\<close>

fun collect_params :: "string set \<Rightarrow> type_node \<Rightarrow> string list \<Rightarrow> string list" where
  "collect_params known (StructTypeRef n) out =
     (if n \<notin> known \<and> is_param_candidate n \<and> n \<notin> set out then out @ [n] else out)"
| "collect_params known (GenericStructTypeRef n as) out = fold (collect_params known) as out"
| "collect_params known (GenericListType e) out = collect_params known e out"
| "collect_params known (ArrayType e n) out = collect_params known e out"
| "collect_params known (MultiArrayType e n m) out = collect_params known e out"
| "collect_params known (MapType k v) out = collect_params known v (collect_params known k out)"
| "collect_params known (TupleType ts) out =
     fold (collect_params known) (case ts of None \<Rightarrow> [] | Some es \<Rightarrow> es) out"
| "collect_params known (PointerType e) out = collect_params known e out"
| "collect_params known (ReferenceType e m) out = collect_params known e out"
| "collect_params known _ out = out"

datatype alias_error =
  AliasOverlap string int int
| GenericAliasNeedsArguments string
| CyclicAlias string
| AliasTakesNoArguments string
| AliasArgumentCount string nat nat
| AliasBounds string

definition builtin_type_names :: "string set" where
  "builtin_type_names = set [''void'', ''bool'', ''str8'', ''str16'', ''list'', ''map'', ''tuple'', ''ptr'',
     ''i8'', ''i16'', ''i32'', ''i64'', ''u8'', ''u16'', ''u32'', ''u64'', ''f32'', ''f64'']"

text \<open>One definition of the program: the table, the names known so far and the errors.\<close>

definition add_alias ::
  "alias_def \<Rightarrow> alias_table \<times> string set \<times> alias_error list \<Rightarrow> alias_table \<times> string set \<times> alias_error list" where
  "add_alias d s =
     (case s of (tb, known, es) \<Rightarrow>
        case omap_find tb (aliasName d) of
          Some prev \<Rightarrow> (tb, known, es @ [AliasOverlap (aliasName d) (aliasLine prev) (aliasCol prev)])
        | None \<Rightarrow>
            (let params = (if aliasDefParams d = [] then collect_params known (aliasDefType d) []
                           else aliasDefParams d)
             in (omap_put (aliasName d)
                   \<lparr>aliasedType = aliasDefType d, aliasParams = params, aliasLine = aliasDefLine d,
                    aliasCol = aliasDefCol d\<rparr> tb,
                 insert (aliasName d) known, es)))"

text \<open>\<open>declared\<close> are the names of the program's structs, of the enums nested in them and of its
  enums.\<close>

definition buildTypeAliasTable :: "string set \<Rightarrow> alias_def list \<Rightarrow> alias_table \<times> alias_error list" where
  "buildTypeAliasTable declared ds =
     (case fold add_alias ds (omap_empty, builtin_type_names \<union> declared, []) of (tb, _, es) \<Rightarrow> (tb, es))"

text \<open>The last occurrence of a string.\<close>

fun rfind_str :: "string \<Rightarrow> string \<Rightarrow> nat option" where
  "rfind_str p [] = (if p = [] then Some 0 else None)"
| "rfind_str p (x # xs) =
     (case rfind_str p xs of
        Some i \<Rightarrow> Some (Suc i)
      | None \<Rightarrow> if starts_with p (x # xs) then Some 0 else None)"

text \<open>The name itself, or else what follows its last scope separator.\<close>

definition find_alias :: "alias_table \<Rightarrow> string \<Rightarrow> (string \<times> alias_info) option" where
  "find_alias tb n =
     (case omap_find tb n of
        Some info \<Rightarrow> Some (n, info)
      | None \<Rightarrow>
          (case rfind_str ''::'' n of
             None \<Rightarrow> None
           | Some scopePos \<Rightarrow>
               if scopePos + 2 < length n then
                 (let tail = drop (scopePos + 2) n
                  in map_option (\<lambda>info. (tail, info)) (omap_find tb tail))
               else None))"

lemma find_alias_key: "find_alias tb n = Some (a, info) \<Longrightarrow> a \<in> fst ` set tb"
  by (auto simp: find_alias_def omap_find_def Let_def split: option.splits if_splits dest!: map_of_SomeD)
    (force simp: image_iff)+

subsection \<open>Expansion\<close>

text \<open>\<open>bok\<close> is the check of the trait bounds of a generic alias, which looks into the tables of
  traits and concepts; \<open>scope\<close> are the type parameters in scope and \<open>st\<close> the stack of aliases being
  expanded.\<close>

type_synonym bounds_check = "alias_info \<Rightarrow> type_node list \<Rightarrow> bool"

definition aliases_left :: "alias_table \<Rightarrow> string list \<Rightarrow> nat" where
  "aliases_left tb st = length (filter (\<lambda>k. k \<notin> set st) (map fst tb))"

lemma aliases_left_push:
  assumes "a \<notin> set st" and "a \<in> fst ` set tb"
  shows "aliases_left tb (st @ [a]) < aliases_left tb st"
proof -
  have "filter (\<lambda>k. k \<notin> set (st @ [a])) ks = filter (\<lambda>k. k \<noteq> a) (filter (\<lambda>k. k \<notin> set st) ks)" for ks :: "string list"
    by (induction ks) auto
  moreover have "length (filter (\<lambda>k. k \<noteq> a) ys) < length ys" if "a \<in> set ys" for ys :: "string list"
    using that by (induction ys) (auto simp: less_Suc_eq_le)
  moreover have "a \<in> set (filter (\<lambda>k. k \<notin> set st) (map fst tb))" using assms by auto
  ultimately show ?thesis unfolding aliases_left_def by metis
qed

function (sequential) resolveTypeAliasNode ::
    "alias_table \<Rightarrow> bounds_check \<Rightarrow> string set \<Rightarrow> string list \<Rightarrow> type_node \<Rightarrow> type_node \<times> alias_error list"
  and resolve_types ::
    "alias_table \<Rightarrow> bounds_check \<Rightarrow> string set \<Rightarrow> string list \<Rightarrow> type_node list \<Rightarrow> type_node list \<times> alias_error list"
where
  "resolveTypeAliasNode tb bok scope st (GenericListType e) =
     (case resolveTypeAliasNode tb bok scope st e of (e', er) \<Rightarrow> (GenericListType e', er))"
| "resolveTypeAliasNode tb bok scope st (ArrayType e n) =
     (case resolveTypeAliasNode tb bok scope st e of (e', er) \<Rightarrow> (ArrayType e' n, er))"
| "resolveTypeAliasNode tb bok scope st (MultiArrayType e n m) =
     (case resolveTypeAliasNode tb bok scope st e of (e', er) \<Rightarrow> (MultiArrayType e' n m, er))"
| "resolveTypeAliasNode tb bok scope st (MapType k v) =
     (case resolveTypeAliasNode tb bok scope st k of (k', er) \<Rightarrow>
        case resolveTypeAliasNode tb bok scope st v of (v', er') \<Rightarrow> (MapType k' v', er @ er'))"
| "resolveTypeAliasNode tb bok scope st (TupleType (Some ts)) =
     (case resolve_types tb bok scope st ts of (ts', er) \<Rightarrow> (TupleType (Some ts'), er))"
| "resolveTypeAliasNode tb bok scope st (FunctionType None r) =
     (case resolveTypeAliasNode tb bok scope st r of (r', er) \<Rightarrow> (FunctionType None r', er))"
| "resolveTypeAliasNode tb bok scope st (FunctionType (Some ps) r) =
     (case resolve_types tb bok scope st ps of (ps', er) \<Rightarrow>
        case resolveTypeAliasNode tb bok scope st r of (r', er') \<Rightarrow> (FunctionType (Some ps') r', er @ er'))"
| "resolveTypeAliasNode tb bok scope st (PointerType e) =
     (case resolveTypeAliasNode tb bok scope st e of (e', er) \<Rightarrow> (PointerType e', er))"
| "resolveTypeAliasNode tb bok scope st (ReferenceType e m) =
     (case resolveTypeAliasNode tb bok scope st e of (e', er) \<Rightarrow> (ReferenceType e' m, er))"
| "resolveTypeAliasNode tb bok scope st (StructTypeRef n) =
     (if n \<in> scope then (StructTypeRef n, [])
      else case find_alias tb n of
        None \<Rightarrow> (StructTypeRef n, [])
      | Some (a, info) \<Rightarrow>
          if aliasParams info \<noteq> [] then (StructTypeRef n, [GenericAliasNeedsArguments n])
          else if a \<in> set st then (StructTypeRef n, [CyclicAlias n])
          else resolveTypeAliasNode tb bok scope (st @ [a]) (cloneTypeNode (aliasedType info)))"
| "resolveTypeAliasNode tb bok scope st (GenericStructTypeRef n as) =
     (case resolve_types tb bok scope st as of (as', er) \<Rightarrow>
        let t = GenericStructTypeRef n as'
        in if n \<in> scope then (t, er)
           else case find_alias tb n of
             None \<Rightarrow> (t, er)
           | Some (a, info) \<Rightarrow>
               if aliasParams info = [] then (t, er @ [AliasTakesNoArguments n])
               else if length as' \<noteq> length (aliasParams info)
               then (t, er @ [AliasArgumentCount n (length (aliasParams info)) (length as')])
               else if \<not> bok info as' then (t, er @ [AliasBounds n])
               else if a \<in> set st then (t, er @ [CyclicAlias n])
               else (case resolveTypeAliasNode tb bok scope (st @ [a])
                            (substituteTypeParams (aliasParams info) as' (cloneTypeNode (aliasedType info))) of
                       (t', er') \<Rightarrow> (t', er @ er')))"
| "resolveTypeAliasNode tb bok scope st t = (t, [])"
| "resolve_types tb bok scope st [] = ([], [])"
| "resolve_types tb bok scope st (t # ts) =
     (case resolveTypeAliasNode tb bok scope st t of (t', er) \<Rightarrow>
        case resolve_types tb bok scope st ts of (ts', er') \<Rightarrow> (t' # ts', er @ er'))"
  by pat_completeness auto
termination
  by (relation "inv_image (less_than <*lex*> less_than)
      (\<lambda>x. case x of Inl (tb, _, _, st, t) \<Rightarrow> (aliases_left tb st, size t)
             | Inr (tb, _, _, st, ts) \<Rightarrow> (aliases_left tb st, size_list size ts))")
    (auto simp: aliases_left_push find_alias_key)

subsection \<open>What an expansion achieves\<close>

text \<open>A type that mentions no alias.\<close>

fun alias_free :: "alias_table \<Rightarrow> string set \<Rightarrow> type_node \<Rightarrow> bool" where
  "alias_free tb scope (GenericListType e) = alias_free tb scope e"
| "alias_free tb scope (ArrayType e n) = alias_free tb scope e"
| "alias_free tb scope (MultiArrayType e n m) = alias_free tb scope e"
| "alias_free tb scope (MapType k v) \<longleftrightarrow> alias_free tb scope k \<and> alias_free tb scope v"
| "alias_free tb scope (TupleType ts) \<longleftrightarrow>
     (\<forall>t \<in> set (case ts of None \<Rightarrow> [] | Some us \<Rightarrow> us). alias_free tb scope t)"
| "alias_free tb scope (FunctionType ps r) \<longleftrightarrow>
     (\<forall>t \<in> set (case ps of None \<Rightarrow> [] | Some us \<Rightarrow> us). alias_free tb scope t) \<and> alias_free tb scope r"
| "alias_free tb scope (PointerType e) = alias_free tb scope e"
| "alias_free tb scope (ReferenceType e m) = alias_free tb scope e"
| "alias_free tb scope (StructTypeRef n) \<longleftrightarrow> n \<in> scope \<or> find_alias tb n = None"
| "alias_free tb scope (GenericStructTypeRef n as) \<longleftrightarrow>
     (n \<in> scope \<or> find_alias tb n = None) \<and> (\<forall>t \<in> set as. alias_free tb scope t)"
| "alias_free tb scope _ = True"

text \<open>The meaning of aliases, without stack and errors: a name stands for what its definition means.\<close>

inductive expands :: "alias_table \<Rightarrow> string set \<Rightarrow> type_node \<Rightarrow> type_node \<Rightarrow> bool"
  for tb :: alias_table and scope :: "string set" where
  "expands tb scope NullType NullType"
| "expands tb scope (PlainType k) (PlainType k)"
| "expands tb scope (TraitObjectType n) (TraitObjectType n)"
| "expands tb scope e e' \<Longrightarrow> expands tb scope (GenericListType e) (GenericListType e')"
| "expands tb scope e e' \<Longrightarrow> expands tb scope (ArrayType e n) (ArrayType e' n)"
| "expands tb scope e e' \<Longrightarrow> expands tb scope (MultiArrayType e n m) (MultiArrayType e' n m)"
| "expands tb scope e e' \<Longrightarrow> expands tb scope (PointerType e) (PointerType e')"
| "expands tb scope e e' \<Longrightarrow> expands tb scope (ReferenceType e m) (ReferenceType e' m)"
| "expands tb scope k k' \<Longrightarrow> expands tb scope v v' \<Longrightarrow> expands tb scope (MapType k v) (MapType k' v')"
| "expands tb scope (TupleType None) (TupleType None)"
| "list_all2 (expands tb scope) ts ts' \<Longrightarrow> expands tb scope (TupleType (Some ts)) (TupleType (Some ts'))"
| "expands tb scope r r' \<Longrightarrow> expands tb scope (FunctionType None r) (FunctionType None r')"
| "list_all2 (expands tb scope) ps ps' \<Longrightarrow> expands tb scope r r' \<Longrightarrow>
     expands tb scope (FunctionType (Some ps) r) (FunctionType (Some ps') r')"
| "n \<in> scope \<or> find_alias tb n = None \<Longrightarrow> expands tb scope (StructTypeRef n) (StructTypeRef n)"
| "n \<notin> scope \<Longrightarrow> find_alias tb n = Some (a, info) \<Longrightarrow> aliasParams info = [] \<Longrightarrow>
     expands tb scope (cloneTypeNode (aliasedType info)) t \<Longrightarrow> expands tb scope (StructTypeRef n) t"
| "n \<in> scope \<or> find_alias tb n = None \<Longrightarrow> list_all2 (expands tb scope) as as' \<Longrightarrow>
     expands tb scope (GenericStructTypeRef n as) (GenericStructTypeRef n as')"
| "n \<notin> scope \<Longrightarrow> find_alias tb n = Some (a, info) \<Longrightarrow> list_all2 (expands tb scope) as as' \<Longrightarrow>
     length (aliasParams info) = length as \<Longrightarrow>
     expands tb scope (substituteTypeParams (aliasParams info) as' (cloneTypeNode (aliasedType info))) t \<Longrightarrow>
     expands tb scope (GenericStructTypeRef n as) t"

lemma resolve_expands:
  "snd (resolveTypeAliasNode tb bok scope st t) = [] \<Longrightarrow>
     expands tb scope t (fst (resolveTypeAliasNode tb bok scope st t)) \<and>
     alias_free tb scope (fst (resolveTypeAliasNode tb bok scope st t))"
  "snd (resolve_types tb bok scope st ts) = [] \<Longrightarrow>
     list_all2 (expands tb scope) ts (fst (resolve_types tb bok scope st ts)) \<and>
     (\<forall>u \<in> set (fst (resolve_types tb bok scope st ts)). alias_free tb scope u)"
proof (induction tb bok scope st t and tb bok scope st ts rule: resolveTypeAliasNode_resolve_types.induct)
  case (10 tb bok scope st n)
  show ?case
  proof (cases "n \<in> scope \<or> find_alias tb n = None")
    case True
    then show ?thesis by (auto intro: expands.intros)
  next
    case False
    then obtain a info where f: "n \<notin> scope" "find_alias tb n = Some (a, info)" by auto
    with "10.prems" have g: "aliasParams info = []" "a \<notin> set st" by (auto split: if_splits)
    with f "10.IH" [OF f(1,2) refl] "10.prems" show ?thesis by (auto intro: expands.intros(15))
  qed
next
  case (11 tb bok scope st n as)
  obtain as' er where r: "resolve_types tb bok scope st as = (as', er)" by fastforce
  have er: "er = []" using "11.prems" r by (auto simp: Let_def split: if_splits option.splits prod.splits)
  with "11.IH"(1) r have as': "list_all2 (expands tb scope) as as'" "\<forall>u \<in> set as'. alias_free tb scope u" by auto
  show ?case
  proof (cases "n \<in> scope \<or> find_alias tb n = None")
    case True
    with r er as' show ?thesis by (auto simp: Let_def intro: expands.intros(16))
  next
    case False
    then obtain a info where f: "n \<notin> scope" "find_alias tb n = Some (a, info)" by auto
    with "11.prems" r er have g: "aliasParams info \<noteq> []" "length as' = length (aliasParams info)" "bok info as'" "a \<notin> set st"
      by (auto simp: Let_def split: if_splits)
    let ?t = "resolveTypeAliasNode tb bok scope (st @ [a])
        (substituteTypeParams (aliasParams info) as' (cloneTypeNode (aliasedType info)))"
    have eq: "resolveTypeAliasNode tb bok scope st (GenericStructTypeRef n as) = ?t"
      using r er f g by (simp add: Let_def split: prod.split)
    have len: "length (aliasParams info) = length as" using g(2) list_all2_lengthD [OF as'(1)] by simp
    have "snd ?t = []" using "11.prems" eq by simp
    then have "expands tb scope (substituteTypeParams (aliasParams info) as' (cloneTypeNode (aliasedType info))) (fst ?t) \<and>
      alias_free tb scope (fst ?t)"
      using "11.IH"(2) [OF r [symmetric] refl f(1,2) refl] g by simp
    then show ?thesis unfolding eq using expands.intros(17) [OF f as'(1) len] by blast
  qed
qed (auto simp: Let_def intro: expands.intros split: prod.splits)

lemma resolve_alias_free:
  "alias_free tb scope t \<Longrightarrow> resolveTypeAliasNode tb bok scope st t = (t, [])"
  "\<forall>u \<in> set ts. alias_free tb scope u \<Longrightarrow> resolve_types tb bok scope st ts = (ts, [])"
proof (induction tb bok scope st t and tb bok scope st ts rule: resolveTypeAliasNode_resolve_types.induct)
  case (10 tb bok scope st n)
  then show ?case by auto
next
  case (11 tb bok scope st n as)
  then show ?case by (auto simp: Let_def)
qed auto

text \<open>The table the program is checked with: two aliases of which one uses the other, and one that
  stands for itself.\<close>

definition sample_aliases :: alias_table where
  "sample_aliases = fst (buildTypeAliasTable {}
     [\<lparr>aliasName = ''Id'', aliasDefType = PlainType TYPE_U64, aliasDefParams = [], aliasDefLine = 1, aliasDefCol = 1\<rparr>,
      \<lparr>aliasName = ''Table'', aliasDefType = MapType (StructTypeRef ''Id'') (GenericListType (StructTypeRef ''T'')),
       aliasDefParams = [], aliasDefLine = 2, aliasDefCol = 1\<rparr>,
      \<lparr>aliasName = ''Loop'', aliasDefType = PointerType (StructTypeRef ''Loop''), aliasDefParams = [],
       aliasDefLine = 3, aliasDefCol = 1\<rparr>])"

lemma sample_aliases_eq:
  "sample_aliases =
     [(''Id'', \<lparr>aliasedType = PlainType TYPE_U64, aliasParams = [], aliasLine = 1, aliasCol = 1\<rparr>),
      (''Loop'', \<lparr>aliasedType = PointerType (StructTypeRef ''Loop''), aliasParams = [], aliasLine = 3, aliasCol = 1\<rparr>),
      (''Table'', \<lparr>aliasedType = MapType (StructTypeRef ''Id'') (GenericListType (StructTypeRef ''T'')),
         aliasParams = [''T''], aliasLine = 2, aliasCol = 1\<rparr>)]"
  by (simp add: sample_aliases_def buildTypeAliasTable_def add_alias_def omap_find_def omap_empty_def
      is_param_candidate_def builtin_type_names_def isupper_def isdigit_def)

text \<open>C14. Expanding the aliases of a type ends for every table, cyclic ones included; when it reports
  no error the result is what the type means if each alias stands for its definition, it mentions
  no alias any more, and expanding it again, at any depth, changes nothing.\<close>

theorem alias_expansion_sound:
  assumes "resolveTypeAliasNode tb bok scope [] t = (t', [])"
  shows "expands tb scope t t' \<and> alias_free tb scope t' \<and> resolveTypeAliasNode tb bok' scope st t' = (t', [])"
  using resolve_expands(1) [of tb bok scope "[]" t] assms by (simp add: resolve_alias_free(1))

lemma alias_expansion_sound_witness:
  "expands sample_aliases {} (GenericStructTypeRef ''ns::Table'' [StructTypeRef ''Id''])
     (MapType (PlainType TYPE_U64) (GenericListType (PlainType TYPE_U64))) \<and>
   resolveTypeAliasNode sample_aliases (\<lambda>_ _. True) {} [] (StructTypeRef ''Loop'') =
     (PointerType (StructTypeRef ''Loop''), [CyclicAlias ''Loop''])"
proof -
  have f: "find_alias sample_aliases ''ns::Table'' =
      Some (''Table'', \<lparr>aliasedType = MapType (StructTypeRef ''Id'') (GenericListType (StructTypeRef ''T'')),
         aliasParams = [''T''], aliasLine = 2, aliasCol = 1\<rparr>)"
    "find_alias sample_aliases ''Id'' =
      Some (''Id'', \<lparr>aliasedType = PlainType TYPE_U64, aliasParams = [], aliasLine = 1, aliasCol = 1\<rparr>)"
    "find_alias sample_aliases ''Loop'' =
      Some (''Loop'', \<lparr>aliasedType = PointerType (StructTypeRef ''Loop''), aliasParams = [], aliasLine = 3, aliasCol = 1\<rparr>)"
    by (simp_all add: find_alias_def sample_aliases_eq omap_find_def starts_with_def)
  have "resolveTypeAliasNode sample_aliases (\<lambda>_ _. True) {} [] (GenericStructTypeRef ''ns::Table'' [StructTypeRef ''Id'']) =
    (MapType (PlainType TYPE_U64) (GenericListType (PlainType TYPE_U64)), [])"
    by (simp add: f Let_def)
  from alias_expansion_sound [OF this] show ?thesis by (simp add: f)
qed

end
