(* ===== verification/Overload_Names.thy ===== *)
theory Overload_Names
  imports Type_Aliases "HOL-Library.Word"
begin

text \<open>
  Names and constraints that decide between overloads: the names of literal operators
  (\<^verbatim>\<open>include/literal_operators.h\<close>), the order of concept constraints
  (\<^verbatim>\<open>include/concepts.h\<close>), and the keys and symbols of functions (\<^verbatim>\<open>src/module.cpp\<close>,
  \<^verbatim>\<open>src/ir/function_overloads.cpp\<close>, \<^verbatim>\<open>src/ir/common.cpp\<close>).
\<close>

unbundle bit_operations_syntax

subsection \<open>Literal operators\<close>

definition inputName :: "type_kind \<Rightarrow> string option" where
  "inputName k =
     (case k of TYPE_U64 \<Rightarrow> Some ''u64'' | TYPE_DOUBLE \<Rightarrow> Some ''f64'' | TYPE_STR8 \<Rightarrow> Some ''str8'' | _ \<Rightarrow> None)"

definition literal_prefix :: string where
  "literal_prefix = ''__mlang_literal$''"

definition input_text :: "type_kind \<Rightarrow> string" where
  "input_text k = (case inputName k of Some i \<Rightarrow> i | None \<Rightarrow> ''invalid'')"

definition operatorName :: "string \<Rightarrow> type_kind \<Rightarrow> string" where
  "operatorName sfx k = literal_prefix @ input_text k @ ''$'' @ sfx"

text \<open>The suffix and the input type, or \<^const>\<open>None\<close> for other names.\<close>

definition decodeOperatorName :: "string \<Rightarrow> (string \<times> string) option" where
  "decodeOperatorName n =
     (case rfind_str literal_prefix n of
        None \<Rightarrow> None
      | Some start \<Rightarrow>
          if start \<noteq> 0 \<and> (start < 2 \<or> substr n (start - 2) 2 \<noteq> ''::'') then None
          else
            (let from = start + length literal_prefix
             in case find_char_from CHR ''$'' n from of
                  None \<Rightarrow> None
                | Some separator \<Rightarrow>
                    Some (drop (separator + 1) n, substr n from (separator - from))))"

lemma rfind_str_last: "rfind_str p s = Some i \<longleftrightarrow>
    i \<le> length s \<and> starts_with p (drop i s) \<and> (\<forall>j. i < j \<longrightarrow> j \<le> length s \<longrightarrow> \<not> starts_with p (drop j s))"
proof (induction s arbitrary: i)
  case Nil
  then show ?case by (auto simp: starts_with_def)
next
  case (Cons x xs)
  show ?case
  proof (cases "\<exists>j \<le> length xs. starts_with p (drop j xs)")
    case True
    then have "\<exists>k. rfind_str p xs = Some k"
    proof -
      let ?J = "{j. j \<le> length xs \<and> starts_with p (drop j xs)}"
      have "finite ?J" "?J \<noteq> {}" using True by auto
      then have "Max ?J \<in> ?J" "\<forall>j \<in> ?J. j \<le> Max ?J" using Max_in [of ?J] Max_ge [of ?J] by blast+
      then obtain k where "k \<le> length xs" "starts_with p (drop k xs)"
        "\<And>j. j \<le> length xs \<Longrightarrow> starts_with p (drop j xs) \<Longrightarrow> j \<le> k" by blast
      then have "rfind_str p xs = Some k" unfolding Cons.IH by fastforce
      then show ?thesis ..
    qed
    then obtain k where k: "rfind_str p xs = Some k" ..
    then have k': "k \<le> length xs" "starts_with p (drop k xs)"
      "\<And>j. k < j \<Longrightarrow> j \<le> length xs \<Longrightarrow> \<not> starts_with p (drop j xs)" using Cons.IH by blast+
    have "(i \<le> length (x # xs) \<and> starts_with p (drop i (x # xs)) \<and>
      (\<forall>j. i < j \<longrightarrow> j \<le> length (x # xs) \<longrightarrow> \<not> starts_with p (drop j (x # xs)))) \<longleftrightarrow> i = Suc k"
    proof
      assume a: "i \<le> length (x # xs) \<and> starts_with p (drop i (x # xs)) \<and>
        (\<forall>j. i < j \<longrightarrow> j \<le> length (x # xs) \<longrightarrow> \<not> starts_with p (drop j (x # xs)))"
      then have "\<not> i < Suc k" using k'(1,2) by (metis Suc_le_mono drop_Suc_Cons length_Cons)
      moreover have "\<not> Suc k < i" using a k'(3) [of "i - 1"] by (cases i) auto
      ultimately show "i = Suc k" by simp
    next
      assume i: "i = Suc k"
      have "\<not> starts_with p (drop j (x # xs))" if "Suc k < j" "j \<le> length (x # xs)" for j
        using that k'(3) [of "j - 1"] by (cases j) auto
      with i k' show "i \<le> length (x # xs) \<and> starts_with p (drop i (x # xs)) \<and>
        (\<forall>j. i < j \<longrightarrow> j \<le> length (x # xs) \<longrightarrow> \<not> starts_with p (drop j (x # xs)))" by simp
    qed
    with k show ?thesis by auto
  next
    case False
    then have none: "rfind_str p xs = None" using Cons.IH by (metis option.exhaust)
    have "\<not> starts_with p (drop j (x # xs))" if "0 < j" "j \<le> length (x # xs)" for j
      using that False by (cases j) auto
    moreover from this have "i = 0" if "i \<le> length (x # xs)" "starts_with p (drop i (x # xs))"
      using that by blast
    ultimately show ?thesis using none by auto
  qed
qed

lemma operator_prefix_only:
  assumes "CHR ''$'' \<notin> set sfx" and "starts_with literal_prefix (drop j (operatorName sfx k))"
  shows "j = 0"
proof (rule ccontr)
  assume "j \<noteq> 0"
  let ?n = "operatorName sfx k"
  have lp: "length literal_prefix = 16" "literal_prefix ! 15 = CHR ''$''"
    "\<And>i. i < 15 \<Longrightarrow> literal_prefix ! i \<noteq> CHR ''$''"
    by (auto simp: literal_prefix_def nth_Cons' numeral_eq_Suc less_Suc_eq)
  have il: "length (input_text k) \<le> 7" "CHR ''$'' \<notin> set (input_text k)"
    by (auto simp: input_text_def inputName_def split: type_kind.splits)
  obtain r where r: "drop j ?n = literal_prefix @ r" using assms(2) unfolding starts_with_conv by blast
  have at: "j + i < length ?n \<and> ?n ! (j + i) = literal_prefix ! i" if "i < 16" for i
  proof -
    have "length (drop j ?n) = 16 + length r" using r lp(1) by simp
    then have len: "j + i < length ?n" using that by simp
    then have "?n ! (j + i) = drop j ?n ! i" by simp
    also have "\<dots> = literal_prefix ! i" unfolding r using that lp(1) by (simp add: nth_append)
    finally show ?thesis using len by simp
  qed
  have n15: "?n ! 15 = CHR ''$''" using lp by (simp add: operatorName_def nth_append)
  show False
  proof (cases "j \<le> 15")
    case True
    with at [of "15 - j"] lp(3) [of "15 - j"] n15 \<open>j \<noteq> 0\<close> show False by simp
  next
    case False
    define m where "m = j + 15 - 16"
    have d: "(input_text k @ ''$'' @ sfx) ! m = CHR ''$''" "m < length (input_text k @ ''$'' @ sfx)"
      using at [of 15] lp False by (auto simp: operatorName_def nth_append m_def)
    have "\<not> length (input_text k) < m"
    proof
      assume "length (input_text k) < m"
      then have "(input_text k @ ''$'' @ sfx) ! m = sfx ! (m - length (input_text k) - 1)"
        "m - length (input_text k) - 1 < length sfx"
        using d(2) by (auto simp: nth_append)
      with d(1) assms(1) show False by (metis nth_mem)
    qed
    with il(1) False show False by (simp add: m_def)
  qed
qed

lemma decode_operator:
  assumes "CHR ''$'' \<notin> set sfx" and "scp = [] \<or> ends_with ''::'' scp"
  shows "decodeOperatorName (scp @ operatorName sfx k) = Some (sfx, input_text k)"
proof -
  let ?o = "operatorName sfx k" let ?n = "scp @ ?o" let ?i = "input_text k"
  have il: "CHR ''$'' \<notin> set ?i"
    by (auto simp: input_text_def inputName_def split: type_kind.splits)
  have "rfind_str literal_prefix ?n = Some (length scp)"
    unfolding rfind_str_last
  proof (intro conjI allI impI)
    show "starts_with literal_prefix (drop (length scp) ?n)" by (simp add: operatorName_def)
    fix j assume j: "length scp < j"
    then have "drop j ?n = drop (j - length scp) ?o" by simp
    with operator_prefix_only [OF assms(1), of "j - length scp" k] j
    show "\<not> starts_with literal_prefix (drop j ?n)" by auto
  qed simp
  moreover have "\<not> (length scp \<noteq> 0 \<and> (length scp < 2 \<or> substr ?n (length scp - 2) 2 \<noteq> ''::''))"
  proof (cases "scp = []")
    case False
    with assms(2) have e: "2 \<le> length scp" "drop (length scp - 2) scp = ''::''" by (auto simp: ends_with_def numeral_2_eq_2)
    then have "substr ?n (length scp - 2) 2 = ''::''" by (simp add: substr_def)
    with e show ?thesis by simp
  qed simp
  moreover have d: "drop (length scp + length literal_prefix) ?n = ?i @ CHR ''$'' # sfx"
    by (simp add: operatorName_def)
  moreover have "find_char_from CHR ''$'' ?n (length scp + length literal_prefix) =
      Some (length scp + length literal_prefix + length ?i)"
    unfolding find_char_from_def d using il by (simp add: find_char_append)
  moreover have "drop (length scp + length literal_prefix + length ?i + 1) ?n = sfx"
    by (simp add: operatorName_def)
  moreover have "substr ?n (length scp + length literal_prefix) (length ?i) = ?i"
    unfolding substr_def d by simp
  ultimately show ?thesis unfolding decodeOperatorName_def by (simp add: Let_def)
qed

text \<open>The innermost scope around a use that has the operator; \<open>contains\<close> is the lookup.\<close>

lemma rfind_str_less: "rfind_str p s = Some i \<Longrightarrow> p \<noteq> [] \<Longrightarrow> i < length s"
  by (auto simp: rfind_str_last starts_with_def order.order_iff_strict)

function scopedOperatorName :: "(string \<Rightarrow> bool) \<Rightarrow> string \<Rightarrow> string \<Rightarrow> string" where
  "scopedOperatorName contains n scp =
     (if scp = [] then n
      else if contains (scp @ ''::'' @ n) then scp @ ''::'' @ n
      else case rfind_str ''::'' scp of
             None \<Rightarrow> n
           | Some separator \<Rightarrow> scopedOperatorName contains n (take separator scp))"
  by pat_completeness auto
termination
  by (relation "measure (\<lambda>(_, _, scp). length scp)") (auto dest: rfind_str_less)

declare scopedOperatorName.simps [simp del]

definition isBuiltinResult :: "type_kind \<Rightarrow> bool" where
  "isBuiltinResult k \<longleftrightarrow> k \<in> {TYPE_BOOL, TYPE_BIT, TYPE_INT, TYPE_I8, TYPE_I16, TYPE_I32, TYPE_I64,
     TYPE_U8, TYPE_U16, TYPE_U32, TYPE_U64, TYPE_FLOAT, TYPE_DOUBLE, TYPE_STR8, TYPE_STR16}"

text \<open>The name under which a literal operator is stored is decoded to its suffix and input type
  again, in whatever scope it is nested; the three input types have different names.\<close>

theorem literal_operator_round_trip:
  assumes "CHR ''$'' \<notin> set sfx" and "scp = [] \<or> ends_with ''::'' scp" and "inputName k = Some i"
  shows "decodeOperatorName (scp @ operatorName sfx k) = Some (sfx, i) \<and>
    (\<forall>k'. inputName k' = Some i \<longrightarrow> k' = k)"
proof -
  have "input_text k = i" using assms(3) by (simp add: input_text_def)
  moreover have "k' = k" if "inputName k' = Some i" for k'
    using that assms(3) by (auto simp: inputName_def split: type_kind.splits)
  ultimately show ?thesis using decode_operator [OF assms(1,2)] by simp
qed

lemma literal_operator_round_trip_witness:
  "decodeOperatorName (''units::'' @ operatorName ''km'' TYPE_U64) = Some (''km'', ''u64'')"
  using literal_operator_round_trip [of "''km''" "''units::''" TYPE_U64 "''u64''"]
  by (simp add: ends_with_def inputName_def)

subsection \<open>Concept constraints\<close>

text \<open>A printed clause stands for the expression of a \<^verbatim>\<open>requires\<close>. A function made from a generic one
  carries the constraints of its origin.\<close>

record own_constraints =
  requiresClause :: "string option"
  typeParamTraitBounds :: "(string, string) omap"

record function_constraints =
  own :: own_constraints
  genericOrigin :: "own_constraints option"
  constraintTerms :: "string set list"

definition constraintKey :: "function_constraints \<Rightarrow> string" where
  "constraintKey f =
     (let c = (case genericOrigin f of Some g \<Rightarrow> g | None \<Rightarrow> own f)
      in (case requiresClause c of None \<Rightarrow> [] | Some r \<Rightarrow> ''requires:'' @ r) @
         concat (map (\<lambda>(p, b). '';'' @ p @ '':'' @ b) (typeParamTraitBounds c)))"

definition constraintSymbol :: "function_constraints \<Rightarrow> string" where
  "constraintSymbol f =
     (let key = constraintKey f
      in if key = [] then []
         else ''_constraint_'' @
           dec_str (unat (fold (\<lambda>b h. (h XOR of_nat (byte_of b)) * 1099511628211) key (14695981039346656037 :: 64 word))))"

definition implies :: "string set list \<Rightarrow> string set list \<Rightarrow> bool" where
  "implies left right \<longleftrightarrow> list_all (\<lambda>term. list_ex (\<lambda>weaker. weaker \<subseteq> term) right) left"

definition terms_of :: "function_constraints \<Rightarrow> string set list" where
  "terms_of f = (if constraintTerms f = [] then [{}] else constraintTerms f)"

text \<open>\<open>None\<close> is the null pointer.\<close>

definition moreConstrained :: "function_constraints option \<Rightarrow> function_constraints option \<Rightarrow> bool" where
  "moreConstrained left right =
     (case (left, right) of
        (Some l, Some r) \<Rightarrow>
          if (genericOrigin l \<noteq> None) \<noteq> (genericOrigin r \<noteq> None) then genericOrigin l = None
          else implies (terms_of l) (terms_of r) \<and> \<not> implies (terms_of r) (terms_of l)
      | _ \<Rightarrow> False)"

lemma implies_refl: "implies ts ts"
  by (auto simp: implies_def list_all_iff list_ex_iff)

lemma implies_trans: "implies a b \<Longrightarrow> implies b c \<Longrightarrow> implies a c"
  unfolding implies_def list_all_iff list_ex_iff by (meson order_trans)

text \<open>The meaning of terms: a disjunction of conjunctions of atoms.\<close>

definition satisfied :: "string set \<Rightarrow> string set list \<Rightarrow> bool" where
  "satisfied facts ts \<longleftrightarrow> (\<exists>t \<in> set ts. t \<subseteq> facts)"

text \<open>Constraint subsumption is logical implication of the normal forms, and "more constrained"
  is a strict order on overloads, so the choice of the most constrained one is well defined: no
  overload beats itself and no two beat each other, not even through a third one; a function
  that is not generic beats every generic one.\<close>

theorem constraint_order:
  "(implies ts us \<longleftrightarrow> (\<forall>facts. satisfied facts ts \<longrightarrow> satisfied facts us)) \<and>
   \<not> moreConstrained f f \<and>
   (moreConstrained f g \<and> moreConstrained g h \<longrightarrow> moreConstrained f h) \<and>
   \<not> (moreConstrained f g \<and> moreConstrained g f)"
proof (intro conjI)
  show "implies ts us \<longleftrightarrow> (\<forall>facts. satisfied facts ts \<longrightarrow> satisfied facts us)"
  proof
    assume "implies ts us"
    then show "\<forall>facts. satisfied facts ts \<longrightarrow> satisfied facts us"
      unfolding implies_def satisfied_def list_all_iff list_ex_iff by (meson order_trans)
  next
    assume a: "\<forall>facts. satisfied facts ts \<longrightarrow> satisfied facts us"
    show "implies ts us" unfolding implies_def list_all_iff list_ex_iff
    proof
      fix t assume "t \<in> set ts"
      then have "satisfied t ts" by (auto simp: satisfied_def)
      with a show "\<exists>w \<in> set us. w \<subseteq> t" by (auto simp: satisfied_def)
    qed
  qed
  show "\<not> moreConstrained f f"
    by (auto simp: moreConstrained_def implies_refl split: option.splits)
  show "moreConstrained f g \<and> moreConstrained g h \<longrightarrow> moreConstrained f h"
    by (auto simp: moreConstrained_def split: option.splits if_splits intro: implies_trans)
  show "\<not> (moreConstrained f g \<and> moreConstrained g f)"
    by (auto simp: moreConstrained_def split: option.splits if_splits)
qed

definition constrained_by :: "string set list \<Rightarrow> function_constraints option" where
  "constrained_by ts = Some \<lparr>own = \<lparr>requiresClause = None, typeParamTraitBounds = []\<rparr>, genericOrigin = None,
     constraintTerms = ts\<rparr>"

lemma constraint_order_witness:
  "moreConstrained (constrained_by [{''Eq'', ''Ord''}]) (constrained_by [])"
proof -
  have "moreConstrained (constrained_by [{''Eq'', ''Ord''}]) (constrained_by [{''Eq''}])"
    "moreConstrained (constrained_by [{''Eq''}]) (constrained_by [])"
    by (simp_all add: moreConstrained_def constrained_by_def implies_def terms_of_def)
  then show ?thesis using constraint_order by blast
qed

subsection \<open>Module families\<close>

definition is_nested :: "string \<Rightarrow> string \<Rightarrow> bool" where
  "is_nested parent child \<longleftrightarrow> length parent < length child \<and> take (length parent) child = parent \<and>
     substr child (length parent) 2 = ''::''"

definition is_same_module_family :: "string \<Rightarrow> string \<Rightarrow> bool" where
  "is_same_module_family a b =
     (if a = [] \<or> b = [] then a = b else if a = b then True else is_nested a b \<or> is_nested b a)"

text \<open>Visibility of an overload at a call, from its source module and the current one.\<close>

definition isOverloadVisible :: "string \<Rightarrow> bool \<Rightarrow> string \<Rightarrow> bool" where
  "isOverloadVisible sourceModule isPublic currentModule =
     (if sourceModule = [] then True
      else if is_same_module_family sourceModule currentModule then True else isPublic)"

lemma is_nested_conv: "is_nested p c \<longleftrightarrow> (\<exists>r. c = p @ ''::'' @ r)"
proof
  assume n: "is_nested p c"
  have "c = take (length p) c @ take 2 (drop (length p) c) @ drop 2 (drop (length p) c)"
    by (simp only: append_take_drop_id)
  with n show "\<exists>r. c = p @ ''::'' @ r" unfolding is_nested_def substr_def by metis
qed (auto simp: is_nested_def substr_def)

lemma module_family_sym: "is_same_module_family a b = is_same_module_family b a"
  by (auto simp: is_same_module_family_def)

end
