(* ===== verification/Module_Imports.thy ===== *)
theory Module_Imports
  imports Overload_Names
begin

text \<open>
  Imports between modules (\<^verbatim>\<open>processUseDeclarations\<close> of \<^verbatim>\<open>src/module.cpp\<close>): what a \<^verbatim>\<open>use\<close>
  declaration adds to a program, which items it may name, and the errors it reports. The nodes of
  a program are values with an identity (the address of the node); their field
  \<^verbatim>\<open>sourceModule\<close>, which is written through pointers that modules share, is kept in a store
  \<open>owner\<close> from identities to names. Lists of nodes hold no null pointer.
\<close>

subsection \<open>Programs\<close>

text \<open>The number of the allocation and the index of the node in it.\<close>

type_synonym node_id = "nat \<times> nat"

record module_function =
  fn_id :: node_id
  fn_name :: string
  fn_params :: "type_node option list"
  fn_vararg :: bool
  fn_constraints :: function_constraints
  fn_public :: bool

record module_struct =
  st_id :: node_id
  st_name :: string
  st_public :: bool
  st_methods :: "node_id list"

record module_impl =
  im_struct :: string
  im_methods :: "(node_id \<times> string) list"

record module_enum =
  en_id :: node_id
  en_name :: string
  en_public :: bool

record module_trait =
  tr_id :: node_id
  tr_name :: string

record module_concept =
  co_id :: node_id
  co_name :: string
  co_public :: bool

record module_alias =
  ta_name :: string
  ta_type :: type_node

record use_decl =
  use_module :: string
  use_item :: string
  use_alias :: string
  use_all :: bool
  use_moduleAlias :: bool

record mod_decl =
  mod_name :: string
  mod_filePath :: string

record program =
  p_functions :: "module_function list"
  p_structs :: "module_struct list"
  p_impls :: "module_impl list"
  p_enums :: "module_enum list"
  p_aliases :: "module_alias list"
  p_traits :: "module_trait list"
  p_concepts :: "module_concept list"
  p_asms :: "node_id list"
  p_mods :: "mod_decl list"
  p_uses :: "use_decl list"

text \<open>The part of the heap the loader writes: the field \<^verbatim>\<open>sourceModule\<close> of every node, and the
  number of the next allocation.\<close>

record node_store =
  owner :: "node_id \<Rightarrow> string"
  next_alloc :: nat

definition set_owner_if_empty :: "string \<Rightarrow> node_id \<Rightarrow> node_store \<Rightarrow> node_store" where
  "set_owner_if_empty m i s = (if owner s i = [] then s\<lparr>owner := (owner s)(i := m)\<rparr> else s)"

definition set_owner :: "string \<Rightarrow> node_id \<Rightarrow> node_store \<Rightarrow> node_store" where
  "set_owner m i s = s\<lparr>owner := (owner s)(i := m)\<rparr>"

datatype load_error =
  CircularImport string
| ModuleNotFound string string
| ParseFailed string
| ModuleNotLoaded string
| AmbiguousLiteral string string
| PrivateItem string string string
| ItemNotFound string string
| CannotAlias string string

subsection \<open>Signature keys\<close>

definition param_mangle :: "type_node option \<Rightarrow> string" where
  "param_mangle p = (case p of None \<Rightarrow> ''unknown'' | Some t \<Rightarrow> type_mangle t)"

definition function_signature_key :: "module_function \<Rightarrow> string" where
  "function_signature_key f =
     fn_name f @ ''('' @ joined '','' (map param_mangle (fn_params f)) @
     (if fn_vararg f then (if fn_params f = [] then [] else '','') @ ''...'' else []) @ '')'' @
     (let constraints = constraintKey (fn_constraints f)
      in if constraints = [] then [] else '' requires '' @ constraints)"

subsection \<open>Merging lists\<close>

definition add_new :: "('a \<Rightarrow> 'a \<Rightarrow> bool) \<Rightarrow> 'a \<Rightarrow> 'a list \<Rightarrow> 'a list" where
  "add_new same x xs = (if list_ex (\<lambda>e. same e x) xs then xs else xs @ [x])"

text \<open>A function of the module against the functions of the program: an entry with the same key is
  kept, or replaced if it is private and the other public; two public literal operators with the
  same key are an error. As in the source, what was changed before an error stays changed: a step
  returns its state and, if it failed, the error.\<close>

definition ambiguous_literal :: "(node_id \<Rightarrow> string) \<Rightarrow> module_function \<Rightarrow> module_function \<Rightarrow> bool" where
  "ambiguous_literal ow existing func \<longleftrightarrow>
     fn_id existing \<noteq> fn_id func \<and> ow (fn_id existing) \<noteq> ow (fn_id func) \<and>
     (ow (fn_id existing) = [] \<or> fn_public existing) \<and> (ow (fn_id func) = [] \<or> fn_public func) \<and>
     decodeOperatorName (fn_name func) \<noteq> None"

fun merge_function ::
  "(node_id \<Rightarrow> string) \<Rightarrow> module_function \<Rightarrow> module_function list \<Rightarrow> load_error + module_function list" where
  "merge_function ow func [] = Inr [func]"
| "merge_function ow func (existing # es) =
     (if function_signature_key existing = function_signature_key func then
        (if ambiguous_literal ow existing func
         then Inl (case decodeOperatorName (fn_name func) of
                     Some (sfx, input) \<Rightarrow> AmbiguousLiteral sfx input | None \<Rightarrow> AmbiguousLiteral [] [])
         else Inr ((if \<not> fn_public existing \<and> fn_public func then func else existing) # es))
      else case merge_function ow func es of Inl e \<Rightarrow> Inl e | Inr es' \<Rightarrow> Inr (existing # es'))"

fun import_functions ::
  "string \<Rightarrow> module_function list \<Rightarrow> module_function list \<times> node_store \<Rightarrow>
     (module_function list \<times> node_store) \<times> load_error option" where
  "import_functions m [] r = (r, None)"
| "import_functions m (func # rest) r =
     (let s' = set_owner_if_empty m (fn_id func) (snd r)
      in case merge_function (owner s') func (fst r) of
           Inl e \<Rightarrow> ((fst r, s'), Some e)
         | Inr fs' \<Rightarrow> import_functions m rest (fs', s'))"

definition import_struct :: "string \<Rightarrow> module_struct \<Rightarrow> module_struct list \<times> node_store \<Rightarrow> module_struct list \<times> node_store" where
  "import_struct m d r =
     (add_new (\<lambda>e x. st_name e = st_name x) d (fst r),
      fold (set_owner_if_empty m) (st_methods d) (set_owner m (st_id d) (snd r)))"

definition same_impl :: "module_impl \<Rightarrow> module_impl \<Rightarrow> bool" where
  "same_impl e x \<longleftrightarrow> im_struct e = im_struct x \<and> map snd (im_methods e) = map snd (im_methods x)"

definition import_impl :: "string \<Rightarrow> module_impl \<Rightarrow> module_impl list \<times> node_store \<Rightarrow> module_impl list \<times> node_store" where
  "import_impl m d r =
     (add_new same_impl d (fst r), fold (set_owner_if_empty m) (map fst (im_methods d)) (snd r))"

definition import_enum :: "string \<Rightarrow> module_enum \<Rightarrow> module_enum list \<times> node_store \<Rightarrow> module_enum list \<times> node_store" where
  "import_enum m d r =
     (add_new (\<lambda>e x. en_name e = en_name x) d (fst r), set_owner_if_empty m (en_id d) (snd r))"

subsection \<open>Aliases of modules\<close>

text \<open>\<^verbatim>\<open>new FunctionDefNode(*func)\<close>: a copy with an identity of its own and the fields of the original.\<close>

definition copy_node :: "node_id \<Rightarrow> node_store \<Rightarrow> node_id \<times> node_store" where
  "copy_node i s =
     (let j = (next_alloc s, 0) in (j, s\<lparr>owner := (owner s)(j := owner s i), next_alloc := Suc (next_alloc s)\<rparr>))"

definition resolve_module_alias :: "(string \<rightharpoonup> string) \<Rightarrow> string \<Rightarrow> string" where
  "resolve_module_alias aliases rawModule =
     (let sep = find_str ''::'' rawModule;
          head = (case sep of None \<Rightarrow> rawModule | Some i \<Rightarrow> take i rawModule)
      in case aliases head of
           None \<Rightarrow> rawModule
         | Some target \<Rightarrow> (case sep of None \<Rightarrow> target | Some i \<Rightarrow> target @ drop i rawModule))"

definition same_key :: "module_function \<Rightarrow> module_function \<Rightarrow> bool" where
  "same_key e x \<longleftrightarrow> function_signature_key e = function_signature_key x"

text \<open>Entering a copy of a function, or of a concept, under another name.\<close>

definition alias_function ::
  "string \<Rightarrow> string \<Rightarrow> module_function \<Rightarrow> module_function list \<times> node_store \<Rightarrow> module_function list \<times> node_store" where
  "alias_function newName m func r =
     (case copy_node (fn_id func) (snd r) of (j, s1) \<Rightarrow>
        (add_new same_key (func\<lparr>fn_id := j, fn_name := newName\<rparr>) (fst r), set_owner_if_empty m j s1))"

definition alias_concept ::
  "string \<Rightarrow> module_concept \<Rightarrow> module_concept list \<times> node_store \<Rightarrow> module_concept list \<times> node_store" where
  "alias_concept newName d r =
     (case copy_node (co_id d) (snd r) of (j, s1) \<Rightarrow> (fst r @ [d\<lparr>co_id := j, co_name := newName\<rparr>], s1))"

text \<open>The state of the loop over the \<^verbatim>\<open>use\<close> declarations of a program.\<close>

record use_state =
  us_aliases :: "string \<rightharpoonup> string"
  us_program :: program
  us_store :: node_store

type_synonym module_table = "string \<rightharpoonup> program"

definition bind_module_alias :: "module_table \<Rightarrow> use_decl \<Rightarrow> string \<Rightarrow> use_state \<Rightarrow> use_state \<times> load_error option" where
  "bind_module_alias getModule u target s =
     (case getModule target of
        None \<Rightarrow> (s, Some (ModuleNotLoaded target))
      | Some am \<Rightarrow>
          (let p = us_program s;
               r1 = fold (\<lambda>func r. if fn_name func = [] then r
                                  else alias_function (use_alias u @ ''::'' @ fn_name func) target func r)
                      (p_functions am) (p_functions p, us_store s);
               r2 = fold (\<lambda>d r. if list_ex (\<lambda>e. co_name e = use_alias u @ ''::'' @ co_name d) (fst r) then r
                               else alias_concept (use_alias u @ ''::'' @ co_name d) d r)
                      (p_concepts am) (p_concepts p, snd r1)
           in (s\<lparr>us_aliases := (us_aliases s)(use_alias u \<mapsto> target),
                 us_program := p\<lparr>p_functions := fst r1, p_concepts := fst r2\<rparr>,
                 us_store := snd r2\<rparr>, None)))"

subsection \<open>Checking a named item\<close>

definition item_found :: "string \<Rightarrow> string \<Rightarrow> string \<Rightarrow> program \<Rightarrow> load_error option" where
  "item_found currentModule m item p =
     (let fns = filter (\<lambda>f. fn_name f = item) (p_functions p);
          family = is_same_module_family currentModule m
      in if fns \<noteq> [] then
           (if \<not> list_ex fn_public fns \<and> \<not> family then Some (PrivateItem ''function'' item m) else None)
         else case find (\<lambda>d. st_name d = item) (p_structs p) of
           Some d \<Rightarrow> if \<not> st_public d \<and> \<not> family then Some (PrivateItem ''struct'' item m) else None
         | None \<Rightarrow>
             if list_ex (\<lambda>d. ta_name d = item) (p_aliases p) then None
             else case find (\<lambda>d. en_name d = item) (p_enums p) of
               Some d \<Rightarrow> if \<not> en_public d \<and> \<not> family then Some (PrivateItem ''enum'' item m) else None
             | None \<Rightarrow>
                 (case find (\<lambda>d. co_name d = item) (p_concepts p) of
                    Some d \<Rightarrow> if \<not> co_public d then Some (PrivateItem ''Concept'' item m) else None
                  | None \<Rightarrow>
                      if list_ex (\<lambda>d. tr_name d = item) (p_traits p) then None
                      else Some (ItemNotFound item m)))"

definition add_type_alias :: "string \<Rightarrow> string \<Rightarrow> module_alias list \<Rightarrow> module_alias list" where
  "add_type_alias newName item as =
     (if list_ex (\<lambda>e. ta_name e = newName) as then as
      else as @ [\<lparr>ta_name = newName, ta_type = StructTypeRef item\<rparr>])"

definition bind_item_alias :: "use_decl \<Rightarrow> string \<Rightarrow> program \<Rightarrow> use_state \<Rightarrow> use_state \<times> load_error option" where
  "bind_item_alias u m mp s =
     (let p = us_program s;
          concept = find (\<lambda>d. co_name d = use_item u) (p_concepts mp);
          rc = (case concept of None \<Rightarrow> (p_concepts p, us_store s)
                | Some d \<Rightarrow> alias_concept (use_alias u) d (p_concepts p, us_store s));
          fns = filter (\<lambda>f. fn_name f = use_item u) (p_functions mp);
          rf = fold (alias_function (use_alias u) m) fns (p_functions p, snd rc);
          p1 = p\<lparr>p_concepts := fst rc, p_functions := fst rf\<rparr>;
          s1 = s\<lparr>us_program := p1, us_store := snd rf\<rparr>
      in if concept \<noteq> None \<or> fns \<noteq> [] then (s1, None)
         else if list_ex (\<lambda>d. st_name d = use_item u) (p_structs mp) \<or> list_ex (\<lambda>d. en_name d = use_item u) (p_enums mp)
         then (s1\<lparr>us_program := p1\<lparr>p_aliases := add_type_alias (use_alias u) (use_item u) (p_aliases p1)\<rparr>\<rparr>, None)
         else (s1, Some (CannotAlias (use_item u) m)))"

subsection \<open>One declaration\<close>

text \<open>Bringing in everything a module has; \<open>mp\<close> is the module's program.\<close>

definition import_module :: "string \<Rightarrow> program \<Rightarrow> use_state \<Rightarrow> use_state \<times> load_error option" where
  "import_module m mp s =
     (let p = us_program s;
          p1 = p\<lparr>p_asms := fold (add_new (=)) (p_asms mp) (p_asms p)\<rparr>
      in case import_functions m (p_functions mp) (p_functions p1, us_store s) of
           ((fs, s1), Some e) \<Rightarrow> (s\<lparr>us_program := p1\<lparr>p_functions := fs\<rparr>, us_store := s1\<rparr>, Some e)
         | ((fs, s1), None) \<Rightarrow>
             (let r2 = fold (import_struct m) (p_structs mp) (p_structs p, s1);
                  r3 = fold (import_impl m) (p_impls mp) (p_impls p, snd r2);
                  r4 = fold (import_enum m) (p_enums mp) (p_enums p, snd r3)
              in (s\<lparr>us_program := p1\<lparr>p_functions := fs, p_structs := fst r2,
                           p_impls := fst r3, p_enums := fst r4,
                           p_aliases := fold (add_new (\<lambda>e x. ta_name e = ta_name x)) (p_aliases mp) (p_aliases p),
                           p_concepts := fold (add_new (\<lambda>e x. co_id e = co_id x)) (p_concepts mp) (p_concepts p),
                           p_traits := fold (add_new (\<lambda>e x. tr_name e = tr_name x)) (p_traits mp) (p_traits p)\<rparr>,
                    us_store := snd r4\<rparr>, None)))"

text \<open>The module a declaration names, after its aliases are bound: the resolved name and whether the
  check of the item is skipped, and the state.\<close>

definition resolve_use ::
  "module_table \<Rightarrow> use_decl \<Rightarrow> use_state \<Rightarrow> use_state \<times> (load_error + string \<times> bool)" where
  "resolve_use getModule u s =
     (let resolved = resolve_module_alias (us_aliases s) (use_module u)
      in case (if use_moduleAlias u then bind_module_alias getModule u resolved s else (s, None)) of
           (s1, Some e) \<Rightarrow> (s1, Inl e)
         | (s1, None) \<Rightarrow>
             if \<not> use_all u \<and> use_alias u \<noteq> [] then
               (let combined = resolve_module_alias (us_aliases s1) (use_module u @ ''::'' @ use_item u)
                in if getModule resolved = None \<and> getModule combined \<noteq> None
                   then (case bind_module_alias getModule u combined s1 of
                           (s2, Some e) \<Rightarrow> (s2, Inl e) | (s2, None) \<Rightarrow> (s2, Inr (combined, True)))
                   else (s1, Inr (resolved, use_moduleAlias u)))
             else (s1, Inr (resolved, use_moduleAlias u)))"

definition process_use ::
  "module_table \<Rightarrow> string \<Rightarrow> use_decl \<Rightarrow> use_state \<Rightarrow> use_state \<times> load_error option" where
  "process_use getModule currentModule u s =
     (case resolve_use getModule u s of
        (s1, Inl e) \<Rightarrow> (s1, Some e)
      | (s1, Inr (m, skip)) \<Rightarrow>
          (case getModule m of
             None \<Rightarrow> (s1, Some (ModuleNotLoaded m))
           | Some mp \<Rightarrow>
               (case import_module m mp s1 of
                  (s2, Some e) \<Rightarrow> (s2, Some e)
                | (s2, None) \<Rightarrow>
                    if use_all u \<or> skip then (s2, None)
                    else case item_found currentModule m (use_item u) mp of
                      Some e \<Rightarrow> (s2, Some e)
                    | None \<Rightarrow> if use_alias u = [] then (s2, None) else bind_item_alias u m mp s2)))"

fun process_uses ::
  "module_table \<Rightarrow> string \<Rightarrow> use_decl list \<Rightarrow> use_state \<Rightarrow> use_state \<times> load_error option" where
  "process_uses getModule currentModule [] s = (s, None)"
| "process_uses getModule currentModule (u # us) s =
     (case process_use getModule currentModule u s of
        (s', Some e) \<Rightarrow> (s', Some e) | (s', None) \<Rightarrow> process_uses getModule currentModule us s')"

definition processUseDeclarations ::
  "module_table \<Rightarrow> string \<Rightarrow> program \<Rightarrow> node_store \<Rightarrow> (program \<times> node_store) \<times> load_error option" where
  "processUseDeclarations getModule currentModule p s =
     (case process_uses getModule currentModule (p_uses p)
             \<lparr>us_aliases = Map.empty, us_program = p, us_store = s\<rparr> of
        (s', r) \<Rightarrow> ((us_program s', us_store s'), r))"

subsection \<open>Merging functions\<close>

lemma merge_function_keys:
  "merge_function ow func fs = Inr fs' \<Longrightarrow>
     map function_signature_key fs' =
       (if function_signature_key func \<in> function_signature_key ` set fs
        then map function_signature_key fs else map function_signature_key fs @ [function_signature_key func])"
proof (induction fs arbitrary: fs')
  case (Cons e es)
  show ?case
  proof (cases "function_signature_key e = function_signature_key func")
    case True
    with Cons.prems show ?thesis by (auto split: if_splits)
  next
    case False
    with Cons.prems obtain es' where "merge_function ow func es = Inr es'" "fs' = e # es'"
      by (auto split: sum.splits)
    with Cons.IH False show ?thesis by auto
  qed
qed simp

text \<open>An entry that is there stays, or gives way to a public one with its key; what is new comes
  from the module.\<close>

definition supersedes :: "module_function \<Rightarrow> module_function \<Rightarrow> bool" where
  "supersedes g f \<longleftrightarrow> g = f \<or> (function_signature_key g = function_signature_key f \<and> fn_public g \<and> \<not> fn_public f)"

lemma supersedes_trans: "supersedes h g \<Longrightarrow> supersedes g f \<Longrightarrow> supersedes h f"
  by (auto simp: supersedes_def)

lemma merge_function_keeps:
  "merge_function ow func fs = Inr fs' \<Longrightarrow>
     (\<forall>f \<in> set fs. \<exists>g \<in> set fs'. supersedes g f) \<and> set fs' \<subseteq> insert func (set fs) \<and>
     (\<exists>g \<in> set fs'. function_signature_key g = function_signature_key func \<and> (fn_public func \<longrightarrow> fn_public g))"
proof (induction fs arbitrary: fs')
  case (Cons e es)
  show ?case
  proof (cases "function_signature_key e = function_signature_key func")
    case True
    with Cons.prems have "fs' = (if \<not> fn_public e \<and> fn_public func then func else e) # es"
      by (auto split: if_splits)
    with True show ?thesis by (auto simp: supersedes_def)
  next
    case False
    with Cons.prems obtain es' where "merge_function ow func es = Inr es'" "fs' = e # es'"
      by (auto split: sum.splits)
    with Cons.IH show ?thesis by (auto simp: supersedes_def)
  qed
qed simp

lemma import_functions_keys:
  "import_functions m fns (fs, s) = ((fs', s'), None) \<Longrightarrow>
     function_signature_key ` set fs' = function_signature_key ` set fs \<union> function_signature_key ` set fns \<and>
     (distinct (map function_signature_key fs) \<longrightarrow> distinct (map function_signature_key fs'))"
proof (induction fns arbitrary: fs s)
  case (Cons func fns)
  let ?s = "set_owner_if_empty m (fn_id func) s"
  from Cons.prems obtain gs where g: "merge_function (owner ?s) func fs = Inr gs"
    "import_functions m fns (gs, ?s) = ((fs', s'), None)"
    by (auto simp: Let_def split: sum.splits)
  note k = merge_function_keys [OF g(1)]
  then have "set (map function_signature_key gs) = insert (function_signature_key func) (function_signature_key ` set fs)"
    by auto
  then have "function_signature_key ` set gs = insert (function_signature_key func) (function_signature_key ` set fs)"
    by simp
  with Cons.IH [OF g(2)] k show ?case by auto
qed simp

lemma import_functions_keeps:
  "import_functions m fns (fs, s) = ((fs', s'), None) \<Longrightarrow>
     (\<forall>f \<in> set fs. \<exists>g \<in> set fs'. supersedes g f) \<and> set fs' \<subseteq> set fs \<union> set fns \<and>
     (\<forall>func \<in> set fns. \<exists>g \<in> set fs'. function_signature_key g = function_signature_key func \<and>
        (fn_public func \<longrightarrow> fn_public g))"
proof (induction fns arbitrary: fs s)
  case Nil
  then show ?case by (auto simp: supersedes_def)
next
  case (Cons func fns)
  let ?s = "set_owner_if_empty m (fn_id func) s"
  from Cons.prems obtain gs where g: "merge_function (owner ?s) func fs = Inr gs"
    "import_functions m fns (gs, ?s) = ((fs', s'), None)"
    by (auto simp: Let_def split: sum.splits)
  note ih = Cons.IH [OF g(2)] and k = merge_function_keeps [OF g(1)]
  have "\<exists>h \<in> set fs'. supersedes h f" if "f \<in> set fs" for f
    using that ih k supersedes_trans by metis
  moreover have "\<exists>h \<in> set fs'. function_signature_key h = function_signature_key func \<and> (fn_public func \<longrightarrow> fn_public h)"
  proof -
    from k obtain g' where "g' \<in> set gs" "function_signature_key g' = function_signature_key func"
      "fn_public func \<longrightarrow> fn_public g'" by blast
    moreover from this(1) ih obtain h where "h \<in> set fs'" "supersedes h g'" by blast
    ultimately show ?thesis by (auto simp: supersedes_def)
  qed
  ultimately show ?case using ih k by auto
qed

text \<open>C38. Importing a module merges its functions into a program by signature: afterwards the program
  has exactly the signatures of both, each at most once if that held before; every function it had
  is still there unless a public one with the same signature took the place of a private one; every
  function of the module is represented, a public one by a public one; and nothing else appears.\<close>

theorem import_merges_functions:
  assumes "import_module m mp s = (s', None)"
  shows "function_signature_key ` set (p_functions (us_program s')) =
      function_signature_key ` set (p_functions (us_program s)) \<union> function_signature_key ` set (p_functions mp) \<and>
    (distinct (map function_signature_key (p_functions (us_program s))) \<longrightarrow>
      distinct (map function_signature_key (p_functions (us_program s')))) \<and>
    (\<forall>f \<in> set (p_functions (us_program s)). \<exists>g \<in> set (p_functions (us_program s')). supersedes g f) \<and>
    (\<forall>func \<in> set (p_functions mp). \<exists>g \<in> set (p_functions (us_program s')).
      function_signature_key g = function_signature_key func \<and> (fn_public func \<longrightarrow> fn_public g)) \<and>
    set (p_functions (us_program s')) \<subseteq> set (p_functions (us_program s)) \<union> set (p_functions mp)"
proof -
  obtain fs s1 where i: "import_functions m (p_functions mp) (p_functions (us_program s), us_store s) = ((fs, s1), None)"
    and f: "p_functions (us_program s') = fs"
    using assms by (auto simp: import_module_def Let_def split: prod.splits option.splits)
  show ?thesis unfolding f
    using import_functions_keys [OF i] import_functions_keeps [OF i] by blast
qed

subsection \<open>Visibility of imported items\<close>

definition exported :: "string \<Rightarrow> program \<Rightarrow> bool" where
  "exported item p \<longleftrightarrow>
     (\<exists>f \<in> set (p_functions p). fn_name f = item \<and> fn_public f) \<or>
     (\<exists>d \<in> set (p_structs p). st_name d = item \<and> st_public d) \<or>
     (\<exists>d \<in> set (p_enums p). en_name d = item \<and> en_public d) \<or>
     (\<exists>d \<in> set (p_concepts p). co_name d = item \<and> co_public d) \<or>
     (\<exists>d \<in> set (p_aliases p). ta_name d = item) \<or> (\<exists>d \<in> set (p_traits p). tr_name d = item)"

lemma find_SomeD: "find P xs = Some x \<Longrightarrow> x \<in> set xs \<and> P x"
  by (auto simp: find_Some_iff)

lemma item_found_exported:
  assumes "item_found currentModule m item p = None" and "\<not> is_same_module_family currentModule m"
  shows "exported item p"
proof (cases "filter (\<lambda>f. fn_name f = item) (p_functions p) = []")
  case False
  with assms have "list_ex fn_public (filter (\<lambda>f. fn_name f = item) (p_functions p))"
    unfolding item_found_def Let_def by (auto split: if_splits)
  then show ?thesis by (auto simp: exported_def list_ex_iff)
next
  case True
  show ?thesis
  proof (cases "find (\<lambda>d. st_name d = item) (p_structs p)")
    case (Some d)
    with assms True have "st_public d" unfolding item_found_def Let_def by (auto split: if_splits)
    with find_SomeD [OF Some] show ?thesis by (auto simp: exported_def)
  next
    case None
    show ?thesis
    proof (cases "list_ex (\<lambda>d. ta_name d = item) (p_aliases p)")
      case True
      then show ?thesis by (auto simp: exported_def list_ex_iff)
    next
      case False
      show ?thesis
      proof (cases "find (\<lambda>d. en_name d = item) (p_enums p)")
        case (Some d)
        with assms True None False have "en_public d" unfolding item_found_def Let_def by (auto split: if_splits)
        with find_SomeD [OF Some] show ?thesis by (auto simp: exported_def)
      next
        case noenum: None
        show ?thesis
        proof (cases "find (\<lambda>d. co_name d = item) (p_concepts p)")
          case (Some d)
          with assms True None False noenum have "co_public d"
            unfolding item_found_def Let_def by (auto split: if_splits)
          with find_SomeD [OF Some] show ?thesis by (auto simp: exported_def)
        next
          case noconcept: None
          with assms True None False noenum have "list_ex (\<lambda>d. tr_name d = item) (p_traits p)"
            unfolding item_found_def Let_def by (auto split: if_splits)
          then show ?thesis by (auto simp: exported_def list_ex_iff)
        qed
      qed
    qed
  qed
qed

text \<open>An item of the name that is not exported.\<close>

definition has_private :: "string \<Rightarrow> program \<Rightarrow> bool" where
  "has_private item p \<longleftrightarrow>
     (\<exists>f \<in> set (p_functions p). fn_name f = item \<and> \<not> fn_public f) \<or>
     (\<exists>d \<in> set (p_structs p). st_name d = item \<and> \<not> st_public d) \<or>
     (\<exists>d \<in> set (p_enums p). en_name d = item \<and> \<not> en_public d) \<or>
     (\<exists>d \<in> set (p_concepts p). co_name d = item \<and> \<not> co_public d)"

lemma item_found_error:
  "item_found currentModule m item p = Some e \<Longrightarrow> (\<exists>k. e = PrivateItem k item m) \<or> e = ItemNotFound item m"
  by (auto simp: item_found_def Let_def split: if_splits option.splits)

lemma find_None_iff_ex: "find P xs = None \<longleftrightarrow> \<not> (\<exists>x \<in> set xs. P x)"
  by (auto simp: find_None_iff)

lemma item_found_public:
  assumes "exported item p" and "\<not> has_private item p"
  shows "item_found currentModule m item p = None"
proof (cases "filter (\<lambda>f. fn_name f = item) (p_functions p) = []")
  case False
  then obtain f where f: "f \<in> set (p_functions p)" "fn_name f = item" by (auto simp: filter_empty_conv)
  have "fn_public f" using assms(2) f unfolding has_private_def by blast
  with f have "list_ex fn_public (filter (\<lambda>f. fn_name f = item) (p_functions p))" by (auto simp: list_ex_iff)
  with False show ?thesis by (simp add: item_found_def Let_def)
next
  case fns: True
  have pub: "st_public d" if "find (\<lambda>d. st_name d = item) (p_structs p) = Some d" for d
    using find_SomeD [OF that] assms(2) unfolding has_private_def by blast
  have pubc: "co_public d" if "find (\<lambda>d. co_name d = item) (p_concepts p) = Some d" for d
    using find_SomeD [OF that] assms(2) unfolding has_private_def by blast
  have pube: "en_public d" if "find (\<lambda>d. en_name d = item) (p_enums p) = Some d" for d
    using find_SomeD [OF that] assms(2) unfolding has_private_def by blast
  show ?thesis
  proof (cases "item_found currentModule m item p")
    case (Some e)
    then have none: "find (\<lambda>d. st_name d = item) (p_structs p) = None" "\<not> list_ex (\<lambda>d. ta_name d = item) (p_aliases p)"
      "find (\<lambda>d. en_name d = item) (p_enums p) = None" "find (\<lambda>d. co_name d = item) (p_concepts p) = None"
      "\<not> list_ex (\<lambda>d. tr_name d = item) (p_traits p)"
      using pub pubc pube by (auto simp: item_found_def fns Let_def split: option.splits if_splits)
    with fns assms(1) show ?thesis
      unfolding exported_def find_None_iff_ex list_ex_iff filter_empty_conv by blast
  qed
qed

text \<open>C23. A \<^verbatim>\<open>use\<close> of one named item, not of a whole module and not of a module under an alias: the module
  must be loaded and its import go through; then the \<^verbatim>\<open>use\<close> succeeds only if an item of that name is exported
  or the two modules are of one family, a symmetric relation. An item that a foreign module does not export is
  refused as private or unknown. A name all of whose items are exported is accepted from every module.
  Only the name is checked: that the functions of the module, private ones too, are merged into the
  program whatever the name is, is what an import does.\<close>

theorem use_respects_visibility:
  assumes "\<not> use_all u" and "\<not> use_moduleAlias u"
    and "use_alias u = [] \<or> getModule (resolve_module_alias (us_aliases s) (use_module u)) \<noteq> None"
  shows "let m = resolve_module_alias (us_aliases s) (use_module u) in
    case getModule m of
      None \<Rightarrow> process_use getModule currentModule u s = (s, Some (ModuleNotLoaded m))
    | Some mp \<Rightarrow>
        (case import_module m mp s of
           (s2, Some e) \<Rightarrow> process_use getModule currentModule u s = (s2, Some e)
         | (s2, None) \<Rightarrow>
             (snd (process_use getModule currentModule u s) = None \<longrightarrow>
                exported (use_item u) mp \<or>
                is_same_module_family currentModule m \<and> is_same_module_family m currentModule) \<and>
             (\<not> exported (use_item u) mp \<and> \<not> is_same_module_family currentModule m \<longrightarrow>
                (\<exists>k. process_use getModule currentModule u s = (s2, Some (PrivateItem k (use_item u) m))) \<or>
                process_use getModule currentModule u s = (s2, Some (ItemNotFound (use_item u) m))) \<and>
             (exported (use_item u) mp \<and> \<not> has_private (use_item u) mp \<and> use_alias u = [] \<longrightarrow>
                process_use getModule currentModule u s = (s2, None)))"
proof -
  let ?m = "resolve_module_alias (us_aliases s) (use_module u)"
  have r: "resolve_use getModule u s = (s, Inr (?m, False))"
    using assms by (auto simp: resolve_use_def Let_def)
  show ?thesis
  proof (cases "getModule ?m")
    case None
    then show ?thesis using r by (simp add: process_use_def)
  next
    case (Some mp)
    obtain s2 e where i: "import_module ?m mp s = (s2, e)" by fastforce
    show ?thesis
    proof (cases e)
      case (Some e')
      with r \<open>getModule ?m = Some mp\<close> i show ?thesis by (simp add: process_use_def)
    next
      case None
      let ?f = "item_found currentModule ?m (use_item u) mp"
      have p: "process_use getModule currentModule u s =
          (case ?f of Some e \<Rightarrow> (s2, Some e) | None \<Rightarrow> if use_alias u = [] then (s2, None) else bind_item_alias u ?m mp s2)"
        using r Some i None assms(1) by (simp add: process_use_def)
      have "exported (use_item u) mp \<or> is_same_module_family currentModule ?m \<and> is_same_module_family ?m currentModule"
        if "?f = None"
        using item_found_exported [OF that] module_family_sym by blast
      moreover have "(\<exists>k. ?f = Some (PrivateItem k (use_item u) ?m)) \<or> ?f = Some (ItemNotFound (use_item u) ?m)"
        if "?f \<noteq> None"
      proof -
        from that obtain e where "?f = Some e" by blast
        from item_found_error [OF this] this show ?thesis by blast
      qed
      moreover note item_found_public [of "use_item u" mp currentModule ?m]
      ultimately show ?thesis using Some i None p by (cases ?f) auto
    qed
  qed
qed

subsection \<open>A sample module\<close>

definition no_constraints :: function_constraints where
  "no_constraints = \<lparr>own = \<lparr>requiresClause = None, typeParamTraitBounds = []\<rparr>, genericOrigin = None,
     constraintTerms = []\<rparr>"

definition sample_function :: "node_id \<Rightarrow> string \<Rightarrow> bool \<Rightarrow> module_function" where
  "sample_function i n pub = \<lparr>fn_id = i, fn_name = n, fn_params = [Some (PlainType TYPE_I32)], fn_vararg = False,
     fn_constraints = no_constraints, fn_public = pub\<rparr>"

definition empty_program :: program where
  "empty_program = \<lparr>p_functions = [], p_structs = [], p_impls = [], p_enums = [], p_aliases = [], p_traits = [],
     p_concepts = [], p_asms = [], p_mods = [], p_uses = []\<rparr>"

definition sample_module :: program where
  "sample_module = empty_program\<lparr>p_functions := [sample_function (1, 0) ''f'' True, sample_function (1, 1) ''g'' False]\<rparr>"

definition sample_use_state :: use_state where
  "sample_use_state = \<lparr>us_aliases = Map.empty,
     us_program = empty_program\<lparr>p_functions := [sample_function (0, 0) ''f'' False]\<rparr>,
     us_store = \<lparr>owner = (\<lambda>_. []), next_alloc = 2\<rparr>\<rparr>"

lemma decode_plain_name [simp]: "decodeOperatorName ''f'' = None"
  by (simp add: decodeOperatorName_def literal_prefix_def starts_with_def)

lemma import_merges_functions_witness:
  "\<exists>s'. import_module ''m'' sample_module sample_use_state = (s', None) \<and>
     function_signature_key ` set (p_functions (us_program s')) = {''f(i32)'', ''g(i32)''}"
proof -
  have "snd (import_module ''m'' sample_module sample_use_state) = None"
    by (simp add: import_module_def sample_module_def sample_use_state_def empty_program_def Let_def
        sample_function_def function_signature_key_def param_mangle_def constraintKey_def no_constraints_def
        ambiguous_literal_def set_owner_if_empty_def)
  then obtain s' where s': "import_module ''m'' sample_module sample_use_state = (s', None)"
    by (metis prod.collapse)
  from import_merges_functions [OF s'] s' show ?thesis
    by (auto simp: sample_module_def sample_use_state_def empty_program_def sample_function_def
        function_signature_key_def param_mangle_def constraintKey_def no_constraints_def)
qed

text \<open>\<open>g\<close> of the sample module is private, \<open>f\<close> is not.\<close>

lemma sample_import: "\<exists>s2. import_module ''m'' sample_module sample_use_state = (s2, None)"
  by (simp add: import_module_def sample_module_def sample_use_state_def empty_program_def Let_def
      sample_function_def function_signature_key_def param_mangle_def constraintKey_def no_constraints_def
      ambiguous_literal_def set_owner_if_empty_def)

definition sample_use :: "string \<Rightarrow> use_decl" where
  "sample_use item = \<lparr>use_module = ''m'', use_item = item, use_alias = [], use_all = False, use_moduleAlias = False\<rparr>"

lemma use_respects_visibility_witness:
  "snd (process_use [''m'' \<mapsto> sample_module] ''a'' (sample_use ''f'') sample_use_state) = None \<and>
   snd (process_use [''m'' \<mapsto> sample_module] ''a'' (sample_use ''g'') sample_use_state) \<noteq> None"
proof -
  obtain s2 where i: "import_module ''m'' sample_module sample_use_state = (s2, None)" using sample_import by blast
  have f: "exported ''f'' sample_module" "\<not> has_private ''f'' sample_module" "\<not> exported ''g'' sample_module"
    by (simp_all add: exported_def has_private_def sample_module_def empty_program_def sample_function_def)
  have fam: "\<not> is_same_module_family ''a'' ''m''" by code_simp
  have u: "\<not> use_all (sample_use x)" "\<not> use_moduleAlias (sample_use x)" "use_alias (sample_use x) = []"
    "use_item (sample_use x) = x" "resolve_module_alias (us_aliases sample_use_state) (use_module (sample_use x)) = ''m''" for x
    by (simp_all add: sample_use_def resolve_module_alias_def sample_use_state_def)
  show ?thesis
    using use_respects_visibility [of "sample_use ''f''" "[''m'' \<mapsto> sample_module]" sample_use_state "''a''"]
      use_respects_visibility [of "sample_use ''g''" "[''m'' \<mapsto> sample_module]" sample_use_state "''a''"] i f fam
    by (auto simp: u Let_def)
qed

subsection \<open>Origins\<close>

lemma owner_if_empty_keeps:
  "owner s i \<noteq> [] \<Longrightarrow> owner (set_owner_if_empty m j s) i = owner s i"
  by (auto simp: set_owner_if_empty_def)

lemma owner_fold_keeps:
  "owner s i \<noteq> [] \<Longrightarrow> owner (fold (set_owner_if_empty m) js s) i = owner s i"
  by (induction js arbitrary: s) (auto simp: owner_if_empty_keeps)

lemma owner_import_functions:
  "import_functions m fns (fs, s) = ((fs', s'), r) \<Longrightarrow> owner s i \<noteq> [] \<Longrightarrow> owner s' i = owner s i"
proof (induction fns arbitrary: fs s)
  case (Cons func fns)
  let ?s = "set_owner_if_empty m (fn_id func) s"
  have k: "owner ?s i = owner s i" using Cons.prems(2) by (rule owner_if_empty_keeps)
  show ?case
  proof (cases "merge_function (owner ?s) func fs")
    case (Inl e)
    with Cons.prems k show ?thesis by (auto simp: Let_def)
  next
    case (Inr gs)
    with Cons.prems(1) have "import_functions m fns (gs, ?s) = ((fs', s'), r)" by (simp add: Let_def)
    from Cons.IH [OF this] k Cons.prems(2) show ?thesis by simp
  qed
qed simp

lemma owner_import_struct:
  assumes "m \<noteq> []"
  shows "owner (snd (import_struct m d r)) (st_id d) = m"
    and "owner (snd r) i \<noteq> [] \<Longrightarrow> i \<noteq> st_id d \<Longrightarrow> owner (snd (import_struct m d r)) i = owner (snd r) i"
    and "owner (snd r) i = m \<Longrightarrow> owner (snd (import_struct m d r)) i = m"
  using assms by (auto simp: import_struct_def owner_fold_keeps set_owner_def)

lemma owner_import_structs:
  assumes "m \<noteq> []"
  shows "(\<forall>d \<in> set ds. owner (snd (fold (import_struct m) ds r)) (st_id d) = m) \<and>
    (owner (snd r) i \<noteq> [] \<longrightarrow> i \<notin> st_id ` set ds \<longrightarrow> owner (snd (fold (import_struct m) ds r)) i = owner (snd r) i) \<and>
    (owner (snd r) i = m \<longrightarrow> owner (snd (fold (import_struct m) ds r)) i = m)"
proof (induction ds arbitrary: r i)
  case (Cons d ds)
  let ?r = "import_struct m d r"
  note o = owner_import_struct [OF assms, where d = d and r = r]
  show ?case
  proof (intro conjI ballI impI)
    fix e assume "e \<in> set (d # ds)"
    then show "owner (snd (fold (import_struct m) (d # ds) r)) (st_id e) = m"
      using Cons.IH [of ?r "st_id d"] o(1) by auto
  next
    assume "owner (snd r) i \<noteq> []" "i \<notin> st_id ` set (d # ds)"
    then show "owner (snd (fold (import_struct m) (d # ds) r)) i = owner (snd r) i"
      using Cons.IH [of ?r i] o(2) [of i] by auto
  next
    assume "owner (snd r) i = m"
    then show "owner (snd (fold (import_struct m) (d # ds) r)) i = m"
      using Cons.IH [of ?r i] o(3) [of i] by auto
  qed
qed simp

lemma owner_import_impls:
  "owner (snd r) i \<noteq> [] \<Longrightarrow> owner (snd (fold (import_impl m) ds r)) i = owner (snd r) i"
  by (induction ds arbitrary: r) (auto simp: import_impl_def owner_fold_keeps)

lemma owner_import_enums:
  "owner (snd r) i \<noteq> [] \<Longrightarrow> owner (snd (fold (import_enum m) ds r)) i = owner (snd r) i"
  by (induction ds arbitrary: r) (auto simp: import_enum_def owner_if_empty_keeps)

text \<open>Importing a module keeps the origin of every function, enum and method that has one, so the
  visibility checks see where it was declared. Not so for structs: each struct of the module,
  those the module itself imported from elsewhere included, is marked as declared in it, in the
  node all programs share.\<close>

theorem import_origins:
  assumes "import_module m mp s = (s', None)" and "m \<noteq> []"
  shows "(owner (us_store s) i \<noteq> [] \<and> i \<notin> st_id ` set (p_structs mp) \<longrightarrow>
      owner (us_store s') i = owner (us_store s) i) \<and>
    (\<forall>d \<in> set (p_structs mp). owner (us_store s') (st_id d) = m)"
proof -
  let ?p = "us_program s"
  obtain fs s1 where i: "import_functions m (p_functions mp) (p_functions ?p, us_store s) = ((fs, s1), None)"
    using assms by (auto simp: import_module_def Let_def split: prod.splits option.splits)
  define r2 where "r2 = fold (import_struct m) (p_structs mp) (p_structs ?p, s1)"
  define r3 where "r3 = fold (import_impl m) (p_impls mp) (p_impls ?p, snd r2)"
  have store: "us_store s' = snd (fold (import_enum m) (p_enums mp) (p_enums ?p, snd r3))"
    using assms(1) i by (auto simp: import_module_def Let_def r2_def r3_def)
  have last: "owner (us_store s') j = owner (snd r2) j" if "owner (snd r2) j \<noteq> []" for j
  proof -
    have "owner (snd r3) j = owner (snd r2) j"
      unfolding r3_def using owner_import_impls [of "(p_impls ?p, snd r2)" j] that by simp
    with that store owner_import_enums [of "(p_enums ?p, snd r3)" j] show ?thesis by simp
  qed
  note st = owner_import_structs [OF assms(2), of "p_structs mp" "(p_structs ?p, s1)"]
  have "owner (us_store s') i = owner (us_store s) i"
    if a: "owner (us_store s) i \<noteq> []" "i \<notin> st_id ` set (p_structs mp)"
  proof -
    have "owner s1 i = owner (us_store s) i" using owner_import_functions [OF i a(1)] .
    with a st [of i] have "owner (snd r2) i = owner (us_store s) i" by (simp add: r2_def)
    with last [of i] a(1) show ?thesis by simp
  qed
  moreover have "owner (us_store s') (st_id d) = m" if "d \<in> set (p_structs mp)" for d
    using last [of "st_id d"] st that assms(2) by (simp add: r2_def)
  ultimately show ?thesis by blast
qed

definition sample_structs :: program where
  "sample_structs = empty_program\<lparr>p_structs := [\<lparr>st_id = (1, 2), st_name = ''S'', st_public = False, st_methods = []\<rparr>]\<rparr>"

lemma import_origins_witness:
  "\<exists>s'. import_module ''b'' sample_structs (sample_use_state\<lparr>us_store := \<lparr>owner = (\<lambda>_. ''a''), next_alloc = 2\<rparr>\<rparr>) =
     (s', None) \<and> owner (us_store s') (1, 2) = ''b'' \<and> owner (us_store s') (1, 0) = ''a''"
proof -
  let ?s = "sample_use_state\<lparr>us_store := \<lparr>owner = (\<lambda>_. ''a''), next_alloc = 2\<rparr>\<rparr>"
  have "snd (import_module ''b'' sample_structs ?s) = None"
    by (simp add: import_module_def sample_structs_def sample_use_state_def empty_program_def Let_def)
  then obtain s' where s': "import_module ''b'' sample_structs ?s = (s', None)" by (metis prod.collapse)
  from import_origins [OF s', of "(1, 0)"] s' show ?thesis
    by (simp add: sample_structs_def empty_program_def)
qed

end
