(* ===== verification/Module_Loader.thy ===== *)
theory Module_Loader
  imports Module_Imports Incremental_Compiler Graph_Search
begin

text \<open>
  Loading modules (\<^verbatim>\<open>include/module.h\<close>, \<^verbatim>\<open>src/module.cpp\<close>): finding the file of a module,
  parsing it, loading the modules it declares first, processing its imports, and the detection of
  circular declarations. The file system and the generated parser are parameters. The recursion
  takes its depth as fuel; the result is \<^const>\<open>None\<close> when it is used up.
\<close>

record environment =
  env_host :: host_macros
  env_exists :: "string \<Rightarrow> bool"
  env_read :: "string \<Rightarrow> string option"
  env_yyparse :: "program parser"

record module_info =
  mi_filePath :: string
  mi_ast :: program

text \<open>The fields of \<^verbatim>\<open>ModuleLoader\<close>, with the node store its pointers lead to. The flag \<^verbatim>\<open>loaded\<close> is
  set in every entry of the map.\<close>

record module_loader =
  basePath :: string
  searchPaths :: "string list"
  ld_modules :: "string \<rightharpoonup> module_info"
  loadingStack :: "string set"
  targetArchOverride :: string
  ld_store :: node_store

definition new_loader :: "string \<Rightarrow> string list \<Rightarrow> module_loader" where
  "new_loader base extraPaths =
     \<lparr>basePath = base, searchPaths = filter (\<lambda>p. p \<noteq> []) (base # extraPaths), ld_modules = Map.empty,
      loadingStack = {}, targetArchOverride = [], ld_store = \<lparr>owner = (\<lambda>_. []), next_alloc = 0\<rparr>\<rparr>"

definition setBasePath :: "string \<Rightarrow> module_loader \<Rightarrow> module_loader" where
  "setBasePath p ld = ld\<lparr>basePath := p,
     searchPaths := (if searchPaths ld = [] then [p] else (searchPaths ld)[0 := p])\<rparr>"

definition setTargetArch :: "string \<Rightarrow> module_loader \<Rightarrow> module_loader" where
  "setTargetArch a ld = ld\<lparr>targetArchOverride := a\<rparr>"

subsection \<open>Finding and parsing a file\<close>

text \<open>Every \<^verbatim>\<open>::\<close> becomes a slash.\<close>

fun scope_slashes :: "string \<Rightarrow> string" where
  "scope_slashes (a # b # r) =
     (if a = CHR '':'' \<and> b = CHR '':'' then CHR ''/'' # scope_slashes r else a # scope_slashes (b # r))"
| "scope_slashes s = s"

text \<open>\<^verbatim>\<open>operator/\<close> of paths.\<close>

definition path_join :: "string \<Rightarrow> string \<Rightarrow> string" where
  "path_join a b =
     (if b \<noteq> [] \<and> hd b = CHR ''/'' then b
      else if a = [] \<or> last a = CHR ''/'' then a @ b else a @ ''/'' @ b)"

fun find_module_file :: "(string \<Rightarrow> bool) \<Rightarrow> string \<Rightarrow> string list \<Rightarrow> string" where
  "find_module_file ex relName [] = []"
| "find_module_file ex relName (root # roots) =
     (let modulePath = path_join root (relName @ ''.mla'');
          dirModulePath = path_join (path_join root relName) ''mod.mla''
      in if ex modulePath then modulePath
         else if ex dirModulePath then dirModulePath
         else find_module_file ex relName roots)"

definition resolveModulePath :: "environment \<Rightarrow> module_loader \<Rightarrow> string \<Rightarrow> string" where
  "resolveModulePath env ld m = find_module_file (env_exists env) (scope_slashes m) (searchPaths ld)"

text \<open>The nodes a parse creates are new: they get the number of an allocation of their own.\<close>

definition place_id :: "nat \<Rightarrow> node_id \<Rightarrow> node_id" where
  "place_id n i = (n, snd i)"

definition place_program :: "nat \<Rightarrow> program \<Rightarrow> program" where
  "place_program n p = p\<lparr>
     p_functions := map (\<lambda>f. f\<lparr>fn_id := place_id n (fn_id f)\<rparr>) (p_functions p),
     p_structs := map (\<lambda>d. d\<lparr>st_id := place_id n (st_id d), st_methods := map (place_id n) (st_methods d)\<rparr>) (p_structs p),
     p_impls := map (\<lambda>d. d\<lparr>im_methods := map (\<lambda>(i, nm). (place_id n i, nm)) (im_methods d)\<rparr>) (p_impls p),
     p_enums := map (\<lambda>d. d\<lparr>en_id := place_id n (en_id d)\<rparr>) (p_enums p),
     p_traits := map (\<lambda>d. d\<lparr>tr_id := place_id n (tr_id d)\<rparr>) (p_traits p),
     p_concepts := map (\<lambda>d. d\<lparr>co_id := place_id n (co_id d)\<rparr>) (p_concepts p),
     p_asms := map (place_id n) (p_asms p)\<rparr>"

definition parse_source :: "environment \<Rightarrow> string \<Rightarrow> string \<Rightarrow> program option" where
  "parse_source env target filePath =
     (case env_read env filePath of
        None \<Rightarrow> None
      | Some rawText \<Rightarrow>
          (let r = env_yyparse env (preprocess_conditional_regions (env_host env) rawText target)
           in if run_result r = 0 \<and> \<not> parseHadError r
              then (case programRoot r of Some (ProgramRoot p) \<Rightarrow> Some p | _ \<Rightarrow> None)
              else None))"

definition parseFile :: "environment \<Rightarrow> string \<Rightarrow> module_loader \<Rightarrow> module_loader \<times> program option" where
  "parseFile env filePath ld =
     (let n = next_alloc (ld_store ld)
      in (ld\<lparr>ld_store := (ld_store ld)\<lparr>next_alloc := Suc n\<rparr>\<rparr>,
          map_option (place_program n) (parse_source env (targetArchOverride ld) filePath)))"

text \<open>The symbols of a module are marked with its name.\<close>

definition tag_program :: "string \<Rightarrow> program \<Rightarrow> node_store \<Rightarrow> node_store" where
  "tag_program m p s =
     fold (set_owner_if_empty m)
       (map fn_id (p_functions p) @ map st_id (p_structs p) @ map en_id (p_enums p) @
        map tr_id (p_traits p) @ map co_id (p_concepts p)) s"

subsection \<open>Loading\<close>

definition getModule :: "module_loader \<Rightarrow> string \<Rightarrow> program option" where
  "getModule ld m = map_option mi_ast (ld_modules ld m)"

definition getModuleFunctions :: "module_loader \<Rightarrow> string \<Rightarrow> module_function list" where
  "getModuleFunctions ld m = (case getModule ld m of None \<Rightarrow> [] | Some p \<Rightarrow> p_functions p)"

definition getModuleStructs :: "module_loader \<Rightarrow> string \<Rightarrow> module_struct list" where
  "getModuleStructs ld m = (case getModule ld m of None \<Rightarrow> [] | Some p \<Rightarrow> p_structs p)"

definition getFunction :: "module_loader \<Rightarrow> string \<Rightarrow> string \<Rightarrow> module_function option" where
  "getFunction ld m n = find (\<lambda>f. fn_name f = n) (getModuleFunctions ld m)"

text \<open>The map is ordered by name.\<close>

definition getLoadedModules :: "module_loader \<Rightarrow> string list" where
  "getLoadedModules ld = sorted_list_of_set (dom (ld_modules ld))"

definition getLoadedModulePaths :: "module_loader \<Rightarrow> string list" where
  "getLoadedModulePaths ld =
     filter (\<lambda>p. p \<noteq> []) (map (\<lambda>m. mi_filePath (the (ld_modules ld m))) (getLoadedModules ld))"

text \<open>The loop over the \<^verbatim>\<open>mod\<close> declarations; \<open>load\<close> is \<^verbatim>\<open>loadModule\<close>. The declarations come unst
  with their file paths set.\<close>

type_synonym 'r load_result = "(module_loader \<times> 'r \<times> load_error option) option"

fun process_mods ::
  "(string \<Rightarrow> module_loader \<Rightarrow> unit load_result) \<Rightarrow> mod_decl list \<Rightarrow> module_loader \<Rightarrow> mod_decl list load_result" where
  "process_mods load [] ld = Some (ld, [], None)"
| "process_mods load (d # ds) ld =
     (case load (mod_name d) ld of
        None \<Rightarrow> None
      | Some (ld1, _, Some e) \<Rightarrow> Some (ld1, d # ds, Some e)
      | Some (ld1, _, None) \<Rightarrow>
          (let d1 = d\<lparr>mod_filePath := (case ld_modules ld1 (mod_name d) of Some i \<Rightarrow> mi_filePath i | None \<Rightarrow> [])\<rparr>
           in case process_mods load ds ld1 of
                None \<Rightarrow> None
              | Some (ld2, ds2, r) \<Rightarrow> Some (ld2, d1 # ds2, r)))"

definition searched_paths :: "module_loader \<Rightarrow> string" where
  "searched_paths ld = (let paths = joined '', '' (searchPaths ld) in if paths = [] then basePath ld else paths)"

definition leave_loading :: "string \<Rightarrow> module_loader \<Rightarrow> module_loader" where
  "leave_loading m ld = ld\<lparr>loadingStack := loadingStack ld - {m}\<rparr>"

text \<open>What follows the loading of the declared modules: the imports, and the entry in the map.\<close>

definition finish_module :: "string \<Rightarrow> string \<Rightarrow> program \<Rightarrow> module_loader \<Rightarrow> module_loader \<times> load_error option" where
  "finish_module m modulePath ast ld =
     (case processUseDeclarations (getModule ld) m ast (ld_store ld) of
        ((ast', st'), Some e) \<Rightarrow> (leave_loading m (ld\<lparr>ld_store := st'\<rparr>), Some e)
      | ((ast', st'), None) \<Rightarrow>
          (leave_loading m (ld\<lparr>ld_store := st',
             ld_modules := (ld_modules ld)(m \<mapsto> \<lparr>mi_filePath = modulePath, mi_ast = ast'\<rparr>)\<rparr>), None))"

fun loadModule :: "nat \<Rightarrow> environment \<Rightarrow> string \<Rightarrow> module_loader \<Rightarrow> unit load_result" where
  "loadModule 0 env m ld = None"
| "loadModule (Suc n) env m ld =
     (if ld_modules ld m \<noteq> None then Some (ld, (), None)
      else if m \<in> loadingStack ld then Some (ld, (), Some (CircularImport m))
      else
        let modulePath = resolveModulePath env ld m
        in if modulePath = [] then Some (ld, (), Some (ModuleNotFound m (searched_paths ld)))
           else
             case parseFile env modulePath (ld\<lparr>loadingStack := insert m (loadingStack ld)\<rparr>) of
               (ld1, None) \<Rightarrow> Some (leave_loading m ld1, (), Some (ParseFailed m))
             | (ld1, Some ast) \<Rightarrow>
                 (case process_mods (loadModule n env) (p_mods ast)
                         (ld1\<lparr>ld_store := tag_program m ast (ld_store ld1)\<rparr>) of
                    None \<Rightarrow> None
                  | Some (ld2, _, Some e) \<Rightarrow> Some (leave_loading m ld2, (), Some e)
                  | Some (ld2, mods, None) \<Rightarrow>
                      (case finish_module m modulePath (ast\<lparr>p_mods := mods\<rparr>) ld2 of
                         (ld3, r) \<Rightarrow> Some (ld3, (), r))))"

definition processModDeclarations :: "nat \<Rightarrow> environment \<Rightarrow> program \<Rightarrow> module_loader \<Rightarrow> program load_result" where
  "processModDeclarations n env p ld =
     (case process_mods (loadModule n env) (p_mods p) ld of
        None \<Rightarrow> None
      | Some (ld', mods, r) \<Rightarrow> Some (ld', p\<lparr>p_mods := mods\<rparr>, r))"

subsection \<open>The modules a module declares\<close>

text \<open>Read off the files, independently of the loader's state.\<close>

definition file_of :: "environment \<Rightarrow> string list \<Rightarrow> string \<Rightarrow> string" where
  "file_of env paths m = find_module_file (env_exists env) (scope_slashes m) paths"

definition declared_mods :: "environment \<Rightarrow> string list \<Rightarrow> string \<Rightarrow> string \<Rightarrow> string list" where
  "declared_mods env paths target m =
     (if file_of env paths m = [] then []
      else case parse_source env target (file_of env paths m) of
        None \<Rightarrow> [] | Some p \<Rightarrow> map mod_name (p_mods p))"

abbreviation mods_of :: "environment \<Rightarrow> module_loader \<Rightarrow> string \<Rightarrow> string list" where
  "mods_of env ld \<equiv> declared_mods env (searchPaths ld) (targetArchOverride ld)"

text \<open>Nothing the loading does changes where modules are searched.\<close>

definition same_config :: "module_loader \<Rightarrow> module_loader \<Rightarrow> bool" where
  "same_config a b \<longleftrightarrow> searchPaths a = searchPaths b \<and> targetArchOverride a = targetArchOverride b \<and> basePath a = basePath b"

lemma p_mods_place [simp]: "p_mods (place_program n p) = p_mods p"
  by (simp add: place_program_def)

lemma parseFile_mods:
  "parseFile env (file_of env (searchPaths ld) m) ld = (ld1, Some ast) \<Longrightarrow> file_of env (searchPaths ld) m \<noteq> [] \<Longrightarrow>
     map mod_name (p_mods ast) = mods_of env ld m"
  by (auto simp: parseFile_def declared_mods_def Let_def)

text \<open>The invariant of the loader: the loaded modules are closed under declarations, and the
  declarations below each of them are well-founded.\<close>

definition ld_inv :: "environment \<Rightarrow> module_loader \<Rightarrow> bool" where
  "ld_inv env ld \<longleftrightarrow>
     (\<forall>m \<in> dom (ld_modules ld). set (mods_of env ld m) \<subseteq> dom (ld_modules ld) \<and>
        m \<in> Wellfounded.acc {(y, x). y \<in> set (mods_of env ld x)})"

text \<open>What a step of the loading guarantees about the states before and after it.\<close>

definition ld_step :: "environment \<Rightarrow> module_loader \<Rightarrow> module_loader \<Rightarrow> bool" where
  "ld_step env a b \<longleftrightarrow> same_config a b \<and> loadingStack b = loadingStack a \<and>
     dom (ld_modules a) \<subseteq> dom (ld_modules b) \<and> ld_inv env b"

lemma ld_step_trans:
  assumes "ld_step env a b" and "ld_step env b c"
  shows "ld_step env a c"
proof -
  have "dom (ld_modules a) \<subseteq> dom (ld_modules c)"
    using assms by (meson ld_step_def subset_trans)
  with assms show ?thesis by (simp add: ld_step_def same_config_def)
qed

lemma ld_step_refl: "ld_inv env a \<Longrightarrow> ld_step env a a"
  by (simp add: ld_step_def same_config_def)

lemma process_mods_steps:
  assumes "\<And>d a. d \<in> set ds \<Longrightarrow> ld_inv env a \<Longrightarrow> loadingStack a = S \<Longrightarrow> same_config ld a \<Longrightarrow>
      \<exists>b r. load (mod_name d) a = Some (b, (), r) \<and> ld_step env a b \<and> (r = None \<longrightarrow> mod_name d \<in> dom (ld_modules b))"
    and "ld_inv env a" and "loadingStack a = S" and "same_config ld a"
  shows "\<exists>b ds' r. process_mods load ds a = Some (b, ds', r) \<and> ld_step env a b \<and>
    (r = None \<longrightarrow> mod_name ` set ds \<subseteq> dom (ld_modules b) \<and> map mod_name ds' = map mod_name ds)"
  using assms
proof (induction ds arbitrary: a)
  case Nil
  then show ?case by (simp add: ld_step_refl)
next
  case (Cons d ds)
  obtain b r where b: "load (mod_name d) a = Some (b, (), r)" "ld_step env a b"
    "r = None \<longrightarrow> mod_name d \<in> dom (ld_modules b)"
    using Cons.prems(1) [of d a] Cons.prems(2-4) by auto
  show ?case
  proof (cases r)
    case (Some e)
    with b show ?thesis by simp
  next
    case None
    have "\<exists>c ds' r'. process_mods load ds b = Some (c, ds', r') \<and> ld_step env b c \<and>
      (r' = None \<longrightarrow> mod_name ` set ds \<subseteq> dom (ld_modules c) \<and> map mod_name ds' = map mod_name ds)"
    proof (rule Cons.IH)
      show "ld_inv env b" "loadingStack b = S" "same_config ld b"
        using b(2) Cons.prems(3,4) by (auto simp: ld_step_def same_config_def)
    qed (use Cons.prems(1) in simp)
    then obtain c ds' r' where c: "process_mods load ds b = Some (c, ds', r')" "ld_step env b c"
      "r' = None \<longrightarrow> mod_name ` set ds \<subseteq> dom (ld_modules c) \<and> map mod_name ds' = map mod_name ds"
      by blast
    have "mod_name d \<in> dom (ld_modules c)" using b(3) None c(2) by (auto simp: ld_step_def)
    with b None c ld_step_trans [OF b(2) c(2)] show ?thesis by (simp add: Let_def)
  qed
qed

lemma leave_loading_simps [simp]:
  "ld_modules (leave_loading m ld) = ld_modules ld" "loadingStack (leave_loading m ld) = loadingStack ld - {m}"
  "searchPaths (leave_loading m ld) = searchPaths ld" "targetArchOverride (leave_loading m ld) = targetArchOverride ld"
  "basePath (leave_loading m ld) = basePath ld"
  by (simp_all add: leave_loading_def)

lemma ld_inv_cong:
  "ld_modules b = ld_modules a \<Longrightarrow> same_config a b \<Longrightarrow> ld_inv env b = ld_inv env a"
  by (simp add: ld_inv_def same_config_def)

lemma finish_module_step:
  assumes "ld_inv env ld" and "set (mods_of env ld m) \<subseteq> dom (ld_modules ld)"
    and "finish_module m path ast ld = (ld', r)"
  shows "same_config ld ld' \<and> loadingStack ld' = loadingStack ld - {m} \<and>
    dom (ld_modules ld) \<subseteq> dom (ld_modules ld') \<and> ld_inv env ld' \<and> (r = None \<longrightarrow> m \<in> dom (ld_modules ld'))"
proof -
  obtain ast' st' r' where u: "processUseDeclarations (getModule ld) m ast (ld_store ld) = ((ast', st'), r')"
    by (metis prod.collapse)
  show ?thesis
  proof (cases r')
    case (Some e)
    with assms(3) u have e: "ld' = leave_loading m (ld\<lparr>ld_store := st'\<rparr>)" "r = Some e"
      by (simp_all add: finish_module_def)
    then have "same_config ld ld'" "ld_modules ld' = ld_modules ld" by (simp_all add: same_config_def)
    with ld_inv_cong [of ld' ld env] assms(1) e show ?thesis by simp
  next
    case None
    have "m \<in> Wellfounded.acc {(y, x). y \<in> set (mods_of env ld x)}"
    proof (rule accI)
      fix y assume "(y, m) \<in> {(y, x). y \<in> set (mods_of env ld x)}"
      with assms(2) have "y \<in> dom (ld_modules ld)" by auto
      with assms(1) show "y \<in> Wellfounded.acc {(y, x). y \<in> set (mods_of env ld x)}" by (simp add: ld_inv_def)
    qed
    moreover from assms(3) u None have e: "r = None"
      "ld_modules ld' = (ld_modules ld)(m \<mapsto> \<lparr>mi_filePath = path, mi_ast = ast'\<rparr>)"
      "loadingStack ld' = loadingStack ld - {m}" "same_config ld ld'"
      by (auto simp: finish_module_def same_config_def)
    moreover from e have "dom (ld_modules ld') = insert m (dom (ld_modules ld))" by simp
    moreover have "mods_of env ld' = mods_of env ld" using e(4) by (simp add: same_config_def)
    ultimately show ?thesis using assms(1,2) unfolding ld_inv_def by (simp only:) blast
  qed
qed

lemma loadModule_steps:
  assumes "finite U" and "\<And>x. x \<in> U \<Longrightarrow> set (mods_of env ld0 x) \<subseteq> U"
    and "m \<in> U" and "same_config ld0 ld" and "ld_inv env ld" and "card (U - loadingStack ld) < n"
  shows "\<exists>ld' r. loadModule n env m ld = Some (ld', (), r) \<and> ld_step env ld ld' \<and>
    (r = None \<longrightarrow> m \<in> dom (ld_modules ld'))"
  using assms(3-)
proof (induction n arbitrary: m ld)
  case (Suc n)
  note inv = Suc.prems(3)
  consider "ld_modules ld m \<noteq> None" | "ld_modules ld m = None" "m \<in> loadingStack ld"
    | "ld_modules ld m = None" "m \<notin> loadingStack ld" by blast
  then show ?case
  proof cases
    case 3
    define path where "path = resolveModulePath env ld m"
    have path: "path = file_of env (searchPaths ld) m" by (simp add: path_def resolveModulePath_def file_of_def)
    define ldm where "ldm = ld\<lparr>loadingStack := insert m (loadingStack ld)\<rparr>"
    have unst: "insert m (loadingStack ld) - {m} = loadingStack ld" using 3(2) by simp
    show ?thesis
    proof (cases "path = []")
      case True
      with 3 show ?thesis by (simp add: path_def [symmetric] Let_def ld_step_refl [OF inv])
    next
      case False
      obtain ld1 p where pf: "parseFile env path ldm = (ld1, p)" by fastforce
      have ld1: "ld_modules ld1 = ld_modules ld" "loadingStack ld1 = insert m (loadingStack ld)" "same_config ld ld1"
        using pf by (auto simp: parseFile_def ldm_def Let_def same_config_def)
      have inv1: "ld_inv env ld1" using ld_inv_cong [OF ld1(1,3)] inv by simp
      show ?thesis
      proof (cases p)
        case None
        have "ld_step env ld (leave_loading m ld1)"
          using ld1 inv1 unst by (auto simp: ld_step_def same_config_def ld_inv_def)
        with 3 None pf False show ?thesis by (simp add: path_def [symmetric] ldm_def [symmetric] Let_def)
      next
        case (Some ast)
        define ld2 where "ld2 = ld1\<lparr>ld_store := tag_program m ast (ld_store ld1)\<rparr>"
        have ld2: "ld_modules ld2 = ld_modules ld" "loadingStack ld2 = insert m (loadingStack ld)" "same_config ld ld2"
          using ld1 by (auto simp: ld2_def same_config_def)
        have inv2: "ld_inv env ld2" using ld_inv_cong [OF ld2(1,3)] inv by simp
        have mods: "map mod_name (p_mods ast) = mods_of env ld m"
          using parseFile_mods [of env ldm m ld1 ast] pf Some path False by (simp add: ldm_def)
        have modsU: "mod_name d \<in> U" if "d \<in> set (p_mods ast)" for d
        proof -
          have "mod_name d \<in> set (mods_of env ld m)" using that mods by (metis image_eqI set_map)
          then show ?thesis using assms(2) [OF Suc.prems(1)] Suc.prems(2) by (auto simp: same_config_def)
        qed
        have card: "card (U - insert m (loadingStack ld)) < n"
        proof -
          have "m \<in> U - loadingStack ld" using Suc.prems(1) 3(2) by simp
          then have "card (U - insert m (loadingStack ld)) < card (U - loadingStack ld)"
            using assms(1) by (intro psubset_card_mono) auto
          with Suc.prems(4) show ?thesis by simp
        qed
        have "\<exists>b ds' r. process_mods (loadModule n env) (p_mods ast) ld2 = Some (b, ds', r) \<and> ld_step env ld2 b \<and>
          (r = None \<longrightarrow> mod_name ` set (p_mods ast) \<subseteq> dom (ld_modules b) \<and> map mod_name ds' = map mod_name (p_mods ast))"
        proof (rule process_mods_steps [of _ env "insert m (loadingStack ld)" ld0])
          fix d a assume "d \<in> set (p_mods ast)" "ld_inv env a"
            "loadingStack a = insert m (loadingStack ld)" "same_config ld0 a"
          then show "\<exists>b r. loadModule n env (mod_name d) a = Some (b, (), r) \<and> ld_step env a b \<and>
            (r = None \<longrightarrow> mod_name d \<in> dom (ld_modules b))"
            using Suc.IH [of "mod_name d" a] modsU card by simp
        qed (use inv2 ld2 Suc.prems(2) in \<open>auto simp: same_config_def\<close>)
        then obtain b ds' r where b: "process_mods (loadModule n env) (p_mods ast) ld2 = Some (b, ds', r)"
          "ld_step env ld2 b" "r = None \<longrightarrow> mod_name ` set (p_mods ast) \<subseteq> dom (ld_modules b)" by blast
        have run: "loadModule (Suc n) env m ld =
          (case r of Some e \<Rightarrow> Some (leave_loading m b, (), Some e)
           | None \<Rightarrow> (case finish_module m path (ast\<lparr>p_mods := ds'\<rparr>) b of (ld3, r3) \<Rightarrow> Some (ld3, (), r3)))"
          using 3 pf Some False b(1)
          by (simp add: path_def [symmetric] ldm_def [symmetric] ld2_def [symmetric] Let_def split: option.split)
        have conf: "same_config ld b" "loadingStack b = insert m (loadingStack ld)" "ld_inv env b"
          "dom (ld_modules ld) \<subseteq> dom (ld_modules b)"
          using b(2) ld2 by (auto simp: ld_step_def same_config_def)
        show ?thesis
        proof (cases r)
          case err: (Some e)
          have "ld_step env ld (leave_loading m b)"
            using conf unst by (auto simp: ld_step_def same_config_def ld_inv_def)
          with run err show ?thesis by simp
        next
          case ok: None
          obtain ld3 r3 where f: "finish_module m path (ast\<lparr>p_mods := ds'\<rparr>) b = (ld3, r3)" by fastforce
          have "set (mods_of env b m) \<subseteq> dom (ld_modules b)"
            using b(3) ok mods conf(1) by (metis same_config_def set_map)
          note fin = finish_module_step [OF conf(3) this f]
          then have "dom (ld_modules ld) \<subseteq> dom (ld_modules ld3)" using conf(4) by (meson subset_trans)
          with fin have "ld_step env ld ld3" "r3 = None \<longrightarrow> m \<in> dom (ld_modules ld3)"
            using conf(1,2) unst by (simp_all add: ld_step_def same_config_def)
          with run ok f show ?thesis by simp
        qed
      qed
    qed
  qed (use ld_step_refl [OF inv] in auto)
qed simp

subsection \<open>Properties\<close>

lemma acc_no_cycle: "x \<in> Wellfounded.acc R \<Longrightarrow> (x, x) \<notin> R\<^sup>+"
proof (induction rule: acc_induct_rule)
  case (1 x)
  show ?case
  proof
    assume "(x, x) \<in> R\<^sup>+"
    then obtain y where "(x, y) \<in> R\<^sup>*" "(y, x) \<in> R" by (auto dest: tranclD2)
    then have "(y, y) \<in> R\<^sup>+" by (meson rtrancl_into_trancl2)
    with "1.IH" \<open>(y, x) \<in> R\<close> show False by blast
  qed
qed

lemma ld_inv_acyclic:
  assumes "ld_inv env ld" and "m \<in> dom (ld_modules ld)"
  shows "(m, m) \<notin> (succ_rel (mods_of env ld))\<^sup>+"
proof -
  have "{(y, x). y \<in> set (mods_of env ld x)} = (succ_rel (mods_of env ld))\<inverse>"
    by (auto simp: succ_rel_def)
  with acc_no_cycle [of m "(succ_rel (mods_of env ld))\<inverse>"] assms show ?thesis
    by (auto simp: ld_inv_def trancl_converse)
qed

text \<open>C9. Loading the modules of a program ends, with fuel for one more than the modules that can be
  declared, and leaves no module marked as being loaded, whether it succeeds or fails. On success
  every module reachable over declarations is loaded; and in any case no module that takes part
  in a cycle of declarations ever is, so a program that reaches such a cycle is rejected.\<close>

theorem module_loading:
  assumes "finite U" and "set (map mod_name (p_mods p)) \<subseteq> U"
    and "\<forall>x \<in> U. set (mods_of env ld x) \<subseteq> U" and "card U < n"
    and "ld_modules ld = Map.empty" and "loadingStack ld = {}"
  shows "\<exists>ld' p' r. processModDeclarations n env p ld = Some (ld', p', r) \<and> loadingStack ld' = {} \<and>
    (r = None \<longrightarrow> reach (mods_of env ld) (set (map mod_name (p_mods p))) \<subseteq> dom (ld_modules ld')) \<and>
    (\<forall>m \<in> dom (ld_modules ld'). (m, m) \<notin> (succ_rel (mods_of env ld))\<^sup>+)"
proof -
  have inv: "ld_inv env ld" using assms(5) by (simp add: ld_inv_def)
  have "\<exists>b ds' r. process_mods (loadModule n env) (p_mods p) ld = Some (b, ds', r) \<and> ld_step env ld b \<and>
    (r = None \<longrightarrow> mod_name ` set (p_mods p) \<subseteq> dom (ld_modules b) \<and> map mod_name ds' = map mod_name (p_mods p))"
  proof (rule process_mods_steps [of _ env "{}" ld])
    fix d a assume a: "d \<in> set (p_mods p)" "ld_inv env a" "loadingStack a = {}" "same_config ld a"
    then have "mod_name d \<in> U" using assms(2) by auto
    then show "\<exists>b r. loadModule n env (mod_name d) a = Some (b, (), r) \<and> ld_step env a b \<and>
      (r = None \<longrightarrow> mod_name d \<in> dom (ld_modules b))"
      using a assms(1,3,4) by (intro loadModule_steps [of U env ld]) auto
  qed (use inv assms(6) in \<open>auto simp: same_config_def\<close>)
  then obtain b ds' r where b: "process_mods (loadModule n env) (p_mods p) ld = Some (b, ds', r)" "ld_step env ld b"
    "r = None \<longrightarrow> mod_name ` set (p_mods p) \<subseteq> dom (ld_modules b)" by blast
  have conf: "mods_of env b = mods_of env ld" "ld_inv env b" using b(2) by (auto simp: ld_step_def same_config_def)
  have "reach (mods_of env ld) (set (map mod_name (p_mods p))) \<subseteq> dom (ld_modules b)" if "r = None"
    using b(3) that conf by (intro reach_least) (auto simp: ld_inv_def)
  moreover have "\<forall>m \<in> dom (ld_modules b). (m, m) \<notin> (succ_rel (mods_of env ld))\<^sup>+"
    using ld_inv_acyclic [OF conf(2)] conf(1) by simp
  moreover have "loadingStack b = {}" using b(2) assms(6) by (simp add: ld_step_def)
  ultimately show ?thesis using b(1) by (auto simp: processModDeclarations_def)
qed

subsection \<open>A program of two modules\<close>

text \<open>The parser of the sample knows two texts: \<^verbatim>\<open>a\<close> declares the module \<^verbatim>\<open>b\<close>, and the empty text
  nothing.\<close>

definition sample_env :: environment where
  "sample_env = \<lparr>env_host = sample_host,
     env_exists = (\<lambda>f. f = ''./a.mla'' \<or> f = ''./b/mod.mla''),
     env_read = (\<lambda>f. Some (if f = ''./a.mla'' then ''a'' else [])),
     env_yyparse = (\<lambda>s. \<lparr>run_result = 0, parseHadError = False, programRoot = Some (ProgramRoot
        (if s = ''a'' then empty_program\<lparr>p_mods := [\<lparr>mod_name = ''b'', mod_filePath = []\<rparr>]\<rparr> else empty_program))\<rparr>)\<rparr>"

lemma sample_declared:
  "mods_of sample_env (new_loader ''.'' []) ''a'' = [''b'']"
  "mods_of sample_env (new_loader ''.'' []) ''b'' = []"
  by (simp_all add: declared_mods_def file_of_def new_loader_def sample_env_def path_join_def parse_source_def
      preprocess_conditional_regions_def region_loop.simps region_line_def parse_region_tag_def trim_def isspace_def
      empty_program_def)

lemma module_loading_witness:
  "\<exists>ld' p' r. processModDeclarations 3 sample_env (empty_program\<lparr>p_mods := [\<lparr>mod_name = ''a'', mod_filePath = []\<rparr>]\<rparr>)
     (new_loader ''.'' []) = Some (ld', p', r) \<and> loadingStack ld' = {}"
proof -
  have "\<forall>x \<in> {''a'', ''b''}. set (mods_of sample_env (new_loader ''.'' []) x) \<subseteq> {''a'', ''b''}"
    by (simp add: sample_declared)
  from module_loading [OF _ _ this, of "empty_program\<lparr>p_mods := [\<lparr>mod_name = ''a'', mod_filePath = []\<rparr>]\<rparr>" 3]
  show ?thesis by (simp add: new_loader_def) blast
qed

end
