(* ===== verification/Diagnostics.thy ===== *)
theory Diagnostics
  imports Cxx_Strings
begin

text \<open>
  Diagnostics (\<^verbatim>\<open>include/diagnostics.h\<close>): the code a message is classified under, the formatted
  text, the location in front of it, and the capture of the parser's first diagnostic, whose two
  thread-local variables are the record below.
\<close>

record parser_diagnostic =
  diag_line :: int
  diag_column :: int
  diag_message :: string

record capture_state =
  parser_diagnostic_capture_enabled :: bool
  captured_parser_diagnostic :: parser_diagnostic

definition no_diagnostic :: parser_diagnostic where
  "no_diagnostic = \<lparr>diag_line = 0, diag_column = 0, diag_message = []\<rparr>"

definition begin_parser_diagnostic_capture :: "capture_state \<Rightarrow> capture_state" where
  "begin_parser_diagnostic_capture s =
     s\<lparr>parser_diagnostic_capture_enabled := True, captured_parser_diagnostic := no_diagnostic\<rparr>"

definition end_parser_diagnostic_capture :: "capture_state \<Rightarrow> capture_state \<times> parser_diagnostic" where
  "end_parser_diagnostic_capture s =
     (s\<lparr>parser_diagnostic_capture_enabled := False, captured_parser_diagnostic := no_diagnostic\<rparr>,
      captured_parser_diagnostic s)"

definition capture_parser_diagnostic :: "parser_diagnostic \<Rightarrow> capture_state \<Rightarrow> capture_state \<times> bool" where
  "capture_parser_diagnostic d s =
     (if \<not> parser_diagnostic_capture_enabled s then (s, False)
      else (if diag_message (captured_parser_diagnostic s) = [] then s\<lparr>captured_parser_diagnostic := d\<rparr> else s, True))"

definition docs_page :: string where
  "docs_page = ''compiler_diagnostics.html''"

definition docs_ref :: "string \<Rightarrow> string" where
  "docs_ref code = ''see docs: '' @ docs_page @ '' ('' @ code @ '')''"

definition quoted_colon :: string where
  "quoted_colon = [squote, CHR '':'', squote]"

definition classify_warning_code :: "string \<Rightarrow> string" where
  "classify_warning_code message =
     (if contains_str (''plain if/else-if with '' @ quoted_colon) message then ''MLANG-W0001''
      else if contains_str (''plain while with '' @ quoted_colon) message then ''MLANG-W0002''
      else if contains_str ''result.unwrap() may panic'' message then ''MLANG-W0003''
      else if contains_str ''empty block'' message then ''MLANG-W0004''
      else if contains_str ''implicit zero-initialization'' message then ''MLANG-W0005''
      else ''MLANG-W9999'')"

definition classify_error_code :: "string \<Rightarrow> string" where
  "classify_error_code message =
     (if contains_str ''unknown variable'' message then ''MLANG-E2001''
      else if contains_str ''type mismatch'' message then ''MLANG-E2002''
      else if contains_str ''unknown struct type'' message then ''MLANG-E2003''
      else if contains_str ''unknown method'' message then ''MLANG-E2004''
      else if contains_str ''division by zero'' message \<or> contains_str ''modulo by zero'' message then ''MLANG-E2005''
      else if contains_str ''moved value'' message \<or> contains_str ''cannot move'' message \<or> contains_str ''borrow'' message
      then ''MLANG-E2006''
      else if contains_str ''match '' message then ''MLANG-E2007''
      else if contains_str ''missing entry point'' message then ''MLANG-E2008''
      else if contains_str ''narrow_cast constant'' message then ''MLANG-E2009''
      else if contains_str ''internal error'' message then ''MLANG-E9000''
      else ''MLANG-E2999'')"

definition format_message_with_code :: "string \<Rightarrow> string \<Rightarrow> string" where
  "format_message_with_code code message = ''['' @ code @ ''] '' @ message @ '' ['' @ docs_ref code @ '']''"

definition format_error_message :: "string \<Rightarrow> string" where
  "format_error_message message = format_message_with_code (classify_error_code message) message"

definition format_warning_message :: "string \<Rightarrow> string" where
  "format_warning_message message = format_message_with_code (classify_warning_code message) message"

definition diagnostic_location :: "string \<Rightarrow> int \<Rightarrow> int \<Rightarrow> string \<Rightarrow> string" where
  "diagnostic_location file line col level =
     (if 0 < line \<and> 0 < col then file @ '':'' @ dec_str (nat line) @ '':'' @ dec_str (nat col) @ '': '' @ level @ '': ''
      else if 0 < line then file @ '':'' @ dec_str (nat line) @ '': '' @ level @ '': ''
      else file @ '': '' @ level @ '': '')"

text \<open>The captures of one parse: the calls between the begin and the end.\<close>

definition captures :: "parser_diagnostic list \<Rightarrow> capture_state \<Rightarrow> capture_state" where
  "captures ds s = fold (\<lambda>d s. fst (capture_parser_diagnostic d s)) ds s"

lemma captures_nonempty:
  "diag_message (captured_parser_diagnostic s) \<noteq> [] \<Longrightarrow> captures ds s = s"
  by (induction ds) (auto simp: captures_def capture_parser_diagnostic_def)

lemma captures_first:
  "parser_diagnostic_capture_enabled s \<Longrightarrow> diag_message (captured_parser_diagnostic s) = [] \<Longrightarrow>
     find (\<lambda>d. diag_message d \<noteq> []) ds = Some d \<Longrightarrow> captured_parser_diagnostic (captures ds s) = d"
proof (induction ds arbitrary: s)
  case (Cons e ds)
  let ?s = "s\<lparr>captured_parser_diagnostic := e\<rparr>"
  have step: "captures (e # ds) s = captures ds ?s"
    using Cons.prems by (simp add: captures_def capture_parser_diagnostic_def)
  show ?case
  proof (cases "diag_message e = []")
    case True
    with Cons.IH [of ?s] Cons.prems step show ?thesis by simp
  next
    case False
    with captures_nonempty [of ?s ds] Cons.prems step show ?thesis by simp
  qed
qed simp

text \<open>Between the begin and the end of a capture, the first diagnostic with a message is the one
  kept, however many follow; the end hands it out and leaves the capture off and empty, and while
  it is off nothing is recorded.\<close>

theorem first_diagnostic_captured:
  assumes "find (\<lambda>d. diag_message d \<noteq> []) ds = Some d"
  shows "end_parser_diagnostic_capture (captures ds (begin_parser_diagnostic_capture s)) =
    (s\<lparr>parser_diagnostic_capture_enabled := False, captured_parser_diagnostic := no_diagnostic\<rparr>, d) \<and>
    capture_parser_diagnostic e (s\<lparr>parser_diagnostic_capture_enabled := False\<rparr>) =
      (s\<lparr>parser_diagnostic_capture_enabled := False\<rparr>, False)"
proof -
  let ?b = "begin_parser_diagnostic_capture s"
  have d: "captured_parser_diagnostic (captures ds ?b) = d"
    by (rule captures_first [OF _ _ assms]) (simp_all add: begin_parser_diagnostic_capture_def no_diagnostic_def)
  have "(captures ds t)\<lparr>parser_diagnostic_capture_enabled := False, captured_parser_diagnostic := no_diagnostic\<rparr> =
    t\<lparr>parser_diagnostic_capture_enabled := False, captured_parser_diagnostic := no_diagnostic\<rparr>" for t
    by (induction ds arbitrary: t) (auto simp: captures_def capture_parser_diagnostic_def)
  then show ?thesis using d
    by (simp add: end_parser_diagnostic_capture_def capture_parser_diagnostic_def begin_parser_diagnostic_capture_def)
qed

lemma first_diagnostic_captured_witness:
  "snd (end_parser_diagnostic_capture (captures
     [\<lparr>diag_line = 2, diag_column = 1, diag_message = ''x''\<rparr>, \<lparr>diag_line = 3, diag_column = 1, diag_message = ''y''\<rparr>]
     (begin_parser_diagnostic_capture \<lparr>parser_diagnostic_capture_enabled = False, captured_parser_diagnostic = no_diagnostic\<rparr>))) =
   \<lparr>diag_line = 2, diag_column = 1, diag_message = ''x''\<rparr>"
  using first_diagnostic_captured [of
      "[\<lparr>diag_line = 2, diag_column = 1, diag_message = ''x''\<rparr>, \<lparr>diag_line = 3, diag_column = 1, diag_message = ''y''\<rparr>]"
      "\<lparr>diag_line = 2, diag_column = 1, diag_message = ''x''\<rparr>"
      "\<lparr>parser_diagnostic_capture_enabled = False, captured_parser_diagnostic = no_diagnostic\<rparr>" no_diagnostic]
  by simp

end
