(* ===== verification/Std_Bits.thy ===== *)
theory Std_Bits
  imports Prelude "HOL-Library.Word" "HOL-Library.Signed_Division"
begin

text \<open>
  The bit operations of the runtime library (\<^verbatim>\<open>stdlib/src/std_bits.c\<close>). A \<^verbatim>\<open>uintN_t\<close> is a word of
  that length, \<^verbatim>\<open>>>\<close> and \<^verbatim>\<open><<\<close> are \<^const>\<open>drop_bit\<close> and \<^const>\<open>push_bit\<close>, and the counters, which never
  pass 64, are natural numbers. The macro \<^verbatim>\<open>DEFINE_WIDTH_BIT_OPERATIONS\<close> is instantiated for 32, 16
  and 8 bits; its functions, with the suffix \<open>_sfx\<close> here, take a word of any length.
\<close>

unbundle bit_operations_syntax

section \<open>The operations on 64 bits\<close>

function popcount_loop :: "64 word \<Rightarrow> nat \<Rightarrow> nat" where
  "popcount_loop v count = (if v \<noteq> 0 then popcount_loop (v AND (v - 1)) (Suc count) else count)"
  by pat_completeness auto

lemma and_minus_one_less: "v AND (v - 1) < v" if "v \<noteq> 0" for v :: "'a::len word"
proof -
  have "v AND (v - 1) \<le> v - 1" by (rule word_and_le1)
  also have "v - 1 < v" using that by (simp add: word_less_nat_alt unat_minus_one unat_gt_0)
  finally show ?thesis .
qed

termination popcount_loop
  by (relation "measure (\<lambda>(v, count). unat v)") (simp_all add: and_minus_one_less flip: word_less_nat_alt)

declare popcount_loop.simps [simp del]

definition popcount_u64 :: "64 word \<Rightarrow> nat" where
  "popcount_u64 v = popcount_loop v 0"

definition has_single_bit_u64 :: "64 word \<Rightarrow> bool" where
  "has_single_bit_u64 v \<longleftrightarrow> v \<noteq> 0 \<and> v AND (v - 1) = 0"

lemma drop_bit_1_less: "unat (drop_bit (Suc 0) v) < unat v" if "v \<noteq> 0" for v :: "'a::len word"
  using that by (simp add: drop_bit_eq_div unat_gt_0 unat_div)

function width_loop :: "64 word \<Rightarrow> nat \<Rightarrow> nat" where
  "width_loop v width = (if v \<noteq> 0 then width_loop (drop_bit 1 v) (Suc width) else width)"
  by pat_completeness auto
termination by (relation "measure (\<lambda>(v, width). unat v)") (simp_all add: drop_bit_1_less)

declare width_loop.simps [simp del]

definition bit_width_u64 :: "64 word \<Rightarrow> nat" where
  "bit_width_u64 v = width_loop v 0"

function countl_loop :: "64 word \<Rightarrow> 64 word \<Rightarrow> nat \<Rightarrow> nat" where
  "countl_loop v m count =
     (if m \<noteq> 0 \<and> v AND m = 0 then countl_loop v (drop_bit 1 m) (Suc count) else count)"
  by pat_completeness auto
termination by (relation "measure (\<lambda>(v, m, count). unat m)") (simp_all add: drop_bit_1_less)

declare countl_loop.simps [simp del]

definition countl_zero_u64 :: "64 word \<Rightarrow> nat" where
  "countl_zero_u64 v = countl_loop v (push_bit 63 1) 0"

function countr_loop :: "64 word \<Rightarrow> nat \<Rightarrow> nat" where
  "countr_loop v count =
     (if v = 0 then count else if v AND 1 = 0 then countr_loop (drop_bit 1 v) (Suc count) else count)"
  by pat_completeness auto
termination by (relation "measure (\<lambda>(v, count). unat v)") (simp_all add: drop_bit_1_less)

declare countr_loop.simps [simp del]

definition countr_zero_u64 :: "64 word \<Rightarrow> nat" where
  "countr_zero_u64 v = (if v = 0 then 64 else countr_loop v 0)"

definition countl_one_u64 :: "64 word \<Rightarrow> nat" where
  "countl_one_u64 v = countl_zero_u64 (NOT v)"

definition countr_one_u64 :: "64 word \<Rightarrow> nat" where
  "countr_one_u64 v = countr_zero_u64 (NOT v)"

function floor_loop :: "64 word \<Rightarrow> 64 word \<Rightarrow> 64 word" where
  "floor_loop v fl =
     (let v' = drop_bit 1 v in if v' \<noteq> 0 then floor_loop v' (push_bit 1 fl) else fl)"
  by pat_completeness auto
termination
proof (relation "measure (\<lambda>(v, fl). unat v)", goal_cases)
  case (2 v fl x)
  then have "v \<noteq> 0" by auto
  with 2 show ?case by (simp add: drop_bit_1_less)
qed simp

declare floor_loop.simps [simp del]

definition bit_floor_u64 :: "64 word \<Rightarrow> 64 word" where
  "bit_floor_u64 v = (if v = 0 then 0 else floor_loop v 1)"

definition smear :: "nat \<Rightarrow> 64 word \<Rightarrow> 64 word" where
  "smear k v = v OR drop_bit k v"

definition bit_ceil_u64 :: "64 word \<Rightarrow> 64 word" where
  "bit_ceil_u64 v =
     (if v \<le> 1 then 1
      else smear 32 (smear 16 (smear 8 (smear 4 (smear 2 (smear 1 (v - 1)))))) + 1)"

definition normalize_rotation :: "int \<Rightarrow> nat" where
  "normalize_rotation shift =
     (let normalized = shift smod 64
      in nat (if normalized < 0 then normalized + 64 else normalized))"

definition rotl_u64 :: "64 word \<Rightarrow> int \<Rightarrow> 64 word" where
  "rotl_u64 v shift =
     (let amount = normalize_rotation shift
      in if amount = 0 then v else push_bit amount v OR drop_bit (64 - amount) v)"

definition rotr_u64 :: "64 word \<Rightarrow> int \<Rightarrow> 64 word" where
  "rotr_u64 v shift =
     (let amount = normalize_rotation shift
      in if amount = 0 then v else drop_bit amount v OR push_bit (64 - amount) v)"

section \<open>The operations on narrower words\<close>

definition width_mask :: "nat \<Rightarrow> 64 word" where
  "width_mask width = push_bit width 1 - 1"

definition popcount_width :: "64 word \<Rightarrow> nat" where
  "popcount_width v = popcount_loop v 0"

definition countl_zero_width :: "64 word \<Rightarrow> nat \<Rightarrow> nat" where
  "countl_zero_width v width = countl_loop v (push_bit (width - 1) 1) 0"

definition countr_zero_width :: "64 word \<Rightarrow> nat \<Rightarrow> nat" where
  "countr_zero_width v width = (if v = 0 then width else countr_loop v 0)"

definition bit_floor_width :: "64 word \<Rightarrow> 64 word" where
  "bit_floor_width v = (if v = 0 then 0 else floor_loop v 1)"

partial_function (option) ceil_loop :: "64 word \<Rightarrow> 64 word \<Rightarrow> 64 word \<Rightarrow> 64 word option" where
  "ceil_loop v m cl =
     (if cl < v \<and> cl \<le> drop_bit 1 m then ceil_loop v m (push_bit 1 cl) else Some cl)"

definition bit_ceil_width :: "64 word \<Rightarrow> nat \<Rightarrow> 64 word option" where
  "bit_ceil_width v width =
     (if v \<le> 1 then Some 1
      else map_option (\<lambda>cl. if cl < v then 0 else cl) (ceil_loop v (width_mask width) 1))"

definition rotl_width :: "64 word \<Rightarrow> int \<Rightarrow> nat \<Rightarrow> 64 word" where
  "rotl_width v shift width =
     (let r = shift smod int width;
          amount = nat (if r < 0 then r + int width else r)
      in if amount = 0 then v AND width_mask width
         else (push_bit amount v OR drop_bit (width - amount) v) AND width_mask width)"

definition rotr_width :: "64 word \<Rightarrow> int \<Rightarrow> nat \<Rightarrow> 64 word" where
  "rotr_width v shift width =
     (let r = shift smod int width;
          amount = nat (if r < 0 then r + int width else r)
      in if amount = 0 then v AND width_mask width
         else (drop_bit amount v OR push_bit (width - amount) v) AND width_mask width)"

definition popcount_sfx :: "'a::len word \<Rightarrow> nat" where
  "popcount_sfx v = popcount_width (ucast v)"

definition has_single_bit_sfx :: "'a::len word \<Rightarrow> bool" where
  "has_single_bit_sfx value_bits =
     (let v = ucast value_bits :: 64 word in v \<noteq> 0 \<and> v AND (v - 1) = 0)"

definition bit_width_sfx :: "'a::len word \<Rightarrow> nat" where
  "bit_width_sfx v = width_loop (ucast v) 0"

definition countl_zero_sfx :: "'a::len word \<Rightarrow> nat" where
  "countl_zero_sfx v = countl_zero_width (ucast v) LENGTH('a)"

definition countr_zero_sfx :: "'a::len word \<Rightarrow> nat" where
  "countr_zero_sfx v = countr_zero_width (ucast v) LENGTH('a)"

definition countl_one_sfx :: "'a::len word \<Rightarrow> nat" where
  "countl_one_sfx v = countl_zero_width (ucast v XOR width_mask LENGTH('a)) LENGTH('a)"

definition countr_one_sfx :: "'a::len word \<Rightarrow> nat" where
  "countr_one_sfx v = countr_zero_width (ucast v XOR width_mask LENGTH('a)) LENGTH('a)"

definition bit_floor_sfx :: "'a::len word \<Rightarrow> 'a word" where
  "bit_floor_sfx v = ucast (bit_floor_width (ucast v))"

definition bit_ceil_sfx :: "'a::len word \<Rightarrow> 'a word option" where
  "bit_ceil_sfx v = map_option ucast (bit_ceil_width (ucast v) LENGTH('a))"

definition rotl_sfx :: "'a::len word \<Rightarrow> int \<Rightarrow> 'a word" where
  "rotl_sfx v shift = ucast (rotl_width (ucast v) shift LENGTH('a))"

definition rotr_sfx :: "'a::len word \<Rightarrow> int \<Rightarrow> 'a word" where
  "rotr_sfx v shift = ucast (rotr_width (ucast v) shift LENGTH('a))"

section \<open>Reversing the bytes\<close>

definition byteswap_u64 :: "64 word \<Rightarrow> 64 word" where
  "byteswap_u64 v =
     push_bit 56 (v AND 0x00000000000000FF) OR push_bit 40 (v AND 0x000000000000FF00) OR
     push_bit 24 (v AND 0x0000000000FF0000) OR push_bit 8 (v AND 0x00000000FF000000) OR
     drop_bit 8 (v AND 0x000000FF00000000) OR drop_bit 24 (v AND 0x0000FF0000000000) OR
     drop_bit 40 (v AND 0x00FF000000000000) OR drop_bit 56 (v AND 0xFF00000000000000)"

definition byteswap_u32 :: "32 word \<Rightarrow> 32 word" where
  "byteswap_u32 v =
     push_bit 24 (v AND 0x000000FF) OR push_bit 8 (v AND 0x0000FF00) OR
     drop_bit 8 (v AND 0x00FF0000) OR drop_bit 24 (v AND 0xFF000000)"

text \<open>C promotes \<^verbatim>\<open>uint16_t\<close> to \<^verbatim>\<open>int\<close> before the shifts and truncates the result; no bit it shifts
  out is kept by the masks.\<close>

definition byteswap_u16 :: "16 word \<Rightarrow> 16 word" where
  "byteswap_u16 v =
     ucast (push_bit 8 (ucast v AND 0x00FF :: 32 word) OR drop_bit 8 (ucast v AND 0xFF00))"

definition byteswap_u8 :: "8 word \<Rightarrow> 8 word" where
  "byteswap_u8 v = v"

section \<open>The loops\<close>

text \<open>The number of one bits of a natural number, and the loop that clears the lowest of them.\<close>

fun ones :: "nat \<Rightarrow> nat" where
  "ones m = (if m = 0 then 0 else m mod 2 + ones (m div 2))"

declare ones.simps [simp del]

lemma ones_0 [simp]: "ones 0 = 0"
  by (simp add: ones.simps)

lemma ones_eq_0: "ones m = 0 \<longleftrightarrow> m = 0"
proof (induction m rule: ones.induct)
  case (1 m)
  then show ?case by (subst ones.simps) (auto simp: odd_iff_mod_2_eq_one)
qed

lemma ones_double: "ones (2 * m) = ones m"
  by (subst ones.simps) simp

lemma ones_double_1: "ones (2 * m + 1) = Suc (ones m)"
  by (subst ones.simps) simp

lemma and_minus_one_even: "0 < q \<Longrightarrow> (2 * q) AND (2 * q - 1) = 2 * (q AND (q - 1))" for q :: nat
proof -
  assume "0 < q"
  then obtain p where q: "q = Suc p" by (cases q) auto
  have "2 * q - 1 = 2 * p + 1" using q by simp
  then show ?thesis using q by (subst and_rec) simp
qed

lemma ones_and_minus_one: "0 < m \<Longrightarrow> Suc (ones (m AND (m - 1))) = ones m"
proof (induction m rule: less_induct)
  case (less m)
  show ?case
  proof (cases "even m")
    case True
    then obtain q where m: "m = 2 * q" by (elim evenE)
    with less.prems have "0 < q" "q < m" by simp_all
    with less.IH [of q] m show ?thesis by (simp add: and_minus_one_even ones_double del: One_nat_def)
  next
    case False
    then obtain q where m: "m = 2 * q + 1" by (elim oddE)
    have "m AND (m - 1) = 2 * q" using m by (subst and_rec) simp
    with m show ?thesis by (simp only: ones_double ones_double_1)
  qed
qed

lemma finite_bits: "finite {n. bit (m :: nat) n}"
proof (induction m rule: less_induct)
  case (less m)
  show ?case
  proof (cases "m = 0")
    case False
    have "{n. bit m n} \<subseteq> insert 0 (Suc ` {n. bit (m div 2) n})"
    proof
      fix n assume "n \<in> {n. bit m n}"
      then show "n \<in> insert 0 (Suc ` {n. bit (m div 2) n})" by (cases n) (simp_all add: bit_Suc)
    qed
    moreover from False have "finite {n. bit (m div 2) n}" by (intro less.IH) simp
    ultimately show ?thesis by (meson finite.insertI finite_imageI finite_subset)
  qed simp
qed

lemma ones_card: "ones m = card {n. bit m n}"
proof (induction m rule: less_induct)
  case (less m)
  show ?case
  proof (cases "m = 0")
    case False
    have eq: "{n. bit m n} = (if odd m then {0} else {}) \<union> Suc ` {n. bit (m div 2) n}"
    proof (rule set_eqI)
      fix n
      show "n \<in> {n. bit m n} \<longleftrightarrow> n \<in> (if odd m then {0} else {}) \<union> Suc ` {n. bit (m div 2) n}"
        by (cases n) (auto simp: bit_Suc bit_0)
    qed
    have "card {n. bit m n} = of_bool (odd m) + card {n. bit (m div 2) n}"
      unfolding eq by (subst card_Un_disjoint) (auto simp: finite_bits card_image)
    moreover from False less.IH [of "m div 2"] have "ones (m div 2) = card {n. bit (m div 2) n}" by simp
    ultimately show ?thesis using False by (subst ones.simps) (simp add: mod_2_eq_odd)
  qed simp
qed

lemma popcount_loop_ones: "popcount_loop v count = count + ones (unat v)"
proof (induction v count rule: popcount_loop.induct)
  case (1 v count)
  show ?case
  proof (cases "v = 0")
    case True then show ?thesis by (simp add: popcount_loop.simps)
  next
    case False
    then have "0 < unat v" by (simp add: unat_gt_0)
    from ones_and_minus_one [OF this] False 1 show ?thesis
      by (subst popcount_loop.simps) (simp add: unsigned_and_eq unat_minus_one)
  qed
qed

lemma ones_unat: "ones (unat v) = card {n. bit v n}" for v :: "'a::len word"
  by (simp add: ones_card bit_unsigned_iff)

text \<open>The length of a word: the least number of bits that hold it.\<close>

definition bits_needed :: "'a::len word \<Rightarrow> nat" where
  "bits_needed v = (LEAST w. unat v < 2 ^ w)"

lemma unat_less_pow: "unat v < 2 ^ k" if "\<And>n. bit v n \<Longrightarrow> n < k" for v :: "'a::len word"
proof -
  have "take_bit k v = v"
    by (rule bit_eqI) (use that in \<open>auto simp: bit_take_bit_iff\<close>)
  then have "unat v = take_bit k (unat v)" by (metis unsigned_take_bit_eq)
  then show ?thesis by (metis take_bit_nat_less_exp)
qed

lemma pow_le_unat: "2 ^ j \<le> unat v" if "bit v j" for v :: "'a::len word"
proof (rule ccontr)
  assume "\<not> 2 ^ j \<le> unat v"
  then have "take_bit j (unat v) = unat v" by (simp add: take_bit_nat_eq_self_iff)
  moreover have "bit (unat v) j" using that by (simp add: bit_unsigned_iff bit_imp_le_length)
  ultimately show False by (metis bit_take_bit_iff less_irrefl)
qed

lemma bits_needed_top:
  assumes "\<And>n. bit v n \<Longrightarrow> n < k" and "0 < k \<Longrightarrow> bit v (k - 1)"
  shows "bits_needed v = k"
  unfolding bits_needed_def
proof (rule Least_equality)
  show "unat v < 2 ^ k" using assms(1) by (rule unat_less_pow)
  fix w assume w: "unat v < 2 ^ w"
  show "k \<le> w"
  proof (cases "k = 0")
    case False
    then have "2 ^ (k - 1) \<le> unat v" by (intro pow_le_unat assms(2)) simp
    with w have "(2 :: nat) ^ (k - 1) < 2 ^ w" by (rule le_less_trans [rotated])
    then have "k - 1 < w" by (simp add: power_strict_increasing_iff)
    then show ?thesis by simp
  qed simp
qed

lemma bits_needed_less_pow: "unat v < 2 ^ bits_needed v" for v :: "'a::len word"
  unfolding bits_needed_def by (rule LeastI [of _ "LENGTH('a)"]) simp

lemma bit_less_bits_needed: "bit v n \<Longrightarrow> n < bits_needed v"
proof -
  assume "bit v n"
  then have "2 ^ n \<le> unat v" by (rule pow_le_unat)
  then have "(2 :: nat) ^ n < 2 ^ bits_needed v" using bits_needed_less_pow [of v] by (rule le_less_trans)
  then show ?thesis by (simp add: power_strict_increasing_iff)
qed

lemma bits_needed_le: "bits_needed v \<le> LENGTH('a)" for v :: "'a::len word"
  unfolding bits_needed_def by (rule Least_le) simp

lemma bits_needed_0 [simp]: "bits_needed (0 :: 'a::len word) = 0"
  by (rule bits_needed_top) auto

lemma bit_top: "v \<noteq> 0 \<Longrightarrow> 0 < bits_needed v \<and> bit v (bits_needed v - 1)" for v :: "'a::len word"
proof -
  assume "v \<noteq> 0"
  then have pos: "0 < bits_needed v"
    using bits_needed_less_pow [of v] by (cases "bits_needed v") (simp_all add: unat_eq_zero)
  have "\<exists>n. bit v n \<and> bits_needed v - 1 \<le> n"
  proof (rule ccontr)
    assume "\<not> ?thesis"
    then have "\<And>n. bit v n \<Longrightarrow> n < bits_needed v - 1" by auto
    then have "unat v < 2 ^ (bits_needed v - 1)" by (rule unat_less_pow)
    then have "bits_needed v \<le> bits_needed v - 1" unfolding bits_needed_def by (rule Least_le)
    with pos show False by simp
  qed
  then obtain n where n: "bit v n" "bits_needed v - 1 \<le> n" by blast
  with bit_less_bits_needed [OF n(1)] have "n = bits_needed v - 1" by simp
  with n pos show ?thesis by simp
qed

lemma bits_needed_drop: "v \<noteq> 0 \<Longrightarrow> bits_needed v = Suc (bits_needed (drop_bit (Suc 0) v))"
proof (rule bits_needed_top)
  fix n assume "bit v n"
  show "n < Suc (bits_needed (drop_bit (Suc 0) v))"
  proof (cases n)
    case (Suc m)
    with \<open>bit v n\<close> have "bit (drop_bit (Suc 0) v) m" by (simp add: bit_drop_bit_eq)
    with Suc show ?thesis by (simp add: bit_less_bits_needed)
  qed simp
next
  let ?u = "drop_bit (Suc 0) v"
  assume "v \<noteq> 0"
  note top = bit_top [OF this]
  have "bit v (bits_needed ?u)"
  proof (cases "?u = 0")
    case True
    show ?thesis
    proof (cases "bits_needed v - 1")
      case 0 with top True show ?thesis by simp
    next
      case (Suc m)
      with top have "bit ?u m" by (simp add: bit_drop_bit_eq)
      with True show ?thesis by simp
    qed
  next
    case False
    with bit_top [OF this] show ?thesis by (cases "bits_needed ?u") (simp_all add: bit_drop_bit_eq)
  qed
  then show "bit v (Suc (bits_needed ?u) - 1)" by simp
qed

lemma width_loop_eq: "width_loop v w = w + bits_needed v"
proof (induction v w rule: width_loop.induct)
  case (1 v w)
  then show ?case by (subst width_loop.simps) (simp add: bits_needed_drop)
qed

lemma push_bit_1_neq_0: "push_bit j 1 \<noteq> (0 :: 'a::len word)" if "j < LENGTH('a)"
proof
  assume *: "push_bit j 1 = (0 :: 'a word)"
  have "\<not> bit (push_bit j 1 :: 'a word) j" unfolding * by simp
  moreover have "bit (push_bit j 1 :: 'a word) j" using that by (simp only: bit_push_bit_iff bit_1_iff diff_self_eq_0) simp
  ultimately show False by simp
qed

lemma and_push_bit_1_eq_0: "v AND push_bit j 1 = 0 \<longleftrightarrow> \<not> bit v j" if "j < LENGTH('a)" for v :: "'a::len word"
proof -
  have "v AND push_bit j 1 = (if bit v j then push_bit j 1 else 0)"
    by (rule bit_eqI) (auto simp: bit_simps bit_1_iff)
  moreover have "push_bit j 1 \<noteq> (0 :: 'a word)" using that by (rule push_bit_1_neq_0)
  ultimately show ?thesis by simp
qed

lemma countl_loop_eq:
  assumes "j < 64" and "\<And>n. bit v n \<Longrightarrow> n \<le> j"
  shows "countl_loop v (push_bit j 1) count = count + (Suc j - bits_needed v)"
  using assms
proof (induction j arbitrary: count)
  case 0
  have step: "countl_loop v 0 n = n" for n by (subst countl_loop.simps) simp
  show ?case
  proof (cases "bit v 0")
    case True
    then have "bits_needed v = 1" using 0 by (intro bits_needed_top) auto
    then show ?thesis using True and_push_bit_1_eq_0 [of 0 v] by (subst countl_loop.simps) simp
  next
    case False
    with 0 have "bits_needed v = 0" by (intro bits_needed_top) auto
    moreover have "drop_bit (Suc 0) (1 :: 64 word) = 0" by (simp add: drop_bit_eq_div)
    ultimately show ?thesis using False and_push_bit_1_eq_0 [of 0 v] by (subst countl_loop.simps) (simp add: step)
  qed
next
  case (Suc j)
  have nz: "push_bit (Suc j) 1 \<noteq> (0 :: 64 word)" using Suc.prems(1) by (intro push_bit_1_neq_0) simp
  have dr: "drop_bit (Suc 0) (push_bit (Suc j) (1 :: 64 word)) = push_bit j 1"
    by (rule bit_eqI) (use Suc.prems(1) in \<open>auto simp: bit_simps bit_1_iff\<close>)
  show ?case
  proof (cases "bit v (Suc j)")
    case True
    then have "bits_needed v = Suc (Suc j)" using Suc.prems(2) by (intro bits_needed_top) (auto simp: less_Suc_eq_le)
    then show ?thesis using True and_push_bit_1_eq_0 [of "Suc j" v] Suc.prems(1) nz
      by (subst countl_loop.simps) (simp del: push_bit_Suc)
  next
    case False
    have le: "n \<le> j" if "bit v n" for n using Suc.prems(2) [OF that] False that by (cases "n = Suc j") auto
    have "bits_needed v \<le> Suc j"
      unfolding bits_needed_def by (rule Least_le, rule unat_less_pow) (simp add: le less_Suc_eq_le)
    moreover have "countl_loop v (push_bit (Suc j) 1) count = countl_loop v (push_bit j 1) (Suc count)"
      using False and_push_bit_1_eq_0 [of "Suc j" v] Suc.prems(1) nz dr by (subst countl_loop.simps) (simp del: push_bit_Suc)
    ultimately show ?thesis using Suc.IH [of "Suc count"] Suc.prems(1) le by simp
  qed
qed

text \<open>The position of the lowest one bit.\<close>

definition lowest_bit :: "'a::len word \<Rightarrow> nat" where
  "lowest_bit v = (LEAST n. bit v n)"

lemma lowest_bitI: "bit v k \<Longrightarrow> (\<And>n. n < k \<Longrightarrow> \<not> bit v n) \<Longrightarrow> lowest_bit v = k"
  unfolding lowest_bit_def by (rule Least_equality) (auto simp: not_less [symmetric])

lemma ex_bit: "v \<noteq> 0 \<Longrightarrow> \<exists>n. bit v n" for v :: "'a::len word"
  using bit_top by blast

lemma bit_lowest_bit: "v \<noteq> 0 \<Longrightarrow> bit v (lowest_bit v)" for v :: "'a::len word"
  unfolding lowest_bit_def by (drule ex_bit) (rule LeastI_ex)

lemma countr_loop_eq: "v \<noteq> 0 \<Longrightarrow> countr_loop v count = count + lowest_bit v"
proof (induction v count rule: countr_loop.induct)
  case (1 v count)
  have low: "v AND 1 = 0 \<longleftrightarrow> \<not> bit v 0" using and_push_bit_1_eq_0 [of 0 v] by simp
  show ?case
  proof (cases "bit v 0")
    case True
    then have "lowest_bit v = 0" by (intro lowest_bitI) auto
    with True low 1 show ?thesis by (subst countr_loop.simps) simp
  next
    case False
    let ?u = "drop_bit (Suc 0) v"
    have "?u \<noteq> 0"
    proof
      assume "?u = 0"
      obtain n where "bit v n" using ex_bit [OF \<open>v \<noteq> 0\<close>] by blast
      with False obtain m where "bit v (Suc m)" by (cases n) auto
      then have "bit ?u m" by (simp add: bit_drop_bit_eq)
      with \<open>?u = 0\<close> show False by simp
    qed
    moreover from bit_lowest_bit [OF this] have "lowest_bit v = Suc (lowest_bit ?u)"
    proof (intro lowest_bitI)
      fix n assume "n < Suc (lowest_bit ?u)"
      show "\<not> bit v n"
      proof (cases n)
        case (Suc m)
        with \<open>n < _\<close> have "\<not> bit ?u m" unfolding lowest_bit_def by (intro not_less_Least) simp
        with Suc show ?thesis by (simp add: bit_drop_bit_eq)
      qed (use False in simp)
    qed (simp add: bit_drop_bit_eq)
    ultimately show ?thesis using 1 False low by (subst countr_loop.simps) simp
  qed
qed

lemma floor_loop_eq: "v \<noteq> 0 \<Longrightarrow> floor_loop v fl = push_bit (bits_needed v - 1) fl"
proof (induction v fl rule: floor_loop.induct)
  case (1 v fl)
  show ?case
  proof (cases "drop_bit (Suc 0) v = 0")
    case True
    then have "bits_needed v = 1" using 1 by (simp add: bits_needed_drop)
    with True show ?thesis by (subst floor_loop.simps) simp
  next
    case False
    then have "0 < bits_needed (drop_bit (Suc 0) v)" using bit_top by blast
    then obtain k where k: "bits_needed (drop_bit (Suc 0) v) = Suc k" by (cases "bits_needed (drop_bit (Suc 0) v)") auto
    have "floor_loop v fl = floor_loop (drop_bit (Suc 0) v) (push_bit 1 fl)"
      using False by (subst floor_loop.simps) simp
    also have "\<dots> = push_bit k (push_bit 1 fl)" using 1(1) False k by simp
    finally show ?thesis using 1(2) k by (simp add: bits_needed_drop push_bit_push_bit)
  qed
qed

lemma bit_smear:
  assumes "\<And>n. bit r n \<longleftrightarrow> (\<exists>i<k. bit v (n + i))"
  shows "bit (smear k r) n \<longleftrightarrow> (\<exists>i<2 * k. bit v (n + i))"
proof -
  have "(\<exists>i<2 * k. bit v (n + i)) \<longleftrightarrow> (\<exists>i<k. bit v (n + i)) \<or> (\<exists>i<k. bit v (n + k + i))"
  proof
    assume "\<exists>i<2 * k. bit v (n + i)"
    then obtain i where i: "i < 2 * k" "bit v (n + i)" by blast
    show "(\<exists>i<k. bit v (n + i)) \<or> (\<exists>i<k. bit v (n + k + i))"
    proof (cases "i < k")
      case False
      then have "i - k < k" "n + k + (i - k) = n + i" using i(1) by simp_all
      with i(2) show ?thesis by metis
    qed (use i in blast)
  next
    assume "(\<exists>i<k. bit v (n + i)) \<or> (\<exists>i<k. bit v (n + k + i))"
    then show "\<exists>i<2 * k. bit v (n + i)"
    proof
      assume "\<exists>i<k. bit v (n + k + i)"
      then obtain i where "i < k" "bit v (n + (k + i))" by (auto simp: add.assoc)
      moreover from \<open>i < k\<close> have "k + i < 2 * k" by simp
      ultimately show ?thesis by blast
    next
      assume "\<exists>i<k. bit v (n + i)"
      then obtain i where "i < k" "bit v (n + i)" by blast
      moreover from \<open>i < k\<close> have "i < 2 * k" by simp
      ultimately show ?thesis by blast
    qed
  qed
  then show ?thesis by (simp add: smear_def bit_or_iff bit_drop_bit_eq assms add.commute add.left_commute)
qed

section \<open>Powers of two\<close>

lemma unat_exp: "j < LENGTH('a) \<Longrightarrow> unat (2 ^ j :: 'a::len word) = 2 ^ j"
  using unsigned_push_bit_eq [where 'a = nat, of j "1 :: 'a word"]
  by (simp add: push_bit_eq_mult take_bit_nat_eq_self_iff)

lemma unat_push_bit_1: "j < LENGTH('a) \<Longrightarrow> unat (push_bit j 1 :: 'a::len word) = 2 ^ j"
  by (simp add: push_bit_eq_mult unat_exp)

lemma single_bit_iff:
  "v \<noteq> 0 \<and> v AND (v - 1) = 0 \<longleftrightarrow> (\<exists>n<LENGTH('a). v = push_bit n 1)" for v :: "'a::len word"
proof (cases "v = 0")
  case False
  then have pos: "0 < unat v" by (simp add: unat_gt_0)
  have "v AND (v - 1) = 0 \<longleftrightarrow> unat v AND (unat v - 1) = 0"
    using False by (metis unat_eq_zero unat_minus_one unsigned_and_eq)
  also have "\<dots> \<longleftrightarrow> ones (unat v) = 1"
    using ones_and_minus_one [OF pos] by (metis One_nat_def ones_eq_0 old.nat.inject)
  also have "\<dots> \<longleftrightarrow> (\<exists>n. {n. bit v n} = {n})" by (simp add: ones_unat card_1_singleton_iff)
  also have "\<dots> \<longleftrightarrow> (\<exists>n<LENGTH('a). v = push_bit n 1)"
  proof
    assume "\<exists>n. {n. bit v n} = {n}"
    then obtain n where n: "{n. bit v n} = {n}" ..
    then have bits: "bit v m \<longleftrightarrow> m = n" for m by (auto simp: set_eq_iff)
    then have "n < LENGTH('a)" by (metis bit_imp_le_length)
    moreover have "v = push_bit n 1" by (rule bit_eqI) (auto simp: bit_simps bit_1_iff bits)
    ultimately show "\<exists>n<LENGTH('a). v = push_bit n 1" by blast
  next
    assume "\<exists>n<LENGTH('a). v = push_bit n 1"
    then obtain n where n: "n < LENGTH('a)" "v = push_bit n 1" by blast
    then have "{n. bit v n} = {n}" by (auto simp: bit_exp_iff)
    then show "\<exists>n. {n. bit v n} = {n}" ..
  qed
  finally show ?thesis using False by simp
next
  case True
  then show ?thesis using push_bit_1_neq_0 [where 'a = 'a] by metis
qed

text \<open>The exponent of the least power of two that is not below a number.\<close>

definition ceil_exp :: "nat \<Rightarrow> nat" where
  "ceil_exp m = (LEAST k. m \<le> 2 ^ k)"

lemma ceil_expI: "m \<le> 2 ^ k \<Longrightarrow> (\<And>i. i < k \<Longrightarrow> 2 ^ i < m) \<Longrightarrow> ceil_exp m = k"
  unfolding ceil_exp_def by (rule Least_equality) (auto simp: not_less [symmetric])

lemma unat_pred: "1 < v \<Longrightarrow> unat (v - 1) = unat v - 1 \<and> 1 < unat v" for v :: "'a::len word"
  using unat_minus_one [of v] by (cases "v = 0") (simp_all add: word_less_nat_alt)

lemma ceil_exp_pred: "1 < v \<Longrightarrow> ceil_exp (unat v) = bits_needed (v - 1)" for v :: "'a::len word"
proof -
  assume "1 < v"
  then have "unat (v - 1) = unat v - 1" "1 < unat v" using unat_pred by blast+
  then show ?thesis
    unfolding ceil_exp_def bits_needed_def by (intro arg_cong [where f = Least] ext) auto
qed

lemma smear_bits: "bit (smear 32 (smear 16 (smear 8 (smear 4 (smear 2 (smear 1 v)))))) n \<longleftrightarrow> (\<exists>i<64. bit v (n + i))"
proof -
  have 0: "bit v n \<longleftrightarrow> (\<exists>i<1. bit v (n + i))" for n by simp
  note 1 = bit_smear [OF 0, simplified mult_1_right]
  note 2 = bit_smear [OF 1]
  note 3 = bit_smear [OF 2 [simplified]]
  note 4 = bit_smear [OF 3 [simplified]]
  note 5 = bit_smear [OF 4 [simplified]]
  show ?thesis using bit_smear [OF 5 [simplified], of n] by simp
qed

lemma smear_mask: "smear 32 (smear 16 (smear 8 (smear 4 (smear 2 (smear 1 v))))) = mask (bits_needed v)"
proof (rule bit_word_eqI)
  fix n assume "n < LENGTH(64)"
  then have n: "n < 64" by simp
  have "(\<exists>i<64. bit v (n + i)) \<longleftrightarrow> n < bits_needed v"
  proof
    assume "\<exists>i<64. bit v (n + i)"
    then obtain i where "bit v (n + i)" by blast
    from bit_less_bits_needed [OF this] show "n < bits_needed v" by simp
  next
    assume *: "n < bits_needed v"
    then have "v \<noteq> 0" by auto
    from bit_top [OF this] * have "bit v (n + (bits_needed v - 1 - n))" by simp
    moreover have "bits_needed v - 1 - n < 64" using bits_needed_le [of v] * by simp
    ultimately show "\<exists>i<64. bit v (n + i)" by blast
  qed
  then show "bit (smear 32 (smear 16 (smear 8 (smear 4 (smear 2 (smear 1 v)))))) n \<longleftrightarrow>
      bit (mask (bits_needed v) :: 64 word) n"
    using n by (simp only: smear_bits bit_mask_iff possible_bit_word len_num1 len_bit0) simp
qed

lemma unat_bit_ceil: "unat (bit_ceil_u64 v) = (if unat v \<le> 2 ^ 63 then 2 ^ ceil_exp (unat v) else 0)"
proof (cases "v \<le> 1")
  case True
  then have "unat v \<le> 1" by (simp add: word_le_nat_alt)
  then have "ceil_exp (unat v) = 0" by (intro ceil_expI) auto
  with True \<open>unat v \<le> 1\<close> show ?thesis by (simp add: bit_ceil_u64_def)
next
  case False
  then have gt: "1 < v" by simp
  let ?k = "bits_needed (v - 1)"
  have c: "bit_ceil_u64 v = 2 ^ ?k"
    using False by (simp only: bit_ceil_u64_def smear_mask mask_eq_exp_minus_1 if_False) simp
  have k: "ceil_exp (unat v) = ?k" using gt by (rule ceil_exp_pred)
  have u: "unat (v - 1) = unat v - 1" "1 < unat v"
    using unat_pred [OF gt] by blast+
  show ?thesis
  proof (cases "unat v \<le> 2 ^ 63")
    case True
    with u have "unat (v - 1) < 2 ^ 63" by simp
    then have "?k \<le> 63" unfolding bits_needed_def by (rule Least_le)
    then show ?thesis using True by (simp add: c k unat_exp)
  next
    case 2: False
    have "\<not> ?k \<le> 63"
    proof
      assume "?k \<le> 63"
      then have "(2::nat) ^ ?k \<le> 2 ^ 63" by (intro power_increasing) simp_all
      with bits_needed_less_pow [of "v - 1"] u 2 show False by simp
    qed
    with bits_needed_le [of "v - 1"] have "?k = 64" by simp
    then have "bit_ceil_u64 v = 0" by (simp add: c)
    then show ?thesis using 2 by simp
  qed
qed

section \<open>Rotations\<close>

lemma c_remainder: "0 < w \<Longrightarrow> (if s smod w < 0 then s smod w + w else s smod w) = s mod w" for s w :: int
proof -
  assume w: "0 < w"
  have "s mod w = (s smod w + s sdiv w * w) mod w" by (simp only: smod_sdiv_mult_eq)
  then have m: "(s smod w) mod w = s mod w" by simp
  from w smod_int_range [of w s] have "- w < s smod w" "s smod w < w" by auto
  then have "(s smod w + w) mod w = s smod w + w" if "s smod w < 0"
    using that by (intro mod_pos_pos_trivial) simp_all
  moreover have "(s smod w) mod w = s smod w" if "\<not> s smod w < 0"
    using that \<open>s smod w < w\<close> by (intro mod_pos_pos_trivial) simp_all
  ultimately show ?thesis using m by auto
qed

lemma or_shifts_rotl:
  fixes v :: "'a::len word"
  assumes "0 < k" and "k < LENGTH('a)"
  shows "push_bit k v OR drop_bit (LENGTH('a) - k) v = word_rotl k v"
proof (rule bit_word_eqI)
  fix n assume n: "n < LENGTH('a)"
  have "(n + (LENGTH('a) - k)) mod LENGTH('a) = (if k \<le> n then n - k else n + (LENGTH('a) - k))"
  proof (cases "k \<le> n")
    case True
    then have "n + (LENGTH('a) - k) = n - k + LENGTH('a)" using assms by simp
    then have "(n + (LENGTH('a) - k)) mod LENGTH('a) = n - k" using n by (simp only: mod_add_self2) simp
    with True show ?thesis by simp
  qed (use n assms in simp)
  then show "bit (push_bit k v OR drop_bit (LENGTH('a) - k) v) n \<longleftrightarrow> bit (word_rotl k v) n"
    using n assms bit_imp_le_length [of v "n + LENGTH('a) - k"]
    by (auto simp: bit_word_rotl_iff bit_or_iff bit_push_bit_iff bit_drop_bit_eq add.commute)
qed

lemma word_rot_none [simp]: "word_rotl 0 v = v" "word_rotr 0 v = v" for v :: "'a::len word"
  by (rule bit_word_eqI, simp add: bit_word_rotl_iff bit_word_rotr_iff)+

lemma or_shifts_rotr:
  fixes v :: "'a::len word"
  assumes "0 < k" and "k < LENGTH('a)"
  shows "drop_bit k v OR push_bit (LENGTH('a) - k) v = word_rotr k v"
  using or_shifts_rotl [of "LENGTH('a) - k" v] assms
  by (simp add: or.commute word_rotl_eq_word_rotr)

lemma normalize_rotation_eq: "normalize_rotation s = nat (s mod 64)"
  using c_remainder [of 64 s] by (simp add: normalize_rotation_def Let_def)

lemma nat_mod_less: "nat (s mod int LENGTH('a)) < LENGTH('a::len)"
  by (simp add: nat_less_iff)

lemma rotl_u64_eq: "rotl_u64 v s = word_rotl (nat (s mod 64)) v"
  using or_shifts_rotl [of "nat (s mod 64)" v]
  by (auto simp: rotl_u64_def normalize_rotation_eq Let_def)

lemma rotr_u64_eq: "rotr_u64 v s = word_rotr (nat (s mod 64)) v"
  using or_shifts_rotr [of "nat (s mod 64)" v]
  by (auto simp: rotr_u64_def normalize_rotation_eq Let_def)

section \<open>Narrower words in 64 bits\<close>

text \<open>A word of at most 63 bits, as the code holds it in 64.\<close>

abbreviation wide :: "'a::len word \<Rightarrow> 64 word" where
  "wide v \<equiv> ucast v"

lemma unat_wide: "LENGTH('a) < 64 \<Longrightarrow> unat (wide v) = unat v" for v :: "'a::len word"
proof -
  assume "LENGTH('a) < 64"
  then have "(2 :: nat) ^ LENGTH('a) \<le> 2 ^ 64" by (intro power_increasing) simp_all
  with unsigned_less [of v, where 'a = nat] have "unat v < 2 ^ 64" by (rule less_le_trans)
  then show ?thesis by (simp add: unsigned_ucast_eq take_bit_nat_eq_self_iff)
qed

lemma bit_wide: "LENGTH('a) < 64 \<Longrightarrow> bit (wide v) n \<longleftrightarrow> bit v n" for v :: "'a::len word"
  using bit_imp_le_length [of v n] by (auto simp: bit_ucast_iff)

lemma wide_eq_0: "LENGTH('a) < 64 \<Longrightarrow> wide v = 0 \<longleftrightarrow> v = 0" for v :: "'a::len word"
  by (metis unat_wide unat_eq_zero)

lemma bits_needed_wide: "LENGTH('a) < 64 \<Longrightarrow> bits_needed (wide v) = bits_needed v" for v :: "'a::len word"
  by (simp add: bits_needed_def unat_wide)

lemma lowest_bit_wide: "LENGTH('a) < 64 \<Longrightarrow> lowest_bit (wide v) = lowest_bit v" for v :: "'a::len word"
  by (simp add: lowest_bit_def bit_wide)

lemma bit_width_mask: "bit (width_mask w) n \<longleftrightarrow> n < w" if "w < 64"
  using that by (auto simp: width_mask_def bit_mask_iff simp flip: mask_eq_exp_minus_1)

lemma narrow_wide_mask: "LENGTH('a) < 64 \<Longrightarrow> ucast (v AND width_mask LENGTH('a)) = (ucast v :: 'a::len word)"
  by (rule bit_word_eqI) (simp add: bit_ucast_iff bit_and_iff bit_width_mask)

lemma wide_not: "LENGTH('a) < 64 \<Longrightarrow> wide v XOR width_mask LENGTH('a) = wide (NOT v)" for v :: "'a::len word"
  by (rule bit_word_eqI) (auto simp: bit_xor_iff bit_wide bit_width_mask bit_not_iff bit_imp_le_length)

lemma narrow_wide: "LENGTH('a) < 64 \<Longrightarrow> ucast (wide v) = v" for v :: "'a::len word"
  by (rule bit_word_eqI) (simp add: bit_ucast_iff bit_wide)

lemma narrow_rotl:
  fixes v :: "'a::len word"
  assumes "LENGTH('a) < 64" and "0 < k" and "k < LENGTH('a)"
  shows "ucast ((push_bit k (wide v) OR drop_bit (LENGTH('a) - k) (wide v)) AND width_mask LENGTH('a)) = word_rotl k v"
proof -
  have "ucast (push_bit k (wide v) OR drop_bit (LENGTH('a) - k) (wide v)) = push_bit k v OR drop_bit (LENGTH('a) - k) v"
    using assms
    by (intro bit_word_eqI)
      (auto simp: bit_ucast_iff bit_or_iff bit_push_bit_iff bit_drop_bit_eq bit_wide dest: bit_imp_le_length)
  with assms show ?thesis by (simp only: narrow_wide_mask or_shifts_rotl)
qed

lemma rotl_sfx_eq: "LENGTH('a) < 64 \<Longrightarrow> rotl_sfx v s = word_rotl (nat (s mod int LENGTH('a))) v" for v :: "'a::len word"
  using narrow_rotl [of "nat (s mod int LENGTH('a))" v] c_remainder [of "int LENGTH('a)" s]
  by (auto simp: rotl_sfx_def rotl_width_def Let_def narrow_wide_mask narrow_wide nat_mod_less)

lemma rotr_sfx_eq: "LENGTH('a) < 64 \<Longrightarrow> rotr_sfx v s = word_rotr (nat (s mod int LENGTH('a))) v" for v :: "'a::len word"
proof -
  assume w: "LENGTH('a) < 64"
  let ?k = "nat (s mod int LENGTH('a))"
  have k: "?k < LENGTH('a)" by (rule nat_mod_less)
  show ?thesis
  proof (cases "?k = 0")
    case True
    then show ?thesis using w c_remainder [of "int LENGTH('a)" s]
      by (simp add: rotr_sfx_def rotr_width_def Let_def narrow_wide_mask narrow_wide)
  next
    case False
    then have "ucast ((push_bit (LENGTH('a) - ?k) (wide v) OR drop_bit ?k (wide v)) AND width_mask LENGTH('a)) =
        word_rotl (LENGTH('a) - ?k) v"
      using narrow_rotl [OF w, of "LENGTH('a) - ?k" v] k by simp
    moreover have "word_rotl (LENGTH('a) - ?k) v = word_rotr ?k v"
      using False k by (simp add: word_rotl_eq_word_rotr)
    ultimately show ?thesis using False c_remainder [of "int LENGTH('a)" s]
      by (simp add: rotr_sfx_def rotr_width_def Let_def or.commute)
  qed
qed

lemma unat_drop_width_mask: "0 < w \<Longrightarrow> w < 64 \<Longrightarrow> unat (drop_bit 1 (width_mask w)) = 2 ^ (w - 1) - 1"
proof -
  assume w: "0 < w" "w < 64"
  have "drop_bit 1 (width_mask w) = mask (w - 1)"
    by (rule bit_word_eqI) (use w in \<open>auto simp: bit_drop_bit_eq bit_width_mask bit_mask_iff\<close>)
  moreover have "unat (mask (w - 1) :: 64 word) = 2 ^ (w - 1) - 1"
  proof -
    have e: "unat (2 ^ (w - 1) :: 64 word) = 2 ^ (w - 1)" using w by (intro unat_exp) simp
    then have "(2 ^ (w - 1) :: 64 word) \<noteq> 0" by (metis unat_0 power_not_zero zero_neq_numeral)
    then have "unat (2 ^ (w - 1) - 1 :: 64 word) = unat (2 ^ (w - 1) :: 64 word) - 1" by (rule unat_minus_one)
    then show ?thesis by (simp only: mask_eq_exp_minus_1 e)
  qed
  ultimately show ?thesis by simp
qed

lemma ceil_loop_eq:
  assumes "0 < w" and "w < 64" and "j < w" and "\<And>i. i < j \<Longrightarrow> 2 ^ i < unat v"
  shows "\<exists>k<w. ceil_loop v (width_mask w) (push_bit j 1) = Some (push_bit k 1) \<and>
    (\<forall>i<k. 2 ^ i < unat v) \<and> (unat v \<le> 2 ^ k \<or> k = w - 1)"
  using assms(3,4)
proof (induction "w - j" arbitrary: j)
  case (Suc d)
  have cl: "unat (push_bit j (1 :: 64 word)) = 2 ^ j" using Suc.prems(1) assms(2) by (intro unat_push_bit_1) simp
  have cond: "push_bit j 1 < v \<and> push_bit j 1 \<le> drop_bit 1 (width_mask w) \<longleftrightarrow> 2 ^ j < unat v \<and> Suc j < w"
  proof -
    have "(0 :: nat) < 2 ^ (w - 1)" by simp
    then have "(2 :: nat) ^ j \<le> 2 ^ (w - 1) - 1 \<longleftrightarrow> 2 ^ j < (2 :: nat) ^ (w - 1)" by linarith
    also have "\<dots> \<longleftrightarrow> Suc j < w" by (auto simp: power_strict_increasing_iff)
    finally show ?thesis
      by (simp only: word_less_nat_alt word_le_nat_alt cl unat_drop_width_mask [OF assms(1,2)])
  qed
  show ?case
  proof (cases "2 ^ j < unat v \<and> Suc j < w")
    case True
    have "ceil_loop v (width_mask w) (push_bit j 1) = ceil_loop v (width_mask w) (push_bit (Suc j) 1)"
    proof -
      have "push_bit 1 (push_bit j 1) = push_bit (Suc j) (1 :: 64 word)" by (simp only: push_bit_push_bit plus_1_eq_Suc)
      moreover have "ceil_loop v (width_mask w) (push_bit j 1) = ceil_loop v (width_mask w) (push_bit 1 (push_bit j 1))"
        using cond True by (subst ceil_loop.simps) (simp only: if_True simp_thms)
      ultimately show ?thesis by (simp only:)
    qed
    moreover have "2 ^ i < unat v" if "i < Suc j" for i
      using that True Suc.prems(2) by (auto simp: less_Suc_eq)
    ultimately show ?thesis using Suc.hyps(1) [of "Suc j"] Suc.hyps(2) True by simp
  next
    case False
    then have "ceil_loop v (width_mask w) (push_bit j 1) = Some (push_bit j 1)"
      using cond by (subst ceil_loop.simps) (simp only: if_False)
    moreover from False Suc.prems(1) have "unat v \<le> 2 ^ j \<or> j = w - 1" by auto
    ultimately show ?thesis using Suc.prems by blast
  qed
qed (use assms in simp)

lemma bit_ceil_width_eq:
  assumes "0 < w" and "w < 64"
  shows "\<exists>c. bit_ceil_width v w = Some c \<and>
    unat c = (if unat v \<le> 2 ^ (w - 1) then 2 ^ ceil_exp (unat v) else 0)"
proof (cases "v \<le> 1")
  case True
  then have v: "unat v \<le> 1" by (simp add: word_le_nat_alt)
  then have "ceil_exp (unat v) = 0" by (intro ceil_expI) auto
  moreover have "unat v \<le> 2 ^ (w - 1)" using v by (rule le_trans) simp
  ultimately show ?thesis using True by (simp add: bit_ceil_width_def)
next
  case False
  from ceil_loop_eq [OF assms, of 0 v] assms(1) obtain k where k: "k < w"
    "ceil_loop v (width_mask w) 1 = Some (push_bit k 1)" "\<forall>i<k. 2 ^ i < unat v" "unat v \<le> 2 ^ k \<or> k = w - 1"
    by auto
  have cl: "unat (push_bit k (1 :: 64 word)) = 2 ^ k" using k(1) assms(2) by (intro unat_push_bit_1) simp
  have c: "bit_ceil_width v w = Some (if push_bit k 1 < v then 0 else push_bit k 1)"
    using False k(2) by (simp add: bit_ceil_width_def)
  show ?thesis
  proof (cases "unat v \<le> 2 ^ k")
    case True
    then have "ceil_exp (unat v) = k" using k(3) by (intro ceil_expI) simp_all
    moreover have "unat v \<le> 2 ^ (w - 1)" using True power_increasing [of k "w - 1" "2 :: nat"] k(1) by linarith
    moreover have "\<not> push_bit k 1 < v" using True by (simp only: word_less_nat_alt cl not_less)
    ultimately show ?thesis using c cl by simp
  next
    case nle: False
    with k(4) have kw: "k = w - 1" by simp
    have "push_bit k 1 < v" using nle by (simp only: word_less_nat_alt cl not_le)
    then show ?thesis using nle kw c by simp
  qed
qed

section \<open>What the operations compute\<close>

lemma countr_one: "(if NOT v = 0 then LENGTH('a) else lowest_bit (NOT v)) = (LEAST n. \<not> bit v n)" for v :: "'a::len word"
proof (cases "NOT v = 0")
  case True
  have "bit v n" if "n < LENGTH('a)" for n
  proof -
    have "\<not> bit (NOT v) n" using True by simp
    with that show ?thesis by (simp add: bit_not_iff)
  qed
  then have "(LEAST n. \<not> bit v n) = LENGTH('a)"
    by (intro Least_equality) (auto simp: not_less [symmetric] dest: bit_imp_le_length)
  with True show ?thesis by simp
next
  case False
  have "lowest_bit (NOT v) < LENGTH('a)" using bit_lowest_bit [OF False] by (rule bit_imp_le_length)
  moreover have "\<not> bit v (lowest_bit (NOT v))" using bit_lowest_bit [OF False] by (simp add: bit_not_iff)
  moreover have "bit v n" if "n < lowest_bit (NOT v)" for n
  proof -
    have "\<not> bit (NOT v) n" using that unfolding lowest_bit_def by (rule not_less_Least)
    then show ?thesis using that \<open>lowest_bit (NOT v) < _\<close> by (simp add: bit_not_iff)
  qed
  ultimately have "(LEAST n. \<not> bit v n) = lowest_bit (NOT v)"
    by (intro Least_equality) (auto simp: not_less [symmetric])
  with False show ?thesis by simp
qed

text \<open>The loops over 64 bits end and count what their names say: the one bits, the length, the
  zeros above the highest and below the lowest one bit, the ones below the lowest zero. The floor
  is the power of two of the highest bit, and the ceiling the least power of two that is not
  smaller, or 0 when that power does not fit. Rotations take any amount, negative ones included.\<close>

theorem bit_operations_u64:
  "popcount_u64 v = card {n. bit v n} \<and>
   has_single_bit_u64 v = (\<exists>n<64. v = push_bit n 1) \<and>
   bit_width_u64 v = (LEAST w. unat v < 2 ^ w) \<and>
   countl_zero_u64 v = 64 - bit_width_u64 v \<and>
   countr_zero_u64 v = (if v = 0 then 64 else LEAST n. bit v n) \<and>
   countr_one_u64 v = (LEAST n. \<not> bit v n) \<and>
   bit_floor_u64 v = (if v = 0 then 0 else push_bit (bit_width_u64 v - 1) 1) \<and>
   unat (bit_ceil_u64 v) = (if unat v \<le> 2 ^ 63 then 2 ^ (LEAST k. unat v \<le> 2 ^ k) else 0) \<and>
   rotl_u64 v s = word_rotl (nat (s mod 64)) v \<and> rotr_u64 (rotl_u64 v s) s = v"
proof (intro conjI)
  have "n < 64" if "bit v n" for n using bit_imp_le_length [OF that] by simp
  then show "countl_zero_u64 v = 64 - bit_width_u64 v"
    using countl_loop_eq [of 63 v 0] by (fastforce simp: countl_zero_u64_def bit_width_u64_def width_loop_eq)
  show "has_single_bit_u64 v = (\<exists>n<64. v = push_bit n 1)"
    using single_bit_iff [of v] by (simp add: has_single_bit_u64_def)
  show "countr_one_u64 v = (LEAST n. \<not> bit v n)"
    using countr_one [of v] by (simp add: countr_one_u64_def countr_zero_u64_def countr_loop_eq split: if_splits)
  show "unat (bit_ceil_u64 v) = (if unat v \<le> 2 ^ 63 then 2 ^ (LEAST k. unat v \<le> 2 ^ k) else 0)"
    using unat_bit_ceil [of v] by (simp only: ceil_exp_def)
qed (simp_all add: popcount_u64_def popcount_loop_ones ones_unat bit_width_u64_def width_loop_eq bits_needed_def
    countr_zero_u64_def countr_loop_eq lowest_bit_def bit_floor_u64_def floor_loop_eq rotl_u64_eq rotr_u64_eq)

lemma countl_zero_narrow: "LENGTH('a) < 64 \<Longrightarrow> countl_zero_sfx u = LENGTH('a) - bits_needed u" for u :: "'a::len word"
  using countl_loop_eq [of "LENGTH('a) - 1" "wide u" 0]
  by (simp add: countl_zero_sfx_def countl_zero_width_def bits_needed_wide bit_wide)
    (metis Suc_pred' bit_imp_le_length len_gt_0 less_Suc_eq_le)

lemma single_bit_narrow:
  "LENGTH('a) < 64 \<Longrightarrow> has_single_bit_sfx v = (\<exists>n<LENGTH('a). v = push_bit n 1)" for v :: "'a::len word"
proof -
  assume w: "LENGTH('a) < 64"
  then have "has_single_bit_sfx v \<longleftrightarrow> v \<noteq> 0 \<and> wide v AND (wide v - 1) = 0"
    by (simp add: has_single_bit_sfx_def Let_def wide_eq_0)
  also have "\<dots> \<longleftrightarrow> v \<noteq> 0 \<and> v AND (v - 1) = 0"
  proof (cases "v = 0")
    case False
    have "unat (wide v AND (wide v - 1)) = unat (v AND (v - 1))"
      using False w by (simp add: unsigned_and_eq unat_wide unat_minus_one wide_eq_0)
    then show ?thesis by (metis unat_eq_zero)
  qed simp
  finally show ?thesis by (simp only: single_bit_iff)
qed

lemma countr_zero_narrow:
  "LENGTH('a) < 64 \<Longrightarrow> countr_zero_width (wide u) LENGTH('a) = (if u = 0 then LENGTH('a) else lowest_bit u)"
  for u :: "'a::len word"
  by (simp add: countr_zero_width_def wide_eq_0 countr_loop_eq lowest_bit_wide)

lemma bit_floor_narrow:
  "LENGTH('a) < 64 \<Longrightarrow> bit_floor_sfx v = (if v = 0 then 0 else push_bit (bits_needed v - 1) 1)" for v :: "'a::len word"
proof -
  assume w: "LENGTH('a) < 64"
  have "ucast (push_bit k (1 :: 64 word)) = (push_bit k 1 :: 'a word)" for k
    by (rule bit_word_eqI) (use w in \<open>auto simp: bit_ucast_iff bit_exp_iff\<close>)
  then show ?thesis using w by (simp add: bit_floor_sfx_def bit_floor_width_def wide_eq_0 floor_loop_eq bits_needed_wide)
qed

lemma bit_ceil_narrow:
  fixes v :: "'a::len word"
  assumes "LENGTH('a) < 64"
  shows "map_option unat (bit_ceil_sfx v) =
    Some (if unat v \<le> 2 ^ (LENGTH('a) - 1) then 2 ^ ceil_exp (unat v) else 0)"
proof -
  from bit_ceil_width_eq [of "LENGTH('a)" "wide v"] assms obtain c where c: "bit_ceil_width (wide v) LENGTH('a) = Some c"
    "unat c = (if unat v \<le> 2 ^ (LENGTH('a) - 1) then 2 ^ ceil_exp (unat v) else 0)"
    by (auto simp: unat_wide)
  have "unat c < 2 ^ LENGTH('a)"
  proof (cases "unat v \<le> 2 ^ (LENGTH('a) - 1)")
    case True
    then have "ceil_exp (unat v) \<le> LENGTH('a) - 1" unfolding ceil_exp_def by (rule Least_le)
    then have "ceil_exp (unat v) < LENGTH('a)" using len_gt_0 [where 'a = 'a] by linarith
    with True c(2) show ?thesis by simp
  qed (use c(2) in simp)
  then have "unat (ucast c :: 'a word) = unat c" by (simp add: unsigned_ucast_eq take_bit_nat_eq_self_iff)
  then show ?thesis using c by (simp add: bit_ceil_sfx_def)
qed

text \<open>The functions generated for 32, 16 and 8 bits work in 64 bits, and compute for a word of
  any length below 64 what the 64 bit operations compute for theirs; rotations by any amount,
  negative ones included, rotate within the narrow word, and the ceiling is 0 exactly when the
  power of two does not fit it.\<close>

theorem bit_operations_narrow:
  fixes v :: "'a::len word"
  assumes "LENGTH('a) < 64"
  shows "popcount_sfx v = card {n. bit v n} \<and>
    has_single_bit_sfx v = (\<exists>n<LENGTH('a). v = push_bit n 1) \<and>
    bit_width_sfx v = (LEAST w. unat v < 2 ^ w) \<and>
    countl_zero_sfx v = LENGTH('a) - bit_width_sfx v \<and>
    countr_zero_sfx v = (if v = 0 then LENGTH('a) else LEAST n. bit v n) \<and>
    countl_one_sfx v = countl_zero_sfx (NOT v) \<and>
    countr_one_sfx v = (LEAST n. \<not> bit v n) \<and>
    bit_floor_sfx v = (if v = 0 then 0 else push_bit (bit_width_sfx v - 1) 1) \<and>
    map_option unat (bit_ceil_sfx v) =
      Some (if unat v \<le> 2 ^ (LENGTH('a) - 1) then 2 ^ (LEAST k. unat v \<le> 2 ^ k) else 0) \<and>
    rotl_sfx v s = word_rotl (nat (s mod int LENGTH('a))) v \<and>
    rotr_sfx v s = word_rotr (nat (s mod int LENGTH('a))) v"
proof -
  note w = assms
  have "card {n. bit (wide v) n} = card {n. bit v n}" using w by (simp add: bit_wide)
  then have "popcount_sfx v = card {n. bit v n}"
    by (simp add: popcount_sfx_def popcount_width_def popcount_loop_ones ones_unat)
  moreover have "bit_width_sfx v = bits_needed v" using w by (simp add: bit_width_sfx_def width_loop_eq bits_needed_wide)
  moreover have "countr_one_sfx v = (LEAST n. \<not> bit v n)"
    using w countr_zero_narrow [of "NOT v"] countr_one [of v] by (simp add: countr_one_sfx_def wide_not)
  moreover have "countl_one_sfx v = countl_zero_sfx (NOT v)"
    using w by (simp add: countl_one_sfx_def countl_zero_sfx_def wide_not)
  ultimately show ?thesis
    using countl_zero_narrow [OF w] single_bit_narrow [OF w] countr_zero_narrow [OF w] bit_floor_narrow [OF w]
      bit_ceil_narrow [OF w] rotl_sfx_eq [OF w] rotr_sfx_eq [OF w]
    by (simp only: countr_zero_sfx_def bits_needed_def lowest_bit_def ceil_exp_def)
qed

lemma bit_operations_narrow_witness:
  "popcount_sfx (0xB0 :: 8 word) = card {n. bit (0xB0 :: 8 word) n} \<and> rotl_sfx (0xB0 :: 8 word) (- 3) = word_rotl 5 0xB0"
  using bit_operations_narrow [where 'a = 8, of "0xB0" "- 3"] by simp

section \<open>The order of the bytes\<close>

lemma all_less_upt: "(\<forall>n<k. P n) \<longleftrightarrow> list_all P [0..<k]"
  by (simp add: list_all_iff Ball_def)

lemma upt_64: "[0..<64] =
    [0, 1, 2, 3, 4, 5, 6, 7, 8, 9, 10, 11, 12, 13, 14, 15, 16, 17, 18, 19, 20, 21, 22, 23, 24,
    25, 26, 27, 28, 29, 30, 31, 32, 33, 34, 35, 36, 37, 38, 39, 40, 41, 42, 43, 44, 45, 46,
    47, 48, 49, 50, 51, 52, 53, 54, 55, 56, 57, 58, 59, 60, 61, 62, 63]"
  by (simp add: upt_rec)

lemmas byte_bits = bit_or_iff bit_push_bit_iff bit_drop_bit_eq bit_and_iff bit_ucast_iff

lemma bit_byteswap_u64: "\<forall>n<64. bit (byteswap_u64 v) n \<longleftrightarrow> bit v (8 * (7 - n div 8) + n mod 8)"
  unfolding all_less_upt upt_64 by (simp add: byteswap_u64_def byte_bits, simp add: numeral_2_eq_2)

lemma upt_32: "[0..<32] = take 32 [0..<64]"
  by (simp add: take_upt)

lemma bit_byteswap_u32: "\<forall>n<32. bit (byteswap_u32 v) n \<longleftrightarrow> bit v (8 * (3 - n div 8) + n mod 8)"
  unfolding all_less_upt upt_32 upt_64 by (simp add: byteswap_u32_def byte_bits, simp add: numeral_2_eq_2)

lemma upt_16: "[0..<16] = take 16 [0..<64]"
  by (simp add: take_upt)

lemma bit_byteswap_u16: "\<forall>n<16. bit (byteswap_u16 v) n \<longleftrightarrow> bit v (8 * (1 - n div 8) + n mod 8)"
  unfolding all_less_upt upt_16 upt_64 by (simp add: byteswap_u16_def byte_bits, simp add: numeral_2_eq_2)

lemma byte_of_reversed:
  fixes v u :: "'a::len word"
  assumes "\<forall>n<LENGTH('a). bit u n \<longleftrightarrow> bit v (8 * (m - n div 8) + n mod 8)" and "k \<le> m" and "8 * m + 8 = LENGTH('a)"
  shows "take_bit 8 (drop_bit (8 * k) u) = take_bit 8 (drop_bit (8 * (m - k)) v)"
proof (rule bit_word_eqI)
  fix n
  have "bit u (8 * k + n) \<longleftrightarrow> bit v (8 * (m - k) + n)" if "n < 8"
  proof -
    have "(8 * k + n) div 8 = k" "(8 * k + n) mod 8 = n" "8 * k + n < LENGTH('a)" using that assms(2,3) by simp_all
    with assms(1) show ?thesis by simp
  qed
  then show "bit (take_bit 8 (drop_bit (8 * k) u)) n \<longleftrightarrow> bit (take_bit 8 (drop_bit (8 * (m - k)) v)) n"
    by (auto simp: bit_take_bit_iff bit_drop_bit_eq)
qed

lemma reversed_twice:
  fixes v :: "'a::len word"
  assumes "\<And>v :: 'a word. \<forall>n<LENGTH('a). bit (f v) n \<longleftrightarrow> bit v (8 * (m - n div 8) + n mod 8)" and "8 * m + 8 = LENGTH('a)"
  shows "f (f v) = v"
proof (rule bit_word_eqI)
  fix n assume n: "n < LENGTH('a)"
  let ?k = "8 * (m - n div 8) + n mod 8"
  have "n div 8 \<le> m" using n assms(2) by (simp add: less_Suc_eq_le [symmetric] div_less_iff_less_mult)
  moreover have "?k div 8 = m - n div 8" "?k mod 8 = n mod 8" by simp_all
  moreover have "?k < LENGTH('a)" using assms(2) pos_mod_bound [of 8 "int n"] mod_less_divisor [of 8 n] by linarith
  ultimately show "bit (f (f v)) n \<longleftrightarrow> bit v n" using assms(1) n by simp
qed

text \<open>Swapping the bytes reverses their order, and twice gives the word back.\<close>

theorem byteswap_reverses:
  "(k < 8 \<longrightarrow> take_bit 8 (drop_bit (8 * k) (byteswap_u64 v)) = take_bit 8 (drop_bit (8 * (7 - k)) v)) \<and>
   byteswap_u64 (byteswap_u64 v) = v \<and>
   (k < 4 \<longrightarrow> take_bit 8 (drop_bit (8 * k) (byteswap_u32 w)) = take_bit 8 (drop_bit (8 * (3 - k)) w)) \<and>
   byteswap_u32 (byteswap_u32 w) = w \<and>
   (k < 2 \<longrightarrow> take_bit 8 (drop_bit (8 * k) (byteswap_u16 x)) = take_bit 8 (drop_bit (8 * (1 - k)) x)) \<and>
   byteswap_u16 (byteswap_u16 x) = x"
  using byte_of_reversed [of "byteswap_u64 v" v 7 k] reversed_twice [of byteswap_u64 7 v]
    byte_of_reversed [of "byteswap_u32 w" w 3 k] reversed_twice [of byteswap_u32 3 w]
    byte_of_reversed [of "byteswap_u16 x" x 1 k] reversed_twice [of byteswap_u16 1 x]
  by (simp add: bit_byteswap_u64 bit_byteswap_u32 bit_byteswap_u16 [simplified])

lemma byteswap_reverses_witness:
  "take_bit 8 (drop_bit (8 * 1) (byteswap_u64 0x0102030405060708)) =
   take_bit 8 (drop_bit (8 * (7 - 1)) (0x0102030405060708 :: 64 word))"
  by (rule byteswap_reverses [THEN conjunct1, rule_format]) simp

end
