(* ===== verification/Std_Unordered.thy ===== *)
theory Std_Unordered
  imports Ordered_Map "HOL-Library.Word"
begin

text \<open>
  The hash maps of the runtime library (\<^verbatim>\<open>stdlib/src/std_unordered.c\<close>): open addressing with
  tombstones, and the small map over a vector. An \<^verbatim>\<open>int64_t\<close> key or value is a 64 bit word, a null
  handle is \<^const>\<open>None\<close>, and whether an allocation succeeds is a parameter. The probing loops have
  no bound of their own, so they are partial functions whose value is \<^const>\<open>None\<close> when they never
  return.
\<close>

unbundle bit_operations_syntax

section \<open>The table\<close>

datatype slot_state = EmptySlot | FullSlot | Tombstone

record bucket =
  b_state :: slot_state
  b_key :: "64 word"
  b_value :: "64 word"

record table =
  t_len :: int
  t_cap :: nat
  buckets :: "bucket list"

abbreviation full :: "bucket \<Rightarrow> bool" where
  "full b \<equiv> b_state b = FullSlot"

definition hash_u64 :: "64 word \<Rightarrow> 64 word" where
  "hash_u64 x0 =
     (let x1 = x0 XOR drop_bit 33 x0;
          x2 = x1 * 0xff51afd7ed558ccd;
          x3 = x2 XOR drop_bit 33 x2;
          x4 = x3 * 0xc4ceb9fe1a85ec53
      in x4 XOR drop_bit 33 x4)"

definition hash_i64 :: "64 word \<Rightarrow> 64 word" where
  "hash_i64 k = hash_u64 k"

definition cap_mask :: "nat \<Rightarrow> 64 word" where
  "cap_mask cap = of_nat cap - 1"

definition home_idx :: "64 word \<Rightarrow> 64 word \<Rightarrow> nat" where
  "home_idx m key = unat (hash_i64 key AND m)"

definition next_idx :: "64 word \<Rightarrow> nat \<Rightarrow> nat" where
  "next_idx m idx = unat ((of_nat idx + 1) AND m)"

partial_function (option) doubled :: "nat \<Rightarrow> nat \<Rightarrow> nat option" where
  "doubled target min_cap = (if target < min_cap then doubled (target * 2) min_cap else Some target)"

partial_function (option) place_loop :: "64 word \<Rightarrow> bucket \<Rightarrow> bucket list \<Rightarrow> nat \<Rightarrow> bucket list option" where
  "place_loop m b bs idx =
     (if \<not> full (bs ! idx) then Some (bs[idx := b\<lparr>b_state := FullSlot\<rparr>])
      else place_loop m b bs (next_idx m idx))"

fun rehash_loop :: "64 word \<Rightarrow> bucket list \<Rightarrow> bucket list \<times> int \<Rightarrow> (bucket list \<times> int) option" where
  "rehash_loop m [] s = Some s"
| "rehash_loop m (b # old) (bs, len) =
     (if full b then
        (case place_loop m b bs (home_idx m (b_key b)) of
           None \<Rightarrow> None
         | Some bs' \<Rightarrow> rehash_loop m old (bs', len + 1))
      else rehash_loop m old (bs, len))"

definition empty_bucket :: bucket where
  "empty_bucket = \<lparr>b_state = EmptySlot, b_key = 0, b_value = 0\<rparr>"

definition ensure_capacity :: "(nat \<Rightarrow> bool) \<Rightarrow> table \<Rightarrow> nat \<Rightarrow> (table \<times> bool) option" where
  "ensure_capacity calloc m min_cap =
     (case doubled (if t_cap m < 8 then 8 else t_cap m) min_cap of
        None \<Rightarrow> None
      | Some target \<Rightarrow>
          if target \<le> t_cap m then Some (m, True)
          else if \<not> calloc target then Some (m, False)
          else (case rehash_loop (cap_mask target) (buckets m) (replicate target empty_bucket, 0) of
                  None \<Rightarrow> None
                | Some (bs, len) \<Rightarrow> Some (\<lparr>t_len = len, t_cap = target, buckets = bs\<rparr>, True)))"

definition maybe_grow :: "(nat \<Rightarrow> bool) \<Rightarrow> table \<Rightarrow> (table \<times> bool) option" where
  "maybe_grow calloc m =
     (if t_cap m < 8 then ensure_capacity calloc m 8
      else if (t_len m + 1) * 4 \<ge> int (t_cap m) * 3 then ensure_capacity calloc m (t_cap m * 2)
      else Some (m, True))"

definition map_new :: "bool \<Rightarrow> (nat \<Rightarrow> bool) \<Rightarrow> table option option" where
  "map_new struct_ok calloc =
     (if \<not> struct_ok then Some None
      else map_option (\<lambda>(m, ok). if ok then Some m else None)
             (ensure_capacity calloc \<lparr>t_len = 0, t_cap = 0, buckets = []\<rparr> 8))"

partial_function (option) insert_loop ::
    "64 word \<Rightarrow> 64 word \<Rightarrow> 64 word \<Rightarrow> bucket list \<Rightarrow> nat option \<Rightarrow> nat \<Rightarrow> (bucket list \<times> bool) option" where
  "insert_loop m key v bs first_tomb idx =
     (let b = bs ! idx
      in case b_state b of
           EmptySlot \<Rightarrow>
             (let p = (case first_tomb of Some t \<Rightarrow> t | None \<Rightarrow> idx)
              in Some (bs[p := \<lparr>b_state = FullSlot, b_key = key, b_value = v\<rparr>], True))
         | Tombstone \<Rightarrow>
             insert_loop m key v bs (case first_tomb of Some t \<Rightarrow> Some t | None \<Rightarrow> Some idx) (next_idx m idx)
         | FullSlot \<Rightarrow>
             if b_key b = key then Some (bs[idx := b\<lparr>b_value := v\<rparr>], False)
             else insert_loop m key v bs first_tomb (next_idx m idx))"

definition map_insert :: "(nat \<Rightarrow> bool) \<Rightarrow> 64 word \<Rightarrow> 64 word \<Rightarrow> table option \<Rightarrow> (table option \<times> int) option" where
  "map_insert calloc key v h =
     (case h of
        None \<Rightarrow> Some (None, - 1)
      | Some m0 \<Rightarrow>
          (case maybe_grow calloc m0 of
             None \<Rightarrow> None
           | Some (m, False) \<Rightarrow> Some (Some m, - 1)
           | Some (m, True) \<Rightarrow>
               (let msk = cap_mask (t_cap m)
                in case insert_loop msk key v (buckets m) None (home_idx msk key) of
                     None \<Rightarrow> None
                   | Some (bs, inserted) \<Rightarrow>
                       if inserted then Some (Some (m\<lparr>buckets := bs, t_len := t_len m + 1\<rparr>), 1)
                       else Some (Some (m\<lparr>buckets := bs\<rparr>), 0))))"

text \<open>\<^verbatim>\<open>contains\<close>, \<^verbatim>\<open>get_or\<close> and \<^verbatim>\<open>remove\<close> probe with the same loop; it ends at an empty slot, with
  \<open>Some None\<close>, or at the key.\<close>

partial_function (option) find_loop :: "64 word \<Rightarrow> 64 word \<Rightarrow> bucket list \<Rightarrow> nat \<Rightarrow> nat option option" where
  "find_loop m key bs idx =
     (let b = bs ! idx
      in if b_state b = EmptySlot then Some None
         else if full b \<and> b_key b = key then Some (Some idx)
         else find_loop m key bs (next_idx m idx))"

definition find_slot :: "64 word \<Rightarrow> table \<Rightarrow> nat option option" where
  "find_slot key m =
     (let msk = cap_mask (t_cap m) in find_loop msk key (buckets m) (home_idx msk key))"

definition map_contains :: "64 word \<Rightarrow> table option \<Rightarrow> bool option" where
  "map_contains key h =
     (case h of
        None \<Rightarrow> Some False
      | Some m \<Rightarrow> if t_cap m \<le> 0 then Some False else map_option (\<lambda>r. r \<noteq> None) (find_slot key m))"

definition map_get_or :: "64 word \<Rightarrow> 64 word \<Rightarrow> table option \<Rightarrow> 64 word option" where
  "map_get_or key default_value h =
     (case h of
        None \<Rightarrow> Some default_value
      | Some m \<Rightarrow>
          if t_cap m \<le> 0 then Some default_value
          else map_option (\<lambda>r. case r of None \<Rightarrow> default_value | Some i \<Rightarrow> b_value (buckets m ! i))
                 (find_slot key m))"

definition map_remove :: "64 word \<Rightarrow> table option \<Rightarrow> (table option \<times> int) option" where
  "map_remove key h =
     (case h of
        None \<Rightarrow> Some (None, 0)
      | Some m \<Rightarrow>
          if t_cap m \<le> 0 then Some (Some m, 0)
          else (case find_slot key m of
                  None \<Rightarrow> None
                | Some None \<Rightarrow> Some (Some m, 0)
                | Some (Some i) \<Rightarrow>
                    Some (Some (m\<lparr>buckets := (buckets m)[i := (buckets m ! i)\<lparr>b_state := Tombstone\<rparr>],
                                  t_len := t_len m - 1\<rparr>), 1)))"

definition map_len :: "table option \<Rightarrow> int" where
  "map_len h = (case h of None \<Rightarrow> 0 | Some m \<Rightarrow> t_len m)"

definition map_keys :: "(int \<Rightarrow> bool) \<Rightarrow> table option \<Rightarrow> 64 word list" where
  "map_keys malloc h =
     (case h of
        None \<Rightarrow> []
      | Some m \<Rightarrow> if t_len m \<le> 0 \<or> \<not> malloc (t_len m) then [] else map b_key (filter full (buckets m)))"

definition map_values :: "(int \<Rightarrow> bool) \<Rightarrow> table option \<Rightarrow> 64 word list" where
  "map_values malloc h =
     (case h of
        None \<Rightarrow> []
      | Some m \<Rightarrow> if t_len m \<le> 0 \<or> \<not> malloc (t_len m) then [] else map b_value (filter full (buckets m)))"

definition set_insert :: "(nat \<Rightarrow> bool) \<Rightarrow> 64 word \<Rightarrow> table option \<Rightarrow> (table option \<times> int) option" where
  "set_insert calloc key h = map_insert calloc key 1 h"

section \<open>Probe sequences\<close>

definition pow_cap :: "nat \<Rightarrow> bool" where
  "pow_cap n \<longleftrightarrow> (\<exists>c<63. n = 2 ^ c)"

lemma and_cap_mask: "pow_cap n \<Longrightarrow> unat (x AND cap_mask n) = unat x mod n"
proof -
  assume "pow_cap n"
  then obtain c where c: "c < 63" "n = 2 ^ c" unfolding pow_cap_def by blast
  have "x AND cap_mask n = take_bit c x"
    using c(2) by (simp add: cap_mask_def take_bit_eq_mask mask_eq_exp_minus_1)
  moreover have "unat (take_bit c x) = take_bit c (unat x)" by (simp add: unsigned_take_bit_eq)
  ultimately show ?thesis using c(2) by (simp only: take_bit_eq_mod)
qed

lemma home_idx_mod: "pow_cap n \<Longrightarrow> home_idx (cap_mask n) k mod n = home_idx (cap_mask n) k"
  by (simp add: home_idx_def and_cap_mask)

lemma home_idx_less: "pow_cap n \<Longrightarrow> home_idx (cap_mask n) k < n"
  by (metis home_idx_def and_cap_mask mod_less_divisor pow_cap_def zero_less_numeral zero_less_power)

lemma next_idx_mod: "pow_cap n \<Longrightarrow> next_idx (cap_mask n) ((h + j) mod n) = (h + Suc j) mod n"
proof -
  assume n: "pow_cap n"
  then obtain c where c: "c < 63" "n = 2 ^ c" unfolding pow_cap_def by blast
  let ?i = "(h + j) mod n"
  have "?i < n" using c by simp
  moreover have "n \<le> 2 ^ 62" unfolding c(2) using c(1) by (intro power_increasing) simp_all
  ultimately have "?i + 1 < 2 ^ 64" by simp
  then have "unat (of_nat (?i + 1) :: 64 word) = ?i + 1"
    by (simp only: unsigned_of_nat take_bit_eq_mod len_num1 len_bit0) simp
  then have "unat (of_nat ?i + 1 :: 64 word) = ?i + 1" by (simp only: of_nat_add of_nat_1)
  then have "next_idx (cap_mask n) ?i = (?i + 1) mod n" using n by (simp add: next_idx_def and_cap_mask)
  then show ?thesis by (simp add: mod_simps)
qed

lemma next_idx_step: "pow_cap n \<Longrightarrow> i < n \<Longrightarrow> next_idx (cap_mask n) i = Suc i mod n"
  using next_idx_mod [of n i 0] by simp

text \<open>The slot reached from \<open>i\<close> after \<open>j\<close> steps, and the steps it takes to the first slot that
  satisfies a test.\<close>

abbreviation ahead :: "bucket list \<Rightarrow> nat \<Rightarrow> nat \<Rightarrow> bucket" where
  "ahead bs i j \<equiv> bs ! ((i + j) mod length bs)"

lemma ahead_next: "pow_cap (length bs) \<Longrightarrow> i < length bs \<Longrightarrow> ahead bs (next_idx (cap_mask (length bs)) i) j = ahead bs i (Suc j)"
  by (simp add: next_idx_step mod_simps)

lemma ahead_idx_next:
  "pow_cap n \<Longrightarrow> i < n \<Longrightarrow> (next_idx (cap_mask n) i + j) mod n = (i + Suc j) mod n"
  by (simp add: next_idx_step mod_simps)

lemma next_idx_less: "pow_cap n \<Longrightarrow> i < n \<Longrightarrow> next_idx (cap_mask n) i < n"
  by (simp add: next_idx_step)

definition find_stop :: "64 word \<Rightarrow> bucket \<Rightarrow> bool" where
  "find_stop key b \<longleftrightarrow> b_state b = EmptySlot \<or> full b \<and> b_key b = key"

lemma find_loop_stops:
  assumes "pow_cap (length bs)" and "i < length bs"
    and "find_stop key (ahead bs i j)" and "\<And>l. l < j \<Longrightarrow> \<not> find_stop key (ahead bs i l)"
  shows "find_loop (cap_mask (length bs)) key bs i =
    Some (if full (ahead bs i j) then Some ((i + j) mod length bs) else None)"
  using assms
proof (induction j arbitrary: i)
  case 0
  then show ?case by (subst find_loop.simps) (auto simp: find_stop_def Let_def)
next
  case (Suc j)
  let ?m = "cap_mask (length bs)"
  from Suc.prems(4) [of 0] Suc.prems(2) have "\<not> find_stop key (bs ! i)" by simp
  then have "find_loop ?m key bs i = find_loop ?m key bs (next_idx ?m i)"
    by (subst find_loop.simps) (auto simp: find_stop_def Let_def)
  also have "\<dots> = Some (if full (ahead bs (next_idx ?m i) j) then Some ((next_idx ?m i + j) mod length bs) else None)"
    using Suc.prems by (intro Suc.IH next_idx_less) (simp_all only: ahead_next Suc_less_eq, simp)
  finally show ?case using Suc.prems by (simp only: ahead_next ahead_idx_next)
qed

lemma find_loop_stop_exists:
  assumes "find_loop m key bs i = Some r"
  shows "m = cap_mask (length bs) \<longrightarrow> pow_cap (length bs) \<longrightarrow> i < length bs \<longrightarrow>
    (\<exists>j. find_stop key (ahead bs i j))"
  using assms
proof (induction m key bs i r rule: find_loop.raw_induct [rotated, consumes 1, case_names step])
  case (step find m key bs i r)
  show ?case
  proof (intro impI, cases "find_stop key (bs ! i)")
    assume m: "m = cap_mask (length bs)" "pow_cap (length bs)" "i < length bs"
    {
      case True
      with m have "find_stop key (ahead bs i 0)" by simp
      then show "\<exists>j. find_stop key (ahead bs i j)" ..
    next
      case False
      then have "find m key bs (next_idx m i) = Some r"
        using step(2) by (auto simp: find_stop_def Let_def split: if_splits)
      from step(1) [OF this] m next_idx_less [of "length bs" i]
      obtain j where "find_stop key (ahead bs (next_idx m i) j)" by auto
      then have "find_stop key (ahead bs i (Suc j))" using m by (simp only: ahead_next)
      then show "\<exists>j. find_stop key (ahead bs i j)" ..
    }
  qed
qed

lemma find_loop_cases:
  assumes "pow_cap (length bs)" and "i < length bs"
  obtains (never) "\<And>j. \<not> find_stop key (ahead bs i j)" "find_loop (cap_mask (length bs)) key bs i = None"
  | (stop) j where "find_stop key (ahead bs i j)" "\<And>l. l < j \<Longrightarrow> \<not> find_stop key (ahead bs i l)"
      "find_loop (cap_mask (length bs)) key bs i =
         Some (if full (ahead bs i j) then Some ((i + j) mod length bs) else None)"
proof (cases "\<exists>j. find_stop key (ahead bs i j)")
  case True
  let ?j = "LEAST j. find_stop key (ahead bs i j)"
  have "find_stop key (ahead bs i ?j)" using True by (rule LeastI_ex)
  moreover have "\<not> find_stop key (ahead bs i l)" if "l < ?j" for l using that by (rule not_less_Least)
  ultimately show ?thesis using find_loop_stops [OF assms] by (intro stop) blast+
next
  case False
  then have "find_loop (cap_mask (length bs)) key bs i = None"
    using find_loop_stop_exists [of "cap_mask (length bs)" key bs i] assms by (cases "find_loop (cap_mask (length bs)) key bs i") auto
  with False show ?thesis by (intro never) auto
qed

section \<open>The map a table stands for\<close>

definition contents :: "bucket list \<Rightarrow> 64 word \<Rightarrow> 64 word option" where
  "contents bs key = map_option b_value (List.find (\<lambda>b. full b \<and> b_key b = key) bs)"

definition keys_ok :: "bucket list \<Rightarrow> bool" where
  "keys_ok bs \<longleftrightarrow> (\<forall>i<length bs. \<forall>j<length bs.
     full (bs ! i) \<longrightarrow> full (bs ! j) \<longrightarrow> b_key (bs ! i) = b_key (bs ! j) \<longrightarrow> i = j)"

text \<open>\<open>p\<close> lies on the probe sequence of a key before any empty slot.\<close>

definition reaches :: "bucket list \<Rightarrow> 64 word \<Rightarrow> nat \<Rightarrow> bool" where
  "reaches bs key p \<longleftrightarrow>
     (\<exists>d. (home_idx (cap_mask (length bs)) key + d) mod length bs = p \<and>
        (\<forall>l<d. b_state (ahead bs (home_idx (cap_mask (length bs)) key) l) \<noteq> EmptySlot))"

definition probe_ok :: "bucket list \<Rightarrow> bool" where
  "probe_ok bs \<longleftrightarrow> (\<forall>i<length bs. full (bs ! i) \<longrightarrow> reaches bs (b_key (bs ! i)) i)"

definition slots_ok :: "bucket list \<Rightarrow> bool" where
  "slots_ok bs \<longleftrightarrow> pow_cap (length bs) \<and> keys_ok bs \<and> probe_ok bs"

definition count_full :: "bucket list \<Rightarrow> int" where
  "count_full bs = int (length (filter full bs))"

lemma slots_ok_cap [simp]: "slots_ok bs \<Longrightarrow> pow_cap (length bs)"
  by (simp add: slots_ok_def)

lemma contents_Some:
  "keys_ok bs \<Longrightarrow> contents bs key = Some v \<longleftrightarrow>
     (\<exists>i<length bs. full (bs ! i) \<and> b_key (bs ! i) = key \<and> b_value (bs ! i) = v)"
proof
  assume "contents bs key = Some v"
  then show "\<exists>i<length bs. full (bs ! i) \<and> b_key (bs ! i) = key \<and> b_value (bs ! i) = v"
    by (auto simp: contents_def find_Some_iff)
next
  assume k: "keys_ok bs"
  assume "\<exists>i<length bs. full (bs ! i) \<and> b_key (bs ! i) = key \<and> b_value (bs ! i) = v"
  then obtain i where i: "i < length bs" "full (bs ! i)" "b_key (bs ! i) = key" "b_value (bs ! i) = v" by blast
  then have "List.find (\<lambda>b. full b \<and> b_key b = key) bs \<noteq> None" by (auto simp: find_None_iff in_set_conv_nth)
  then obtain b where b: "List.find (\<lambda>b. full b \<and> b_key b = key) bs = Some b" by blast
  then obtain j where j: "j < length bs" "full (bs ! j)" "b_key (bs ! j) = key" "b = bs ! j"
    by (auto simp: find_Some_iff)
  with k i have "i = j" by (auto simp: keys_ok_def)
  with b i j show "contents bs key = Some v" by (simp add: contents_def)
qed

lemma contents_None: "contents bs key = None \<longleftrightarrow> (\<forall>i<length bs. \<not> (full (bs ! i) \<and> b_key (bs ! i) = key))"
  by (auto simp: contents_def find_None_iff in_set_conv_nth)

lemma option_fun_eqI: "(\<And>x y. f x = Some y \<longleftrightarrow> g x = Some y) \<Longrightarrow> f = g"
  by (rule ext) (metis option.exhaust)

lemma probe_covers: "i < n \<Longrightarrow> h < n \<Longrightarrow> \<exists>j. (h + j) mod n = i" for n :: nat
  by (rule exI [of _ "i + n - h"]) simp

lemma find_loop_spec:
  assumes "slots_ok bs"
  shows "find_loop (cap_mask (length bs)) key bs (home_idx (cap_mask (length bs)) key) =
      (if contents bs key = None \<and> (\<forall>b \<in> set bs. b_state b \<noteq> EmptySlot) then None
       else Some (if contents bs key = None then None
                  else Some (THE i. i < length bs \<and> full (bs ! i) \<and> b_key (bs ! i) = key)))"
    and "contents bs key \<noteq> None \<Longrightarrow> \<exists>i<length bs. full (bs ! i) \<and> b_key (bs ! i) = key \<and>
      (THE i. i < length bs \<and> full (bs ! i) \<and> b_key (bs ! i) = key) = i \<and> contents bs key = Some (b_value (bs ! i))"
proof -
  let ?m = "cap_mask (length bs)" and ?h = "home_idx (cap_mask (length bs)) key"
  let ?here = "\<lambda>i. i < length bs \<and> full (bs ! i) \<and> b_key (bs ! i) = key"
  have n: "pow_cap (length bs)" and k: "keys_ok bs" and p: "probe_ok bs" using assms by (simp_all add: slots_ok_def)
  have h: "?h < length bs" by (rule home_idx_less [OF n])
  then have pos: "0 < length bs" by linarith
  have the: "(THE i. ?here i) = i" if "?here i" for i
    by (rule the_equality) (use that k in \<open>auto simp: keys_ok_def\<close>)
  show "contents bs key \<noteq> None \<Longrightarrow> \<exists>i<length bs. full (bs ! i) \<and> b_key (bs ! i) = key \<and>
      (THE i. ?here i) = i \<and> contents bs key = Some (b_value (bs ! i))"
    using the k by (fastforce simp: contents_None contents_Some)
  show "find_loop ?m key bs ?h =
      (if contents bs key = None \<and> (\<forall>b \<in> set bs. b_state b \<noteq> EmptySlot) then None
       else Some (if contents bs key = None then None else Some (THE i. ?here i)))"
  proof (rule find_loop_cases [OF n h, of key])
    assume never: "\<And>j. \<not> find_stop key (ahead bs ?h j)" and none: "find_loop ?m key bs ?h = None"
    have no: "\<not> find_stop key (bs ! i)" if "i < length bs" for i
      using probe_covers [OF that h] never by metis
    then have "contents bs key = None" "\<forall>b \<in> set bs. b_state b \<noteq> EmptySlot"
      by (auto simp: contents_None find_stop_def in_set_conv_nth)
    with none show ?thesis by simp
  next
    fix j
    assume stop: "find_stop key (ahead bs ?h j)" and before: "\<And>l. l < j \<Longrightarrow> \<not> find_stop key (ahead bs ?h l)"
      and res: "find_loop ?m key bs ?h = Some (if full (ahead bs ?h j) then Some ((?h + j) mod length bs) else None)"
    let ?i = "(?h + j) mod length bs"
    have i: "?i < length bs" using pos by simp
    show ?thesis
    proof (cases "full (ahead bs ?h j)")
      case True
      with stop have here: "?here ?i" using i by (simp add: find_stop_def)
      then have "contents bs key \<noteq> None" unfolding contents_None by blast
      with res True the [OF here] show ?thesis by simp
    next
      case False
      with stop have empty: "b_state (ahead bs ?h j) = EmptySlot" by (simp add: find_stop_def)
      have "contents bs key = None"
      proof (rule ccontr)
        assume "contents bs key \<noteq> None"
        then obtain q where q: "?here q" by (auto simp: contents_None)
        with p have "reaches bs key q" by (auto simp: probe_ok_def)
        then obtain d where d: "(?h + d) mod length bs = q"
          "\<forall>l<d. b_state (ahead bs ?h l) \<noteq> EmptySlot" by (auto simp: reaches_def)
        have "find_stop key (ahead bs ?h d)" using d(1) q by (simp add: find_stop_def)
        with before have "\<not> d < j" by blast
        moreover have "\<not> j < d" using d(2) empty by blast
        ultimately have "d = j" by simp
        with d(1) q False show False by simp
      qed
      moreover have "\<exists>b \<in> set bs. b_state b = EmptySlot" using empty i nth_mem by blast
      ultimately show ?thesis using res False by auto
    qed
  qed
qed

section \<open>Insertion\<close>

lemma insert_loop_step:
  assumes "\<not> find_stop key (bs ! i)"
  shows "insert_loop m key v bs ft i =
    insert_loop m key v bs (if b_state (bs ! i) = Tombstone \<and> ft = None then Some i else ft) (next_idx m i)"
  using assms
  by (subst insert_loop.simps) (auto simp: find_stop_def Let_def split: slot_state.splits option.splits)

lemma insert_loop_found:
  assumes "find_stop key (bs ! i)" and "full (bs ! i)"
  shows "insert_loop m key v bs ft i = Some (bs[i := (bs ! i)\<lparr>b_value := v\<rparr>], False)"
  using assms by (subst insert_loop.simps) (simp add: find_stop_def Let_def)

lemma insert_loop_empty:
  assumes "find_stop key (bs ! i)" and "\<not> full (bs ! i)"
  shows "insert_loop m key v bs ft i =
    Some (bs[(case ft of Some t \<Rightarrow> t | None \<Rightarrow> i) := \<lparr>b_state = FullSlot, b_key = key, b_value = v\<rparr>], True)"
  using assms by (subst insert_loop.simps) (simp add: find_stop_def Let_def)

lemma insert_loop_stops_full:
  assumes "pow_cap (length bs)" and "i < length bs" and "find_stop key (ahead bs i j)" and "full (ahead bs i j)"
    and "\<And>l. l < j \<Longrightarrow> \<not> find_stop key (ahead bs i l)"
  shows "insert_loop (cap_mask (length bs)) key v bs ft i =
    Some (bs[(i + j) mod length bs := (ahead bs i j)\<lparr>b_value := v\<rparr>], False)"
  using assms
proof (induction j arbitrary: i ft)
  case 0
  then show ?case by (simp add: insert_loop_found)
next
  case (Suc j)
  let ?n = "next_idx (cap_mask (length bs)) i"
  have n: "?n < length bs" using Suc.prems(1,2) by (rule next_idx_less)
  from Suc.prems(5) [of 0] Suc.prems(2) have "\<not> find_stop key (bs ! i)" by simp
  note step = insert_loop_step [OF this]
  show ?case unfolding step
    using Suc.IH [OF Suc.prems(1) n] Suc.prems n by (simp only: ahead_next ahead_idx_next Suc_less_eq simp_thms)
qed

lemma insert_loop_stops_empty:
  assumes "pow_cap (length bs)" and "i < length bs" and "find_stop key (ahead bs i j)" and "\<not> full (ahead bs i j)"
    and "\<And>l. l < j \<Longrightarrow> \<not> find_stop key (ahead bs i l)"
  shows "\<exists>p. insert_loop (cap_mask (length bs)) key v bs ft i =
      Some (bs[p := \<lparr>b_state = FullSlot, b_key = key, b_value = v\<rparr>], True) \<and>
    (case ft of Some t \<Rightarrow> p = t | None \<Rightarrow> \<exists>l\<le>j. p = (i + l) mod length bs \<and> \<not> full (ahead bs i l))"
  using assms
proof (induction j arbitrary: i ft)
  case 0
  then show ?case by (cases ft) (simp_all add: insert_loop_empty)
next
  case (Suc j)
  let ?m = "cap_mask (length bs)"
  let ?n = "next_idx ?m i"
  let ?ft = "if b_state (bs ! i) = Tombstone \<and> ft = None then Some i else ft"
  have n: "?n < length bs" using Suc.prems(1,2) by (rule next_idx_less)
  from Suc.prems(5) [of 0] Suc.prems(2) have "\<not> find_stop key (bs ! i)" by simp
  note step = insert_loop_step [OF this]
  have "\<exists>p. insert_loop ?m key v bs ?ft ?n = Some (bs[p := \<lparr>b_state = FullSlot, b_key = key, b_value = v\<rparr>], True) \<and>
    (case ?ft of Some t \<Rightarrow> p = t | None \<Rightarrow> \<exists>l\<le>j. p = (?n + l) mod length bs \<and> \<not> full (ahead bs ?n l))"
    using Suc.IH [OF Suc.prems(1) n] Suc.prems n by (simp only: ahead_next ahead_idx_next Suc_less_eq simp_thms)
  then obtain p where p: "insert_loop ?m key v bs ?ft ?n = Some (bs[p := \<lparr>b_state = FullSlot, b_key = key, b_value = v\<rparr>], True)"
    "case ?ft of Some t \<Rightarrow> p = t | None \<Rightarrow> \<exists>l\<le>j. p = (?n + l) mod length bs \<and> \<not> full (ahead bs ?n l)" by blast
  have "case ft of Some t \<Rightarrow> p = t | None \<Rightarrow> \<exists>l\<le>Suc j. p = (i + l) mod length bs \<and> \<not> full (ahead bs i l)"
  proof (cases ft)
    case None
    show ?thesis
    proof (cases "b_state (bs ! i) = Tombstone")
      case True
      with None p(2) have "p = i" by simp
      with True Suc.prems(2) None show ?thesis by (auto intro!: exI [of _ 0])
    next
      case False
      with None p(2) obtain l where "l \<le> j" "p = (?n + l) mod length bs" "\<not> full (ahead bs ?n l)" by auto
      then have "Suc l \<le> Suc j \<and> p = (i + Suc l) mod length bs \<and> \<not> full (ahead bs i (Suc l))"
        using Suc.prems(1,2) by (simp only: ahead_next ahead_idx_next Suc_le_mono simp_thms)
      with None show ?thesis by (simp only: option.case) blast
    qed
  qed (use p(2) in simp)
  with p(1) show ?case by (simp only: step) blast
qed

lemma insert_loop_stop_exists:
  assumes "insert_loop m key v bs ft i = Some r"
  shows "m = cap_mask (length bs) \<longrightarrow> pow_cap (length bs) \<longrightarrow> i < length bs \<longrightarrow>
    (\<exists>j. find_stop key (ahead bs i j))"
  using assms
proof (induction m key v bs ft i r rule: insert_loop.raw_induct [rotated, consumes 1, case_names step])
  case (step ins m key v bs ft i r)
  show ?case
  proof (intro impI, cases "find_stop key (bs ! i)")
    assume m: "m = cap_mask (length bs)" "pow_cap (length bs)" "i < length bs"
    {
      case True
      with m have "find_stop key (ahead bs i 0)" by simp
      then show "\<exists>j. find_stop key (ahead bs i j)" ..
    next
      case False
      then have "\<exists>ft'. ins m key v bs ft' (next_idx m i) = Some r"
        using step(2) by (auto simp: find_stop_def Let_def split: if_splits slot_state.splits)
      then obtain ft' where "ins m key v bs ft' (next_idx m i) = Some r" ..
      from step(1) [OF this] m next_idx_less [of "length bs" i]
      obtain j where "find_stop key (ahead bs (next_idx m i) j)" by auto
      then have "find_stop key (ahead bs i (Suc j))" using m by (simp only: ahead_next)
      then show "\<exists>j. find_stop key (ahead bs i j)" ..
    }
  qed
qed

lemma insert_loop_spec:
  assumes "slots_ok bs"
  defines "m \<equiv> cap_mask (length bs)"
  obtains
    (never) "insert_loop m key v bs None (home_idx m key) = None" "contents bs key = None"
      "\<forall>b \<in> set bs. b_state b \<noteq> EmptySlot"
  | (found) i where "i < length bs" "full (bs ! i)" "b_key (bs ! i) = key"
      "insert_loop m key v bs None (home_idx m key) = Some (bs[i := (bs ! i)\<lparr>b_value := v\<rparr>], False)"
  | (placed) p where "p < length bs" "\<not> full (bs ! p)" "contents bs key = None" "reaches bs key p"
      "\<exists>b \<in> set bs. b_state b = EmptySlot"
      "insert_loop m key v bs None (home_idx m key) =
         Some (bs[p := \<lparr>b_state = FullSlot, b_key = key, b_value = v\<rparr>], True)"
proof -
  let ?h = "home_idx m key"
  have n: "pow_cap (length bs)" using assms by simp
  have h: "?h < length bs" unfolding m_def by (rule home_idx_less [OF n])
  then have pos: "0 < length bs" by linarith
  note find = find_loop_spec [OF assms(1), of key, folded m_def]
  show thesis
  proof (rule find_loop_cases [OF n h, of key, folded m_def])
    assume no: "\<And>j. \<not> find_stop key (ahead bs ?h j)" and none: "find_loop m key bs ?h = None"
    have "insert_loop m key v bs None ?h = None"
      using insert_loop_stop_exists [of m key v bs None ?h] no n h m_def by (cases "insert_loop m key v bs None ?h") auto
    moreover have "contents bs key = None \<and> (\<forall>b \<in> set bs. b_state b \<noteq> EmptySlot)"
      using find(1) none by (simp split: if_splits)
    ultimately show thesis by (intro never) simp_all
  next
    fix j
    assume stop: "find_stop key (ahead bs ?h j)" and before: "\<And>l. l < j \<Longrightarrow> \<not> find_stop key (ahead bs ?h l)"
      and res: "find_loop m key bs ?h = Some (if full (ahead bs ?h j) then Some ((?h + j) mod length bs) else None)"
    let ?i = "(?h + j) mod length bs"
    have i: "?i < length bs" using pos by simp
    show thesis
    proof (cases "full (ahead bs ?h j)")
      case True
      from insert_loop_stops_full [OF n h stop True before] True stop i show thesis
        unfolding m_def [symmetric] by (intro found [of ?i]) (simp_all add: find_stop_def)
    next
      case False
      from insert_loop_stops_empty [OF n h stop False before, of v None, folded m_def]
      obtain p where p: "insert_loop m key v bs None ?h =
          Some (bs[p := \<lparr>b_state = FullSlot, b_key = key, b_value = v\<rparr>], True)"
        "\<exists>l\<le>j. p = (?h + l) mod length bs \<and> \<not> full (ahead bs ?h l)" by auto
      from p(2) obtain l where l: "l \<le> j" "p = (?h + l) mod length bs" "\<not> full (ahead bs ?h l)" by blast
      have "b_state (ahead bs ?h k) \<noteq> EmptySlot" if "k < l" for k
        using before [of k] that l(1) by (auto simp: find_stop_def)
      then have "reaches bs key p" unfolding reaches_def m_def [symmetric] using l(2) by blast
      moreover have "contents bs key = None" using find(1) res False by (auto split: if_splits)
      moreover have "\<exists>b \<in> set bs. b_state b = EmptySlot"
        using stop False i nth_mem [of ?i bs] by (auto simp: find_stop_def)
      ultimately show thesis using p(1) l(2,3) pos by (intro placed [of p]) simp_all
    qed
  qed
qed

section \<open>Changing one slot\<close>

lemma reaches_update:
  assumes "b_state b \<noteq> EmptySlot" and "reaches bs key p"
  shows "reaches (bs[q := b]) key p"
proof -
  from assms(2) obtain d where d: "(home_idx (cap_mask (length bs)) key + d) mod length bs = p"
    "\<forall>l<d. b_state (ahead bs (home_idx (cap_mask (length bs)) key) l) \<noteq> EmptySlot"
    by (auto simp: reaches_def)
  moreover have "b_state (bs[q := b] ! i) \<noteq> EmptySlot" if "b_state (bs ! i) \<noteq> EmptySlot" for i
    using assms(1) that by (cases "q < length bs \<and> q = i") (auto simp: list_update_beyond)
  ultimately show ?thesis unfolding reaches_def by (intro exI [of _ d]) simp
qed

lemma slots_ok_fill:
  assumes "slots_ok bs" and "p < length bs" and "contents bs key = None" and "reaches bs key p"
    and "full b" and "b_key b = key"
  shows "slots_ok (bs[p := b])"
proof -
  have k: "keys_ok bs" and pr: "probe_ok bs" using assms(1) by (simp_all add: slots_ok_def)
  have "keys_ok (bs[p := b])"
    using k assms(2,3,6) unfolding keys_ok_def contents_None by (auto simp: nth_list_update)
  moreover have "probe_ok (bs[p := b])"
    unfolding probe_ok_def
  proof (intro allI impI)
    fix i assume "i < length (bs[p := b])" "full (bs[p := b] ! i)"
    then show "reaches (bs[p := b]) (b_key (bs[p := b] ! i)) i"
      using assms(2,4,5,6) pr by (cases "i = p") (auto simp: probe_ok_def intro!: reaches_update)
  qed
  ultimately show ?thesis using assms(1) by (simp add: slots_ok_def)
qed

lemma contents_fill:
  assumes "slots_ok bs" and "p < length bs" and "contents bs key = None" and "\<not> full (bs ! p)"
    and "reaches bs key p" and "full b" and "b_key b = key"
  shows "contents (bs[p := b]) = (contents bs)(key \<mapsto> b_value b)"
proof (rule option_fun_eqI)
  fix x y
  have "keys_ok (bs[p := b])" using slots_ok_fill assms by (simp add: slots_ok_def)
  moreover have "keys_ok bs" using assms(1) by (simp add: slots_ok_def)
  ultimately show "contents (bs[p := b]) x = Some y \<longleftrightarrow> ((contents bs)(key \<mapsto> b_value b)) x = Some y"
    using assms(2,3,4,6,7) by (auto simp: contents_Some contents_None nth_list_update)
qed

lemma slots_ok_same_key:
  assumes "slots_ok bs" and "i < length bs" and "full (bs ! i)" and "b_state b \<noteq> EmptySlot" and "b_key b = b_key (bs ! i)"
  shows "slots_ok (bs[i := b])"
proof -
  have "keys_ok (bs[i := b])"
    using assms unfolding slots_ok_def keys_ok_def by (auto simp: nth_list_update)
  moreover have "probe_ok (bs[i := b])"
    unfolding probe_ok_def
  proof (intro allI impI)
    fix j assume "j < length (bs[i := b])" "full (bs[i := b] ! j)"
    then show "reaches (bs[i := b]) (b_key (bs[i := b] ! j)) j"
      using assms by (cases "j = i") (auto simp: slots_ok_def probe_ok_def intro!: reaches_update)
  qed
  ultimately show ?thesis using assms(1) by (simp add: slots_ok_def)
qed

lemma contents_others:
  assumes "keys_ok bs" and "keys_ok (bs[i := b])" and "i < length bs" and "x \<noteq> b_key (bs ! i)" and "x \<noteq> b_key b"
  shows "contents (bs[i := b]) x = contents bs x"
proof -
  have "contents (bs[i := b]) x = Some y \<longleftrightarrow> contents bs x = Some y" for y
  proof -
    have "full (bs[i := b] ! j) \<and> b_key (bs[i := b] ! j) = x \<and> b_value (bs[i := b] ! j) = y \<longleftrightarrow>
        full (bs ! j) \<and> b_key (bs ! j) = x \<and> b_value (bs ! j) = y" for j
      using assms(3-5) by (cases "j = i") auto
    then show ?thesis by (simp only: contents_Some [OF assms(1)] contents_Some [OF assms(2)] length_list_update)
  qed
  then show ?thesis by (cases "contents bs x"; cases "contents (bs[i := b]) x") auto
qed

lemma contents_value:
  assumes "slots_ok bs" and "i < length bs" and "full (bs ! i)"
  shows "contents (bs[i := (bs ! i)\<lparr>b_value := v\<rparr>]) = (contents bs)(b_key (bs ! i) \<mapsto> v)"
proof
  fix x
  let ?b = "(bs ! i)\<lparr>b_value := v\<rparr>"
  have k: "keys_ok bs" using assms(1) by (simp add: slots_ok_def)
  have k': "keys_ok (bs[i := ?b])" using slots_ok_same_key [OF assms, of ?b] assms(3) by (simp add: slots_ok_def)
  show "contents (bs[i := ?b]) x = ((contents bs)(b_key (bs ! i) \<mapsto> v)) x"
  proof (cases "x = b_key (bs ! i)")
    case True
    have "contents (bs[i := ?b]) x = Some v"
      unfolding contents_Some [OF k'] using assms(2,3) True by (intro exI [of _ i]) simp
    with True show ?thesis by simp
  qed (simp add: contents_others [OF k k' assms(2)])
qed

lemma contents_tombstone:
  assumes "slots_ok bs" and "i < length bs" and "full (bs ! i)"
  shows "contents (bs[i := (bs ! i)\<lparr>b_state := Tombstone\<rparr>]) = (contents bs)(b_key (bs ! i) := None)"
proof
  fix x
  let ?b = "(bs ! i)\<lparr>b_state := Tombstone\<rparr>"
  have k: "keys_ok bs" using assms(1) by (simp add: slots_ok_def)
  have k': "keys_ok (bs[i := ?b])" using slots_ok_same_key [OF assms, of ?b] by (simp add: slots_ok_def)
  show "contents (bs[i := ?b]) x = ((contents bs)(b_key (bs ! i) := None)) x"
  proof (cases "x = b_key (bs ! i)")
    case True
    have "\<not> (full (bs[i := ?b] ! j) \<and> b_key (bs[i := ?b] ! j) = x)" if "j < length bs" for j
      using that k assms(2,3) True by (cases "j = i") (auto simp: keys_ok_def)
    then have "contents (bs[i := ?b]) x = None" by (simp add: contents_None)
    with True show ?thesis by simp
  qed (simp add: contents_others [OF k k' assms(2)])
qed

lemma count_full_update:
  "i < length bs \<Longrightarrow> count_full (bs[i := b]) = count_full bs + of_bool (full b) - of_bool (full (bs ! i))"
proof -
  assume i: "i < length bs"
  have "filter full bs = filter full (take i bs) @ filter full (bs ! i # drop (Suc i) bs)"
    using id_take_nth_drop [OF i] by (metis filter_append)
  moreover have "filter full (bs[i := b]) = filter full (take i bs) @ filter full (b # drop (Suc i) bs)"
    using i by (simp add: upd_conv_take_nth_drop)
  ultimately show ?thesis by (simp add: count_full_def)
qed

section \<open>Growing\<close>

lemma place_loop_stops:
  assumes "pow_cap (length bs)" and "i < length bs" and "\<not> full (ahead bs i j)" and "\<And>l. l < j \<Longrightarrow> full (ahead bs i l)"
  shows "place_loop (cap_mask (length bs)) b bs i = Some (bs[(i + j) mod length bs := b\<lparr>b_state := FullSlot\<rparr>])"
  using assms
proof (induction j arbitrary: i)
  case 0
  then show ?case by (subst place_loop.simps) simp
next
  case (Suc j)
  let ?n = "next_idx (cap_mask (length bs)) i"
  have n: "?n < length bs" using Suc.prems(1,2) by (rule next_idx_less)
  from Suc.prems(4) [of 0] Suc.prems(2) have "full (bs ! i)" by simp
  then have "place_loop (cap_mask (length bs)) b bs i = place_loop (cap_mask (length bs)) b bs ?n"
    by (subst place_loop.simps) simp
  moreover have "\<not> full (ahead bs ?n j)" using Suc.prems(1-3) by (simp only: ahead_next simp_thms)
  moreover have "full (ahead bs ?n l)" if "l < j" for l
    using Suc.prems(1,2) Suc.prems(4) [of "Suc l"] that by (simp only: ahead_next Suc_less_eq)
  ultimately show ?case
    using Suc.IH [OF Suc.prems(1) n] Suc.prems(1,2) by (simp only: ahead_idx_next simp_thms)
qed

lemma place_loop_spec:
  assumes "slots_ok bs" and "count_full bs < int (length bs)" and "m = cap_mask (length bs)"
  obtains p where "p < length bs" "\<not> full (bs ! p)" "reaches bs key p"
    "place_loop m b bs (home_idx m key) = Some (bs[p := b\<lparr>b_state := FullSlot\<rparr>])"
proof -
  let ?h = "home_idx m key"
  have n: "pow_cap (length bs)" using assms by simp
  have h: "?h < length bs" unfolding assms(3) by (rule home_idx_less [OF n])
  then have pos: "0 < length bs" by linarith
  have "\<exists>i<length bs. \<not> full (bs ! i)"
  proof (rule ccontr)
    assume "\<not> ?thesis"
    then have "filter full bs = bs" by (auto simp: filter_id_conv in_set_conv_nth)
    with assms(2) show False by (simp add: count_full_def)
  qed
  then obtain i where "i < length bs" "\<not> full (bs ! i)" by blast
  then have ex: "\<exists>j. \<not> full (ahead bs ?h j)" using probe_covers [OF _ h] by metis
  let ?j = "LEAST j. \<not> full (ahead bs ?h j)"
  have stop: "\<not> full (ahead bs ?h ?j)" using ex by (rule LeastI_ex)
  have before: "full (ahead bs ?h l)" if "l < ?j" for l using not_less_Least [OF that] by simp
  have "reaches bs key ((?h + ?j) mod length bs)"
    unfolding reaches_def assms(3) [symmetric] by (intro exI [of _ ?j]) (simp add: before)
  with stop pos place_loop_stops [OF n h stop before] assms(3) show thesis by (intro that) simp_all
qed

lemma keys_ok_Cons:
  assumes "keys_ok (b # bs)"
  shows "keys_ok bs" and "full b \<Longrightarrow> contents bs (b_key b) = None"
proof -
  have *: "full ((b # bs) ! i) \<Longrightarrow> full ((b # bs) ! j) \<Longrightarrow> b_key ((b # bs) ! i) = b_key ((b # bs) ! j) \<Longrightarrow> i = j"
    if "i \<le> length bs" "j \<le> length bs" for i j using assms that by (simp add: keys_ok_def less_Suc_eq_le)
  have "i = j" if "i < length bs" "j < length bs" "full (bs ! i)" "full (bs ! j)" "b_key (bs ! i) = b_key (bs ! j)" for i j
    using * [of "Suc i" "Suc j"] that by simp
  then show "keys_ok bs" by (auto simp: keys_ok_def)
  assume "full b"
  then have "\<not> (full (bs ! i) \<and> b_key (bs ! i) = b_key b)" if "i < length bs" for i
    using * [of 0 "Suc i"] that by auto
  then show "contents bs (b_key b) = None" by (simp add: contents_None)
qed

lemma contents_Cons:
  "contents (b # bs) = (if full b then (contents bs)(b_key b \<mapsto> b_value b) else contents bs)"
  by (rule ext) (simp add: contents_def)

definition no_tombs :: "bucket list \<Rightarrow> bool" where
  "no_tombs bs \<longleftrightarrow> (\<forall>b \<in> set bs. b_state b \<noteq> Tombstone)"

lemma no_tombs_update: "no_tombs bs \<Longrightarrow> b_state b \<noteq> Tombstone \<Longrightarrow> no_tombs (bs[i := b])"
  using set_update_subset_insert [of bs i b] by (auto simp: no_tombs_def)

lemma rehash_loop_spec:
  assumes "slots_ok bs" and "m = cap_mask (length bs)" and "no_tombs bs" and "keys_ok old"
    and "dom (contents bs) \<inter> dom (contents old) = {}" and "count_full bs + count_full old < int (length bs)"
  shows "\<exists>bs'. rehash_loop m old (bs, count_full bs) = Some (bs', count_full bs') \<and> slots_ok bs' \<and> no_tombs bs' \<and>
    length bs' = length bs \<and> contents bs' = contents bs ++ contents old \<and> count_full bs' = count_full bs + count_full old"
  using assms
proof (induction old arbitrary: bs)
  case Nil
  then show ?case by (simp add: contents_def count_full_def map_add_def)
next
  case (Cons b old)
  show ?case
  proof (cases "full b")
    case False
    then have "contents (b # old) = contents old" "count_full (b # old) = count_full old"
      by (simp_all add: contents_Cons count_full_def)
    with Cons.IH [of bs] Cons.prems False keys_ok_Cons(1) show ?thesis by simp
  next
    case True
    have cnt: "count_full (b # old) = 1 + count_full old" using True by (simp add: count_full_def)
    have pos: "0 \<le> count_full old" by (simp add: count_full_def)
    with Cons.prems(6) cnt have "count_full bs < int (length bs)" by simp
    from place_loop_spec [OF Cons.prems(1) this Cons.prems(2)] obtain p where
      p: "p < length bs" "\<not> full (bs ! p)" "reaches bs (b_key b) p"
        "place_loop m b bs (home_idx m (b_key b)) = Some (bs[p := b\<lparr>b_state := FullSlot\<rparr>])"
      by metis
    let ?bs = "bs[p := b]"
    have b: "b\<lparr>b_state := FullSlot\<rparr> = b" using True by simp
    have new: "contents bs (b_key b) = None"
      using Cons.prems(5) True by (auto simp: contents_Cons)
    have ok: "slots_ok ?bs" using slots_ok_fill [OF Cons.prems(1) p(1) new p(3) True] by simp
    have con: "contents ?bs = (contents bs)(b_key b \<mapsto> b_value b)"
      using contents_fill [OF Cons.prems(1) p(1) new p(2,3) True] by simp
    have c: "count_full ?bs = count_full bs + 1" using count_full_update [OF p(1)] True p(2) by simp
    note old = keys_ok_Cons [OF Cons.prems(4)]
    have "\<exists>bs'. rehash_loop m old (?bs, count_full ?bs) = Some (bs', count_full bs') \<and> slots_ok bs' \<and> no_tombs bs' \<and>
      length bs' = length ?bs \<and> contents bs' = contents ?bs ++ contents old \<and> count_full bs' = count_full ?bs + count_full old"
    proof (rule Cons.IH [OF ok])
      show "m = cap_mask (length ?bs)" using Cons.prems(2) by simp
      show "no_tombs ?bs" using Cons.prems(3) True by (intro no_tombs_update) simp_all
      show "dom (contents ?bs) \<inter> dom (contents old) = {}"
        using Cons.prems(5) True old(2) by (auto simp: con contents_Cons split: if_splits)
      show "count_full ?bs + count_full old < int (length ?bs)" using Cons.prems(6) c cnt by simp
    qed (rule old(1))
    moreover have "contents ?bs ++ contents old = contents bs ++ contents (b # old)"
      using True old(2) by (auto simp: con contents_Cons map_add_def fun_eq_iff split: option.splits)
    moreover have "rehash_loop m (b # old) (bs, count_full bs) = rehash_loop m old (?bs, count_full ?bs)"
      using True p(4) by (simp add: b c)
    ultimately show ?thesis using c cnt by (simp only: length_list_update add.assoc)
  qed
qed

definition table_ok :: "table \<Rightarrow> bool" where
  "table_ok m \<longleftrightarrow> 8 \<le> t_cap m \<and> t_cap m = length (buckets m) \<and> slots_ok (buckets m) \<and> t_len m = count_full (buckets m)"

lemma fresh_slots:
  assumes "pow_cap n"
  shows "slots_ok (replicate n empty_bucket)" and "no_tombs (replicate n empty_bucket)"
    and "contents (replicate n empty_bucket) = Map.empty" and "count_full (replicate n empty_bucket) = 0"
proof -
  have *: "\<not> full (replicate n empty_bucket ! i)" if "i < n" for i using that by (simp add: empty_bucket_def)
  then show "slots_ok (replicate n empty_bucket)" using assms
    by (auto simp: slots_ok_def keys_ok_def probe_ok_def)
  show "contents (replicate n empty_bucket) = Map.empty" using * by (simp add: contents_None fun_eq_iff)
  show "count_full (replicate n empty_bucket) = 0"
    by (simp add: count_full_def empty_bucket_def filter_replicate)
qed (auto simp: no_tombs_def empty_bucket_def)

text \<open>An address space of 64 bits holds fewer than \<open>2 ^ 60\<close> buckets of 24 bytes, so \<^verbatim>\<open>calloc\<close> refuses
  more.\<close>

definition address_space :: "(nat \<Rightarrow> bool) \<Rightarrow> bool" where
  "address_space calloc \<longleftrightarrow> (\<forall>n. calloc n \<longrightarrow> n < 2 ^ 60)"

abbreviation map_of_table :: "table \<Rightarrow> 64 word \<Rightarrow> 64 word option" where
  "map_of_table m \<equiv> contents (buckets m)"

lemma doubled_id: "min_cap \<le> t \<Longrightarrow> doubled t min_cap = Some t"
  by (subst doubled.simps) simp

lemma doubled_once: "0 < t \<Longrightarrow> doubled t (t * 2) = Some (t * 2)"
  by (subst doubled.simps) (simp add: doubled_id)

lemma doubled_returns: "0 < t \<Longrightarrow> \<exists>t'. doubled t n = Some t'"
proof (induction "n - t" arbitrary: t rule: less_induct)
  case less
  show ?case
  proof (cases "t < n")
    case True
    with less show ?thesis by (subst doubled.simps) simp
  qed (simp add: doubled_id)
qed

lemma count_full_le: "count_full bs \<le> int (length bs)"
  by (simp add: count_full_def)

lemma pow_cap_double: "pow_cap n \<Longrightarrow> n * 2 < 2 ^ 60 \<Longrightarrow> pow_cap (n * 2)"
proof -
  assume "pow_cap n" and small: "n * 2 < 2 ^ 60"
  then obtain c where c: "n = 2 ^ c" unfolding pow_cap_def by blast
  from small have "(2 :: nat) ^ Suc c < 2 ^ 60" by (simp only: c power_Suc2)
  then have "Suc c < 60" by (simp only: power_strict_increasing_iff one_less_numeral_iff semiring_norm)
  then show ?thesis unfolding pow_cap_def c by (intro exI [of _ "Suc c"]) simp
qed

lemma ensure_capacity_double:
  assumes "table_ok m" and "address_space calloc"
  obtains "ensure_capacity calloc m (t_cap m * 2) = Some (m, False)" "\<not> calloc (t_cap m * 2)"
  | m' where "ensure_capacity calloc m (t_cap m * 2) = Some (m', True)" "table_ok m'"
      "map_of_table m' = map_of_table m" "t_cap m' = t_cap m * 2" "no_tombs (buckets m')" "t_len m' = t_len m"
proof (cases "calloc (t_cap m * 2)")
  case False
  have "ensure_capacity calloc m (t_cap m * 2) = Some (m, False)"
  proof -
    have "8 \<le> t_cap m" using assms(1) by (simp add: table_ok_def)
    then show ?thesis using False by (simp add: ensure_capacity_def doubled_once)
  qed
  with False show thesis by (intro that(1))
next
  case True
  let ?n = "t_cap m * 2"
  have m: "8 \<le> t_cap m" "t_cap m = length (buckets m)" "slots_ok (buckets m)" "t_len m = count_full (buckets m)"
    using assms(1) by (simp_all add: table_ok_def)
  have n: "pow_cap ?n" using m(2,3) True assms(2) by (intro pow_cap_double) (simp_all add: address_space_def)
  note fresh = fresh_slots [OF n]
  have "\<exists>bs'. rehash_loop (cap_mask ?n) (buckets m) (replicate ?n empty_bucket, count_full (replicate ?n empty_bucket)) =
      Some (bs', count_full bs') \<and> slots_ok bs' \<and> no_tombs bs' \<and> length bs' = length (replicate ?n empty_bucket) \<and>
      contents bs' = contents (replicate ?n empty_bucket) ++ contents (buckets m) \<and>
      count_full bs' = count_full (replicate ?n empty_bucket) + count_full (buckets m)"
  proof (rule rehash_loop_spec)
    show "dom (contents (replicate ?n empty_bucket)) \<inter> dom (contents (buckets m)) = {}"
      unfolding fresh(3) by simp
    show "count_full (replicate ?n empty_bucket) + count_full (buckets m) < int (length (replicate ?n empty_bucket))"
      unfolding fresh(4) using m(1,2) count_full_le [of "buckets m"] by simp
  qed (use fresh m in \<open>simp_all add: slots_ok_def\<close>)
  then obtain bs' where bs': "rehash_loop (cap_mask ?n) (buckets m) (replicate ?n empty_bucket, 0) = Some (bs', count_full bs')"
    "slots_ok bs'" "no_tombs bs'" "length bs' = ?n" "contents bs' = contents (buckets m)"
    "count_full bs' = count_full (buckets m)"
    by (auto simp: fresh(3,4))
  have "ensure_capacity calloc m ?n = Some (\<lparr>t_len = count_full bs', t_cap = ?n, buckets = bs'\<rparr>, True)"
    using m(1) True bs'(1) by (simp add: ensure_capacity_def doubled_once)
  from that(2) [OF this] bs' m show thesis by (simp add: table_ok_def)
qed

lemma maybe_grow_spec:
  assumes "table_ok m" and "address_space calloc"
  obtains "maybe_grow calloc m = Some (m, False)" "\<not> calloc (t_cap m * 2)"
      "int (t_cap m) * 3 \<le> (t_len m + 1) * 4"
  | m' where "maybe_grow calloc m = Some (m', True)" "table_ok m'" "map_of_table m' = map_of_table m"
      "t_len m' < int (t_cap m')"
      "(t_len m + 1) * 4 < int (t_cap m) * 3 \<and> m' = m \<or> int (t_cap m) * 3 \<le> (t_len m + 1) * 4 \<and> no_tombs (buckets m')"
proof (cases "(t_len m + 1) * 4 \<ge> int (t_cap m) * 3")
  case True
  have grow: "maybe_grow calloc m = ensure_capacity calloc m (t_cap m * 2)"
    using True assms(1) by (simp add: maybe_grow_def table_ok_def)
  show thesis
  proof (rule ensure_capacity_double [OF assms])
    fix m' assume m': "ensure_capacity calloc m (t_cap m * 2) = Some (m', True)" "table_ok m'"
      "map_of_table m' = map_of_table m" "t_cap m' = t_cap m * 2" "no_tombs (buckets m')" "t_len m' = t_len m"
    have "t_len m \<le> int (t_cap m)" "0 < t_cap m" using assms(1) count_full_le by (auto simp: table_ok_def)
    then have "t_len m' < int (t_cap m')" using m'(4,6) by simp
    moreover have "maybe_grow calloc m = Some (m', True)" using grow m'(1) by simp
    ultimately show thesis using that(2) m'(2,3,5) True by blast
  qed (use grow True that(1) in simp)
next
  case False
  then have "t_len m < int (t_cap m)" using assms(1) by (simp add: table_ok_def count_full_def)
  moreover have "maybe_grow calloc m = Some (m, True)" using False assms(1) by (simp add: maybe_grow_def table_ok_def)
  ultimately show thesis using that(2) assms(1) False by (metis not_le)
qed

lemma map_new_spec:
  assumes "map_new s calloc = Some (Some m)"
  shows "table_ok m \<and> map_of_table m = Map.empty \<and> no_tombs (buckets m)"
proof -
  have p: "pow_cap 8" unfolding pow_cap_def by (rule exI [of _ 3]) simp
  from assms have "m = \<lparr>t_len = 0, t_cap = 8, buckets = replicate 8 empty_bucket\<rparr>"
    by (simp add: map_new_def ensure_capacity_def doubled_id split: if_splits)
  then show ?thesis using fresh_slots [OF p] by (simp add: table_ok_def)
qed

section \<open>The operations on the map\<close>

lemma empty_slot_exists:
  assumes "table_ok m" and "no_tombs (buckets m)" and "t_len m < int (t_cap m)"
  shows "\<exists>b \<in> set (buckets m). b_state b = EmptySlot"
proof (rule ccontr)
  assume none: "\<not> ?thesis"
  have "full b" if "b \<in> set (buckets m)" for b
    using none that assms(2) by (cases "b_state b") (auto simp: no_tombs_def)
  then have "filter full (buckets m) = buckets m" by (simp add: filter_id_conv)
  with assms(1,3) show False by (simp add: table_ok_def count_full_def)
qed

text \<open>The condition under which an insertion or a lookup of a key probes for ever.\<close>

definition stuck :: "table \<Rightarrow> 64 word \<Rightarrow> bool" where
  "stuck m key \<longleftrightarrow> map_of_table m key = None \<and> (\<forall>b \<in> set (buckets m). b_state b \<noteq> EmptySlot)"

lemma map_insert_spec:
  assumes "table_ok m" and "address_space calloc"
  obtains (no_memory) "map_insert calloc key v (Some m) = Some (Some m, - 1)" "\<not> calloc (t_cap m * 2)"
      "int (t_cap m) * 3 \<le> (t_len m + 1) * 4"
  | (never) "map_insert calloc key v (Some m) = None" "stuck m key" "(t_len m + 1) * 4 < int (t_cap m) * 3"
  | (stored) m' where "map_insert calloc key v (Some m) = Some (Some m', of_bool (map_of_table m key = None))"
      "table_ok m'" "map_of_table m' = (map_of_table m)(key \<mapsto> v)"
      "no_tombs (buckets m) \<Longrightarrow> no_tombs (buckets m')"
      "\<not> (stuck m key \<and> (t_len m + 1) * 4 < int (t_cap m) * 3)"
proof (rule maybe_grow_spec [OF assms])
  assume "maybe_grow calloc m = Some (m, False)" "\<not> calloc (t_cap m * 2)" "int (t_cap m) * 3 \<le> (t_len m + 1) * 4"
  then show thesis by (intro no_memory) (simp_all add: map_insert_def)
next
  fix m1 assume m1: "maybe_grow calloc m = Some (m1, True)" "table_ok m1" "map_of_table m1 = map_of_table m"
    "t_len m1 < int (t_cap m1)"
    "(t_len m + 1) * 4 < int (t_cap m) * 3 \<and> m1 = m \<or> int (t_cap m) * 3 \<le> (t_len m + 1) * 4 \<and> no_tombs (buckets m1)"
  let ?bs = "buckets m1" and ?m = "cap_mask (length (buckets m1))"
  have ok: "slots_ok ?bs" "t_cap m1 = length ?bs" "t_len m1 = count_full ?bs" "8 \<le> t_cap m1"
    using m1(2) by (simp_all add: table_ok_def)
  have ins: "map_insert calloc key v (Some m) =
      (case insert_loop ?m key v ?bs None (home_idx ?m key) of
         None \<Rightarrow> None
       | Some (bs, inserted) \<Rightarrow>
           if inserted then Some (Some (m1\<lparr>buckets := bs, t_len := t_len m1 + 1\<rparr>), 1)
           else Some (Some (m1\<lparr>buckets := bs\<rparr>), 0))"
    using m1(1) ok(2) by (simp add: map_insert_def Let_def)
  have tombs: "no_tombs ?bs" if "no_tombs (buckets m)" using m1(5) that by auto
  show thesis
  proof (rule insert_loop_spec [OF ok(1), of key v])
    assume *: "insert_loop ?m key v ?bs None (home_idx ?m key) = None" "contents ?bs key = None"
      "\<forall>b \<in> set ?bs. b_state b \<noteq> EmptySlot"
    then have "\<not> no_tombs ?bs" using empty_slot_exists [OF m1(2)] m1(4) by blast
    with m1(5) have "m1 = m" "(t_len m + 1) * 4 < int (t_cap m) * 3" by auto
    with * ins m1(3) show thesis by (intro never) (simp_all add: stuck_def)
  next
    fix i assume i: "i < length ?bs" "full (?bs ! i)" "b_key (?bs ! i) = key"
      "insert_loop ?m key v ?bs None (home_idx ?m key) = Some (?bs[i := (?bs ! i)\<lparr>b_value := v\<rparr>], False)"
    let ?m' = "m1\<lparr>buckets := ?bs[i := (?bs ! i)\<lparr>b_value := v\<rparr>]\<rparr>"
    have key: "contents ?bs key \<noteq> None" using i(1-3) by (auto simp: contents_None)
    have "map_insert calloc key v (Some m) = Some (Some ?m', of_bool (map_of_table m key = None))"
      using i(4) ins key m1(3) by simp
    moreover have "table_ok ?m'"
      using ok i(2) slots_ok_same_key [OF ok(1) i(1,2)] by (simp add: table_ok_def count_full_update [OF i(1)])
    moreover have "map_of_table ?m' = (map_of_table m)(key \<mapsto> v)"
      using contents_value [OF ok(1) i(1,2)] i(3) m1(3) by simp
    moreover have "no_tombs (buckets ?m')" if "no_tombs (buckets m)"
      using tombs [OF that] i(2) by (simp add: no_tombs_update)
    ultimately show thesis using key m1(3) by (intro stored [of ?m']) (simp_all add: stuck_def)
  next
    let ?b = "\<lparr>b_state = FullSlot, b_key = key, b_value = v\<rparr>"
    fix p assume p: "p < length ?bs" "\<not> full (?bs ! p)" "contents ?bs key = None" "reaches ?bs key p"
      "\<exists>b \<in> set ?bs. b_state b = EmptySlot" "insert_loop ?m key v ?bs None (home_idx ?m key) = Some (?bs[p := ?b], True)"
    let ?m' = "m1\<lparr>buckets := ?bs[p := ?b], t_len := t_len m1 + 1\<rparr>"
    have "map_insert calloc key v (Some m) = Some (Some ?m', of_bool (map_of_table m key = None))"
      using p(3,6) ins m1(3) by simp
    moreover have "table_ok ?m'"
      using ok p(2) slots_ok_fill [OF ok(1) p(1,3,4), of ?b] by (simp add: table_ok_def count_full_update [OF p(1)])
    moreover have "map_of_table ?m' = (map_of_table m)(key \<mapsto> v)"
      using contents_fill [OF ok(1) p(1,3,2,4), of ?b] m1(3) by simp
    moreover have "no_tombs (buckets ?m')" if "no_tombs (buckets m)"
      using tombs [OF that] by (simp add: no_tombs_update)
    moreover have "\<not> (stuck m key \<and> (t_len m + 1) * 4 < int (t_cap m) * 3)"
    proof
      assume *: "stuck m key \<and> (t_len m + 1) * 4 < int (t_cap m) * 3"
      with m1(5) have "m1 = m" by auto
      with * p(5) show False by (auto simp: stuck_def)
    qed
    ultimately show thesis by (intro stored [of ?m'])
  qed
qed

lemma find_slot_spec:
  assumes "table_ok m"
  obtains (never) "find_slot key m = None" "stuck m key"
  | (absent) "find_slot key m = Some None" "map_of_table m key = None" "\<not> stuck m key"
  | (present) i where "find_slot key m = Some (Some i)" "i < length (buckets m)" "full (buckets m ! i)"
      "b_key (buckets m ! i) = key" "map_of_table m key = Some (b_value (buckets m ! i))" "\<not> stuck m key"
proof -
  have ok: "slots_ok (buckets m)" "t_cap m = length (buckets m)" using assms by (simp_all add: table_ok_def)
  note find = find_loop_spec [OF ok(1), of key]
  consider "stuck m key" | "map_of_table m key = None" "\<not> stuck m key" | "map_of_table m key \<noteq> None"
    by blast
  then show thesis
  proof cases
    case 1
    then show thesis using find(1) ok(2) by (intro never) (simp_all add: find_slot_def stuck_def)
  next
    case 2
    then show thesis using find(1) ok(2) by (intro absent) (auto simp: find_slot_def stuck_def)
  next
    case 3
    from find(2) [OF this] obtain i where "i < length (buckets m)" "full (buckets m ! i)" "b_key (buckets m ! i) = key"
      "(THE i. i < length (buckets m) \<and> full (buckets m ! i) \<and> b_key (buckets m ! i) = key) = i"
      "map_of_table m key = Some (b_value (buckets m ! i))" by blast
    then show thesis using find(1) ok(2) 3 by (intro present [of i]) (auto simp: find_slot_def stuck_def)
  qed
qed

lemma distinct_keys: "keys_ok bs \<Longrightarrow> distinct (map b_key (filter full bs))"
proof (induction bs)
  case (Cons b bs)
  note tl = keys_ok_Cons [OF Cons.prems]
  have "b_key b \<notin> b_key ` {x \<in> set bs. full x}" if "full b"
    using tl(2) [OF that] by (auto simp: contents_None in_set_conv_nth)
  with Cons.IH tl(1) show ?case by auto
qed simp

lemma dom_contents: "dom (contents bs) = set (map b_key (filter full bs))"
proof (rule set_eqI)
  fix k
  have "contents bs k \<noteq> None \<longleftrightarrow> (\<exists>b \<in> set bs. full b \<and> b_key b = k)"
    unfolding contents_None by (fastforce simp: in_set_conv_nth)
  then show "k \<in> dom (contents bs) \<longleftrightarrow> k \<in> set (map b_key (filter full bs))" by auto
qed

lemma count_full_card: "keys_ok bs \<Longrightarrow> count_full bs = int (card (dom (contents bs)))"
  using distinct_card [OF distinct_keys] by (simp only: dom_contents count_full_def length_map)

lemma map_len_card: "table_ok m \<Longrightarrow> t_len m = int (card (dom (map_of_table m)))"
  by (simp add: table_ok_def slots_ok_def count_full_card)

lemma map_remove_spec:
  assumes "table_ok m"
  obtains (never) "map_remove key (Some m) = None" "stuck m key"
  | (removed) m' where "map_remove key (Some m) = Some (Some m', of_bool (map_of_table m key \<noteq> None))"
      "table_ok m'" "map_of_table m' = (map_of_table m)(key := None)" "\<not> stuck m key"
proof -
  have ok: "slots_ok (buckets m)" "t_cap m = length (buckets m)" "t_len m = count_full (buckets m)" "8 \<le> t_cap m"
    using assms by (simp_all add: table_ok_def)
  show thesis
  proof (rule find_slot_spec [OF assms, of key])
    assume "find_slot key m = None" "stuck m key"
    then show thesis using ok(4) by (intro never) (simp_all add: map_remove_def)
  next
    assume *: "find_slot key m = Some None" "map_of_table m key = None" "\<not> stuck m key"
    then have "(map_of_table m)(key := None) = map_of_table m" by (simp add: fun_upd_idem)
    with * show thesis using ok(4) assms by (intro removed [of m]) (simp_all add: map_remove_def)
  next
    fix i assume i: "find_slot key m = Some (Some i)" "i < length (buckets m)" "full (buckets m ! i)"
      "b_key (buckets m ! i) = key" "map_of_table m key = Some (b_value (buckets m ! i))" "\<not> stuck m key"
    let ?b = "(buckets m ! i)\<lparr>b_state := Tombstone\<rparr>"
    let ?m' = "m\<lparr>buckets := (buckets m)[i := ?b], t_len := t_len m - 1\<rparr>"
    have "map_remove key (Some m) = Some (Some ?m', of_bool (map_of_table m key \<noteq> None))"
      using i(1,5) ok(4) by (simp add: map_remove_def)
    moreover have "table_ok ?m'"
      using ok slots_ok_same_key [OF ok(1) i(2,3), of ?b] i(3) by (simp add: table_ok_def count_full_update [OF i(2)])
    moreover have "map_of_table ?m' = (map_of_table m)(key := None)"
      using contents_tombstone [OF ok(1) i(2,3)] i(4) by simp
    ultimately show thesis using i(6) by (intro removed [of ?m'])
  qed
qed

text \<open>The tables a program can hold, with an allocator that may fail at any time.\<close>

inductive map_reach :: "table \<Rightarrow> bool" where
  reach_new: "map_new struct_ok calloc = Some (Some m) \<Longrightarrow> map_reach m"
| reach_insert: "map_reach m \<Longrightarrow> address_space calloc \<Longrightarrow>
    map_insert calloc key v (Some m) = Some (Some m', r) \<Longrightarrow> map_reach m'"
| reach_remove: "map_reach m \<Longrightarrow> map_remove key (Some m) = Some (Some m', r) \<Longrightarrow> map_reach m'"

lemma map_reach_ok: "map_reach m \<Longrightarrow> table_ok m"
proof (induction rule: map_reach.induct)
  case (reach_new s calloc m)
  then show ?case by (simp add: map_new_spec)
next
  case (reach_insert m calloc key v m' r)
  from map_insert_spec [OF reach_insert(4,2), of key v] reach_insert(3,4) show ?case by auto
next
  case (reach_remove m key m' r)
  from map_remove_spec [OF reach_remove(3), of key] reach_remove(2) show ?case by auto
qed

text \<open>C3. Whatever happened to a table before, its operations are those of a finite map, as long as
  they return: an insertion stores the pair and tells whether the key is new, or fails for want of
  memory and changes nothing; a removal takes the key out; lookups, the length and the keys are
  those of the map.\<close>

theorem table_refines_map:
  assumes "map_reach m" and "address_space calloc"
  shows "(map_insert calloc key v (Some m) = Some (h, r) \<longrightarrow>
      r = - 1 \<and> h = Some m \<and> \<not> calloc (t_cap m * 2) \<or>
      (\<exists>m'. h = Some m' \<and> map_of_table m' = (map_of_table m)(key \<mapsto> v) \<and> r = of_bool (map_of_table m key = None))) \<and>
    (map_remove key (Some m) = Some (h, r) \<longrightarrow>
      (\<exists>m'. h = Some m' \<and> map_of_table m' = (map_of_table m)(key := None) \<and> r = of_bool (map_of_table m key \<noteq> None))) \<and>
    (map_contains key (Some m) = Some b \<longrightarrow> b = (map_of_table m key \<noteq> None)) \<and>
    (map_get_or key d (Some m) = Some w \<longrightarrow> w = (case map_of_table m key of None \<Rightarrow> d | Some x \<Rightarrow> x)) \<and>
    map_len (Some m) = int (card (dom (map_of_table m))) \<and>
    (malloc (t_len m) \<longrightarrow> distinct (map_keys malloc (Some m)) \<and> set (map_keys malloc (Some m)) = dom (map_of_table m))"
proof -
  note ok = map_reach_ok [OF assms(1)]
  have cap: "0 < t_cap m" and k: "keys_ok (buckets m)" using ok by (auto simp: table_ok_def slots_ok_def)
  have "distinct (map_keys malloc (Some m)) \<and> set (map_keys malloc (Some m)) = dom (map_of_table m)" if "malloc (t_len m)"
  proof (cases "t_len m \<le> 0")
    case True
    then have "filter full (buckets m) = []" using ok by (simp add: table_ok_def count_full_def)
    then show ?thesis using True by (simp only: map_keys_def dom_contents) simp
  next
    case False
    then show ?thesis using that distinct_keys [OF k] by (simp add: map_keys_def dom_contents)
  qed
  moreover have "map_contains key (Some m) = Some b \<longrightarrow> b = (map_of_table m key \<noteq> None)"
    by (rule find_slot_spec [OF ok, of key]) (use cap in \<open>auto simp: map_contains_def\<close>)
  moreover have "map_get_or key d (Some m) = Some w \<longrightarrow> w = (case map_of_table m key of None \<Rightarrow> d | Some x \<Rightarrow> x)"
    by (rule find_slot_spec [OF ok, of key]) (use cap in \<open>auto simp: map_get_or_def\<close>)
  moreover have "map_insert calloc key v (Some m) = Some (h, r) \<longrightarrow>
      r = - 1 \<and> h = Some m \<and> \<not> calloc (t_cap m * 2) \<or>
      (\<exists>m'. h = Some m' \<and> map_of_table m' = (map_of_table m)(key \<mapsto> v) \<and> r = of_bool (map_of_table m key = None))"
    by (rule map_insert_spec [OF ok assms(2), of key v]) auto
  moreover have "map_remove key (Some m) = Some (h, r) \<longrightarrow>
      (\<exists>m'. h = Some m' \<and> map_of_table m' = (map_of_table m)(key := None) \<and> r = of_bool (map_of_table m key \<noteq> None))"
    by (rule map_remove_spec [OF ok, of key]) auto
  ultimately show ?thesis using map_len_card [OF ok] by (simp add: map_len_def)
qed

lemma probing_stuck:
  assumes "map_reach m" and "stuck m key"
  shows "map_contains key (Some m) = None" and "map_get_or key d (Some m) = None" and "map_remove key (Some m) = None"
    and "address_space calloc \<Longrightarrow> (t_len m + 1) * 4 < int (t_cap m) * 3 \<Longrightarrow> map_insert calloc key v (Some m) = None"
proof -
  note ok = map_reach_ok [OF assms(1)]
  have "8 \<le> t_cap m" using ok by (simp add: table_ok_def)
  then have cap: "0 < t_cap m" by linarith
  show "map_contains key (Some m) = None"
    by (rule find_slot_spec [OF ok, of key]) (use cap assms(2) in \<open>auto simp: map_contains_def\<close>)
  show "map_get_or key d (Some m) = None"
    by (rule find_slot_spec [OF ok, of key]) (use cap assms(2) in \<open>auto simp: map_get_or_def\<close>)
  show "map_remove key (Some m) = None"
    by (rule map_remove_spec [OF ok, of key]) (use assms(2) in auto)
  show "address_space calloc \<Longrightarrow> (t_len m + 1) * 4 < int (t_cap m) * 3 \<Longrightarrow> map_insert calloc key v (Some m) = None"
    by (rule map_insert_spec [OF ok, of calloc key v]) (use assms(2) in auto)
qed

definition fresh_table :: table where
  "fresh_table = \<lparr>t_len = 0, t_cap = 8, buckets = replicate 8 empty_bucket\<rparr>"

lemma fresh_table_reach: "map_reach fresh_table"
proof (rule reach_new [of True "\<lambda>n. n \<le> 8"])
  show "map_new True (\<lambda>n. n \<le> 8) = Some (Some fresh_table)"
    by (simp add: map_new_def ensure_capacity_def doubled_id fresh_table_def)
qed

lemma table_refines_map_witness:
  "\<exists>m'. map_insert (\<lambda>n. n \<le> 16) 3 4 (Some fresh_table) = Some (Some m', 1) \<and> map_of_table m' = [3 \<mapsto> 4]"
proof -
  have "map_insert (\<lambda>n. n \<le> 16) 3 4 (Some fresh_table) \<noteq> None"
    by (rule map_insert_spec [OF map_reach_ok [OF fresh_table_reach], of "\<lambda>n. n \<le> 16" 3 4])
      (auto simp: address_space_def stuck_def fresh_table_def empty_bucket_def)
  then obtain h r where "map_insert (\<lambda>n. n \<le> 16) 3 4 (Some fresh_table) = Some (h, r)" by auto
  moreover have "map_of_table fresh_table = Map.empty"
    by (auto simp: contents_def fresh_table_def empty_bucket_def fun_eq_iff find_None_iff)
  moreover have "t_cap fresh_table * 2 \<le> 16" by (simp add: fresh_table_def)
  moreover have "r = - 1 \<and> h = Some fresh_table \<and> \<not> t_cap fresh_table * 2 \<le> 16 \<or>
      (\<exists>m'. h = Some m' \<and> map_of_table m' = (map_of_table fresh_table)(3 \<mapsto> 4) \<and>
        r = of_bool (map_of_table fresh_table 3 = None))"
    if "map_insert (\<lambda>n. n \<le> 16) 3 4 (Some fresh_table) = Some (h, r)" for h r
    using table_refines_map [OF fresh_table_reach, of "\<lambda>n. n \<le> 16" 3 4 h r True 0 0] that
    by (simp only: address_space_def) fastforce
  ultimately show ?thesis by force
qed

text \<open>A lookup, a removal or an insertion of a key returns except when the key is absent and no
  slot is empty (an insertion then still returns if it grows the table first); tables from which
  nothing has been removed always have an empty slot.\<close>

theorem probing_returns:
  assumes "map_reach m" and "address_space calloc"
  shows "(map_contains key (Some m) = None \<longleftrightarrow> stuck m key) \<and>
    (map_get_or key d (Some m) = None \<longleftrightarrow> stuck m key) \<and>
    (map_remove key (Some m) = None \<longleftrightarrow> stuck m key) \<and>
    (map_insert calloc key v (Some m) = None \<longleftrightarrow> stuck m key \<and> (t_len m + 1) * 4 < int (t_cap m) * 3) \<and>
    (no_tombs (buckets m) \<longrightarrow> map_insert calloc key v (Some m) \<noteq> None \<and>
       (\<forall>m' r. map_insert calloc key v (Some m) = Some (Some m', r) \<longrightarrow> no_tombs (buckets m')))"
proof -
  note ok = map_reach_ok [OF assms(1)]
  have "8 \<le> t_cap m" using ok by (simp add: table_ok_def)
  then have cap: "0 < t_cap m" by linarith
  have "map_contains key (Some m) = None \<longleftrightarrow> stuck m key"
    by (rule find_slot_spec [OF ok, of key]) (use cap in \<open>auto simp: map_contains_def\<close>)
  moreover have "map_get_or key d (Some m) = None \<longleftrightarrow> stuck m key"
    by (rule find_slot_spec [OF ok, of key]) (use cap in \<open>auto simp: map_get_or_def\<close>)
  moreover have "map_remove key (Some m) = None \<longleftrightarrow> stuck m key"
    by (rule map_remove_spec [OF ok, of key]) auto
  moreover have insert: "map_insert calloc key v (Some m) = None \<longleftrightarrow> stuck m key \<and> (t_len m + 1) * 4 < int (t_cap m) * 3"
    by (rule map_insert_spec [OF ok assms(2), of key v]) auto
  moreover have "map_insert calloc key v (Some m) \<noteq> None" if "no_tombs (buckets m)"
  proof
    assume "map_insert calloc key v (Some m) = None"
    with insert have "\<forall>b \<in> set (buckets m). b_state b \<noteq> EmptySlot" "t_len m < int (t_cap m)"
      by (auto simp: stuck_def)
    with empty_slot_exists [OF ok that] show False by blast
  qed
  moreover have "no_tombs (buckets m')" if "no_tombs (buckets m)" "map_insert calloc key v (Some m) = Some (Some m', r)" for m' r
    by (rule map_insert_spec [OF ok assms(2), of key v]) (use that in auto)
  ultimately show ?thesis by blast
qed

lemma probing_returns_witness:
  "(map_contains 3 (Some fresh_table) = None \<longleftrightarrow> stuck fresh_table 3) \<and>
   map_insert (\<lambda>n. n \<le> 8) 3 4 (Some fresh_table) \<noteq> None"
proof -
  have "no_tombs (buckets fresh_table)" by (simp add: fresh_table_def no_tombs_def empty_bucket_def)
  then show ?thesis using probing_returns [OF fresh_table_reach, of "\<lambda>n. n \<le> 8" 3 0 4]
    by (auto simp: address_space_def)
qed

section \<open>A table of tombstones\<close>

text \<open>Inserting a key and removing it again, for each pair of a list.\<close>

fun churn :: "(nat \<Rightarrow> bool) \<Rightarrow> (64 word \<times> 64 word) list \<Rightarrow> table \<Rightarrow> table option" where
  "churn calloc [] m = Some m"
| "churn calloc ((k, v) # kvs) m =
     (case map_insert calloc k v (Some m) of
        Some (Some m1, r) \<Rightarrow> (case map_remove k (Some m1) of Some (Some m2, r') \<Rightarrow> churn calloc kvs m2 | _ \<Rightarrow> None)
      | _ \<Rightarrow> None)"

lemma churn_reach: "churn calloc kvs m = Some m' \<Longrightarrow> address_space calloc \<Longrightarrow> map_reach m \<Longrightarrow> map_reach m'"
proof (induction calloc kvs m rule: churn.induct)
  case (2 calloc k v kvs m)
  from 2(2) obtain m1 r m2 r' where 1: "map_insert calloc k v (Some m) = Some (Some m1, r)"
    and r: "map_remove k (Some m1) = Some (Some m2, r')" and 3: "churn calloc kvs m2 = Some m'"
    by (auto split: option.splits)
  with 2(3,4) have "map_reach m2" by (blast intro: map_reach.intros)
  with 2(1) [OF 1 refl refl r refl refl 3] 2(3) show ?case by blast
qed simp

text \<open>A new table whose slots \<open>T\<close> held keys that were removed.\<close>

definition used_up :: "nat set \<Rightarrow> table \<Rightarrow> bool" where
  "used_up T m \<longleftrightarrow> t_len m = 0 \<and> t_cap m = 8 \<and> length (buckets m) = 8 \<and>
     (\<forall>i<8. b_state (buckets m ! i) = (if i \<in> T then Tombstone else EmptySlot))"

lemma churn_one:
  assumes "used_up T m" and "home_idx (cap_mask 8) k = h" and "h < 8" and "h \<notin> T"
  shows "\<exists>m2. used_up (insert h T) m2 \<and> churn calloc ((k, v) # kvs) m = churn calloc kvs m2"
proof -
  let ?b = "\<lparr>b_state = FullSlot, b_key = k, b_value = v\<rparr>"
  let ?m1 = "m\<lparr>buckets := (buckets m)[h := ?b], t_len := 1\<rparr>"
  let ?m2 = "m\<lparr>buckets := (buckets m)[h := ?b\<lparr>b_state := Tombstone\<rparr>], t_len := 0\<rparr>"
  note m = assms(1) [unfolded used_up_def]
  have "insert_loop (cap_mask 8) k v (buckets m) None h = Some ((buckets m)[h := ?b], True)"
    using m assms(3,4) by (subst insert_loop.simps) (simp add: Let_def)
  then have "map_insert calloc k v (Some m) = Some (Some ?m1, 1)"
    using m assms(2) by (simp add: map_insert_def maybe_grow_def Let_def)
  moreover have "find_loop (cap_mask 8) k ((buckets m)[h := ?b]) h = Some (Some h)"
    using m assms(3) by (subst find_loop.simps) (simp add: Let_def)
  then have "map_remove k (Some ?m1) = Some (Some ?m2, 1)"
    using m assms(2,3) by (simp add: map_remove_def find_slot_def Let_def)
  ultimately have "churn calloc ((k, v) # kvs) m = churn calloc kvs ?m2" by simp
  moreover have "used_up (insert h T) ?m2" using m assms(3) by (auto simp: used_up_def nth_list_update)
  ultimately show ?thesis by blast
qed

abbreviation homes :: "(64 word \<times> 64 word) list \<Rightarrow> nat list" where
  "homes kvs \<equiv> map (\<lambda>(k, v). home_idx (cap_mask 8) k) kvs"

lemma pow_cap_8: "pow_cap 8"
  unfolding pow_cap_def by (rule exI [of _ 3]) simp

lemma churn_uses_up:
  "used_up T m \<Longrightarrow> distinct (homes kvs) \<Longrightarrow> set (homes kvs) \<inter> T = {} \<Longrightarrow>
   \<exists>m'. churn calloc kvs m = Some m' \<and> used_up (T \<union> set (homes kvs)) m'"
proof (induction kvs arbitrary: T m)
  case (Cons kv kvs)
  obtain k v where kv: "kv = (k, v)" by fastforce
  let ?h = "home_idx (cap_mask 8) k"
  have "?h \<notin> T" using Cons.prems(3) kv by auto
  from churn_one [OF Cons.prems(1) refl home_idx_less [OF pow_cap_8] this, of calloc v kvs]
  obtain m2 where m2: "used_up (insert ?h T) m2" "churn calloc (kv # kvs) m = churn calloc kvs m2"
    unfolding kv by blast
  have "\<exists>m'. churn calloc kvs m2 = Some m' \<and> used_up (insert ?h T \<union> set (homes kvs)) m'"
    using Cons.prems(2,3) kv by (intro Cons.IH m2(1)) auto
  then show ?case using m2(2) by (simp add: kv Un_left_commute)
qed simp

lemma all_homes: "length kvs = 8 \<Longrightarrow> distinct (homes kvs) \<Longrightarrow> i < 8 \<Longrightarrow> i \<in> set (homes kvs)"
proof -
  assume l: "length kvs = 8" "distinct (homes kvs)" "i < 8"
  have "set (homes kvs) \<subseteq> {..<8}" using home_idx_less [OF pow_cap_8] by auto
  moreover have "card (set (homes kvs)) = card {..<8 :: nat}" using distinct_card [OF l(2)] l(1) by simp
  ultimately have "set (homes kvs) = {..<8}" by (intro card_subset_eq) simp_all
  with l(3) show ?thesis by simp
qed

text \<open>C19. Removed keys use up the empty slots: insert into a new table, and remove again, one after the
  other, eight keys of different home slots. All of it returns, the table is empty of keys and has only
  tombstones, and from then on every lookup, removal and insertion, of any key, probes for ever.\<close>

theorem tombstones_fill_table:
  assumes "map_new struct_ok calloc = Some (Some m0)" and "address_space calloc"
    and "length kvs = 8" and "distinct (map (\<lambda>(k, v). home_idx (cap_mask 8) k) kvs)"
  shows "\<exists>m. churn calloc kvs m0 = Some m \<and> map_len (Some m) = 0 \<and> map_of_table m = Map.empty \<and>
     (\<forall>b \<in> set (buckets m). b_state b = Tombstone) \<and>
     (\<forall>key d v. map_contains key (Some m) = None \<and> map_get_or key d (Some m) = None \<and>
        map_remove key (Some m) = None \<and> map_insert calloc key v (Some m) = None)"
proof -
  have "m0 = \<lparr>t_len = 0, t_cap = 8, buckets = replicate 8 empty_bucket\<rparr>"
    using assms(1) by (simp add: map_new_def ensure_capacity_def doubled_id split: if_splits)
  then have "used_up {} m0" by (simp add: used_up_def empty_bucket_def)
  from churn_uses_up [OF this assms(4)] obtain m where m: "churn calloc kvs m0 = Some m" "used_up (set (homes kvs)) m"
    by auto
  have reach: "map_reach m" using churn_reach [OF m(1) assms(2)] reach_new [OF assms(1)] by blast
  have tomb: "\<forall>b \<in> set (buckets m). b_state b = Tombstone"
    using m(2) all_homes [OF assms(3,4)] by (auto simp: used_up_def in_set_conv_nth)
  then have "filter full (buckets m) = []" by (simp add: filter_empty_conv)
  then have empty: "map_of_table m = Map.empty" using dom_contents [of "buckets m"] by simp
  with tomb have "stuck m key" for key by (simp add: stuck_def)
  note never = probing_stuck [OF reach this]
  have "(t_len m + 1) * 4 < int (t_cap m) * 3" using m(2) by (simp add: used_up_def)
  note never = never(1-3) never(4) [OF assms(2) this]
  show ?thesis using m tomb empty never by (intro exI [of _ m]) (simp add: map_len_def used_up_def)
qed

lemma tombstones_fill_table_witness:
  "\<exists>m. churn (\<lambda>n. n \<le> 8) [(0, 1), (1, 1), (2, 1), (3, 1), (4, 1), (6, 1), (19, 1), (28, 1)] fresh_table = Some m \<and>
     map_contains 7 (Some m) = None"
proof -
  let ?kvs = "[(0, 1), (1, 1), (2, 1), (3, 1), (4, 1), (6, 1), (19, 1), (28, 1)] :: (64 word \<times> 64 word) list"
  have "map_new True (\<lambda>n. n \<le> 8) = Some (Some fresh_table)"
    by (simp add: map_new_def ensure_capacity_def doubled_id fresh_table_def)
  moreover have "distinct (map (\<lambda>(k, v). home_idx (cap_mask 8) k) ?kvs)" by code_simp
  moreover have "address_space (\<lambda>n. n \<le> 8)" by (simp add: address_space_def)
  ultimately show ?thesis using tombstones_fill_table [of True "\<lambda>n. n \<le> 8" fresh_table ?kvs] by auto
qed

declare doubled.simps [code] place_loop.simps [code] insert_loop.simps [code] find_loop.simps [code]

section \<open>The map over a vector\<close>

record vec_map =
  v_cap :: nat
  items :: "(64 word \<times> 64 word) list"

definition vec_map_grow :: "(nat \<Rightarrow> bool) \<Rightarrow> vec_map \<Rightarrow> nat \<Rightarrow> (vec_map \<times> bool) option" where
  "vec_map_grow realloc m min_cap =
     (case doubled (if v_cap m < 8 then 8 else v_cap m) min_cap of
        None \<Rightarrow> None
      | Some target \<Rightarrow>
          if target \<le> v_cap m then Some (m, True)
          else if \<not> realloc target then Some (m, False)
          else Some (m\<lparr>v_cap := target\<rparr>, True))"

definition vecmap_new :: "bool \<Rightarrow> (nat \<Rightarrow> bool) \<Rightarrow> vec_map option option" where
  "vecmap_new struct_ok realloc =
     (if \<not> struct_ok then Some None
      else map_option (\<lambda>(m, ok). if ok then Some m else None) (vec_map_grow realloc \<lparr>v_cap = 0, items = []\<rparr> 8))"

fun set_loop :: "64 word \<Rightarrow> 64 word \<Rightarrow> (64 word \<times> 64 word) list \<Rightarrow> (64 word \<times> 64 word) list option" where
  "set_loop key v [] = None"
| "set_loop key v ((k, w) # xs) =
     (if k = key then Some ((k, v) # xs) else map_option (\<lambda>ys. (k, w) # ys) (set_loop key v xs))"

definition vecmap_set :: "(nat \<Rightarrow> bool) \<Rightarrow> 64 word \<Rightarrow> 64 word \<Rightarrow> vec_map option \<Rightarrow> (vec_map option \<times> int) option" where
  "vecmap_set realloc key v h =
     (case h of
        None \<Rightarrow> Some (None, - 1)
      | Some m \<Rightarrow>
          (case set_loop key v (items m) of
             Some xs \<Rightarrow> Some (Some (m\<lparr>items := xs\<rparr>), 0)
           | None \<Rightarrow>
               (case vec_map_grow realloc m (length (items m) + 1) of
                  None \<Rightarrow> None
                | Some (m1, False) \<Rightarrow> Some (Some m1, - 1)
                | Some (m1, True) \<Rightarrow> Some (Some (m1\<lparr>items := items m1 @ [(key, v)]\<rparr>), 1))))"

definition vecmap_has :: "64 word \<Rightarrow> vec_map option \<Rightarrow> bool" where
  "vecmap_has key h = (case h of None \<Rightarrow> False | Some m \<Rightarrow> list_ex (\<lambda>p. fst p = key) (items m))"

definition vecmap_get_or :: "64 word \<Rightarrow> 64 word \<Rightarrow> vec_map option \<Rightarrow> 64 word" where
  "vecmap_get_or key default_value h =
     (case h of
        None \<Rightarrow> default_value
      | Some m \<Rightarrow> (case List.find (\<lambda>p. fst p = key) (items m) of None \<Rightarrow> default_value | Some p \<Rightarrow> snd p))"

text \<open>The last item takes the place of the removed one.\<close>

function del_loop :: "64 word \<Rightarrow> nat \<Rightarrow> (64 word \<times> 64 word) list \<Rightarrow> (64 word \<times> 64 word) list option" where
  "del_loop key i xs =
     (if i < length xs then
        (if fst (xs ! i) = key then Some (butlast (xs[i := last xs])) else del_loop key (Suc i) xs)
      else None)"
  by pat_completeness auto
termination by (relation "measure (\<lambda>(key, i, xs). length xs - i)") auto

declare del_loop.simps [simp del]

definition vecmap_del :: "64 word \<Rightarrow> vec_map option \<Rightarrow> vec_map option \<times> int" where
  "vecmap_del key h =
     (case h of
        None \<Rightarrow> (None, 0)
      | Some m \<Rightarrow>
          (case del_loop key 0 (items m) of
             None \<Rightarrow> (Some m, 0)
           | Some xs \<Rightarrow> (Some (m\<lparr>items := xs\<rparr>), 1)))"

definition vecmap_len :: "vec_map option \<Rightarrow> nat" where
  "vecmap_len h = (case h of None \<Rightarrow> 0 | Some m \<Rightarrow> length (items m))"

definition vecmap_keys :: "(nat \<Rightarrow> bool) \<Rightarrow> vec_map option \<Rightarrow> 64 word list" where
  "vecmap_keys malloc h =
     (case h of
        None \<Rightarrow> []
      | Some m \<Rightarrow> if items m = [] \<or> \<not> malloc (length (items m)) then [] else map fst (items m))"

definition vecmap_values :: "(nat \<Rightarrow> bool) \<Rightarrow> vec_map option \<Rightarrow> 64 word list" where
  "vecmap_values malloc h =
     (case h of
        None \<Rightarrow> []
      | Some m \<Rightarrow> if items m = [] \<or> \<not> malloc (length (items m)) then [] else map snd (items m))"

definition vec_put :: "64 word \<Rightarrow> 64 word \<Rightarrow> (64 word \<times> 64 word) list \<Rightarrow> (64 word \<times> 64 word) list" where
  "vec_put key v xs = (case set_loop key v xs of Some ys \<Rightarrow> ys | None \<Rightarrow> xs @ [(key, v)])"

lemma set_loop_None: "set_loop key v xs = None \<longleftrightarrow> key \<notin> fst ` set xs"
  by (induction key v xs rule: set_loop.induct) (auto split: if_splits)

lemma set_loop_Some:
  "set_loop key v xs = Some ys \<Longrightarrow> map fst ys = map fst xs \<and> key \<in> fst ` set xs \<and> map_of ys = (map_of xs)(key \<mapsto> v)"
  by (induction key v xs arbitrary: ys rule: set_loop.induct) (auto split: if_splits simp: fun_upd_twist)

lemma vec_put_wf: "distinct (map fst xs) \<Longrightarrow> distinct (map fst (vec_put k v xs))"
proof (cases "set_loop k v xs")
  case None
  then have "k \<notin> fst ` set xs" by (simp add: set_loop_None)
  with None show "distinct (map fst xs) \<Longrightarrow> ?thesis" by (simp add: vec_put_def)
qed (simp add: vec_put_def set_loop_Some)

lemma vec_put_find: "map_of (vec_put k v xs) = (map_of xs)(k \<mapsto> v)"
proof (cases "set_loop k v xs")
  case None
  then have "map_of xs k = None" by (simp add: set_loop_None map_of_eq_None_iff)
  with None show ?thesis by (auto simp: vec_put_def map_add_def fun_eq_iff split: option.splits)
qed (simp add: vec_put_def set_loop_Some)

interpretation vm: dict "[]" "map_of" vec_put "\<lambda>xs. distinct (map fst xs)"
  by unfold_locales (auto simp: vec_put_wf vec_put_find)

lemma del_loop_None: "del_loop key i xs = None \<longleftrightarrow> (\<forall>j. i \<le> j \<longrightarrow> j < length xs \<longrightarrow> fst (xs ! j) \<noteq> key)"
proof (induction key i xs rule: del_loop.induct)
  case (1 key i xs)
  have split: "(\<forall>j. i \<le> j \<longrightarrow> j < length xs \<longrightarrow> fst (xs ! j) \<noteq> key) \<longleftrightarrow>
      (i < length xs \<longrightarrow> fst (xs ! i) \<noteq> key) \<and> (\<forall>j. Suc i \<le> j \<longrightarrow> j < length xs \<longrightarrow> fst (xs ! j) \<noteq> key)"
    by (metis Suc_leD Suc_leI le_eq_less_or_eq)
  show ?case unfolding split using 1 by (subst del_loop.simps) auto
qed

lemma del_loop_Some:
  "del_loop key i xs = Some ys \<Longrightarrow> \<exists>j<length xs. fst (xs ! j) = key \<and> ys = butlast (xs[j := last xs])"
proof (induction key i xs rule: del_loop.induct)
  case (1 key i xs)
  then show ?case by (subst (asm) del_loop.simps) (auto split: if_splits)
qed

lemma distinct_swap_out:
  assumes "distinct xs" and "j < length xs"
  shows "distinct (butlast (xs[j := last xs])) \<and> set (butlast (xs[j := last xs])) = set xs - {xs ! j}"
proof -
  obtain ys z where xs: "xs = ys @ [z]" using assms(2) by (cases xs rule: rev_cases) auto
  show ?thesis
  proof (cases "j < length ys")
    case True
    with assms(1) xs show ?thesis
      by (auto simp: list_update_append nth_append set_update_distinct distinct_list_update)
  next
    case False
    with assms(2) xs have "j = length ys" by simp
    with assms(1) xs show ?thesis by (auto simp: list_update_append)
  qed
qed

lemma del_loop_map:
  assumes "distinct (map fst xs)" and "del_loop key 0 xs = Some ys"
  shows "distinct (map fst ys) \<and> map_of ys = (map_of xs)(key := None) \<and> map_of xs key \<noteq> None"
proof -
  from del_loop_Some [OF assms(2)] obtain j where j: "j < length xs" "fst (xs ! j) = key" "ys = butlast (xs[j := last xs])" by blast
  have "map fst ys = butlast ((map fst xs)[j := last (map fst xs)])"
    using j(1,3) by (cases "xs = []") (auto simp: map_butlast map_update last_map)
  with distinct_swap_out [of "map fst xs" j] assms(1) j have d: "distinct (map fst ys)" by simp
  have set_ys: "set ys = set xs - {xs ! j}"
    using distinct_swap_out [of xs j] assms(1) j by (simp add: distinct_map)
  have "map_of ys = (map_of xs)(key := None)"
  proof (rule option_fun_eqI)
    fix x y
    have key: "(key, y) \<in> set xs \<Longrightarrow> (key, y) = xs ! j"
      using assms(1) j by (metis eq_key_imp_eq_value nth_mem prod.collapse)
    have "map_of ys x = Some y \<longleftrightarrow> (x, y) \<in> set xs \<and> (x, y) \<noteq> xs ! j"
      by (simp add: map_of_eq_Some_iff [OF d] set_ys)
    also have "\<dots> \<longleftrightarrow> (x, y) \<in> set xs \<and> x \<noteq> key" using key j(2) by (metis fst_conv)
    finally show "map_of ys x = Some y \<longleftrightarrow> ((map_of xs)(key := None)) x = Some y"
      using map_of_eq_Some_iff [OF assms(1), of x y] by auto
  qed
  moreover have "key \<in> fst ` set xs" using j by force
  ultimately show ?thesis using d by (simp add: map_of_eq_None_iff)
qed

text \<open>The map over a vector is a finite map too: keys stay distinct, storing and removing are
  those of the map, and what is stored is found.\<close>

theorem vecmap_refines_map:
  assumes "distinct (map fst (items m))" and "vecmap_set realloc key v (Some m) = Some (Some m1, r)"
    and "vecmap_del key' (Some m) = (Some m2, r')"
  shows "(if r = - 1 then items m1 = items m
      else distinct (map fst (items m1)) \<and> map_of (items m1) = (map_of (items m))(key \<mapsto> v) \<and>
           r = of_bool (map_of (items m) key = None)) \<and>
    distinct (map fst (items m2)) \<and> map_of (items m2) = (map_of (items m))(key' := None) \<and>
    r' = of_bool (map_of (items m) key' \<noteq> None) \<and>
    vecmap_set realloc' key'' v' (Some m) \<noteq> None \<and>
    vecmap_has k (Some m) = (map_of (items m) k \<noteq> None) \<and>
    vecmap_get_or k d (Some m) = (case map_of (items m) k of None \<Rightarrow> d | Some x \<Rightarrow> x)"
proof (intro conjI)
  show "if r = - 1 then items m1 = items m
      else distinct (map fst (items m1)) \<and> map_of (items m1) = (map_of (items m))(key \<mapsto> v) \<and>
           r = of_bool (map_of (items m) key = None)"
  proof (cases "set_loop key v (items m)")
    case None
    then have put: "vec_put key v (items m) = items m @ [(key, v)]" by (simp add: vec_put_def)
    have new: "map_of (items m) key = None" using None by (simp add: set_loop_None map_of_eq_None_iff)
    from None assms(2) obtain m' ok where "vec_map_grow realloc m (length (items m) + 1) = Some (m', ok)"
      and r: "if ok then m1 = m'\<lparr>items := items m' @ [(key, v)]\<rparr> \<and> r = 1 else m1 = m' \<and> r = - 1"
      by (auto simp: vecmap_set_def split: option.splits bool.splits)
    then have "items m' = items m" by (auto simp: vec_map_grow_def split: option.splits if_splits)
    with r put new show ?thesis using vm.wf_put [OF assms(1), of key v] vm.find_put [OF assms(1), of key v]
      by (auto split: if_splits)
  next
    case (Some ys)
    with assms(2) have "items m1 = vec_put key v (items m)" "r = 0"
      by (auto simp: vecmap_set_def vec_put_def)
    with Some set_loop_Some [OF Some] show ?thesis using vm.wf_put [OF assms(1), of key v] vm.find_put [OF assms(1), of key v]
      by (auto simp: map_of_eq_None_iff)
  qed
  have "distinct (map fst (items m2)) \<and> map_of (items m2) = (map_of (items m))(key' := None) \<and>
    r' = of_bool (map_of (items m) key' \<noteq> None)"
  proof (cases "del_loop key' 0 (items m)")
    case None
    then have "map_of (items m) key' = None"
      by (auto simp: del_loop_None map_of_eq_None_iff in_set_conv_nth) (metis fst_conv)
    moreover from this have "(map_of (items m))(key' := None) = map_of (items m)" by (simp add: fun_upd_idem)
    ultimately show ?thesis using None assms(1,3) by (simp add: vecmap_del_def)
  next
    case (Some ys)
    with del_loop_map [OF assms(1) Some] assms(3) show ?thesis by (auto simp: vecmap_del_def)
  qed
  then show "distinct (map fst (items m2))" "map_of (items m2) = (map_of (items m))(key' := None)"
    "r' = of_bool (map_of (items m) key' \<noteq> None)" by simp_all
  have "0 < (if v_cap m < 8 then 8 else v_cap m)" by simp
  from doubled_returns [OF this, of "Suc (length (items m))"] obtain t where
    "doubled (if v_cap m < 8 then 8 else v_cap m) (Suc (length (items m))) = Some t" by blast
  then show "vecmap_set realloc' key'' v' (Some m) \<noteq> None"
    by (auto simp: vecmap_set_def vec_map_grow_def split: option.splits)
  show "vecmap_has k (Some m) = (map_of (items m) k \<noteq> None)"
    by (auto simp: vecmap_has_def list_ex_iff map_of_eq_None_iff)
  show "vecmap_get_or k d (Some m) = (case map_of (items m) k of None \<Rightarrow> d | Some x \<Rightarrow> x)"
  proof -
    have "map_of xs k = map_option snd (List.find (\<lambda>p. fst p = k) xs)" for xs :: "(64 word \<times> 64 word) list"
      by (induction xs) auto
    then show ?thesis by (simp add: vecmap_get_or_def split: option.splits)
  qed
qed

lemma vecmap_refines_map_witness:
  "map_of (items \<lparr>v_cap = 8, items = [(2, 20), (3, 30)]\<rparr>) = [2 \<mapsto> 20, 3 \<mapsto> (30 :: 64 word)] \<and>
   map_of [(3, 30)] = (map_of [(2, 20), (3 :: 64 word, 30 :: 64 word)])(2 := None)"
proof -
  let ?m = "\<lparr>v_cap = 8, items = [(2 :: 64 word, 20 :: 64 word), (3, 30)]\<rparr>"
  have s: "vecmap_set (\<lambda>n. True) 2 21 (Some ?m) = Some (Some \<lparr>v_cap = 8, items = [(2, 21), (3, 30)]\<rparr>, 0)"
    by code_simp
  have d: "vecmap_del 2 (Some ?m) = (Some \<lparr>v_cap = 8, items = [(3, 30)]\<rparr>, 1)" by code_simp
  have w: "distinct (map fst (items ?m))" by simp
  show ?thesis using vecmap_refines_map [OF w s d, of "\<lambda>n. True" 0 0 0 0] by (simp add: fun_upd_def fun_eq_iff)
qed

text \<open>The hash set is the hash map with the value 1 stored for each element.\<close>

definition set_contains :: "64 word \<Rightarrow> table option \<Rightarrow> bool option" where
  "set_contains key h = map_contains key h"

definition set_remove :: "64 word \<Rightarrow> table option \<Rightarrow> (table option \<times> int) option" where
  "set_remove key h = map_remove key h"

definition set_len :: "table option \<Rightarrow> int" where
  "set_len h = map_len h"

definition set_keys :: "(int \<Rightarrow> bool) \<Rightarrow> table option \<Rightarrow> 64 word list" where
  "set_keys malloc h = map_keys malloc h"

end
