(* ===== verification/Std_Bitset.thy ===== *)
theory Std_Bitset
  imports Prelude "HOL-Library.Word"
begin

text \<open>
  The bitset of the runtime library (\<^verbatim>\<open>stdlib/src/std_bitset.c\<close>): bits in an array of 64 bit words,
  with a length and a capacity in bits. A handle is an address; the state maps the live ones to
  their bitsets and holds the last error. Using a handle after it was freed is undefined in C and
  not modelled: a handle that is not live stands for the null pointer. \<^verbatim>\<open>malloc\<close> and \<^verbatim>\<open>realloc\<close> are
  parameters, the one giving an address or failing, the other succeeding or failing by size.
  Sizes are natural numbers: \<^verbatim>\<open>size_t\<close> does not overflow for the lengths that fit an \<^verbatim>\<open>int64_t\<close>.
\<close>

unbundle bit_operations_syntax

section \<open>Bitsets\<close>

record bitset =
  words :: "64 word list"
  len_bits :: nat
  cap_bits :: nat

record bitset_state =
  live :: "int \<Rightarrow> bitset option"
  bitset_last_error :: string

definition bitset_set_error :: "string \<Rightarrow> bitset_state \<Rightarrow> bitset_state" where
  "bitset_set_error msg s = s\<lparr>bitset_last_error := msg\<rparr>"

definition deref :: "int \<Rightarrow> bitset_state \<Rightarrow> bitset option" where
  "deref h s = (if h = 0 then None else live s h)"

definition store :: "int \<Rightarrow> bitset \<Rightarrow> bitset_state \<Rightarrow> bitset_state" where
  "store h b s = s\<lparr>live := (live s)(h \<mapsto> b)\<rparr>"

definition words_for_bits :: "nat \<Rightarrow> nat" where
  "words_for_bits bits = (if bits = 0 then 0 else (bits + 63) div 64)"

definition size_max :: nat where
  "size_max = 2 ^ 64 - 1"

text \<open>The loop starts at 64 or more, so the test for 0, which makes the recursion total, never
  applies.\<close>

function grow_bits :: "nat \<Rightarrow> nat \<Rightarrow> nat" where
  "grow_bits next_bits target_bits =
     (if next_bits < target_bits then
        (if size_max div 2 < next_bits \<or> next_bits = 0 then target_bits
         else grow_bits (next_bits * 2) target_bits)
      else next_bits)"
  by pat_completeness auto
termination by (relation "measure (\<lambda>(n, t). t - n)") auto

declare grow_bits.simps [simp del]

definition bitset_ensure_capacity :: "(nat \<Rightarrow> bool) \<Rightarrow> bitset \<Rightarrow> nat \<Rightarrow> bitset option" where
  "bitset_ensure_capacity realloc b target_bits =
     (if target_bits \<le> cap_bits b then Some b
      else
        let next_bits = grow_bits (if 0 < cap_bits b then cap_bits b else 64) target_bits;
            old_words = words_for_bits (cap_bits b);
            new_words = words_for_bits next_bits
        in if \<not> realloc new_words then None
           else Some (b\<lparr>words := words b @ replicate (new_words - old_words) 0, cap_bits := next_bits\<rparr>))"

definition bitset_set_bit :: "bitset \<Rightarrow> nat \<Rightarrow> bool \<Rightarrow> bitset \<times> int" where
  "bitset_set_bit b idx v =
     (if len_bits b \<le> idx then (b, - 1)
      else
        let w = idx div 64; m = push_bit (idx mod 64) (1 :: 64 word)
        in (b\<lparr>words := (words b)[w := (if v then words b ! w OR m else words b ! w AND NOT m)]\<rparr>, 0))"

definition bitset_get_bit :: "bitset \<Rightarrow> nat \<Rightarrow> int" where
  "bitset_get_bit b idx =
     (if len_bits b \<le> idx then - 1
      else if words b ! (idx div 64) AND push_bit (idx mod 64) 1 \<noteq> 0 then 1 else 0)"

definition bitset_mask_tail :: "bitset \<Rightarrow> bitset" where
  "bitset_mask_tail b =
     (if len_bits b = 0 \<or> len_bits b mod 64 = 0 then b
      else
        let last_word = words_for_bits (len_bits b) - 1;
            m = push_bit (len_bits b mod 64) 1 - 1
        in b\<lparr>words := (words b)[last_word := words b ! last_word AND m]\<rparr>)"

definition bitset_get_bit_wrapped :: "bitset \<Rightarrow> nat \<Rightarrow> nat \<Rightarrow> int \<Rightarrow> int \<Rightarrow> int" where
  "bitset_get_bit_wrapped b width height x y =
     (if width = 0 \<or> height = 0 then 0
      else
        let nx = (if x < 0 then x + int width else if int width \<le> x then x - int width else x);
            ny = (if y < 0 then y + int height else if int height \<le> y then y - int height else y)
        in bitset_get_bit b (nat ny * width + nat nx))"

section \<open>Handles\<close>

definition bitset_new :: "(bitset_state \<Rightarrow> int option) \<Rightarrow> (nat \<Rightarrow> bool) \<Rightarrow> int \<Rightarrow> bitset_state \<Rightarrow> bitset_state \<times> int" where
  "bitset_new malloc realloc bit_capacity s =
     (if bit_capacity < 0 then (bitset_set_error ''bit_capacity must be >= 0'' s, 0)
      else
        (case malloc s of
           None \<Rightarrow> (bitset_set_error ''allocation failed'' s, 0)
         | Some h \<Rightarrow>
             (case bitset_ensure_capacity realloc \<lparr>words = [], len_bits = 0, cap_bits = 0\<rparr> (nat bit_capacity) of
                None \<Rightarrow> (bitset_set_error ''allocation failed'' s, 0)
              | Some b \<Rightarrow> (store h b (s\<lparr>bitset_last_error := []\<rparr>), h))))"

definition bitset_free :: "int \<Rightarrow> bitset_state \<Rightarrow> bitset_state \<times> int" where
  "bitset_free h s =
     (case deref h s of None \<Rightarrow> (s, - 1) | Some b \<Rightarrow> (s\<lparr>live := (live s)(h := None)\<rparr>, 0))"

definition bitset_len :: "int \<Rightarrow> bitset_state \<Rightarrow> int" where
  "bitset_len h s = (case deref h s of None \<Rightarrow> - 1 | Some b \<Rightarrow> int (len_bits b))"

definition bitset_capacity :: "int \<Rightarrow> bitset_state \<Rightarrow> int" where
  "bitset_capacity h s = (case deref h s of None \<Rightarrow> - 1 | Some b \<Rightarrow> int (cap_bits b))"

definition bitset_clear :: "int \<Rightarrow> bitset_state \<Rightarrow> bitset_state \<times> int" where
  "bitset_clear h s =
     (case deref h s of None \<Rightarrow> (s, - 1) | Some b \<Rightarrow> (store h (b\<lparr>len_bits := 0\<rparr>) s, 0))"

definition resized :: "bitset \<Rightarrow> nat \<Rightarrow> bool \<Rightarrow> bitset" where
  "resized b next_len fill =
     (let b1 = b\<lparr>len_bits := next_len\<rparr>;
          b2 = (if len_bits b < next_len
                then fold (\<lambda>i c. fst (bitset_set_bit c i fill)) [len_bits b..<next_len] b1 else b1)
      in bitset_mask_tail b2)"

definition bitset_resize :: "(nat \<Rightarrow> bool) \<Rightarrow> int \<Rightarrow> int \<Rightarrow> int \<Rightarrow> bitset_state \<Rightarrow> bitset_state \<times> int" where
  "bitset_resize realloc h new_len fill_bit s =
     (case deref h s of
        None \<Rightarrow> (s, - 1)
      | Some b \<Rightarrow>
          if new_len < 0 then (s, - 1)
          else if fill_bit \<noteq> 0 \<and> fill_bit \<noteq> 1 then (bitset_set_error ''fill_bit must be 0 or 1'' s, - 1)
          else (case bitset_ensure_capacity realloc b (nat new_len) of
                  None \<Rightarrow> (bitset_set_error ''allocation failed'' s, - 1)
                | Some b1 \<Rightarrow> (store h (resized b1 (nat new_len) (fill_bit = 1)) s, 0)))"

definition bitset_set :: "int \<Rightarrow> int \<Rightarrow> int \<Rightarrow> bitset_state \<Rightarrow> bitset_state \<times> int" where
  "bitset_set h index v s =
     (case deref h s of
        None \<Rightarrow> (s, - 1)
      | Some b \<Rightarrow>
          if index < 0 then (s, - 1)
          else if v \<noteq> 0 \<and> v \<noteq> 1 then (bitset_set_error ''bit value must be 0 or 1'' s, - 1)
          else (case bitset_set_bit b (nat index) (v = 1) of
                  (b1, rc) \<Rightarrow> if rc \<noteq> 0 then (bitset_set_error ''index out of range'' s, - 1) else (store h b1 s, 0)))"

definition bitset_get :: "int \<Rightarrow> int \<Rightarrow> bitset_state \<Rightarrow> bitset_state \<times> int" where
  "bitset_get h index s =
     (case deref h s of
        None \<Rightarrow> (s, - 1)
      | Some b \<Rightarrow>
          if index < 0 then (s, - 1)
          else if bitset_get_bit b (nat index) < 0 then (bitset_set_error ''index out of range'' s, - 1)
          else (s, bitset_get_bit b (nat index)))"

definition bitset_set_fast :: "int \<Rightarrow> int \<Rightarrow> int \<Rightarrow> bitset_state \<Rightarrow> bitset_state \<times> int" where
  "bitset_set_fast h index v s =
     (case deref h s of
        None \<Rightarrow> (s, - 1)
      | Some b \<Rightarrow>
          if index < 0 \<or> v \<noteq> 0 \<and> v \<noteq> 1 then (s, - 1)
          else (case bitset_set_bit b (nat index) (v = 1) of (b1, rc) \<Rightarrow> (store h b1 s, rc)))"

definition bitset_get_fast :: "int \<Rightarrow> int \<Rightarrow> bitset_state \<Rightarrow> int" where
  "bitset_get_fast h index s =
     (case deref h s of
        None \<Rightarrow> - 1
      | Some b \<Rightarrow> if index < 0 then - 1 else bitset_get_bit b (nat index))"

definition bitset_toggle :: "int \<Rightarrow> int \<Rightarrow> bitset_state \<Rightarrow> bitset_state \<times> int" where
  "bitset_toggle h index s =
     (case deref h s of
        None \<Rightarrow> (s, - 1)
      | Some b \<Rightarrow>
          if index < 0 then (s, - 1)
          else
            let v = bitset_get_bit b (nat index)
            in if v < 0 then (bitset_set_error ''index out of range'' s, - 1)
               else (case bitset_set_bit b (nat index) (v = 0) of (b1, rc) \<Rightarrow> (store h b1 s, rc)))"

definition bitset_push :: "(nat \<Rightarrow> bool) \<Rightarrow> int \<Rightarrow> int \<Rightarrow> bitset_state \<Rightarrow> bitset_state \<times> int" where
  "bitset_push realloc h v s =
     (case deref h s of
        None \<Rightarrow> (s, - 1)
      | Some b \<Rightarrow>
          if v \<noteq> 0 \<and> v \<noteq> 1 then (bitset_set_error ''bit value must be 0 or 1'' s, - 1)
          else (case bitset_ensure_capacity realloc b (len_bits b + 1) of
                  None \<Rightarrow> (bitset_set_error ''allocation failed'' s, - 1)
                | Some b1 \<Rightarrow>
                    (case bitset_set_bit (b1\<lparr>len_bits := len_bits b1 + 1\<rparr>) (len_bits b1) (v = 1) of
                       (b2, rc) \<Rightarrow> (store h b2 s, rc))))"

definition bitset_pop :: "int \<Rightarrow> bitset_state \<Rightarrow> bitset_state \<times> int" where
  "bitset_pop h s =
     (case deref h s of
        None \<Rightarrow> (bitset_set_error ''bitset is empty'' s, - 1)
      | Some b \<Rightarrow>
          if len_bits b = 0 then (bitset_set_error ''bitset is empty'' s, - 1)
          else (store h (bitset_mask_tail (b\<lparr>len_bits := len_bits b - 1\<rparr>)) s, bitset_get_bit b (len_bits b - 1)))"

text \<open>\<^verbatim>\<open>__builtin_popcountll\<close>\<close>

definition popcountll :: "64 word \<Rightarrow> nat" where
  "popcountll w = length (filter (bit w) [0..<64])"

definition bitset_count_ones :: "int \<Rightarrow> bitset_state \<Rightarrow> int" where
  "bitset_count_ones h s =
     (case deref h s of
        None \<Rightarrow> - 1
      | Some b \<Rightarrow>
          int (sum_list (map (\<lambda>i. popcountll (words b ! i)) [0..<words_for_bits (len_bits b)])))"

text \<open>A loop over the words in use that gives each a new value.\<close>

definition map_words :: "(nat \<Rightarrow> 64 word \<Rightarrow> 64 word) \<Rightarrow> bitset \<Rightarrow> bitset" where
  "map_words f b =
     b\<lparr>words := fold (\<lambda>i ws. ws[i := f i (ws ! i)]) [0..<words_for_bits (len_bits b)] (words b)\<rparr>"

definition bitset_set_all :: "int \<Rightarrow> bitset_state \<Rightarrow> bitset_state \<times> int" where
  "bitset_set_all h s =
     (case deref h s of
        None \<Rightarrow> (s, - 1)
      | Some b \<Rightarrow> (store h (bitset_mask_tail (map_words (\<lambda>i w. NOT 0) b)) s, 0))"

definition bitset_reset :: "int \<Rightarrow> bitset_state \<Rightarrow> bitset_state \<times> int" where
  "bitset_reset h s =
     (case deref h s of None \<Rightarrow> (s, - 1) | Some b \<Rightarrow> (store h (map_words (\<lambda>i w. 0) b) s, 0))"

definition bitset_fits_u64 :: "int \<Rightarrow> bitset_state \<Rightarrow> bool" where
  "bitset_fits_u64 h s =
     (case deref h s of
        None \<Rightarrow> False
      | Some b \<Rightarrow> list_all (\<lambda>i. words b ! i = 0) [1..<words_for_bits (len_bits b)])"

definition bitset_to_u64 :: "int \<Rightarrow> bitset_state \<Rightarrow> bitset_state \<times> 64 word" where
  "bitset_to_u64 h s =
     (case deref h s of
        None \<Rightarrow> (bitset_set_error ''bitset value does not fit in u64'' s, 0)
      | Some b \<Rightarrow>
          if \<not> bitset_fits_u64 h s then (bitset_set_error ''bitset value does not fit in u64'' s, 0)
          else if words_for_bits (len_bits b) = 0 then (s, 0)
          else (s, words b ! 0))"

definition bitset_from_u64 :: "(bitset_state \<Rightarrow> int option) \<Rightarrow> (nat \<Rightarrow> bool) \<Rightarrow> 64 word \<Rightarrow> bitset_state \<Rightarrow> bitset_state \<times> int" where
  "bitset_from_u64 malloc realloc v s =
     (case bitset_new malloc realloc 64 s of
        (s1, h) \<Rightarrow>
          (case deref h s1 of
             None \<Rightarrow> (s1, 0)
           | Some b \<Rightarrow> (store h (b\<lparr>len_bits := 64, words := (words b)[0 := v]\<rparr>) s1, h)))"

definition bitset_combine_eq :: "(64 word \<Rightarrow> 64 word \<Rightarrow> 64 word) \<Rightarrow> int \<Rightarrow> int \<Rightarrow> bitset_state \<Rightarrow> bitset_state \<times> int" where
  "bitset_combine_eq f lhs rhs s =
     (case (deref lhs s, deref rhs s) of
        (Some l, Some r) \<Rightarrow>
          if len_bits l \<noteq> len_bits r then (bitset_set_error ''bitset lengths must match'' s, - 1)
          else (store lhs (bitset_mask_tail (map_words (\<lambda>i w. f w (words r ! i)) l)) s, 0)
      | _ \<Rightarrow> (s, - 1))"

definition bitset_and_eq :: "int \<Rightarrow> int \<Rightarrow> bitset_state \<Rightarrow> bitset_state \<times> int" where
  "bitset_and_eq = bitset_combine_eq (AND)"

definition bitset_or_eq :: "int \<Rightarrow> int \<Rightarrow> bitset_state \<Rightarrow> bitset_state \<times> int" where
  "bitset_or_eq = bitset_combine_eq (OR)"

definition bitset_xor_eq :: "int \<Rightarrow> int \<Rightarrow> bitset_state \<Rightarrow> bitset_state \<times> int" where
  "bitset_xor_eq = bitset_combine_eq (XOR)"

definition bitset_not_eq :: "int \<Rightarrow> bitset_state \<Rightarrow> bitset_state \<times> int" where
  "bitset_not_eq h s =
     (case deref h s of
        None \<Rightarrow> (s, - 1)
      | Some b \<Rightarrow> (store h (bitset_mask_tail (map_words (\<lambda>i w. NOT w) b)) s, 0))"

definition bitset_bitwise_copy ::
    "(bitset_state \<Rightarrow> int option) \<Rightarrow> (nat \<Rightarrow> bool) \<Rightarrow> int \<Rightarrow> int \<Rightarrow> int \<Rightarrow> bitset_state \<Rightarrow> bitset_state \<times> int" where
  "bitset_bitwise_copy malloc realloc lhs rhs operation s =
     (case (deref lhs s, deref rhs s) of
        (Some l, Some r) \<Rightarrow>
          if operation < 0 \<or> 2 < operation then (bitset_set_error ''invalid bitwise operation arguments'' s, 0)
          else if len_bits l \<noteq> len_bits r then (bitset_set_error ''bitset lengths must match'' s, 0)
          else
            (case bitset_new malloc realloc (int (len_bits l)) s of
               (s1, h) \<Rightarrow>
                 (case deref h s1 of
                    None \<Rightarrow> (s1, 0)
                  | Some out \<Rightarrow>
                      let f = (\<lambda>i w. if operation = 0 then words l ! i AND words r ! i
                                     else if operation = 1 then words l ! i OR words r ! i
                                     else words l ! i XOR words r ! i)
                      in (store h (bitset_mask_tail (map_words f (out\<lparr>len_bits := len_bits l\<rparr>))) s1, h)))
      | _ \<Rightarrow> (bitset_set_error ''invalid bitwise operation arguments'' s, 0))"

definition bitset_complement_copy ::
    "(bitset_state \<Rightarrow> int option) \<Rightarrow> (nat \<Rightarrow> bool) \<Rightarrow> int \<Rightarrow> bitset_state \<Rightarrow> bitset_state \<times> int" where
  "bitset_complement_copy malloc realloc h0 s =
     (case deref h0 s of
        None \<Rightarrow> (bitset_set_error ''invalid bitset handle'' s, 0)
      | Some b \<Rightarrow>
          (case bitset_new malloc realloc (int (len_bits b)) s of
             (s1, h) \<Rightarrow>
               (case deref h s1 of
                  None \<Rightarrow> (s1, 0)
                | Some out \<Rightarrow>
                    (store h (bitset_mask_tail (map_words (\<lambda>i w. NOT (words b ! i)) (out\<lparr>len_bits := len_bits b\<rparr>))) s1, h))))"

text \<open>One word of a shift, from the words as they are when it is computed.\<close>

definition shl_word :: "nat \<Rightarrow> nat \<Rightarrow> 64 word list \<Rightarrow> nat \<Rightarrow> 64 word" where
  "shl_word whole_words bit_shift ws i =
     (if whole_words \<le> i then
        let source = i - whole_words; shifted = push_bit bit_shift (ws ! source)
        in if 0 < bit_shift \<and> 0 < source then shifted OR drop_bit (64 - bit_shift) (ws ! (source - 1)) else shifted
      else 0)"

definition shr_word :: "nat \<Rightarrow> nat \<Rightarrow> nat \<Rightarrow> 64 word list \<Rightarrow> nat \<Rightarrow> 64 word" where
  "shr_word n whole_words bit_shift ws i =
     (let source = i + whole_words
      in if source < n then
           let shifted = drop_bit bit_shift (ws ! source)
           in if 0 < bit_shift \<and> source + 1 < n then shifted OR push_bit (64 - bit_shift) (ws ! (source + 1)) else shifted
         else 0)"

definition shifted_left :: "bitset \<Rightarrow> nat \<Rightarrow> bitset" where
  "shifted_left b amount =
     (if len_bits b \<le> amount then map_words (\<lambda>i w. 0) b
      else bitset_mask_tail (b\<lparr>words :=
             fold (\<lambda>i ws. ws[i := shl_word (amount div 64) (amount mod 64) ws i])
               (rev [0..<words_for_bits (len_bits b)]) (words b)\<rparr>))"

definition shifted_right :: "bitset \<Rightarrow> nat \<Rightarrow> bitset" where
  "shifted_right b amount =
     (if len_bits b \<le> amount then map_words (\<lambda>i w. 0) b
      else bitset_mask_tail (b\<lparr>words :=
             fold (\<lambda>i ws. ws[i := shr_word (words_for_bits (len_bits b)) (amount div 64) (amount mod 64) ws i])
               [0..<words_for_bits (len_bits b)] (words b)\<rparr>))"

definition bitset_shift_left :: "int \<Rightarrow> int \<Rightarrow> bitset_state \<Rightarrow> bitset_state \<times> int" where
  "bitset_shift_left h amount s =
     (case deref h s of
        None \<Rightarrow> (bitset_set_error ''shift amount must be non-negative'' s, - 1)
      | Some b \<Rightarrow>
          if amount < 0 then (bitset_set_error ''shift amount must be non-negative'' s, - 1)
          else (store h (shifted_left b (nat amount)) s, 0))"

definition bitset_shift_right :: "int \<Rightarrow> int \<Rightarrow> bitset_state \<Rightarrow> bitset_state \<times> int" where
  "bitset_shift_right h amount s =
     (case deref h s of
        None \<Rightarrow> (bitset_set_error ''shift amount must be non-negative'' s, - 1)
      | Some b \<Rightarrow>
          if amount < 0 then (bitset_set_error ''shift amount must be non-negative'' s, - 1)
          else (store h (shifted_right b (nat amount)) s, 0))"

text \<open>One cell of the game of life, and the double loop. Both handles are read and written in the
  state, so a caller that passes the same handle twice sees the cleared grid.\<close>

definition life_neighbors :: "bitset \<Rightarrow> nat \<Rightarrow> nat \<Rightarrow> nat \<Rightarrow> nat \<Rightarrow> int" where
  "life_neighbors b w h x y =
     (let at = bitset_get_bit_wrapped b w h
      in at (int x - 1) (int y - 1) + at (int x) (int y - 1) + at (int x + 1) (int y - 1) +
         at (int x - 1) (int y) + at (int x + 1) (int y) +
         at (int x - 1) (int y + 1) + at (int x) (int y + 1) + at (int x + 1) (int y + 1))"

definition life_cell :: "int \<Rightarrow> int \<Rightarrow> nat \<Rightarrow> nat \<Rightarrow> nat \<times> nat \<Rightarrow> bitset_state \<times> int \<Rightarrow> bitset_state \<times> int" where
  "life_cell current_handle next_handle w h p st =
     (case (p, st) of
        ((x, y), (s, alive_after)) \<Rightarrow>
          (case (deref current_handle s, deref next_handle s) of
             (Some current, Some nxt) \<Rightarrow>
               let neighbors = life_neighbors current w h x y;
                   idx = y * w + x;
                   now_alive = bitset_get_bit current idx;
                   next_alive = (if now_alive = 1 then neighbors = 2 \<or> neighbors = 3 else neighbors = 3)
               in if next_alive then (store next_handle (fst (bitset_set_bit nxt idx True)) s, alive_after + 1)
                  else (s, alive_after)
           | _ \<Rightarrow> (s, alive_after)))"

definition life_cells :: "nat \<Rightarrow> nat \<Rightarrow> (nat \<times> nat) list" where
  "life_cells w h = concat (map (\<lambda>y. map (\<lambda>x. (x, y)) [0..<w]) [0..<h])"

definition bitset_life_step_toroidal :: "int \<Rightarrow> int \<Rightarrow> int \<Rightarrow> int \<Rightarrow> bitset_state \<Rightarrow> bitset_state \<times> int" where
  "bitset_life_step_toroidal current_handle next_handle width height s =
     (case (deref current_handle s, deref next_handle s) of
        (Some current, Some nxt) \<Rightarrow>
          if width \<le> 0 \<or> height \<le> 0 then (bitset_set_error ''invalid life step arguments'' s, - 1)
          else
            let w = nat width; h = nat height
            in if w * h \<noteq> len_bits current \<or> w * h \<noteq> len_bits nxt
               then (bitset_set_error ''bitset lengths must match width * height'' s, - 1)
               else fold (life_cell current_handle next_handle w h) (life_cells w h)
                      (store next_handle (map_words (\<lambda>i w. 0) nxt) s, 0)
      | _ \<Rightarrow> (bitset_set_error ''invalid life step arguments'' s, - 1))"

section \<open>The list of bits\<close>

definition bit_of :: "bitset \<Rightarrow> nat \<Rightarrow> bool" where
  "bit_of b i = bit (words b ! (i div 64)) (i mod 64)"

definition bits_of :: "bitset \<Rightarrow> bool list" where
  "bits_of b = map (bit_of b) [0..<len_bits b]"

definition bitset_ok :: "bitset \<Rightarrow> bool" where
  "bitset_ok b \<longleftrightarrow> length (words b) = words_for_bits (cap_bits b) \<and> len_bits b \<le> cap_bits b"

text \<open>The bits of the last word in use above the length are 0.\<close>

definition clean :: "bitset \<Rightarrow> bool" where
  "clean b \<longleftrightarrow> (\<forall>i. len_bits b \<le> i \<longrightarrow> i < 64 * words_for_bits (len_bits b) \<longrightarrow> \<not> bit_of b i)"

lemma length_bits_of [simp]: "length (bits_of b) = len_bits b"
  by (simp add: bits_of_def)

lemma nth_bits_of [simp]: "i < len_bits b \<Longrightarrow> bits_of b ! i = bit_of b i"
  by (simp add: bits_of_def)

lemma bits_of_eqI: "len_bits b = length xs \<Longrightarrow> (\<And>i. i < length xs \<Longrightarrow> bit_of b i = xs ! i) \<Longrightarrow> bits_of b = xs"
  by (rule nth_equalityI) simp_all

lemma words_for_bits_eq: "words_for_bits n = (n + 63) div 64"
  by (simp add: words_for_bits_def)

lemma word_in_use: "i < n \<Longrightarrow> i div 64 < words_for_bits n"
  by (simp add: words_for_bits_eq div_less_iff_less_mult) 

lemma word_index: "bitset_ok b \<Longrightarrow> i < len_bits b \<Longrightarrow> i div 64 < length (words b)"
  using word_in_use [of i "cap_bits b"] by (simp add: bitset_ok_def)

lemma words_for_bits_mono: "m \<le> n \<Longrightarrow> words_for_bits m \<le> words_for_bits n"
  by (simp add: words_for_bits_eq div_le_mono)

lemma in_use_le: "bitset_ok b \<Longrightarrow> words_for_bits (len_bits b) \<le> length (words b)"
  by (simp add: bitset_ok_def words_for_bits_mono)

lemma get_bit_eq: "bitset_get_bit b i = (if i < len_bits b then of_bool (bit_of b i) else - 1)"
proof -
  have "words b ! (i div 64) AND push_bit (i mod 64) 1 \<noteq> 0 \<longleftrightarrow> bit_of b i"
    by (simp add: bit_of_def and_exp_eq_0_iff_not_bit push_bit_eq_mult)
  then show ?thesis by (simp add: bitset_get_bit_def)
qed

lemma set_bit_eq:
  "bitset_set_bit b i v =
     (if i < len_bits b
      then (b\<lparr>words := (words b)[i div 64 := (if v then set_bit else unset_bit) (i mod 64) (words b ! (i div 64))]\<rparr>, 0)
      else (b, - 1))"
  by (simp add: bitset_set_bit_def Let_def set_bit_eq_or unset_bit_eq_and_not)

lemma len_set_bit [simp]: "len_bits (fst (bitset_set_bit b i v)) = len_bits b"
  and cap_set_bit [simp]: "cap_bits (fst (bitset_set_bit b i v)) = cap_bits b"
  and length_set_bit [simp]: "length (words (fst (bitset_set_bit b i v))) = length (words b)"
  by (simp_all add: set_bit_eq)

lemma bitset_ok_set_bit [simp]: "bitset_ok b \<Longrightarrow> bitset_ok (fst (bitset_set_bit b i v))"
  by (simp add: bitset_ok_def)

lemma bit_of_set_bit:
  assumes "bitset_ok b" and "i < len_bits b"
  shows "bit_of (fst (bitset_set_bit b i v)) j = (if j = i then v else bit_of b j)"
proof -
  have w: "i div 64 < length (words b)" using assms by (rule word_index)
  show ?thesis
  proof (cases "j div 64 = i div 64")
    case True
    then have "j mod 64 = i mod 64 \<longleftrightarrow> j = i" by (metis div_mult_mod_eq)
    then show ?thesis using True w assms(2)
      by (auto simp: bit_of_def set_bit_eq bit_set_bit_iff bit_unset_bit_iff)
  next
    case False
    then show ?thesis using assms(2) by (auto simp: bit_of_def set_bit_eq)
  qed
qed

lemma bits_of_set_bit:
  assumes "bitset_ok b" and "i < len_bits b"
  shows "bits_of (fst (bitset_set_bit b i v)) = (bits_of b)[i := v]"
  by (rule bits_of_eqI) (auto simp: bit_of_set_bit [OF assms] nth_list_update)

lemma clean_set_bit:
  "bitset_ok b \<Longrightarrow> clean b \<Longrightarrow> clean (fst (bitset_set_bit b i v))"
proof (cases "i < len_bits b")
  case True
  then show "bitset_ok b \<Longrightarrow> clean b \<Longrightarrow> ?thesis" by (auto simp: clean_def bit_of_set_bit)
qed (simp add: set_bit_eq)

lemma len_mask_tail [simp]: "len_bits (bitset_mask_tail b) = len_bits b"
  and cap_mask_tail [simp]: "cap_bits (bitset_mask_tail b) = cap_bits b"
  and length_mask_tail [simp]: "length (words (bitset_mask_tail b)) = length (words b)"
  by (simp_all add: bitset_mask_tail_def Let_def)

lemma bitset_ok_mask_tail [simp]: "bitset_ok b \<Longrightarrow> bitset_ok (bitset_mask_tail b)"
  by (simp add: bitset_ok_def)

lemma bit_of_mask_tail:
  assumes "bitset_ok b" and "j < 64 * words_for_bits (len_bits b)"
  shows "bit_of (bitset_mask_tail b) j \<longleftrightarrow> bit_of b j \<and> j < len_bits b"
proof (cases "len_bits b mod 64 = 0")
  case True
  then have "64 * words_for_bits (len_bits b) = len_bits b" by (auto simp: words_for_bits_eq elim!: dvdE)
  with assms(2) True show ?thesis by (simp add: bitset_mask_tail_def)
next
  case False
  let ?L = "len_bits b"
  have L: "words_for_bits ?L - 1 = ?L div 64" "words_for_bits ?L = Suc (?L div 64)"
  proof -
    have "(64 * q + r + 63) div 64 = Suc q" if "0 < r" "r < 64" for q r :: nat
      using that by (intro div_nat_eqI) simp_all
    from this [of "?L mod 64" "?L div 64"] have "(?L + 63) div 64 = Suc (?L div 64)" using False by simp
    then show "words_for_bits ?L - 1 = ?L div 64" "words_for_bits ?L = Suc (?L div 64)"
      by (simp_all only: words_for_bits_eq diff_Suc_1)
  qed
  have w: "?L div 64 < length (words b)" using in_use_le [OF assms(1)] L(2) by simp
  have j: "j div 64 \<le> ?L div 64" using assms(2) L(2) by (simp add: less_mult_imp_div_less less_Suc_eq_le [symmetric] mult.commute)
  have b: "bitset_mask_tail b = b\<lparr>words := (words b)[?L div 64 := words b ! (?L div 64) AND mask (?L mod 64)]\<rparr>"
    using False L(1) by (auto simp: bitset_mask_tail_def Let_def mask_eq_exp_minus_1)
  show ?thesis
  proof (cases "j div 64 = ?L div 64")
    case True
    then have "j mod 64 < ?L mod 64 \<longleftrightarrow> j < ?L" by (metis div_mult_mod_eq nat_add_left_cancel_less)
    then show ?thesis using True w by (simp add: b bit_of_def bit_and_iff bit_mask_iff)
  next
    case False
    with j have "j div 64 < ?L div 64" by simp
    then have "j < ?L" by (meson div_le_mono leD leI)
    then show ?thesis using False by (simp add: b bit_of_def)
  qed
qed

lemma less_in_use: "j < len_bits b \<Longrightarrow> j < 64 * words_for_bits (len_bits b)"
  by (simp add: words_for_bits_eq)

lemma bits_of_mask_tail [simp]: "bitset_ok b \<Longrightarrow> bits_of (bitset_mask_tail b) = bits_of b"
  by (rule bits_of_eqI) (simp_all add: bit_of_mask_tail less_in_use)

lemma clean_mask_tail: "bitset_ok b \<Longrightarrow> clean (bitset_mask_tail b)"
  by (simp add: clean_def bit_of_mask_tail)

lemma fold_update_words:
  "n \<le> length ws \<Longrightarrow> fold (\<lambda>i ws. ws[i := f i (ws ! i)]) [0..<n] ws = map (\<lambda>i. f i (ws ! i)) [0..<n] @ drop n ws"
proof (induction n)
  case (Suc n)
  then have "n < length ws" by simp
  then have "drop n ws = ws ! n # drop (Suc n) ws" by (simp add: Cons_nth_drop_Suc)
  with Suc show ?case by (simp add: nth_append list_update_append)
qed simp

lemma words_map_words:
  "bitset_ok b \<Longrightarrow> words (map_words f b) =
     map (\<lambda>i. f i (words b ! i)) [0..<words_for_bits (len_bits b)] @ drop (words_for_bits (len_bits b)) (words b)"
  by (simp add: map_words_def fold_update_words in_use_le)

lemma len_map_words [simp]: "len_bits (map_words f b) = len_bits b"
  and cap_map_words [simp]: "cap_bits (map_words f b) = cap_bits b"
  by (simp_all add: map_words_def)

lemma bitset_ok_map_words [simp]: "bitset_ok b \<Longrightarrow> bitset_ok (map_words f b)"
  using in_use_le [of b] by (simp add: bitset_ok_def words_map_words)

lemma bit_of_map_words:
  "bitset_ok b \<Longrightarrow> j < 64 * words_for_bits (len_bits b) \<Longrightarrow>
     bit_of (map_words f b) j = bit (f (j div 64) (words b ! (j div 64))) (j mod 64)"
proof -
  assume ok: "bitset_ok b" and j: "j < 64 * words_for_bits (len_bits b)"
  then have "j div 64 < words_for_bits (len_bits b)" by (simp add: less_mult_imp_div_less mult.commute)
  then show ?thesis by (simp add: bit_of_def words_map_words [OF ok] nth_append)
qed

lemma grow_bits_ge: "target \<le> grow_bits n target \<and> n \<le> grow_bits n target"
proof (induction n target rule: grow_bits.induct)
  case (1 n t)
  then show ?case by (subst (1 2) grow_bits.simps) auto
qed

lemma ensure_capacity_spec:
  assumes "bitset_ok b" and "bitset_ensure_capacity realloc b target = Some b'"
  shows "bitset_ok b' \<and> len_bits b' = len_bits b \<and> target \<le> cap_bits b' \<and>
    (\<forall>i<64 * words_for_bits (len_bits b). bit_of b' i = bit_of b i)"
proof (cases "target \<le> cap_bits b")
  case True
  with assms show ?thesis by (simp add: bitset_ensure_capacity_def)
next
  case False
  let ?n = "grow_bits (if 0 < cap_bits b then cap_bits b else 64) target"
  from grow_bits_ge [of target "if 0 < cap_bits b then cap_bits b else 64"]
  have n: "target \<le> ?n" "cap_bits b \<le> ?n" by (auto split: if_splits)
  from False assms(2) have b': "b' = b\<lparr>words := words b @ replicate (words_for_bits ?n - words_for_bits (cap_bits b)) 0, cap_bits := ?n\<rparr>"
    by (auto simp: bitset_ensure_capacity_def Let_def split: if_splits)
  have "bit_of b' i = bit_of b i" if "i < 64 * words_for_bits (len_bits b)" for i
  proof -
    have "i div 64 < words_for_bits (len_bits b)" using that by (simp add: less_mult_imp_div_less mult.commute)
    with in_use_le [OF assms(1)] have "i div 64 < length (words b)" by simp
    then show ?thesis by (simp add: b' bit_of_def nth_append)
  qed
  then show ?thesis using assms(1) n words_for_bits_mono [OF n(2)] by (auto simp: b' bitset_ok_def)
qed

section \<open>What the operations do to the list\<close>

lemma bit_of_len [simp]: "bit_of (b\<lparr>len_bits := n\<rparr>) j = bit_of b j"
  by (simp add: bit_of_def)

lemma fold_set_bits:
  "bitset_ok b \<Longrightarrow> n \<le> len_bits b \<Longrightarrow>
     bitset_ok (fold (\<lambda>i c. fst (bitset_set_bit c i v)) [m..<n] b) \<and>
     len_bits (fold (\<lambda>i c. fst (bitset_set_bit c i v)) [m..<n] b) = len_bits b \<and>
     (\<forall>j. bit_of (fold (\<lambda>i c. fst (bitset_set_bit c i v)) [m..<n] b) j = (if m \<le> j \<and> j < n then v else bit_of b j))"
proof (induction n)
  case (Suc n)
  show ?case
  proof (cases "m \<le> n")
    case True
    with Suc show ?thesis by (auto simp: bit_of_set_bit less_Suc_eq)
  qed (use Suc.prems in auto)
qed simp

lemma resized_spec:
  assumes "bitset_ok b" and "n \<le> cap_bits b"
  shows "bitset_ok (resized b n v) \<and> clean (resized b n v) \<and>
    bits_of (resized b n v) = take n (bits_of b) @ replicate (n - len_bits b) v"
proof -
  let ?b1 = "b\<lparr>len_bits := n\<rparr>"
  let ?b2 = "if len_bits b < n then fold (\<lambda>i c. fst (bitset_set_bit c i v)) [len_bits b..<n] ?b1 else ?b1"
  have ok1: "bitset_ok ?b1" using assms by (simp add: bitset_ok_def)
  have 2: "bitset_ok ?b2 \<and> len_bits ?b2 = n \<and> (\<forall>j<n. bit_of ?b2 j = (if len_bits b \<le> j then v else bit_of b j))"
  proof (cases "len_bits b < n")
    case True
    with fold_set_bits [OF ok1, of n v "len_bits b"] show ?thesis by simp
  qed (use ok1 in auto)
  have r: "resized b n v = bitset_mask_tail ?b2" by (simp add: resized_def Let_def)
  have "bits_of ?b2 = take n (bits_of b) @ replicate (n - len_bits b) v"
    by (rule bits_of_eqI) (use 2 in \<open>auto simp: nth_append min_def not_less\<close>)
  with 2 show ?thesis by (simp only: r bitset_ok_mask_tail clean_mask_tail bits_of_mask_tail)
qed

lemma push_spec:
  assumes "bitset_ok b" and "len_bits b < cap_bits b"
  shows "bitset_set_bit (b\<lparr>len_bits := Suc (len_bits b)\<rparr>) (len_bits b) v =
      (fst (bitset_set_bit (b\<lparr>len_bits := Suc (len_bits b)\<rparr>) (len_bits b) v), 0)"
    and "bitset_ok (fst (bitset_set_bit (b\<lparr>len_bits := Suc (len_bits b)\<rparr>) (len_bits b) v))"
    and "bits_of (fst (bitset_set_bit (b\<lparr>len_bits := Suc (len_bits b)\<rparr>) (len_bits b) v)) = bits_of b @ [v]"
    and "clean b \<Longrightarrow> len_bits b mod 64 \<noteq> 0 \<Longrightarrow>
      clean (fst (bitset_set_bit (b\<lparr>len_bits := Suc (len_bits b)\<rparr>) (len_bits b) v))"
proof -
  let ?b1 = "b\<lparr>len_bits := Suc (len_bits b)\<rparr>"
  have ok: "bitset_ok ?b1" using assms by (simp add: bitset_ok_def)
  have new: "bit_of (fst (bitset_set_bit ?b1 (len_bits b) v)) j = (if j = len_bits b then v else bit_of b j)" for j
    using bit_of_set_bit [OF ok, of "len_bits b" v j] by simp
  show "bitset_set_bit ?b1 (len_bits b) v = (fst (bitset_set_bit ?b1 (len_bits b) v), 0)" by (simp add: set_bit_eq)
  show "bitset_ok (fst (bitset_set_bit ?b1 (len_bits b) v))" using ok by simp
  show "bits_of (fst (bitset_set_bit ?b1 (len_bits b) v)) = bits_of b @ [v]"
    by (rule bits_of_eqI) (auto simp: new nth_append)
  assume c: "clean b" and m: "len_bits b mod 64 \<noteq> 0"
  have "words_for_bits (Suc (len_bits b)) = words_for_bits (len_bits b)"
  proof -
    have "(64 * q + r + 64) div 64 = Suc q \<and> (64 * q + r + 63) div 64 = Suc q" if "0 < r" "r < 64" for q r :: nat
      using that by (intro conjI div_nat_eqI) simp_all
    from this [of "len_bits b mod 64" "len_bits b div 64"] show ?thesis using m by (simp add: words_for_bits_eq)
  qed
  then show "clean (fst (bitset_set_bit ?b1 (len_bits b) v))"
    using c by (auto simp: clean_def new)
qed

lemma pop_spec:
  assumes "bitset_ok b" and "0 < len_bits b"
  shows "bitset_ok (bitset_mask_tail (b\<lparr>len_bits := len_bits b - 1\<rparr>)) \<and>
    clean (bitset_mask_tail (b\<lparr>len_bits := len_bits b - 1\<rparr>)) \<and>
    bits_of (bitset_mask_tail (b\<lparr>len_bits := len_bits b - 1\<rparr>)) = butlast (bits_of b) \<and>
    bitset_get_bit b (len_bits b - 1) = of_bool (last (bits_of b))"
proof -
  let ?b1 = "b\<lparr>len_bits := len_bits b - 1\<rparr>"
  have ok: "bitset_ok ?b1" using assms by (auto simp: bitset_ok_def intro: le_trans [OF diff_le_self])
  have "bits_of ?b1 = butlast (bits_of b)"
    by (rule bits_of_eqI) (auto simp: nth_butlast)
  moreover have "last (bits_of b) = bit_of b (len_bits b - 1)"
    using assms(2) last_conv_nth [of "bits_of b"] by (metis length_bits_of length_0_conv less_numeral_extra(3) nth_bits_of diff_less zero_less_one)
  ultimately show ?thesis using ok assms(2) by (simp add: clean_mask_tail get_bit_eq)
qed

lemma map_words_bits:
  assumes "bitset_ok b" and "\<And>i. i < len_bits b \<Longrightarrow> bit (f (i div 64) (words b ! (i div 64))) (i mod 64) = g i"
  shows "bits_of (map_words f b) = map g [0..<len_bits b]"
  by (rule bits_of_eqI) (simp_all add: bit_of_map_words [OF assms(1)] less_in_use assms(2))

lemma masked_words_bits:
  assumes "bitset_ok b" and "\<And>i. i < len_bits b \<Longrightarrow> bit (f (i div 64) (words b ! (i div 64))) (i mod 64) = g i"
  shows "bitset_ok (bitset_mask_tail (map_words f b)) \<and> clean (bitset_mask_tail (map_words f b)) \<and>
    bits_of (bitset_mask_tail (map_words f b)) = map g [0..<len_bits b]"
  using assms(1) map_words_bits [of b f g, OF assms] by (simp add: clean_mask_tail)

section \<open>The operations on handles\<close>

definition state_ok :: "bitset_state \<Rightarrow> bool" where
  "state_ok s \<longleftrightarrow> (\<forall>h b. live s h = Some b \<longrightarrow> bitset_ok b)"

text \<open>The bitset of one handle is now \<open>xs\<close>, and the others are as they were.\<close>

definition updates :: "bitset_state \<Rightarrow> int \<Rightarrow> bool list \<Rightarrow> bitset_state \<Rightarrow> bool" where
  "updates s h xs s' \<longleftrightarrow> state_ok s' \<and> map_option bits_of (deref h s') = Some xs \<and>
     (\<forall>h'. h' \<noteq> h \<longrightarrow> live s' h' = live s h')"

lemma deref_ok: "state_ok s \<Longrightarrow> deref h s = Some b \<Longrightarrow> bitset_ok b \<and> h \<noteq> 0"
  by (auto simp: state_ok_def deref_def split: if_splits)

lemma deref_store [simp]: "h \<noteq> 0 \<Longrightarrow> deref h (store h b s) = Some b"
  by (simp add: deref_def store_def)

lemma live_error [simp]: "live (bitset_set_error msg s) = live s"
  by (simp add: bitset_set_error_def)

lemma updates_store: "state_ok s \<Longrightarrow> h \<noteq> 0 \<Longrightarrow> bitset_ok b \<Longrightarrow> bits_of b = xs \<Longrightarrow> updates s h xs (store h b s)"
  by (auto simp: updates_def state_ok_def store_def deref_def)

lemma bitset_set_updates:
  assumes "state_ok s" and "deref h s = Some b"
  shows "(case bitset_set h i v s of (s', r) \<Rightarrow>
      if 0 \<le> i \<and> nat i < len_bits b \<and> (v = 0 \<or> v = 1)
      then r = 0 \<and> updates s h ((bits_of b)[nat i := v = 1]) s' else r = - 1 \<and> live s' = live s)"
proof -
  note b = deref_ok [OF assms]
  show ?thesis
  proof (cases "0 \<le> i \<and> nat i < len_bits b \<and> (v = 0 \<or> v = 1)")
    case True
    then have "bitset_set h i v s = (store h (fst (bitset_set_bit b (nat i) (v = 1))) s, 0)"
      using assms(2) by (auto simp: bitset_set_def set_bit_eq)
    then show ?thesis using True assms b by (simp add: updates_store bits_of_set_bit)
  next
    case False
    then show ?thesis using assms(2) by (auto simp: bitset_set_def set_bit_eq)
  qed
qed

lemma bitset_toggle_updates:
  assumes "state_ok s" and "deref h s = Some b"
  shows "(case bitset_toggle h i s of (s', r) \<Rightarrow>
      if 0 \<le> i \<and> nat i < len_bits b
      then r = 0 \<and> updates s h ((bits_of b)[nat i := \<not> bits_of b ! nat i]) s' else r = - 1 \<and> live s' = live s)"
proof -
  note b = deref_ok [OF assms]
  show ?thesis
  proof (cases "0 \<le> i \<and> nat i < len_bits b")
    case True
    then have "bitset_toggle h i s = (store h (fst (bitset_set_bit b (nat i) (\<not> bit_of b (nat i)))) s, 0)"
      using assms(2) by (auto simp: bitset_toggle_def set_bit_eq get_bit_eq Let_def)
    then show ?thesis using True assms b by (simp add: updates_store bits_of_set_bit)
  next
    case False
    then show ?thesis using assms(2) by (auto simp: bitset_toggle_def get_bit_eq Let_def)
  qed
qed

lemma bitset_push_updates:
  assumes "state_ok s" and "deref h s = Some b"
  shows "(case bitset_push realloc h v s of (s', r) \<Rightarrow>
      if (v = 0 \<or> v = 1) \<and> bitset_ensure_capacity realloc b (Suc (len_bits b)) \<noteq> None
      then r = 0 \<and> updates s h (bits_of b @ [v = 1]) s' else r = - 1 \<and> live s' = live s)"
proof -
  note b = deref_ok [OF assms]
  show ?thesis
  proof (cases "bitset_ensure_capacity realloc b (Suc (len_bits b))")
    case None
    then show ?thesis using assms(2) by (auto simp: bitset_push_def)
  next
    case (Some b1)
    from ensure_capacity_spec [OF b [THEN conjunct1] Some] have b1: "bitset_ok b1" "len_bits b1 = len_bits b"
      "len_bits b1 < cap_bits b1" "bits_of b1 = bits_of b"
      by (auto simp: bits_of_def less_in_use)
    from push_spec [OF b1(1,3), of "v = 1"] b1 b Some assms show ?thesis
      by (auto simp: bitset_push_def updates_store split: prod.splits)
  qed
qed

lemma bitset_pop_updates:
  assumes "state_ok s" and "deref h s = Some b"
  shows "(case bitset_pop h s of (s', r) \<Rightarrow>
      if bits_of b = [] then r = - 1 \<and> live s' = live s
      else r = of_bool (last (bits_of b)) \<and> updates s h (butlast (bits_of b)) s')"
proof -
  note b = deref_ok [OF assms]
  have "bits_of b = [] \<longleftrightarrow> len_bits b = 0" by (simp add: bits_of_def)
  then show ?thesis
    using b assms pop_spec [of b] by (cases "len_bits b = 0") (simp_all add: bitset_pop_def updates_store)
qed

lemma bitset_resize_updates:
  assumes "state_ok s" and "deref h s = Some b"
  shows "(case bitset_resize realloc h n v s of (s', r) \<Rightarrow>
      if 0 \<le> n \<and> (v = 0 \<or> v = 1) \<and> bitset_ensure_capacity realloc b (nat n) \<noteq> None
      then r = 0 \<and> updates s h (take (nat n) (bits_of b) @ replicate (nat n - len_bits b) (v = 1)) s'
      else r = - 1 \<and> live s' = live s)"
proof -
  note b = deref_ok [OF assms]
  show ?thesis
  proof (cases "bitset_ensure_capacity realloc b (nat n)")
    case None
    then show ?thesis using assms(2) by (auto simp: bitset_resize_def)
  next
    case (Some b1)
    from ensure_capacity_spec [OF b [THEN conjunct1] Some] have b1: "bitset_ok b1" "len_bits b1 = len_bits b"
      "nat n \<le> cap_bits b1" "bits_of b1 = bits_of b"
      by (auto simp: bits_of_def less_in_use)
    from resized_spec [OF b1(1,3), of "v = 1"] b1 b Some assms show ?thesis
      by (auto simp: bitset_resize_def intro: updates_store)
  qed
qed

text \<open>C8. The operations on a handle are those of a list of booleans, and they leave the other
  handles alone: reading and writing by index with a refusal outside the bounds, appending,
  removing the last bit, changing the length with a fill value. A refused operation, the failure
  of an allocation included, returns -1 and changes no bitset.\<close>

theorem bitset_refines_list:
  assumes "state_ok s" and "deref h s = Some b"
  shows "snd (bitset_get h i s) = (if 0 \<le> i \<and> nat i < length (bits_of b) then of_bool (bits_of b ! nat i) else - 1) \<and>
    (case bitset_set h i v s of (s', r) \<Rightarrow>
      if 0 \<le> i \<and> nat i < length (bits_of b) \<and> (v = 0 \<or> v = 1)
      then r = 0 \<and> updates s h ((bits_of b)[nat i := v = 1]) s' else r = - 1 \<and> live s' = live s) \<and>
    (case bitset_toggle h i s of (s', r) \<Rightarrow>
      if 0 \<le> i \<and> nat i < length (bits_of b)
      then r = 0 \<and> updates s h ((bits_of b)[nat i := \<not> bits_of b ! nat i]) s' else r = - 1 \<and> live s' = live s) \<and>
    (case bitset_push realloc h v s of (s', r) \<Rightarrow>
      if (v = 0 \<or> v = 1) \<and> bitset_ensure_capacity realloc b (Suc (length (bits_of b))) \<noteq> None
      then r = 0 \<and> updates s h (bits_of b @ [v = 1]) s' else r = - 1 \<and> live s' = live s) \<and>
    (case bitset_pop h s of (s', r) \<Rightarrow>
      if bits_of b = [] then r = - 1 \<and> live s' = live s
      else r = of_bool (last (bits_of b)) \<and> updates s h (butlast (bits_of b)) s') \<and>
    (case bitset_resize realloc h n v s of (s', r) \<Rightarrow>
      if 0 \<le> n \<and> (v = 0 \<or> v = 1) \<and> bitset_ensure_capacity realloc b (nat n) \<noteq> None
      then r = 0 \<and> updates s h (take (nat n) (bits_of b) @ replicate (nat n - length (bits_of b)) (v = 1)) s'
      else r = - 1 \<and> live s' = live s) \<and>
    updates s h [] (fst (bitset_clear h s))"
proof -
  have "snd (bitset_get h i s) = (if 0 \<le> i \<and> nat i < len_bits b then of_bool (bits_of b ! nat i) else - 1)"
    using assms(2) by (auto simp: bitset_get_def get_bit_eq)
  moreover have "updates s h [] (fst (bitset_clear h s))"
    using assms deref_ok [OF assms] by (auto simp: bitset_clear_def bitset_ok_def bits_of_def intro!: updates_store)
  ultimately show ?thesis
    unfolding length_bits_of
    using bitset_set_updates [OF assms] bitset_toggle_updates [OF assms] bitset_push_updates [OF assms]
      bitset_pop_updates [OF assms] bitset_resize_updates [OF assms]
    by (intro conjI)
qed

section \<open>Whole words\<close>

lemma bits_of_nil: "map g [0..<len_bits b] = xs \<Longrightarrow> length xs = len_bits b"
  by auto

lemma combine_eq_updates:
  assumes "state_ok s" and "deref l s = Some a" and "deref r s = Some b"
    and "\<And>v w n. n < 64 \<Longrightarrow> bit (f v w) n = g (bit v n) (bit w n)"
  shows "(case bitset_combine_eq f l r s of (s', rc) \<Rightarrow>
      if len_bits a = len_bits b then rc = 0 \<and> updates s l (map2 g (bits_of a) (bits_of b)) s'
      else rc = - 1 \<and> live s' = live s)"
proof (cases "len_bits a = len_bits b")
  case True
  note a = deref_ok [OF assms(1,2)]
  have "map (\<lambda>i. g (bit_of a i) (bit_of b i)) [0..<len_bits a] = map2 g (bits_of a) (bits_of b)"
    using True by (simp add: bits_of_def zip_map_map zip_same_conv_map)
  with masked_words_bits [of a "\<lambda>i w. f w (words b ! i)" "\<lambda>i. g (bit_of a i) (bit_of b i)"] a assms
  show ?thesis using True by (auto simp: bitset_combine_eq_def bit_of_def intro: updates_store)
qed (use assms(2,3) in \<open>simp add: bitset_combine_eq_def\<close>)

lemma fold_update_down:
  assumes "n \<le> length ws" and "\<And>i us vs. (\<And>k. k \<le> i \<Longrightarrow> us ! k = vs ! k) \<Longrightarrow> f us i = f vs i"
  shows "length (fold (\<lambda>i ws. ws[i := f ws i]) (rev [0..<n]) ws) = length ws \<and>
    (\<forall>i. fold (\<lambda>i ws. ws[i := f ws i]) (rev [0..<n]) ws ! i = (if i < n then f ws i else ws ! i))"
  using assms(1)
proof (induction n arbitrary: ws)
  case (Suc n)
  let ?ws = "ws[n := f ws n]"
  have eq: "f ?ws i = f ws i" if "i < n" for i
    using that by (intro assms(2)) simp
  from Suc.IH [of ?ws] Suc.prems show ?case by (auto simp: eq less_Suc_eq nth_list_update)
qed simp

lemma fold_update_up:
  assumes "n \<le> length ws" and "\<And>i us vs. (\<And>k. i \<le> k \<Longrightarrow> us ! k = vs ! k) \<Longrightarrow> f us i = f vs i"
  shows "length (fold (\<lambda>i ws. ws[i := f ws i]) [0..<n] ws) = length ws \<and>
    (\<forall>i. fold (\<lambda>i ws. ws[i := f ws i]) [0..<n] ws ! i = (if i < n then f ws i else ws ! i))"
  using assms(1)
proof (induction n)
  case (Suc n)
  let ?ws = "fold (\<lambda>i ws. ws[i := f ws i]) [0..<n] ws"
  from Suc have IH: "length ?ws = length ws" "\<forall>i. ?ws ! i = (if i < n then f ws i else ws ! i)" by simp_all
  have "f ?ws n = f ws n" by (intro assms(2)) (simp add: IH(2))
  with IH Suc.prems show ?case by (auto simp: less_Suc_eq nth_list_update)
qed simp

lemma div_mod_64: "(64 * a + b) div 64 = a" "(64 * a + b) mod 64 = b" if "b < 64" for a b :: nat
  using that by simp_all

lemma less_64: "64 * a + b < 64 * n \<longleftrightarrow> a < n" if "b < 64" for a b n :: nat
proof
  assume "a < n"
  then have "64 * Suc a \<le> 64 * n" by (intro mult_le_mono2) simp
  with that show "64 * a + b < 64 * n" by simp
next
  assume "64 * a + b < 64 * n"
  then show "a < n" by simp
qed

lemma bit_shl_word:
  assumes "k < 64" and "r < 64"
  shows "bit (shl_word q r ws w) k \<longleftrightarrow>
    64 * q + r \<le> 64 * w + k \<and>
    bit (ws ! ((64 * w + k - (64 * q + r)) div 64)) ((64 * w + k - (64 * q + r)) mod 64)"
proof (cases "q \<le> w")
  case False
  then show ?thesis using assms by (simp add: shl_word_def)
next
  case True
  then obtain d where w: "w = q + d" by (auto dest: le_Suc_ex)
  show ?thesis
  proof (cases "r \<le> k")
    case True
    then have "64 * w + k - (64 * q + r) = 64 * d + (k - r)" using w by simp
    moreover have "(64 * d + (k - r)) div 64 = d" "(64 * d + (k - r)) mod 64 = k - r" using assms(1) by simp_all
    moreover have "\<not> bit v (64 + k - r)" for v :: "64 word"
      using True bit_imp_le_length [of v "64 + k - r"] by auto
    ultimately show ?thesis using True w assms
      by (auto simp: shl_word_def Let_def bit_or_iff bit_push_bit_iff bit_drop_bit_eq add.commute)
  next
    case False
    show ?thesis
    proof (cases d)
      case 0
      then show ?thesis using False w by (simp add: shl_word_def bit_push_bit_iff)
    next
      case (Suc e)
      then have "64 * w + k - (64 * q + r) = 64 * e + (64 + k - r)" using w False assms by simp
      moreover have "(64 * e + (64 + k - r)) div 64 = e" "(64 * e + (64 + k - r)) mod 64 = 64 + k - r"
        using False assms by (intro div_mod_64; simp)+
      ultimately show ?thesis using False w Suc assms
        by (auto simp: shl_word_def Let_def bit_or_iff bit_push_bit_iff bit_drop_bit_eq add.commute)
    qed
  qed
qed

lemma bit_shr_word:
  assumes "k < 64" and "r < 64"
  shows "bit (shr_word n q r ws w) k \<longleftrightarrow>
    64 * w + k + (64 * q + r) < 64 * n \<and>
    bit (ws ! ((64 * w + k + (64 * q + r)) div 64)) ((64 * w + k + (64 * q + r)) mod 64)"
proof (cases "k + r < 64")
  case True
  have j: "64 * w + k + (64 * q + r) = 64 * (w + q) + (k + r)" by simp
  have "64 * (w + q) + (k + r) < 64 * n \<longleftrightarrow> w + q < n" using True by (rule less_64)
  moreover have "(64 * (w + q) + (k + r)) div 64 = w + q" "(64 * (w + q) + (k + r)) mod 64 = k + r"
    using True by (intro div_mod_64; simp)+
  moreover have "\<not> 64 - r \<le> k" if "0 < r" using True that by simp
  ultimately show ?thesis unfolding j using assms
    by (auto simp: shr_word_def Let_def bit_or_iff bit_push_bit_iff bit_drop_bit_eq add.commute)
next
  case False
  have j: "64 * w + k + (64 * q + r) = 64 * (w + q + 1) + (k + r - 64)" using False by simp
  have lt: "k + r - 64 < 64" using assms by simp
  have "64 * (w + q + 1) + (k + r - 64) < 64 * n \<longleftrightarrow> w + q + 1 < n" using lt by (rule less_64)
  moreover have "(64 * (w + q + 1) + (k + r - 64)) div 64 = w + q + 1" "(64 * (w + q + 1) + (k + r - 64)) mod 64 = k + r - 64"
    using lt by (intro div_mod_64; simp)+
  moreover have "0 < r" "64 - r \<le> k" "k - (64 - r) = k + r - 64" using False assms by simp_all
  moreover have "\<not> bit v (k + r)" for v :: "64 word"
    using False bit_imp_le_length [of v "k + r"] by auto
  ultimately show ?thesis unfolding j using assms
    by (auto simp: shr_word_def Let_def bit_or_iff bit_push_bit_iff bit_drop_bit_eq add.commute)
qed

lemma index_split: "64 * (i div 64) + i mod 64 = i" for i :: nat
  by simp

lemma shifted_left_spec:
  assumes "bitset_ok b"
  shows "bitset_ok (shifted_left b a) \<and> clean (shifted_left b a) \<and>
    bits_of (shifted_left b a) = replicate (min a (len_bits b)) False @ take (len_bits b - a) (bits_of b)"
proof (cases "len_bits b \<le> a")
  case True
  have "bits_of (map_words (\<lambda>i w. 0) b) = map (\<lambda>i. False) [0..<len_bits b]" by (rule map_words_bits [OF assms]) simp
  moreover have "clean (map_words (\<lambda>i w. 0) b)" by (simp add: clean_def bit_of_map_words [OF assms])
  ultimately show ?thesis using True assms by (simp add: shifted_left_def min_absorb2 map_replicate_const)
next
  case False
  let ?n = "words_for_bits (len_bits b)"
  let ?f = "shl_word (a div 64) (a mod 64)"
  let ?ws = "fold (\<lambda>i ws. ws[i := ?f ws i]) (rev [0..<?n]) (words b)"
  let ?b = "b\<lparr>words := ?ws\<rparr>"
  have ws: "length ?ws = length (words b) \<and> (\<forall>i. ?ws ! i = (if i < ?n then ?f (words b) i else words b ! i))"
    by (rule fold_update_down) (simp_all add: in_use_le [OF assms] shl_word_def Let_def)
  have ok: "bitset_ok ?b" using assms ws by (simp add: bitset_ok_def)
  have bit: "bit_of ?b i \<longleftrightarrow> a \<le> i \<and> bit_of b (i - a)" if "i < len_bits b" for i
  proof -
    have "bit_of ?b i \<longleftrightarrow> bit (?f (words b) (i div 64)) (i mod 64)"
      using ws word_in_use [OF that] by (simp add: bit_of_def)
    also have "\<dots> \<longleftrightarrow> a \<le> i \<and> bit_of b (i - a)"
      using bit_shl_word [of "i mod 64" "a mod 64" "a div 64" "words b" "i div 64"]
      by (simp add: index_split bit_of_def)
    finally show ?thesis .
  qed
  have "bits_of ?b = replicate a False @ take (len_bits b - a) (bits_of b)"
    by (rule bits_of_eqI) (use False in \<open>auto simp: bit nth_append\<close>)
  then show ?thesis using False ok by (simp add: shifted_left_def clean_mask_tail)
qed

lemma shifted_right_spec:
  assumes "bitset_ok b" and "clean b"
  shows "bitset_ok (shifted_right b a) \<and> clean (shifted_right b a) \<and>
    bits_of (shifted_right b a) = drop a (bits_of b) @ replicate (min a (len_bits b)) False"
proof (cases "len_bits b \<le> a")
  case True
  have "bits_of (map_words (\<lambda>i w. 0) b) = map (\<lambda>i. False) [0..<len_bits b]" by (rule map_words_bits [OF assms(1)]) simp
  moreover have "clean (map_words (\<lambda>i w. 0) b)" by (simp add: clean_def bit_of_map_words [OF assms(1)])
  ultimately show ?thesis using True assms by (simp add: shifted_right_def min_absorb2 map_replicate_const)
next
  case False
  let ?n = "words_for_bits (len_bits b)"
  let ?f = "shr_word ?n (a div 64) (a mod 64)"
  let ?ws = "fold (\<lambda>i ws. ws[i := ?f ws i]) [0..<?n] (words b)"
  let ?b = "b\<lparr>words := ?ws\<rparr>"
  have ws: "length ?ws = length (words b) \<and> (\<forall>i. ?ws ! i = (if i < ?n then ?f (words b) i else words b ! i))"
    by (rule fold_update_up) (simp_all add: in_use_le [OF assms(1)] shr_word_def Let_def)
  have ok: "bitset_ok ?b" using assms ws by (simp add: bitset_ok_def)
  have bit: "bit_of ?b i \<longleftrightarrow> i + a < len_bits b \<and> bit_of b (i + a)" if "i < len_bits b" for i
  proof -
    have "bit_of ?b i \<longleftrightarrow> bit (?f (words b) (i div 64)) (i mod 64)"
      using ws word_in_use [OF that] by (simp add: bit_of_def)
    also have "\<dots> \<longleftrightarrow> i + a < 64 * ?n \<and> bit_of b (i + a)"
      using bit_shr_word [of "i mod 64" "a mod 64" ?n "a div 64" "words b" "i div 64"]
      by (simp add: index_split bit_of_def)
    also have "\<dots> \<longleftrightarrow> i + a < len_bits b \<and> bit_of b (i + a)"
      using assms(2) less_in_use [of "i + a" b] by (auto simp: clean_def not_less [symmetric])
    finally show ?thesis .
  qed
  have "bits_of ?b = drop a (bits_of b) @ replicate a False"
    by (rule bits_of_eqI) (use False in \<open>auto simp: bit nth_append add.commute\<close>)
  then show ?thesis using False ok by (simp add: shifted_right_def clean_mask_tail)
qed

text \<open>C34. The operations on whole words are the operations on all bits: conjunction, disjunction and
  exclusive or of two bitsets of one length, also of a bitset with itself, complement, setting and
  clearing all, and shifting either way with zeros coming in. The shift to the right needs the bits
  above the length to be clear.\<close>

theorem bitset_word_operations:
  assumes "state_ok s" and "deref l s = Some a" and "deref r s = Some b"
  shows "(case bitset_and_eq l r s of (s', rc) \<Rightarrow>
      if len_bits a = len_bits b then rc = 0 \<and> updates s l (map2 (\<and>) (bits_of a) (bits_of b)) s'
      else rc = - 1 \<and> live s' = live s) \<and>
    (case bitset_or_eq l r s of (s', rc) \<Rightarrow>
      if len_bits a = len_bits b then rc = 0 \<and> updates s l (map2 (\<or>) (bits_of a) (bits_of b)) s'
      else rc = - 1 \<and> live s' = live s) \<and>
    (case bitset_xor_eq l r s of (s', rc) \<Rightarrow>
      if len_bits a = len_bits b then rc = 0 \<and> updates s l (map2 (\<noteq>) (bits_of a) (bits_of b)) s'
      else rc = - 1 \<and> live s' = live s) \<and>
    updates s l (map Not (bits_of a)) (fst (bitset_not_eq l s)) \<and>
    updates s l (replicate (len_bits a) True) (fst (bitset_set_all l s)) \<and>
    updates s l (replicate (len_bits a) False) (fst (bitset_reset l s)) \<and>
    (0 \<le> n \<longrightarrow> updates s l (replicate (min (nat n) (len_bits a)) False @ take (len_bits a - nat n) (bits_of a))
      (fst (bitset_shift_left l n s))) \<and>
    (0 \<le> n \<and> clean a \<longrightarrow> updates s l (drop (nat n) (bits_of a) @ replicate (min (nat n) (len_bits a)) False)
      (fst (bitset_shift_right l n s)))"
proof -
  note a = deref_ok [OF assms(1,2)]
  have "updates s l (map Not (bits_of a)) (fst (bitset_not_eq l s))"
  proof -
    have "map (\<lambda>i. \<not> bit_of a i) [0..<len_bits a] = map Not (bits_of a)" by (simp add: bits_of_def)
    with masked_words_bits [of a "\<lambda>i w. NOT w" "\<lambda>i. \<not> bit_of a i"] a assms show ?thesis
      by (auto simp: bitset_not_eq_def bit_of_def bit_not_iff intro: updates_store)
  qed
  moreover have "updates s l (replicate (len_bits a) True) (fst (bitset_set_all l s))"
    using masked_words_bits [of a "\<lambda>i w. NOT 0" "\<lambda>i. True"] a assms
    by (auto simp: bitset_set_all_def map_replicate_const intro: updates_store)
  moreover have "updates s l (replicate (len_bits a) False) (fst (bitset_reset l s))"
    using map_words_bits [of a "\<lambda>i w. 0" "\<lambda>i. False"] a assms
    by (auto simp: bitset_reset_def map_replicate_const intro: updates_store)
  moreover have "updates s l (replicate (min (nat n) (len_bits a)) False @ take (len_bits a - nat n) (bits_of a))
      (fst (bitset_shift_left l n s))" if "0 \<le> n"
    using shifted_left_spec [of a "nat n"] a assms that by (auto simp: bitset_shift_left_def intro: updates_store)
  moreover have "updates s l (drop (nat n) (bits_of a) @ replicate (min (nat n) (len_bits a)) False)
      (fst (bitset_shift_right l n s))" if "0 \<le> n" "clean a"
    using shifted_right_spec [of a "nat n"] a assms that by (auto simp: bitset_shift_right_def intro: updates_store)
  ultimately show ?thesis
    unfolding bitset_and_eq_def bitset_or_eq_def bitset_xor_eq_def
    using combine_eq_updates [OF assms, of "(AND)" "(\<and>)"] combine_eq_updates [OF assms, of "(OR)" "(\<or>)"]
      combine_eq_updates [OF assms, of "(XOR)" "(\<noteq>)"]
    by (simp only: bit_and_iff bit_or_iff bit_xor_iff) simp
qed

section \<open>Counting and converting\<close>

lemma popcount_words:
  "sum_list (map (\<lambda>i. popcountll (words b ! i)) [0..<n]) = length (filter (bit_of b) [0..<64 * n])"
proof (induction n)
  case (Suc n)
  have "[0..<64 * Suc n] = [0..<64 * n] @ map (\<lambda>k. 64 * n + k) [0..<64]"
    using upt_add_eq_append [of 0 "64 * n" 64] map_add_upt [of "64 * n" 64] by (simp add: add.commute)
  moreover have "filter (bit_of b) (map (\<lambda>k. 64 * n + k) [0..<64]) = map (\<lambda>k. 64 * n + k) (filter (bit (words b ! n)) [0..<64])"
    unfolding filter_map o_def by (intro arg_cong [where f = "map _"] filter_cong) (auto simp: bit_of_def div_mod_64)
  moreover have "[0..<Suc n] = [0..<n] @ [n]" by simp
  ultimately show ?case using Suc.IH by (simp add: popcountll_def del: upt_Suc mult_Suc_right)
qed simp

lemma filter_clean: "clean b \<Longrightarrow> filter (bit_of b) [0..<64 * words_for_bits (len_bits b)] = filter (bit_of b) [0..<len_bits b]"
proof -
  assume "clean b"
  then have "filter (bit_of b) [len_bits b..<64 * words_for_bits (len_bits b)] = []"
    by (auto simp: filter_empty_conv clean_def)
  moreover have "len_bits b \<le> 64 * words_for_bits (len_bits b)" by (simp add: words_for_bits_eq)
  then have "[0..<64 * words_for_bits (len_bits b)] = [0..<len_bits b] @ [len_bits b..<64 * words_for_bits (len_bits b)]"
    using upt_add_eq_append [of 0 "len_bits b" "64 * words_for_bits (len_bits b) - len_bits b"] by simp
  ultimately show ?thesis by simp
qed

lemma count_bits: "length (filter (bit_of b) [0..<len_bits b]) = length (filter id (bits_of b))"
  by (simp add: bits_of_def filter_map o_def)

lemma count_ones_clean:
  "deref h s = Some b \<Longrightarrow> clean b \<Longrightarrow> bitset_count_ones h s = int (length (filter id (bits_of b)))"
  by (simp add: bitset_count_ones_def popcount_words filter_clean count_bits)

lemma fits_iff:
  assumes "bitset_ok b" and "clean b" and "deref h s = Some b"
  shows "bitset_fits_u64 h s \<longleftrightarrow> (\<forall>i<len_bits b. 64 \<le> i \<longrightarrow> \<not> bits_of b ! i)"
proof -
  let ?n = "words_for_bits (len_bits b)"
  have "words b ! w = 0 \<longleftrightarrow> (\<forall>k<64. \<not> bit_of b (64 * w + k))" for w
  proof -
    have "words b ! w = 0 \<longleftrightarrow> (\<forall>k<64. \<not> bit (words b ! w) k)"
      using bit_imp_le_length [of "words b ! w"] by (auto simp: bit_eq_iff)
    then show ?thesis by (simp add: bit_of_def div_mod_64)
  qed
  then have "bitset_fits_u64 h s \<longleftrightarrow> (\<forall>w. 1 \<le> w \<longrightarrow> w < ?n \<longrightarrow> (\<forall>k<64. \<not> bit_of b (64 * w + k)))"
    using assms(3) by (auto simp: bitset_fits_u64_def list_all_iff)
  also have "\<dots> \<longleftrightarrow> (\<forall>i<64 * ?n. 64 \<le> i \<longrightarrow> \<not> bit_of b i)"
  proof (intro iffI allI impI)
    fix i assume *: "\<forall>w. 1 \<le> w \<longrightarrow> w < ?n \<longrightarrow> (\<forall>k<64. \<not> bit_of b (64 * w + k))" "i < 64 * ?n" "64 \<le> i"
    have "1 \<le> i div 64" "i div 64 < ?n" using *(2,3) by (simp_all add: less_mult_imp_div_less mult.commute)
    with *(1) have "\<forall>k<64. \<not> bit_of b (64 * (i div 64) + k)" by blast
    from this [rule_format, of "i mod 64"] show "\<not> bit_of b i" by simp
  next
    fix w k :: nat assume *: "\<forall>i<64 * ?n. 64 \<le> i \<longrightarrow> \<not> bit_of b i" "1 \<le> w" "w < ?n" "k < 64"
    then show "\<not> bit_of b (64 * w + k)" using less_64 [of k w ?n] by simp
  qed
  also have "\<dots> \<longleftrightarrow> (\<forall>i<len_bits b. 64 \<le> i \<longrightarrow> \<not> bit_of b i)"
    using assms(2) less_in_use [of _ b] by (meson clean_def not_less)
  finally show ?thesis by simp
qed

lemma to_u64_bits:
  assumes "bitset_ok b" and "clean b" and "deref h s = Some b" and "bitset_fits_u64 h s" and "i < 64"
  shows "bit (snd (bitset_to_u64 h s)) i \<longleftrightarrow> i < len_bits b \<and> bits_of b ! i"
proof (cases "len_bits b = 0")
  case True
  then show ?thesis using assms(3,4) by (simp add: bitset_to_u64_def words_for_bits_def)
next
  case False
  then have n: "1 \<le> words_for_bits (len_bits b)" by (simp add: words_for_bits_eq div_le_mono [of 64, simplified])
  then have "snd (bitset_to_u64 h s) = words b ! 0" using assms(3,4) by (simp add: bitset_to_u64_def)
  moreover have "bit_of b i = bit (words b ! 0) i" using assms(5) by (simp add: bit_of_def)
  moreover have "\<not> bit_of b i" if "\<not> i < len_bits b"
    using assms(2,5) n that by (simp add: clean_def)
  ultimately show ?thesis by (cases "i < len_bits b") auto
qed

text \<open>The bits above the length are clear in all bitsets.\<close>

definition all_clean :: "bitset_state \<Rightarrow> bool" where
  "all_clean s \<longleftrightarrow> (\<forall>h b. live s h = Some b \<longrightarrow> bitset_ok b \<and> clean b)"

lemma all_cleanD: "all_clean s \<Longrightarrow> deref h s = Some b \<Longrightarrow> bitset_ok b \<and> clean b"
  by (auto simp: all_clean_def deref_def split: if_splits)

lemma all_clean_same: "all_clean s \<Longrightarrow> live s' = live s \<Longrightarrow> all_clean s'"
  by (simp add: all_clean_def)

lemma all_clean_error [simp]: "all_clean s \<Longrightarrow> all_clean (bitset_set_error msg s)"
  by (erule all_clean_same) simp

lemma all_clean_store: "all_clean s \<Longrightarrow> bitset_ok b \<Longrightarrow> clean b \<Longrightarrow> all_clean (store h b s)"
  by (simp add: all_clean_def store_def)

lemma all_clean_set_bit: "all_clean s \<Longrightarrow> deref h s = Some b \<Longrightarrow> all_clean (store h' (fst (bitset_set_bit b i v)) s)"
  by (frule (1) all_cleanD) (simp add: all_clean_store clean_set_bit)

lemma all_clean_masked: "all_clean s \<Longrightarrow> bitset_ok b \<Longrightarrow> all_clean (store h (bitset_mask_tail (map_words f b)) s)"
  by (simp add: all_clean_store clean_mask_tail)

text \<open>The word a push enters is in use already, or it is zero, or it is new.\<close>

definition zero_ahead :: "bitset \<Rightarrow> bool" where
  "zero_ahead b \<longleftrightarrow> (len_bits b mod 64 = 0 \<longrightarrow> len_bits b div 64 < length (words b) \<longrightarrow> words b ! (len_bits b div 64) = 0)"

lemma words_for_bits_Suc: "words_for_bits (Suc n) = Suc (n div 64)"
  by (simp add: words_for_bits_eq)

lemma push_clean:
  assumes "bitset_ok b" and "clean b" and "zero_ahead b"
    and "bitset_ensure_capacity realloc b (Suc (len_bits b)) = Some c"
  shows "clean (fst (bitset_set_bit (c\<lparr>len_bits := Suc (len_bits c)\<rparr>) (len_bits c) v))"
proof (cases "len_bits b mod 64 = 0")
  case False
  from ensure_capacity_spec [OF assms(1,4)] assms(2)
  have "bitset_ok c" "len_bits c = len_bits b" "len_bits c < cap_bits c" "clean c" by (auto simp: clean_def)
  with False show ?thesis using push_spec(4) by metis
next
  case True
  let ?n = "len_bits b" and ?c1 = "c\<lparr>len_bits := Suc (len_bits c)\<rparr>"
  from ensure_capacity_spec [OF assms(1,4)] have c: "bitset_ok c" "len_bits c = ?n" "?n < cap_bits c" by auto
  then have c1: "bitset_ok ?c1" by (simp add: bitset_ok_def)
  have new: "words c ! (?n div 64) = 0"
  proof (cases "Suc ?n \<le> cap_bits b")
    case le: True
    then have "?n div 64 < length (words b)"
      using assms(1) word_in_use [of ?n "cap_bits b"] by (simp add: bitset_ok_def)
    then show ?thesis using assms(3,4) le True by (simp add: zero_ahead_def bitset_ensure_capacity_def)
  next
    case False
    then have cap: "cap_bits b = ?n" using assms(1) by (simp add: bitset_ok_def)
    then have w: "length (words b) = ?n div 64" using assms(1) True
      by (auto simp: bitset_ok_def words_for_bits_eq elim!: dvdE)
    obtain k where "words c = words b @ replicate k 0"
      using assms(4) cap by (auto simp: bitset_ensure_capacity_def Let_def split: if_splits)
    moreover have "?n div 64 < length (words c)" using c(1,3) word_in_use [of ?n "cap_bits c"] by (simp add: bitset_ok_def)
    ultimately show ?thesis using w by (simp add: nth_append)
  qed
  have "\<not> bit_of (fst (bitset_set_bit ?c1 (len_bits c) v)) j" if "Suc ?n \<le> j" "j < 64 * Suc (?n div 64)" for j
  proof -
    have "j div 64 = ?n div 64" using that True by (intro div_nat_eqI) auto
    then have "\<not> bit_of c j" using new by (simp add: bit_of_def)
    then show ?thesis using bit_of_set_bit [OF c1, of "len_bits c" v j] that(1) c(2) by simp
  qed
  then show ?thesis using c(2) by (simp add: clean_def words_for_bits_Suc)
qed

lemma new_clean:
  assumes "all_clean s" and "bitset_new malloc realloc n s = (s1, h)"
  shows "all_clean s1" and "deref h s1 = Some b \<Longrightarrow> bitset_ok b \<and> nat n \<le> cap_bits b"
proof -
  have new: "bitset_ok c \<and> clean c \<and> nat n \<le> cap_bits c"
    if "bitset_ensure_capacity realloc \<lparr>words = [], len_bits = 0, cap_bits = 0\<rparr> (nat n) = Some c" for c
    using ensure_capacity_spec [OF _ that] by (simp add: bitset_ok_def clean_def words_for_bits_def)
  have "all_clean (s\<lparr>bitset_last_error := []\<rparr>)" using assms(1) by (rule all_clean_same) simp
  then show "all_clean s1" using assms new
    by (auto simp: bitset_new_def all_clean_store split: if_splits option.splits)
  show "deref h s1 = Some b \<Longrightarrow> bitset_ok b \<and> nat n \<le> cap_bits b" using assms(2) new
    by (auto simp: bitset_new_def deref_def store_def split: if_splits option.splits)
qed

text \<open>A step of a program on its bitsets: any operation on any handles, where a push to a word
  boundary enters a word that is zero or new.\<close>

inductive bitset_step :: "bitset_state \<Rightarrow> bitset_state \<Rightarrow> bool" where
  "bitset_step s (fst (bitset_new malloc realloc n s))"
| "bitset_step s (fst (bitset_from_u64 malloc realloc w s))"
| "bitset_step s (fst (bitset_free h s))"
| "bitset_step s (fst (bitset_clear h s))"
| "bitset_step s (fst (bitset_resize realloc h n v s))"
| "bitset_step s (fst (bitset_set h i v s))"
| "bitset_step s (fst (bitset_set_fast h i v s))"
| "bitset_step s (fst (bitset_get h i s))"
| "bitset_step s (fst (bitset_toggle h i s))"
| "(\<And>b. deref h s = Some b \<Longrightarrow> zero_ahead b) \<Longrightarrow> bitset_step s (fst (bitset_push realloc h v s))"
| "bitset_step s (fst (bitset_pop h s))"
| "bitset_step s (fst (bitset_set_all h s))"
| "bitset_step s (fst (bitset_reset h s))"
| "bitset_step s (fst (bitset_to_u64 h s))"
| "bitset_step s (fst (bitset_and_eq l r s))"
| "bitset_step s (fst (bitset_or_eq l r s))"
| "bitset_step s (fst (bitset_xor_eq l r s))"
| "bitset_step s (fst (bitset_not_eq h s))"
| "bitset_step s (fst (bitset_bitwise_copy malloc realloc l r operation s))"
| "bitset_step s (fst (bitset_complement_copy malloc realloc h s))"
| "bitset_step s (fst (bitset_shift_left h n s))"
| "bitset_step s (fst (bitset_shift_right h n s))"
| "bitset_step s (fst (bitset_life_step_toroidal cur nxt width height s))"

lemma clean_from_u64:
  assumes "all_clean s"
  shows "all_clean (fst (bitset_from_u64 malloc realloc w s))"
proof -
  obtain s1 h where n: "bitset_new malloc realloc 64 s = (s1, h)" by fastforce
  note c = new_clean [OF assms n]
  show ?thesis
  proof (cases "deref h s1")
    case None
    then show ?thesis using n c(1) by (simp add: bitset_from_u64_def)
  next
    case (Some b)
    with c(2) have "bitset_ok (b\<lparr>len_bits := 64, words := (words b)[0 := w]\<rparr>)" by (simp add: bitset_ok_def)
    moreover have "clean (b\<lparr>len_bits := 64, words := (words b)[0 := w]\<rparr>)" by (simp add: clean_def words_for_bits_def)
    ultimately show ?thesis using n c(1) Some by (simp add: bitset_from_u64_def all_clean_store)
  qed
qed

lemma clean_new_masked:
  assumes "all_clean s" and "bitset_new malloc realloc (int n) s = (s1, h)" and "deref h s1 = Some b"
  shows "all_clean (store h (bitset_mask_tail (map_words f (b\<lparr>len_bits := n\<rparr>))) s1)"
  using new_clean [OF assms(1,2)] assms(3) by (intro all_clean_masked) (auto simp: bitset_ok_def)

lemma clean_copies:
  assumes "all_clean s"
  shows "all_clean (fst (bitset_bitwise_copy malloc realloc l r operation s))"
    and "all_clean (fst (bitset_complement_copy malloc realloc h0 s))"
  using assms new_clean(1) [OF assms] clean_new_masked [OF assms]
  by (auto simp: bitset_bitwise_copy_def bitset_complement_copy_def Let_def split: option.split prod.split)

lemma clean_bits:
  assumes "all_clean s"
  shows "all_clean (fst (bitset_set h i v s))" and "all_clean (fst (bitset_set_fast h i v s))"
    and "all_clean (fst (bitset_toggle h i s))"
proof -
  have set: "all_clean (store h' c s)" if "deref h s = Some b" "bitset_set_bit b j x = (c, rc)" for b c rc j x h'
    using all_clean_set_bit [OF assms that(1), of h' j x] that(2) by simp
  show "all_clean (fst (bitset_set h i v s))" "all_clean (fst (bitset_set_fast h i v s))" "all_clean (fst (bitset_toggle h i s))"
    using assms set by (auto simp: bitset_set_def bitset_set_fast_def bitset_toggle_def Let_def split: option.split prod.split)
qed

lemma clean_lengths:
  assumes "all_clean s"
  shows "all_clean (fst (bitset_clear h s))" and "all_clean (fst (bitset_free h s))"
    and "all_clean (fst (bitset_pop h s))" and "all_clean (fst (bitset_resize realloc h n v s))"
proof -
  show "all_clean (fst (bitset_clear h s))" using assms all_cleanD [OF assms]
    by (auto simp: bitset_clear_def bitset_ok_def clean_def words_for_bits_def intro!: all_clean_store split: option.split)
  show "all_clean (fst (bitset_free h s))" using assms by (auto simp: bitset_free_def all_clean_def split: option.split)
  show "all_clean (fst (bitset_pop h s))" using assms all_cleanD [OF assms] pop_spec
    by (auto simp: bitset_pop_def intro!: all_clean_store split: option.split)
  have "all_clean (store h (resized c (nat n) (v = 1)) s)"
    if "deref h s = Some b" "bitset_ensure_capacity realloc b (nat n) = Some c" for b c
    using ensure_capacity_spec [OF _ that(2)] all_cleanD [OF assms that(1)] resized_spec
    by (intro all_clean_store assms) auto
  then show "all_clean (fst (bitset_resize realloc h n v s))" using assms
    by (auto simp: bitset_resize_def split: option.split)
qed

lemma clean_push:
  assumes "all_clean s" and "\<And>b. deref h s = Some b \<Longrightarrow> zero_ahead b"
  shows "all_clean (fst (bitset_push realloc h v s))"
proof -
  have "all_clean (store h d s)"
    if "deref h s = Some b" "bitset_ensure_capacity realloc b (Suc (len_bits b)) = Some c"
      "bitset_set_bit (c\<lparr>len_bits := Suc (len_bits c)\<rparr>) (len_bits c) x = (d, rc)" for b c d x rc
  proof -
    have b: "bitset_ok b" "clean b" using all_cleanD [OF assms(1) that(1)] by simp_all
    have d: "d = fst (bitset_set_bit (c\<lparr>len_bits := Suc (len_bits c)\<rparr>) (len_bits c) x)" by (simp add: that(3))
    from ensure_capacity_spec [OF b(1) that(2)] have "bitset_ok c" "len_bits c < cap_bits c" by auto
    then show ?thesis unfolding d using push_clean [OF b assms(2) [OF that(1)] that(2)] push_spec(2)
      by (intro all_clean_store assms(1)) auto
  qed
  then show ?thesis using assms(1) by (auto simp: bitset_push_def split: option.split prod.split)
qed

lemma clean_combine: "all_clean s \<Longrightarrow> all_clean (fst (bitset_combine_eq f l r s))"
  by (auto simp: bitset_combine_eq_def dest: all_cleanD intro: all_clean_masked split: option.split)

lemma clean_words:
  assumes "all_clean s"
  shows "all_clean (fst (bitset_set_all h s))" and "all_clean (fst (bitset_reset h s))"
    and "all_clean (fst (bitset_not_eq h s))" and "all_clean (fst (bitset_shift_left h n s))"
    and "all_clean (fst (bitset_shift_right h n s))"
proof -
  note b = all_cleanD [OF assms]
  show "all_clean (fst (bitset_set_all h s))" "all_clean (fst (bitset_not_eq h s))" using assms b
    by (auto simp: bitset_set_all_def bitset_not_eq_def intro: all_clean_masked split: option.split)
  show "all_clean (fst (bitset_reset h s))" using assms b
    by (auto simp: bitset_reset_def clean_def bit_of_map_words intro!: all_clean_store split: option.split)
  show "all_clean (fst (bitset_shift_left h n s))" using assms b shifted_left_spec
    by (auto simp: bitset_shift_left_def intro!: all_clean_store split: option.split)
  show "all_clean (fst (bitset_shift_right h n s))" using assms b shifted_right_spec
    by (auto simp: bitset_shift_right_def intro!: all_clean_store split: option.split)
qed

lemma clean_life: "all_clean s \<Longrightarrow> all_clean (fst (bitset_life_step_toroidal cur nxt width height s))"
proof -
  have cell: "all_clean s \<Longrightarrow> all_clean (fst (life_cell cur nxt w h p (s, n)))" for s w h p n
    by (auto simp: life_cell_def Let_def intro: all_clean_set_bit split: option.split prod.split)
  have cells: "all_clean (fst st) \<Longrightarrow> all_clean (fst (fold (life_cell cur nxt w h) ps st))" for w h ps st
  proof (induction ps arbitrary: st)
    case (Cons p ps)
    have "all_clean (fst (life_cell cur nxt w h p st))" using cell Cons.prems by (metis prod.collapse)
    then show ?case using Cons.IH by simp
  qed simp
  assume s: "all_clean s"
  have "all_clean (store nxt (map_words (\<lambda>i w. 0) b) s)" if "deref nxt s = Some b" for b
    using all_cleanD [OF s that] by (intro all_clean_store s) (auto simp: clean_def bit_of_map_words)
  then show ?thesis using s cells
    by (auto simp: bitset_life_step_toroidal_def Let_def split: option.split)
qed

lemma step_clean: "bitset_step s s' \<Longrightarrow> all_clean s \<Longrightarrow> all_clean s'"
proof (induction rule: bitset_step.induct)
  case (1 s malloc realloc n)
  then show ?case using new_clean(1) by (metis prod.collapse)
next
  case (8 s h i)
  then show ?case by (auto simp: bitset_get_def split: option.split)
next
  case (10 h s realloc v)
  then show ?case by (intro clean_push)
next
  case (14 s h)
  then show ?case by (auto simp: bitset_to_u64_def split: option.split)
qed (simp_all add: clean_from_u64 clean_lengths clean_bits clean_words clean_copies clean_life clean_combine
    bitset_and_eq_def bitset_or_eq_def bitset_xor_eq_def)

text \<open>C33. After any operations that start from no bitsets, or from bitsets whose bits above the length are
  clear, and where a push to a word boundary enters a word that is new or zero: those bits are clear
  in every bitset, the number of ones counted is that of the list of bits, a bitset fits 64 bits
  exactly when its bits from 64 on are false, and the word it then converts to has its bits.\<close>

theorem bitset_counts:
  assumes "bitset_step\<^sup>*\<^sup>* s0 s" and "all_clean s0" and "deref h s = Some b"
  shows "all_clean s \<and>
    bitset_count_ones h s = int (length (filter id (bits_of b))) \<and>
    bitset_fits_u64 h s = (\<forall>i<len_bits b. 64 \<le> i \<longrightarrow> \<not> bits_of b ! i) \<and>
    (bitset_fits_u64 h s \<longrightarrow> (\<forall>i<64. bit (snd (bitset_to_u64 h s)) i = (i < len_bits b \<and> bits_of b ! i)))"
proof -
  from assms(1,2) have s: "all_clean s" by (induction rule: rtranclp_induct) (blast intro: step_clean)+
  then have b: "bitset_ok b" "clean b" using all_cleanD [OF s assms(3)] by simp_all
  show ?thesis
    using s count_ones_clean [OF assms(3) b(2)] fits_iff [OF b assms(3)] to_u64_bits [OF b assms(3)] by blast
qed

text \<open>Emptying a bitset keeps its words, and appending does not clear the word it enters: after
  clearing and appending a 0 the bitset is the list of one 0, but the count still sees the old
  bits 1 to 63.\<close>

theorem push_exposes_stale_bits:
  assumes "state_ok s" and "deref h s = Some b" and "1 \<le> cap_bits b"
    and "s' = fst (bitset_push realloc h 0 (fst (bitset_clear h s)))"
  shows "map_option bits_of (deref h s') = Some [False] \<and>
    bitset_count_ones h s' = int (length (filter (bit_of b) [1..<64]))"
proof -
  note b = deref_ok [OF assms(1,2)]
  let ?b = "b\<lparr>len_bits := 1, words := (words b)[0 := unset_bit 0 (words b ! 0)]\<rparr>"
  have w: "0 < length (words b)" using b assms(3) words_for_bits_mono [of 1 "cap_bits b"]
    by (simp add: bitset_ok_def words_for_bits_def split: if_splits)
  have "s' = store h ?b (store h (b\<lparr>len_bits := 0\<rparr>) s)"
    using assms(2,3) b by (simp add: assms(4) bitset_clear_def bitset_push_def bitset_ensure_capacity_def set_bit_eq)
  then have d: "deref h s' = Some ?b" using b by simp
  have "bits_of ?b = [False]"
    using w by (simp add: bits_of_def bit_of_def bit_unset_bit_iff)
  moreover have "bitset_count_ones h s' = int (popcountll (unset_bit 0 (words b ! 0)))"
    using d w by (simp add: bitset_count_ones_def words_for_bits_def)
  moreover have "filter (bit (unset_bit 0 (words b ! 0))) [0..<64] = filter (bit_of b) [1..<64]"
  proof -
    have "[0..<64] = 0 # [1..<64]" by (simp add: upt_conv_Cons)
    then show ?thesis by (auto simp: bit_unset_bit_iff bit_of_def simp del: upt_rec_numeral intro!: filter_cong)
  qed
  ultimately show ?thesis using d by (simp add: popcountll_def)
qed

section \<open>The game of life\<close>

text \<open>A cell of the grid, wrapped around both ways, and the rule.\<close>

definition alive :: "bool list \<Rightarrow> nat \<Rightarrow> nat \<Rightarrow> int \<Rightarrow> int \<Rightarrow> bool" where
  "alive xs w h x y = xs ! (nat (y mod int h) * w + nat (x mod int w))"

definition life_rule :: "bool list \<Rightarrow> nat \<Rightarrow> nat \<Rightarrow> nat \<Rightarrow> nat \<Rightarrow> bool" where
  "life_rule xs w h x y =
     (let n = length (filter (\<lambda>(dx, dy). alive xs w h (int x + dx) (int y + dy))
                [(-1, -1), (0, -1), (1, -1), (-1, 0), (1, 0), (-1, 1), (0, 1), (1, 1)])
      in n = 3 \<or> n = 2 \<and> alive xs w h (int x) (int y))"

lemma wrap_mod: "0 < n \<Longrightarrow> - 1 \<le> x \<Longrightarrow> x \<le> int n \<Longrightarrow>
    (if x < 0 then x + int n else if int n \<le> x then x - int n else x) = x mod int n"
proof -
  assume n: "0 < n" and x: "- 1 \<le> x" "x \<le> int n"
  consider "x = - 1" | "x = int n" | "0 \<le> x" "x < int n" using x by linarith
  then show ?thesis
  proof cases
    case 1
    then show ?thesis using n by (simp add: zmod_minus1)
  qed (use n in simp_all)
qed

lemma grid_index: "x < w \<Longrightarrow> y < h \<Longrightarrow> y * w + x < w * h" for x y :: nat
proof -
  assume "x < w" "y < h"
  then have "y * w + x < Suc y * w" by simp
  also have "\<dots> \<le> h * w" using \<open>y < h\<close> by (intro mult_le_mono1) simp
  finally show ?thesis by (simp add: mult.commute)
qed

lemma get_bit_wrapped:
  assumes "0 < w" and "0 < h" and "len_bits b = w * h" and "- 1 \<le> x" "x \<le> int w" "- 1 \<le> y" "y \<le> int h"
  shows "bitset_get_bit_wrapped b w h x y = of_bool (alive (bits_of b) w h x y)"
proof -
  have "nat (x mod int w) < w" "nat (y mod int h) < h" using assms(1,2) by (simp_all add: nat_less_iff)
  then have "nat (y mod int h) * w + nat (x mod int w) < len_bits b" using grid_index assms(3) by simp
  then show ?thesis using assms
    by (simp add: bitset_get_bit_wrapped_def Let_def wrap_mod get_bit_eq alive_def)
qed

lemma life_cell_rule:
  assumes "len_bits b = w * h" and "x < w" and "y < h"
  shows "(if bitset_get_bit b (y * w + x) = 1 then life_neighbors b w h x y = 2 \<or> life_neighbors b w h x y = 3
          else life_neighbors b w h x y = 3) = life_rule (bits_of b) w h x y"
proof -
  have wh: "0 < w" "0 < h" using assms by simp_all
  have i: "y * w + x < len_bits b" using grid_index assms by simp
  have "alive (bits_of b) w h (int x) (int y) = bit_of b (y * w + x)"
    using assms i by (simp add: alive_def)
  then have now: "bitset_get_bit b (y * w + x) = of_bool (alive (bits_of b) w h (int x) (int y))"
    using i by (simp add: get_bit_eq)
  note wr = get_bit_wrapped [OF wh assms(1)]
  have "life_neighbors b w h x y = int (length (filter (\<lambda>(dx, dy). alive (bits_of b) w h (int x + dx) (int y + dy))
      [(-1, -1), (0, -1), (1, -1), (-1, 0), (1, 0), (-1, 1), (0, 1), (1, 1)]))"
    using assms(2,3) by (simp add: life_neighbors_def Let_def wr)
  then show ?thesis unfolding now by (auto simp: life_rule_def Let_def)
qed

lemma store_same: "deref h s = Some b \<Longrightarrow> store h b s = s"
  by (simp add: store_def deref_def fun_upd_idem split: if_splits)

lemma store_twice [simp]: "store h c (store h b s) = store h c s"
  by (simp add: store_def)

lemma deref_store_other: "h \<noteq> h' \<Longrightarrow> deref h (store h' b s) = deref h s"
  by (simp add: store_def deref_def)

lemma life_cells_step:
  assumes "deref cur s = Some a" and "deref nxt s = Some c" and "cur \<noteq> nxt" and "bitset_ok c"
    and "len_bits a = w * h" and "len_bits c = w * h" and "\<forall>(x, y) \<in> set ps. x < w \<and> y < h"
  shows "\<exists>c'. fold (life_cell cur nxt w h) ps (s, n) =
      (store nxt c' s, n + int (length (filter (\<lambda>(x, y). life_rule (bits_of a) w h x y) ps))) \<and>
    bitset_ok c' \<and> len_bits c' = w * h \<and>
    (\<forall>j. bit_of c' j \<longleftrightarrow> bit_of c j \<or> (\<exists>(x, y) \<in> set ps. life_rule (bits_of a) w h x y \<and> j = y * w + x))"
  using assms
proof (induction ps arbitrary: s c n)
  case Nil
  then show ?case by (auto simp: store_same intro!: exI [of _ c])
next
  case (Cons p ps)
  obtain x y where p: "p = (x, y)" by (cases p)
  with Cons.prems have xy: "x < w" "y < h" by auto
  have i: "y * w + x < len_bits c" using grid_index [OF xy] Cons.prems(6) by simp
  have nz: "nxt \<noteq> 0" using Cons.prems(2) by (auto simp: deref_def)
  let ?alive = "life_rule (bits_of a) w h x y"
  let ?c = "if ?alive then fst (bitset_set_bit c (y * w + x) True) else c"
  have cell: "life_cell cur nxt w h (x, y) (s, n) = (store nxt ?c s, n + of_bool ?alive)"
    using Cons.prems(1,2) life_cell_rule [OF Cons.prems(5) xy]
    by (simp add: life_cell_def Let_def store_same)
  have "bitset_ok ?c" "len_bits ?c = w * h" using Cons.prems(4,6) by simp_all
  then obtain c' where c': "fold (life_cell cur nxt w h) ps (store nxt ?c s, n + of_bool ?alive) =
      (store nxt c' (store nxt ?c s), n + of_bool ?alive + int (length (filter (\<lambda>(x, y). life_rule (bits_of a) w h x y) ps)))"
    "bitset_ok c'" "len_bits c' = w * h"
    "\<forall>j. bit_of c' j \<longleftrightarrow> bit_of ?c j \<or> (\<exists>(x, y) \<in> set ps. life_rule (bits_of a) w h x y \<and> j = y * w + x)"
    using Cons.IH [of "store nxt ?c s" ?c "n + of_bool ?alive"] Cons.prems nz by (auto simp: deref_store_other)
  have "bit_of ?c j \<longleftrightarrow> bit_of c j \<or> ?alive \<and> j = y * w + x" for j
    using bit_of_set_bit [OF Cons.prems(4) i] by auto
  with c' show ?case by (intro exI [of _ c']) (auto simp: cell p)
qed

lemma set_life_cells: "set (life_cells w h) = {..<w} \<times> {..<h}"
  by (auto simp: life_cells_def)

text \<open>One step of the game of life on a torus: for two different bitsets of the size of the grid,
  every cell of the second becomes what the rule makes of the cell of the first and its eight
  neighbours, which wrap around both edges also where the grid is one cell wide or high, and the
  number of living cells is returned. The first bitset is left as it is.\<close>

theorem life_step_rule:
  assumes "state_ok s" and "deref cur s = Some a" and "deref nxt s = Some b" and "cur \<noteq> nxt"
    and "0 < w" and "0 < h" and "len_bits a = w * h" and "len_bits b = w * h"
  shows "case bitset_life_step_toroidal cur nxt (int w) (int h) s of (s', n) \<Rightarrow>
    updates s nxt (map (\<lambda>i. life_rule (bits_of a) w h (i mod w) (i div w)) [0..<w * h]) s' \<and>
    n = int (length (filter (\<lambda>(x, y). life_rule (bits_of a) w h x y) (life_cells w h)))"
proof -
  note b = deref_ok [OF assms(1,3)]
  let ?z = "map_words (\<lambda>i w. 0) b"
  let ?s = "store nxt ?z s"
  have z: "bitset_ok ?z" "len_bits ?z = w * h" "deref nxt ?s = Some ?z" "deref cur ?s = Some a"
    using b assms by (simp_all add: deref_store_other)
  have "\<forall>(x, y) \<in> set (life_cells w h). x < w \<and> y < h" by (simp add: set_life_cells)
  from life_cells_step [OF z(4,3) assms(4) z(1) assms(7) z(2) this, of 0] obtain c where
    c: "fold (life_cell cur nxt w h) (life_cells w h) (?s, 0) =
      (store nxt c ?s, int (length (filter (\<lambda>(x, y). life_rule (bits_of a) w h x y) (life_cells w h))))"
    "bitset_ok c" "len_bits c = w * h"
    "\<forall>j. bit_of c j \<longleftrightarrow> bit_of ?z j \<or> (\<exists>(x, y) \<in> set (life_cells w h). life_rule (bits_of a) w h x y \<and> j = y * w + x)"
    by auto
  have "bits_of c = map (\<lambda>i. life_rule (bits_of a) w h (i mod w) (i div w)) [0..<w * h]"
  proof (rule bits_of_eqI)
    fix j assume "j < length (map (\<lambda>i. life_rule (bits_of a) w h (i mod w) (i div w)) [0..<w * h])"
    then have j: "j < w * h" by simp
    then have "\<not> bit_of ?z j" using bit_of_map_words b less_in_use [of j b] assms(8) by simp
    moreover have "j div w < h" "j mod w < w" using j assms(5) by (simp_all add: less_mult_imp_div_less mult.commute)
    moreover have "(\<exists>(x, y) \<in> set (life_cells w h). life_rule (bits_of a) w h x y \<and> j = y * w + x) \<longleftrightarrow>
        life_rule (bits_of a) w h (j mod w) (j div w)"
    proof
      assume "\<exists>(x, y) \<in> set (life_cells w h). life_rule (bits_of a) w h x y \<and> j = y * w + x"
      then obtain x y where "x < w" "life_rule (bits_of a) w h x y" "j = y * w + x" by (auto simp: set_life_cells)
      then show "life_rule (bits_of a) w h (j mod w) (j div w)" by simp
    next
      assume "life_rule (bits_of a) w h (j mod w) (j div w)"
      with \<open>j div w < h\<close> \<open>j mod w < w\<close> show "\<exists>(x, y) \<in> set (life_cells w h). life_rule (bits_of a) w h x y \<and> j = y * w + x"
        by (intro bexI [of _ "(j mod w, j div w)"]) (simp_all add: set_life_cells)
    qed
    ultimately have "bit_of c j \<longleftrightarrow> life_rule (bits_of a) w h (j mod w) (j div w)" using c(4) by simp
    then show "bit_of c j = map (\<lambda>i. life_rule (bits_of a) w h (i mod w) (i div w)) [0..<w * h] ! j" using j by simp
  qed (use c(3) in simp)
  moreover have "bitset_life_step_toroidal cur nxt (int w) (int h) s =
      fold (life_cell cur nxt w h) (life_cells w h) (?s, 0)"
    using assms by (simp add: bitset_life_step_toroidal_def)
  ultimately show ?thesis using c(1,2) b assms(1) by (simp add: updates_store)
qed

section \<open>Examples\<close>

definition grid_bitset :: bitset where
  "grid_bitset = \<lparr>words = [5], len_bits = 4, cap_bits = 64\<rparr>"

definition sample_bitsets :: bitset_state where
  "sample_bitsets = \<lparr>live = (\<lambda>h. if h = 1 \<or> h = 2 then Some grid_bitset else None), bitset_last_error = []\<rparr>"

lemma sample_bitsets_ok: "state_ok sample_bitsets" "bitset_ok grid_bitset" "deref 1 sample_bitsets = Some grid_bitset"
  "deref 2 sample_bitsets = Some grid_bitset"
  by (simp_all add: state_ok_def sample_bitsets_def grid_bitset_def bitset_ok_def words_for_bits_def deref_def)

lemma sample_clean: "clean grid_bitset"
proof -
  have "grid_bitset = bitset_mask_tail grid_bitset" by code_simp
  then show ?thesis using clean_mask_tail [OF sample_bitsets_ok(2)] by simp
qed

lemma bitset_refines_list_witness:
  "snd (bitset_get 1 2 sample_bitsets) =
     (if 0 \<le> (2 :: int) \<and> nat 2 < length (bits_of grid_bitset) then of_bool (bits_of grid_bitset ! nat 2) else - 1)"
  by (rule bitset_refines_list [OF sample_bitsets_ok(1,3), THEN conjunct1])

lemma bitset_word_operations_witness:
  "updates sample_bitsets 1 (map Not (bits_of grid_bitset)) (fst (bitset_not_eq 1 sample_bitsets))"
  using bitset_word_operations [OF sample_bitsets_ok(1,3,4), of 0] by blast

lemma bitset_counts_witness:
  "\<exists>b. deref 1 (fst (bitset_shift_right 1 1 (fst (bitset_pop 1 sample_bitsets)))) = Some b \<and>
     bitset_count_ones 1 (fst (bitset_shift_right 1 1 (fst (bitset_pop 1 sample_bitsets)))) = int (length (filter id (bits_of b)))"
proof -
  let ?s = "fst (bitset_shift_right 1 1 (fst (bitset_pop 1 sample_bitsets)))"
  have "bitset_step\<^sup>*\<^sup>* sample_bitsets ?s" by (rule rtranclp_trans [OF r_into_rtranclp r_into_rtranclp]) (rule bitset_step.intros)+
  moreover have "all_clean sample_bitsets"
    using sample_bitsets_ok(2) sample_clean by (simp add: all_clean_def sample_bitsets_def)
  moreover have "deref 1 ?s \<noteq> None"
    by (simp add: bitset_pop_def bitset_shift_right_def sample_bitsets_ok(3) split: option.split) (simp add: grid_bitset_def)
  ultimately show ?thesis using bitset_counts by blast
qed

lemma push_exposes_stale_bits_witness:
  "bitset_count_ones 1 (fst (bitset_push (\<lambda>n. True) 1 0 (fst (bitset_clear 1 sample_bitsets)))) = 1"
proof -
  have "1 \<le> cap_bits grid_bitset" by (simp add: grid_bitset_def)
  from push_exposes_stale_bits [OF sample_bitsets_ok(1,3) this refl, of "\<lambda>n. True"]
  have "bitset_count_ones 1 (fst (bitset_push (\<lambda>n. True) 1 0 (fst (bitset_clear 1 sample_bitsets)))) =
      int (length (filter (bit_of grid_bitset) [1..<64]))" by simp
  moreover have "length (filter (bit_of grid_bitset) [1..<64]) = 1" by code_simp
  ultimately show ?thesis by simp
qed

lemma life_step_rule_witness:
  "snd (bitset_life_step_toroidal 1 2 (int 2) (int 2) sample_bitsets) =
     int (length (filter (\<lambda>(x, y). life_rule (bits_of grid_bitset) 2 2 x y) (life_cells 2 2)))"
proof -
  have "len_bits grid_bitset = 2 * 2" by (simp add: grid_bitset_def)
  from life_step_rule [OF sample_bitsets_ok(1,3,4) _ _ _ this this] show ?thesis by (simp split: prod.splits)
qed

end
