(* ===== verification/Syntax_Tree.thy ===== *)
theory Syntax_Tree
  imports Type_Nodes
begin

text \<open>
  Expressions and statements of the syntax tree (\<^verbatim>\<open>include/ast.h\<close>), one constructor per class and
  its fields in the order of the source. \<open>NullExpr\<close> and \<open>NullStmt\<close> are null pointers, and a
  pointer to a list is an option. Floating point literals are their bit patterns; a null entry of
  a list of arms or of map entries is a constructor of its own. Positions are left out.
\<close>

datatype binary_op =
  OP_PLUS | OP_MINUS | OP_MULTIPLY | OP_DIVIDE | OP_MODULO | OP_LT | OP_GT | OP_LE | OP_GE | OP_EQ
| OP_NE | OP_SPACESHIP | OP_BITAND | OP_BITOR | OP_BITXOR | OP_SHL | OP_SHR | OP_COMMA | OP_AND
| OP_OR

datatype unary_op = OP_NEG | OP_NOT | OP_BITNOT | OP_ADDR | OP_ADDR_MUT | OP_DEREF

datatype update_kind = KIND_INCREMENT | KIND_DECREMENT

datatype requirement_kind = RequireSimple | RequireType | RequireCompound | RequireNested

datatype pattern_kind =
  PATTERN_OK | PATTERN_ERR | PATTERN_SOME | PATTERN_NONE | PATTERN_LITERAL | PATTERN_WILDCARD

datatype iterator_kind = ITER_KEYS | ITER_VALUES | ITER_ENTRIES

datatype branch_prediction = NoPrediction | Likely | Unlikely

datatype print_kind = PRINT_STDOUT | PRINTLN_STDOUT | PRINT_STDERR | EPRINTLN_STDERR

record parameter =
  param_type :: type_node
  param_name :: string
  is_pack :: bool
  is_shared_self :: bool

record parameter_list =
  parameters :: "parameter list"
  is_var_arg :: bool

datatype 'e requirement = Requirement requirement_kind 'e type_node string "type_node list" bool

datatype 'e match_pattern = NullPattern | MatchPattern pattern_kind string 'e

datatype 'e match_arm = NullArm | MatchArm "'e match_pattern" 'e

datatype 'e map_entry = NullEntry | MapEntry 'e 'e

datatype (plugins only: size code) expr =
  NullExpr
| IntLiteral int type_kind
| BoolLiteral bool
| FloatLiteral int
| DoubleLiteral int
| StringLiteral string
| Identifier string
| BinaryOp binary_op expr expr
| FoldExpression binary_op expr bool
| UnaryOp unary_op expr
| UpdateExpression update_kind bool expr
| Ternary expr expr expr
| TryExpression expr
| SizeofExpression type_node expr
| CexprExpression expr
| InlineAsm type_node string string "expr list" bool
| FunctionCall string "expr list"
| ConceptApplication string "type_node list"
| RequiresExpression "parameter_list option" "expr requirement list"
| CallableInvoke expr "expr list"
| MethodCall expr string "expr list"
| MatchExpression expr "expr match_arm list"
| EnumLiteral string string
| CastExpression type_kind expr bool
| RangeExpression expr expr bool
| ListLiteral "expr list option"
| MapLiteral "expr map_entry list option"
| Closure "parameter_list option" "stmt list option"
| ArrayFill expr expr
| IndexExpression expr expr
| TupleLiteral "expr list option"
| TupleAccess expr int
| MapIterator expr iterator_kind
| FieldAccess string string expr
| Format string "expr list" "(string \<times> expr) list"
| StructLiteral string string "string list" "(string \<times> expr) list"
and stmt =
  NullStmt
| BlockStatement "stmt list option" bool
| DerefAssignment expr expr
| ExpressionStatement expr
| ReturnStmt expr
| BreakStmt
| ContinueStmt
| ThrowStmt expr
| LetDecl type_node string expr branch_prediction
| CexprDecl type_node string expr branch_prediction
| VarDecl type_node string expr bool bool bool branch_prediction
| Assignment string expr
| FieldAssignment string string expr expr
| IfStmt stmt expr "stmt list option" stmt "stmt list option" bool branch_prediction
| CexprIf expr "stmt list option" stmt "stmt list option"
| ForStmt string string expr "stmt list option"
| WhileStmt expr "stmt list option" bool
| TryCatch stmt string type_node stmt
| PrintStmt print_kind string "expr list" "(string \<times> expr) list" bool
| AssertEq expr expr
| AssertStmt expr
| StaticAssert expr
| StructInit string string
| NamespaceAliasDecl string string
| TypeAliasStmt string "string list" "(string \<times> string) list" type_node

text \<open>\<^verbatim>\<open>if(list) for(auto* x : list->...)\<close>: the elements, none for a null list.\<close>

definition elems :: "'a list option \<Rightarrow> 'a list" where
  "elems xs = (case xs of None \<Rightarrow> [] | Some ys \<Rightarrow> ys)"

lemma elems_simps [simp]: "elems None = []" "elems (Some ys) = ys"
  by (simp_all add: elems_def)

lemma elems_size [termination_simp]: "x \<in> set (elems xs) \<Longrightarrow> f x < Suc (size_option (size_list f) xs)"
  by (cases xs) (auto intro: le_imp_less_Suc less_imp_le_nat size_list_estimation')

end
