(* ===== verification/Borrow_Places.thy ===== *)
theory Borrow_Places
  imports Syntax_Tree "HOL-Library.Signed_Division" "HOL-Library.Sublist" "HOL-Library.Word"
begin

text \<open>
  Places of the borrow checker (\<^verbatim>\<open>src/ir/borrows.cpp\<close>, the beginning): the variable an lvalue
  belongs to, the path of fields, elements and keys it names as a string, and the test whether two
  such paths can meet in memory. The state of the checker is a record with the maps of
  \<^verbatim>\<open>CodeGenerator\<close> (\<^verbatim>\<open>include/ir.h\<close>); a map the code iterates is a sorted association list, and a
  \<^verbatim>\<open>std::set\<close> a set.
\<close>

section \<open>The state of the checker\<close>

datatype constexpr_kind = ConstInt | ConstFloat | ConstBool | ConstType | ConstOpaqueStruct

record constexpr_value =
  cv_kind :: constexpr_kind
  cv_int :: int
  cv_bool :: bool

type_synonym places = "(string, string set) omap"

record borrow_state =
  constexpr_values :: "string \<rightharpoonup> constexpr_value"
  global_named_values :: "string set"
  variable_scope_depth :: "string \<rightharpoonup> int"
  moved_variables :: "string set"
  immutable_reference_variables :: "string set"
  pointer_borrow_target :: "(string, string) omap"
  pointer_borrow_parent :: "(string, string) omap"
  pointer_borrow_place :: "(string, string) omap"
  aggregate_borrow_origins :: "(string, string set) omap"
  aggregate_borrow_places :: "(string, places) omap"
  aggregate_borrow_field_places :: "(string, (string, places) omap) omap"
  active_borrowers :: "(string, string set) omap"
  active_mut_borrower :: "(string, string) omap"
  runtime_closure_borrow_owners :: "(string, string set) omap"
  pointer_parameter_borrow_origins :: "string set"

section \<open>Owners and places of lvalues\<close>

definition hex_digit :: "nat \<Rightarrow> char" where
  "hex_digit n = ''0123456789abcdef'' ! n"

definition hex_byte :: "char \<Rightarrow> string" where
  "hex_byte c = [hex_digit (of_char c div 16), hex_digit (of_char c mod 16)]"

fun borrow_map_key_path :: "expr \<Rightarrow> string" where
  "borrow_map_key_path (IntLiteral v t) = ''['' @ int_str v @ '']''"
| "borrow_map_key_path (StringLiteral s) = ''[s:'' @ concat (map hex_byte s) @ '']''"
| "borrow_map_key_path _ = ''[*]''"

fun resolve_owner :: "borrow_state \<Rightarrow> expr \<Rightarrow> string" where
  "resolve_owner s (Identifier name) = name"
| "resolve_owner s (FieldAccess struct_name field object) =
     (if object = NullExpr then struct_name else resolve_owner s object)"
| "resolve_owner s (IndexExpression base index) = resolve_owner s base"
| "resolve_owner s (TupleAccess tuple i) = resolve_owner s tuple"
| "resolve_owner s (UnaryOp op operand) =
     (case (op, operand) of
        (OP_DEREF, Identifier name) \<Rightarrow>
          (case omap_find (pointer_borrow_target s) name of Some owner \<Rightarrow> owner | None \<Rightarrow> name)
      | _ \<Rightarrow> resolve_owner s operand)"
| "resolve_owner s _ = ''''"

definition int64_min :: int where "int64_min = - (2 ^ 63)"
definition int64_max :: int where "int64_max = 2 ^ 63 - 1"

definition in_int64 :: "int \<Rightarrow> int option" where
  "in_int64 r = (if r < int64_min \<or> int64_max < r then None else Some r)"

text \<open>\<^verbatim>\<open>/\<close> and \<^verbatim>\<open>%\<close> round towards zero; the two cases that trap are excluded.\<close>

definition constant_binary :: "binary_op \<Rightarrow> int \<Rightarrow> int \<Rightarrow> int option" where
  "constant_binary op l r =
     (case op of
        OP_PLUS \<Rightarrow> in_int64 (l + r)
      | OP_MINUS \<Rightarrow> in_int64 (l - r)
      | OP_MULTIPLY \<Rightarrow> in_int64 (l * r)
      | OP_DIVIDE \<Rightarrow> if r = 0 \<or> l = int64_min \<and> r = - 1 then None else Some (l sdiv r)
      | OP_MODULO \<Rightarrow> if r = 0 \<or> l = int64_min \<and> r = - 1 then None else Some (l smod r)
      | _ \<Rightarrow> None)"

fun constant_integer :: "borrow_state \<Rightarrow> expr \<Rightarrow> int option" where
  "constant_integer s (IntLiteral v t) = Some v"
| "constant_integer s (CexprExpression e) = constant_integer s e"
| "constant_integer s (Identifier name) =
     (case constexpr_values s name of
        None \<Rightarrow> None
      | Some c \<Rightarrow> if cv_kind c = ConstInt then Some (cv_int c)
          else if cv_kind c = ConstBool then Some (if cv_bool c then 1 else 0) else None)"
| "constant_integer s (UnaryOp op e) =
     (case constant_integer s e of
        None \<Rightarrow> None
      | Some v \<Rightarrow>
          (case op of
             OP_NEG \<Rightarrow> if v = int64_min then None else Some (- v)
           | OP_BITNOT \<Rightarrow> Some (- v - 1)
           | _ \<Rightarrow> None))"
| "constant_integer s (BinaryOp op l r) =
     (case (constant_integer s l, constant_integer s r) of
        (Some a, Some b) \<Rightarrow> constant_binary op a b
      | _ \<Rightarrow> None)"
| "constant_integer s _ = None"

text \<open>\<^verbatim>\<open>base.empty() ? "" : base + suffix\<close>\<close>

definition extend_place :: "string \<Rightarrow> string \<Rightarrow> string" where
  "extend_place base rest = (if base = [] then [] else base @ rest)"

fun resolve_place :: "borrow_state \<Rightarrow> expr \<Rightarrow> string" where
  "resolve_place s (Identifier name) = name"
| "resolve_place s (FieldAccess struct_name field object) =
     extend_place (if object = NullExpr then struct_name else resolve_place s object) (''.'' @ field)"
| "resolve_place s (IndexExpression base index) =
     extend_place (resolve_place s base)
       (case index of
          StringLiteral k \<Rightarrow> borrow_map_key_path index
        | _ \<Rightarrow> (case constant_integer s index of Some v \<Rightarrow> ''['' @ int_str v @ '']'' | None \<Rightarrow> ''[*]''))"
| "resolve_place s (TupleAccess tuple i) = extend_place (resolve_place s tuple) (''.'' @ int_str i)"
| "resolve_place s (UnaryOp op operand) =
     (case (op, operand) of
        (OP_DEREF, Identifier name) \<Rightarrow>
          (case omap_find (pointer_borrow_place s) name of Some place \<Rightarrow> place | None \<Rightarrow> name)
      | _ \<Rightarrow> resolve_place s operand)"
| "resolve_place s _ = ''''"

section \<open>Overlap\<close>

text \<open>A segment is a name and whether it was an index.\<close>

type_synonym segment = "string \<times> bool"

definition no_sep :: "char \<Rightarrow> bool" where
  "no_sep c \<longleftrightarrow> c \<noteq> CHR ''.'' \<and> c \<noteq> CHR ''[''"

function split_path :: "string \<Rightarrow> segment list" where
  "split_path [] = []"
| "split_path (c # p) =
     (if c = CHR ''.'' then (takeWhile no_sep p, False) # split_path (dropWhile no_sep p)
      else if c = CHR ''['' then
        (if CHR '']'' \<notin> set p then []
         else (takeWhile (\<lambda>c. c \<noteq> CHR '']'') p, True) # split_path (tl (dropWhile (\<lambda>c. c \<noteq> CHR '']'') p)))
      else (c # takeWhile no_sep p, False) # split_path (dropWhile no_sep p))"
  by pat_completeness auto
termination
  by (relation "measure length") (auto simp: less_Suc_eq_le length_dropWhile_le intro: le_trans [OF diff_le_self])

definition meets :: "segment \<Rightarrow> segment \<Rightarrow> bool" where
  "meets a b \<longleftrightarrow> snd a = snd b \<and> (fst a = fst b \<or> snd a \<and> (fst a = ''*'' \<or> fst b = ''*''))"

definition places_overlap :: "string \<Rightarrow> string \<Rightarrow> bool" where
  "places_overlap left right \<longleftrightarrow>
     left = [] \<or> right = [] \<or> left = right \<or>
     list_all (\<lambda>(a, b). meets a b) (zip (split_path left) (split_path right))"

section \<open>What a path stands for\<close>

fun seg_str :: "segment \<Rightarrow> string" where
  "seg_str (n, False) = CHR ''.'' # n"
| "seg_str (n, True) = CHR ''['' # n @ '']''"

fun seg_ok :: "segment \<Rightarrow> bool" where
  "seg_ok (n, False) = list_all no_sep n"
| "seg_ok (n, True) = (CHR '']'' \<notin> set n)"

definition render :: "string \<Rightarrow> segment list \<Rightarrow> string" where
  "render root gs = root @ concat (map seg_str gs)"

definition well_named :: "string \<Rightarrow> bool" where
  "well_named p \<longleftrightarrow> (\<exists>root gs. root \<noteq> [] \<and> list_all no_sep root \<and> list_all seg_ok gs \<and> p = render root gs)"

lemma takeWhile_no_sep:
  "list_all no_sep n \<Longrightarrow> rest = [] \<or> \<not> no_sep (hd rest) \<Longrightarrow>
   takeWhile no_sep (n @ rest) = n \<and> dropWhile no_sep (n @ rest) = rest"
  by (induction n) (cases rest; auto)+

lemma split_seg:
  assumes "seg_ok g" and "rest = [] \<or> \<not> no_sep (hd rest)"
  shows "split_path (seg_str g @ rest) = g # split_path rest"
proof (cases g)
  case (Pair n ix)
  show ?thesis
  proof (cases ix)
    case False
    with Pair assms takeWhile_no_sep [of n rest] show ?thesis by simp
  next
    case True
    have "takeWhile (\<lambda>c. c \<noteq> CHR '']'') (n @ CHR '']'' # rest) = n"
      and "dropWhile (\<lambda>c. c \<noteq> CHR '']'') (n @ CHR '']'' # rest) = CHR '']'' # rest"
      using assms(1) Pair True by (auto simp: takeWhile_append dropWhile_append)
    with Pair True show ?thesis by simp
  qed
qed

lemma segs_str_head: "concat (map seg_str gs) = [] \<or> \<not> no_sep (hd (concat (map seg_str gs)))"
proof (cases gs)
  case (Cons g gs')
  then show ?thesis by (cases g; cases "snd g") (auto simp: no_sep_def)
qed simp

lemma split_segs: "list_all seg_ok gs \<Longrightarrow> split_path (concat (map seg_str gs)) = gs"
proof (induction gs)
  case (Cons g gs)
  with split_seg [of g "concat (map seg_str gs)"] segs_str_head [of gs] show ?case by simp
qed simp

lemma split_render:
  assumes "root \<noteq> []" and "list_all no_sep root" and "list_all seg_ok gs"
  shows "split_path (render root gs) = (root, False) # gs"
proof (cases root)
  case (Cons c n)
  with assms takeWhile_no_sep [of n "concat (map seg_str gs)"] segs_str_head [of gs] split_segs [of gs]
  show ?thesis by (auto simp: render_def no_sep_def)
qed (use assms in simp)

lemma render_snoc: "render root gs @ seg_str g = render root (gs @ [g])"
  by (simp add: render_def)

lemma extend_well_named:
  assumes "well_named p" and "seg_ok g"
  shows "well_named (extend_place p (seg_str g)) \<and> split_path (extend_place p (seg_str g)) = split_path p @ [g]"
proof -
  from assms(1) obtain root gs where p: "root \<noteq> []" "list_all no_sep root" "list_all seg_ok gs" "p = render root gs"
    by (auto simp: well_named_def)
  then have "p \<noteq> []" by (simp add: render_def)
  then have e: "extend_place p (seg_str g) = render root (gs @ [g])" by (simp add: extend_place_def p(4) render_snoc)
  have gs: "list_all seg_ok (gs @ [g])" using p(3) assms(2) by simp
  with p(1,2) have "well_named (render root (gs @ [g]))" unfolding well_named_def by blast
  moreover have "split_path (render root (gs @ [g])) = split_path p @ [g]"
    unfolding p(4) by (simp add: split_render p gs del: list_all_append)
  ultimately show ?thesis unfolding e ..
qed

text \<open>A segment covers a concrete one when they are equal or it is the index of any element; a
  concrete segment is not itself that wildcard.\<close>

definition seg_covers :: "segment \<Rightarrow> segment \<Rightarrow> bool" where
  "seg_covers g c \<longleftrightarrow> snd g = snd c \<and> (fst g = fst c \<or> snd g \<and> fst g = ''*'')"

definition concrete :: "segment \<Rightarrow> bool" where
  "concrete c \<longleftrightarrow> c \<noteq> (''*'', True)"

definition covers :: "string \<Rightarrow> segment list \<Rightarrow> bool" where
  "covers place path \<longleftrightarrow> list_all2 seg_covers (split_path place) path \<and> list_all concrete path"

abbreviation comparable :: "'a list \<Rightarrow> 'a list \<Rightarrow> bool" where
  "comparable p q \<equiv> prefix p q \<or> prefix q p"

lemma meets_sym: "meets a b = meets b a"
  by (auto simp: meets_def)

lemma covered_prefix_meets:
  "list_all2 seg_covers as p \<Longrightarrow> list_all2 seg_covers bs q \<Longrightarrow> prefix p q \<Longrightarrow>
   list_all (\<lambda>(a, b). meets a b) (zip as bs)"
proof (induction as arbitrary: bs p q)
  case (Cons a as)
  then obtain c p' where p: "p = c # p'" "seg_covers a c" "list_all2 seg_covers as p'" by (auto simp: list_all2_Cons1)
  with Cons.prems(3) obtain q' where q: "q = c # q'" "prefix p' q'" by (auto simp: prefix_def)
  with Cons.prems(2) obtain b bs' where b: "bs = b # bs'" "seg_covers b c" "list_all2 seg_covers bs' q'"
    by (auto simp: list_all2_Cons2)
  from p(2) b(2) have "meets a b" by (auto simp: seg_covers_def meets_def)
  with Cons.IH [OF p(3) b(3) q(2)] b(1) show ?case by simp
qed simp

lemma covered_comparable_meets:
  assumes "list_all2 seg_covers as p" and "list_all2 seg_covers bs q" and "comparable p q"
  shows "list_all (\<lambda>(a, b). meets a b) (zip as bs)"
proof (cases "prefix p q")
  case False
  with assms have "list_all (\<lambda>(b, a). meets b a) (zip bs as)" by (blast intro: covered_prefix_meets)
  then show ?thesis by (auto simp: list_all_length meets_sym)
qed (use assms in \<open>blast intro: covered_prefix_meets\<close>)

text \<open>An element of a segment, and one of two segments that meet.\<close>

definition some_concrete :: "segment \<Rightarrow> segment" where
  "some_concrete g = (if g = (''*'', True) then (''0'', True) else g)"

lemma some_concrete [simp]: "seg_covers g (some_concrete g)" "concrete (some_concrete g)"
  by (cases g; auto simp: some_concrete_def seg_covers_def concrete_def)+

lemma all_concrete: "\<exists>p. list_all2 seg_covers gs p \<and> list_all concrete p"
  by (rule exI [of _ "map some_concrete gs"]) (simp add: list_all2_conv_all_nth list_all_length)

lemma meets_common: "meets a b \<Longrightarrow> \<exists>c. seg_covers a c \<and> seg_covers b c \<and> concrete c"
  by (rule exI [of _ "if a = (''*'', True) then some_concrete b else a"])
    (cases a; cases b; auto simp: meets_def some_concrete_def seg_covers_def concrete_def)

lemma meets_comparable:
  "list_all (\<lambda>(a, b). meets a b) (zip as bs) \<Longrightarrow>
   \<exists>p q. list_all2 seg_covers as p \<and> list_all2 seg_covers bs q \<and> list_all concrete p \<and> list_all concrete q \<and>
     comparable p q"
proof (induction as bs rule: list_induct2')
  case (2 a as)
  with all_concrete [of "a # as"] show ?case by force
next
  case (3 b bs)
  with all_concrete [of "b # bs"] show ?case by force
next
  case (4 a as b bs)
  then obtain p q where "list_all2 seg_covers as p" "list_all2 seg_covers bs q" "list_all concrete p"
    "list_all concrete q" "comparable p q" by auto
  moreover from 4 meets_common [of a b] obtain c where "seg_covers a c" "seg_covers b c" "concrete c" by auto
  ultimately have "list_all2 seg_covers (a # as) (c # p)" "list_all2 seg_covers (b # bs) (c # q)"
    "list_all concrete (c # p)" "list_all concrete (c # q)" "comparable (c # p) (c # q)" by auto
  then show ?case by blast
qed auto

text \<open>C16. Two places overlap exactly when some memory path is covered by the one and some by the
  other, one of the two paths leading to or through the other.\<close>

theorem places_overlap_iff:
  assumes "left \<noteq> []" and "right \<noteq> []"
  shows "places_overlap left right \<longleftrightarrow> (\<exists>p q. covers left p \<and> covers right q \<and> comparable p q)"
proof
  assume "places_overlap left right"
  moreover have "list_all (\<lambda>(a, b). meets a b) (zip gs gs)" for gs
    by (auto simp: list_all_length meets_def)
  ultimately have "list_all (\<lambda>(a, b). meets a b) (zip (split_path left) (split_path right))"
    using assms by (auto simp: places_overlap_def)
  then show "\<exists>p q. covers left p \<and> covers right q \<and> comparable p q"
    unfolding covers_def using meets_comparable by blast
next
  assume "\<exists>p q. covers left p \<and> covers right q \<and> comparable p q"
  then show "places_overlap left right"
    unfolding places_overlap_def covers_def using covered_comparable_meets by blast
qed

lemma places_overlap_iff_witness:
  "(places_overlap ''a[*].x'' ''a[3]'') = (\<exists>p q. covers ''a[*].x'' p \<and> covers ''a[3]'' q \<and> comparable p q)"
  by (rule places_overlap_iff) simp_all

section \<open>Folding constant indices\<close>

text \<open>The value of an index at run time, in 64 bits. The expressions the checker does not fold may
  have any value.\<close>

fun opaque :: "expr \<Rightarrow> bool" where
  "opaque (IntLiteral v t) = False"
| "opaque (CexprExpression e) = False"
| "opaque (Identifier x) = False"
| "opaque (UnaryOp op e) = (op \<noteq> OP_NEG \<and> op \<noteq> OP_BITNOT)"
| "opaque (BinaryOp op l r) = (op \<notin> {OP_PLUS, OP_MINUS, OP_MULTIPLY, OP_DIVIDE, OP_MODULO})"
| "opaque _ = True"

fun word_binary :: "binary_op \<Rightarrow> 64 word \<Rightarrow> 64 word \<Rightarrow> 64 word option" where
  "word_binary OP_PLUS a b = Some (a + b)"
| "word_binary OP_MINUS a b = Some (a - b)"
| "word_binary OP_MULTIPLY a b = Some (a * b)"
| "word_binary OP_DIVIDE a b = (if b = 0 then None else Some (word_of_int (sint a sdiv sint b)))"
| "word_binary OP_MODULO a b = (if b = 0 then None else Some (word_of_int (sint a smod sint b)))"
| "word_binary _ a b = None"

inductive index_value :: "(string \<rightharpoonup> 64 word) \<Rightarrow> expr \<Rightarrow> 64 word \<Rightarrow> bool" for rho where
  literal: "int64_min \<le> v \<Longrightarrow> v \<le> int64_max \<Longrightarrow> index_value rho (IntLiteral v t) (word_of_int v)"
| variable: "rho x = Some w \<Longrightarrow> index_value rho (Identifier x) w"
| cexpr: "index_value rho e w \<Longrightarrow> index_value rho (CexprExpression e) w"
| neg: "index_value rho e w \<Longrightarrow> index_value rho (UnaryOp OP_NEG e) (- w)"
| bitnot: "index_value rho e w \<Longrightarrow> index_value rho (UnaryOp OP_BITNOT e) (not w)"
| binary: "index_value rho l a \<Longrightarrow> index_value rho r b \<Longrightarrow> word_binary op a b = Some w \<Longrightarrow>
    index_value rho (BinaryOp op l r) w"
| other: "opaque e \<Longrightarrow> index_value rho e w"

text \<open>The compile-time constants of the checker are the values of the variables they name.\<close>

definition agrees :: "borrow_state \<Rightarrow> (string \<rightharpoonup> 64 word) \<Rightarrow> bool" where
  "agrees s rho \<longleftrightarrow> (\<forall>x c. constexpr_values s x = Some c \<longrightarrow>
     (cv_kind c = ConstInt \<longrightarrow> (\<exists>w. rho x = Some w \<and> sint w = cv_int c)) \<and>
     (cv_kind c = ConstBool \<longrightarrow> rho x = Some (of_bool (cv_bool c))))"

lemma opaque_not_constant: "opaque e \<Longrightarrow> constant_integer s e = None"
  by (cases e) (auto simp: constant_binary_def split: option.splits unary_op.splits binary_op.splits)

lemma in_int64_Some: "in_int64 r = Some n \<longleftrightarrow> n = r \<and> int64_min \<le> n \<and> n \<le> int64_max"
  by (auto simp: in_int64_def)

lemma sint_word_of_int64: "int64_min \<le> n \<Longrightarrow> n \<le> int64_max \<Longrightarrow> sint (word_of_int n :: 64 word) = n"
  unfolding int64_min_def int64_max_def by transfer (simp add: signed_take_bit_int_eq_self)

lemma sint_bounds64: "int64_min \<le> sint (w :: 64 word)" "sint w \<le> int64_max"
  using sint_range_size [of w] by (auto simp: word_size int64_min_def int64_max_def)

lemma word_from_sint: "int64_min \<le> n \<Longrightarrow> n \<le> int64_max \<Longrightarrow> w = word_of_int n \<Longrightarrow> sint (w :: 64 word) = n"
  by (simp add: sint_word_of_int64)

lemma sdiv_in_int64:
  assumes "int64_min \<le> a" and "a \<le> int64_max" and "\<not> (a = int64_min \<and> b = - 1)"
  shows "int64_min \<le> a sdiv b \<and> a sdiv b \<le> int64_max"
proof -
  have "a sdiv b \<noteq> - int64_min"
  proof
    assume e: "a sdiv b = - int64_min"
    with sdiv_int_range [of a b] assms(1,2) have "a = int64_min"
      by (auto simp: int64_min_def int64_max_def abs_if split: if_splits)
    with e assms(3) show False using int_sdiv_negated_is_minus1 [of a b] by (simp add: int64_min_def)
  qed
  with sdiv_int_range [of a b] assms(1,2) show ?thesis
    by (auto simp: int64_min_def int64_max_def abs_if split: if_splits)
qed

lemma smod_in_int64:
  assumes "b \<noteq> 0" and "int64_min \<le> b" and "b \<le> int64_max"
  shows "int64_min \<le> a smod b \<and> a smod b \<le> int64_max"
  using smod_int_range [OF assms(1), of a] assms(2,3)
  by (auto simp: int64_min_def int64_max_def abs_if split: if_splits)

lemma constant_binary_sound:
  assumes "constant_binary op (sint a) (sint b) = Some n" and "word_binary op a b = Some w"
  shows "sint w = n"
proof -
  note bounds = sint_bounds64 [of a] sint_bounds64 [of b]
  show ?thesis
  proof (cases op)
    case OP_DIVIDE
    with assms sdiv_in_int64 [OF bounds(1,2), of "sint b"] show ?thesis
      by (auto simp: constant_binary_def split: if_splits intro!: word_from_sint)
  next
    case OP_MODULO
    with assms smod_in_int64 [OF _ bounds(3,4), of "sint a"] show ?thesis
      by (auto simp: constant_binary_def split: if_splits intro!: word_from_sint)
  qed (use assms in \<open>auto simp: constant_binary_def in_int64_Some wi_hom_syms intro!: word_from_sint\<close>)
qed

lemma constant_integer_sint:
  "index_value rho e w \<Longrightarrow> agrees s rho \<Longrightarrow> constant_integer s e = Some n \<Longrightarrow> sint w = n"
proof (induction arbitrary: n rule: index_value.induct)
  case (literal v t)
  then show ?case by (simp add: sint_word_of_int64)
next
  case (variable x w)
  then obtain c where c: "constant_integer s (Identifier x) = Some n" "constexpr_values s x = Some c"
    by (auto split: option.splits)
  from variable(2) c(2) have
    "cv_kind c = ConstInt \<longrightarrow> (\<exists>w. rho x = Some w \<and> sint w = cv_int c)"
    "cv_kind c = ConstBool \<longrightarrow> rho x = Some (of_bool (cv_bool c))" unfolding agrees_def by blast+
  with variable(1) c show ?case by (auto split: if_splits)
next
  case (neg e w)
  then obtain v where v: "sint w = v" "v \<noteq> int64_min" "n = - v"
    by (auto split: option.splits if_splits)
  have "int64_min \<le> - v" "- v \<le> int64_max"
    using v(1,2) sint_bounds64 [of w] by (auto simp: int64_min_def int64_max_def)
  then show ?case using v by (auto intro!: word_from_sint)
next
  case (bitnot e w)
  then have v: "n = - sint w - 1" by (auto split: option.splits)
  have "not w = word_of_int (- sint w - 1)" by (simp add: not_eq_complement wi_hom_syms)
  moreover have "int64_min \<le> - sint w - 1" "- sint w - 1 \<le> int64_max"
    using sint_bounds64 [of w] by (auto simp: int64_min_def int64_max_def)
  ultimately show ?case using v by (auto intro!: word_from_sint)
next
  case (binary l a r b op w)
  then obtain x y where "constant_integer s l = Some x" "constant_integer s r = Some y" "constant_binary op x y = Some n"
    by (auto split: option.splits)
  with binary show ?case using constant_binary_sound by blast
qed (auto simp: opaque_not_constant)

text \<open>C32. An index the checker folds to a number has that number, which fits 64 bits, as its value in
  64 bit arithmetic, whatever the variables that are not constants hold.\<close>

theorem constant_integer_sound:
  assumes "constant_integer s e = Some n" and "agrees s rho" and "index_value rho e w"
  shows "sint w = n \<and> int64_min \<le> n \<and> n \<le> int64_max"
  using constant_integer_sint [OF assms(3,2,1)] sint_bounds64 [of w] by simp

definition empty_borrow_state :: borrow_state where
  "empty_borrow_state =
     \<lparr>constexpr_values = Map.empty, global_named_values = {}, variable_scope_depth = Map.empty,
      moved_variables = {}, immutable_reference_variables = {}, pointer_borrow_target = [],
      pointer_borrow_parent = [], pointer_borrow_place = [], aggregate_borrow_origins = [],
      aggregate_borrow_places = [], aggregate_borrow_field_places = [], active_borrowers = [],
      active_mut_borrower = [], runtime_closure_borrow_owners = [], pointer_parameter_borrow_origins = {}\<rparr>"

lemma constant_integer_sound_witness:
  "sint (word_of_int (- 7) * word_of_int 6 :: 64 word) = - 42"
proof -
  let ?e = "BinaryOp OP_MULTIPLY (UnaryOp OP_NEG (IntLiteral 7 TYPE_VOID)) (IntLiteral 6 TYPE_VOID)"
  have "index_value Map.empty ?e (- word_of_int 7 * word_of_int 6)"
    by (rule index_value.intros | simp add: int64_min_def int64_max_def)+
  moreover have "constant_integer empty_borrow_state ?e = Some (- 42)"
    by (simp add: constant_binary_def in_int64_def int64_min_def int64_max_def)
  moreover have "agrees empty_borrow_state Map.empty" by (simp add: agrees_def empty_borrow_state_def)
  ultimately show ?thesis using constant_integer_sound by fastforce
qed

section \<open>Places and memory\<close>

text \<open>The step of an access at run time, and the memory path of an lvalue: the variable it starts
  from and the steps. A pointer leads where \<open>pt\<close> says.\<close>

datatype access = AField string | AItem int | AElem int | AKey string

fun access_seg :: "access \<Rightarrow> segment" where
  "access_seg (AField f) = (f, False)"
| "access_seg (AItem i) = (int_str i, False)"
| "access_seg (AElem i) = (int_str i, True)"
| "access_seg (AKey k) = (''s:'' @ concat (map hex_byte k), True)"

abbreviation memory_path :: "string \<times> access list \<Rightarrow> segment list" where
  "memory_path m \<equiv> (fst m, False) # map access_seg (snd m)"

definition name_ok :: "string \<Rightarrow> bool" where
  "name_ok n \<longleftrightarrow> n \<noteq> [] \<and> list_all no_sep n"

inductive denotes :: "(string \<rightharpoonup> 64 word) \<Rightarrow> (string \<rightharpoonup> string \<times> access list) \<Rightarrow> expr \<Rightarrow> string \<Rightarrow> access list \<Rightarrow> bool"
  for rho pt where
  d_variable: "name_ok x \<Longrightarrow> denotes rho pt (Identifier x) x []"
| d_field_of: "name_ok x \<Longrightarrow> name_ok f \<Longrightarrow> denotes rho pt (FieldAccess x f NullExpr) x [AField f]"
| d_field: "denotes rho pt e r p \<Longrightarrow> name_ok f \<Longrightarrow> denotes rho pt (FieldAccess x f e) r (p @ [AField f])"
| d_item: "denotes rho pt e r p \<Longrightarrow> denotes rho pt (TupleAccess e i) r (p @ [AItem i])"
| d_key: "denotes rho pt e r p \<Longrightarrow> denotes rho pt (IndexExpression e (StringLiteral k)) r (p @ [AKey k])"
| d_elem: "denotes rho pt e r p \<Longrightarrow> index_value rho i w \<Longrightarrow> (\<And>k. i \<noteq> StringLiteral k) \<Longrightarrow>
    denotes rho pt (IndexExpression e i) r (p @ [AElem (sint w)])"
| d_any_key: "denotes rho pt e r p \<Longrightarrow> opaque i \<or> (\<exists>x. i = Identifier x \<and> rho x = None) \<Longrightarrow> (\<And>k. i \<noteq> StringLiteral k) \<Longrightarrow>
    denotes rho pt (IndexExpression e i) r (p @ [AKey k])"
| d_deref: "pt x = Some (r, p) \<Longrightarrow> denotes rho pt (UnaryOp OP_DEREF (Identifier x)) r p"

text \<open>Every pointer that leads somewhere has a recorded place that covers where it leads.\<close>

definition tracked :: "borrow_state \<Rightarrow> (string \<rightharpoonup> string \<times> access list) \<Rightarrow> bool" where
  "tracked s pt \<longleftrightarrow> (\<forall>x m. pt x = Some m \<longrightarrow>
     (\<exists>place. omap_find (pointer_borrow_place s) x = Some place \<and> well_named place \<and> covers place (memory_path m)))"

lemma int_str_chars: "CHR '']'' \<notin> set (int_str i)" "CHR ''*'' \<notin> set (int_str i)" "list_all no_sep (int_str i)"
proof -
  have "isdigit c \<or> c = CHR ''-''" if "c \<in> set (int_str i)" for c
    using that dec_str_digits by (auto simp: int_str_def split: if_splits)
  moreover have "\<not> isdigit (CHR '']'')" "\<not> isdigit (CHR ''*'')" "\<not> isdigit (CHR ''.'')" "\<not> isdigit (CHR ''['')"
    by (simp_all add: isdigit_def)
  ultimately show "CHR '']'' \<notin> set (int_str i)" "CHR ''*'' \<notin> set (int_str i)" "list_all no_sep (int_str i)"
    by (auto simp: list_all_iff no_sep_def)
qed

lemma hex_digit_chars: "n < 16 \<Longrightarrow> hex_digit n \<noteq> CHR '']''"
proof -
  assume "n < 16"
  then have "n \<in> set [0..<16]" by simp
  moreover have "\<forall>n \<in> set [0..<16]. hex_digit n \<noteq> CHR '']''" by code_simp
  ultimately show ?thesis by blast
qed

lemma hex_bytes_chars: "CHR '']'' \<notin> set (concat (map hex_byte k))"
proof -
  have "byte_of c div 16 < 16 \<and> byte_of c mod 16 < 16" for c :: char
    using nat_of_char_less_256 [of c] by (simp add: less_mult_imp_div_less)
  then have "CHR '']'' \<notin> set (hex_byte c)" for c
    unfolding hex_byte_def using hex_digit_chars by (metis empty_iff empty_set set_ConsD)
  then show ?thesis by auto
qed

lemma covers_snoc:
  "well_named p \<Longrightarrow> seg_ok g \<Longrightarrow> covers p cs \<Longrightarrow> seg_covers g c \<Longrightarrow> concrete c \<Longrightarrow>
   well_named (extend_place p (seg_str g)) \<and> covers (extend_place p (seg_str g)) (cs @ [c])"
  using extend_well_named [of p g] by (auto simp: covers_def list_all2_appendI)

lemma well_named_root: "name_ok x \<Longrightarrow> well_named x \<and> covers x [(x, False)]"
proof -
  assume x: "name_ok x"
  then have r: "render x [] = x" "x \<noteq> []" "list_all no_sep x" by (simp_all add: render_def name_ok_def)
  then have "well_named x" unfolding well_named_def by (metis list.pred_inject(1))
  moreover have "split_path x = [(x, False)]" using split_render [of x "[]"] r by simp
  ultimately show ?thesis by (simp add: covers_def seg_covers_def concrete_def)
qed

definition index_seg :: "int option \<Rightarrow> segment" where
  "index_seg v = (case v of Some n \<Rightarrow> (int_str n, True) | None \<Rightarrow> (''*'', True))"

lemma resolve_index:
  "(\<And>k. i \<noteq> StringLiteral k) \<Longrightarrow>
   resolve_place s (IndexExpression b i) = extend_place (resolve_place s b) (seg_str (index_seg (constant_integer s i)))"
  by (cases i) (auto simp: index_seg_def split: option.splits)

lemma resolve_field:
  "e \<noteq> NullExpr \<Longrightarrow> resolve_place s (FieldAccess x f e) = extend_place (resolve_place s e) (seg_str (f, False))"
  by (cases e) auto

lemma denotes_not_null: "denotes rho pt e r p \<Longrightarrow> e \<noteq> NullExpr"
  by (erule denotes.cases) auto

lemma index_seg_ok: "seg_ok (index_seg v)"
  by (simp add: index_seg_def int_str_chars split: option.split)

lemma elem_concrete: "concrete (access_seg a)"
proof -
  have "int_str i \<noteq> ''*''" for i using int_str_chars(2) [of i] by auto
  then show ?thesis by (cases a) (simp_all add: concrete_def)
qed

lemma covers_step:
  assumes "well_named place \<and> covers place (memory_path (r, p))" and "seg_ok g" and "seg_covers g (access_seg a)"
  shows "well_named (extend_place place (seg_str g)) \<and> covers (extend_place place (seg_str g)) (memory_path (r, p @ [a]))"
  using covers_snoc [OF _ assms(2) _ assms(3) elem_concrete, of place "memory_path (r, p)"] assms(1) by simp

text \<open>The place the checker resolves for an lvalue covers the memory the lvalue denotes.\<close>

lemma place_covers_memory:
  assumes "denotes rho pt e r p" and "agrees s rho" and "tracked s pt"
  shows "well_named (resolve_place s e) \<and> covers (resolve_place s e) (memory_path (r, p))"
  using assms(1)
proof (induction rule: denotes.induct)
  case (d_variable x)
  then show ?case using well_named_root by simp
next
  case (d_field_of x f)
  then show ?case using covers_step [of x x "[]" "(f, False)" "AField f"] well_named_root [of x]
    by (simp add: name_ok_def seg_covers_def)
next
  case (d_field e r p f x)
  then show ?case using covers_step [of _ r p "(f, False)" "AField f"]
    by (simp only: resolve_field [OF denotes_not_null [OF d_field(1)]]) (simp add: name_ok_def seg_covers_def)
next
  case (d_item e r p i)
  then show ?case using covers_step [of _ r p "(int_str i, False)" "AItem i"]
    by (simp add: int_str_chars seg_covers_def)
next
  case (d_key e r p k)
  then show ?case using covers_step [of _ r p "access_seg (AKey k)" "AKey k"] hex_bytes_chars
    by (simp add: seg_covers_def)
next
  case (d_elem e r p i w)
  have "seg_covers (index_seg (constant_integer s i)) (access_seg (AElem (sint w)))"
    using constant_integer_sint [OF d_elem(2) assms(2)]
    by (auto simp: index_seg_def seg_covers_def split: option.splits)
  from covers_step [OF d_elem.IH index_seg_ok this] show ?case unfolding resolve_index [OF d_elem(3)] .
next
  case (d_any_key e r p i k)
  then have "constant_integer s i = None"
    using assms(2) opaque_not_constant by (fastforce simp: agrees_def split: option.splits)
  then have "seg_covers (index_seg (constant_integer s i)) (access_seg (AKey k))"
    by (simp add: index_seg_def seg_covers_def)
  from covers_step [OF d_any_key.IH index_seg_ok this] show ?case unfolding resolve_index [OF d_any_key(3)] .
next
  case (d_deref x r p)
  then show ?case using assms(3) by (fastforce simp: tracked_def)
qed



section \<open>Borrowers\<close>

function ancestor_loop :: "(string, string) omap \<Rightarrow> string \<Rightarrow> string \<Rightarrow> string set \<Rightarrow> bool" where
  "ancestor_loop parents ancestor current visited =
     (if current \<in> visited then False
      else case omap_find parents current of
             None \<Rightarrow> False
           | Some parent \<Rightarrow> parent = ancestor \<or> ancestor_loop parents ancestor parent (insert current visited))"
  by pat_completeness auto
termination
proof (relation "measure (\<lambda>(parents, a, c, visited). card (fst ` set parents - visited))", simp)
  fix parents :: "(string, string) omap" and a c visited p
  assume "c \<notin> visited" "omap_find parents c = Some p"
  then have "c \<in> fst ` set parents - visited" by (force simp: omap_find_def dest: map_of_SomeD)
  then have "card (fst ` set parents - insert c visited) < card (fst ` set parents - visited)"
    by (intro psubset_card_mono) auto
  then show "((parents, a, p, insert c visited), parents, a, c, visited)
      \<in> measure (\<lambda>(parents, a, c, visited). card (fst ` set parents - visited))" by simp
qed

declare ancestor_loop.simps [simp del]

definition is_pointer_borrow_ancestor :: "borrow_state \<Rightarrow> string \<Rightarrow> string \<Rightarrow> bool" where
  "is_pointer_borrow_ancestor s ancestor pointer = ancestor_loop (pointer_borrow_parent s) ancestor pointer {}"

definition borrower_place_overlaps :: "borrow_state \<Rightarrow> string \<Rightarrow> string \<Rightarrow> string \<Rightarrow> bool" where
  "borrower_place_overlaps s borrower owner place =
     (case omap_find (aggregate_borrow_places s) borrower of
        Some owners \<Rightarrow>
          (case omap_find owners owner of
             Some ps \<Rightarrow> (\<exists>borrowed \<in> ps. places_overlap borrowed place)
           | None \<Rightarrow> False)
      | None \<Rightarrow>
          (case omap_find (pointer_borrow_target s) borrower of
             Some target \<Rightarrow>
               if target \<noteq> owner then omap_find (active_mut_borrower s) owner = Some borrower
               else places_overlap
                 (case omap_find (pointer_borrow_place s) borrower of None \<Rightarrow> owner | Some p \<Rightarrow> p) place
           | None \<Rightarrow>
               places_overlap
                 (case omap_find (pointer_borrow_place s) borrower of None \<Rightarrow> owner | Some p \<Rightarrow> p) place))"

text \<open>The parent links as a relation.\<close>

definition parent_rel :: "(string, string) omap \<Rightarrow> (string \<times> string) set" where
  "parent_rel parents = {(x, y). omap_find parents x = Some y}"

lemma parent_rel_functional: "(x, y) \<in> parent_rel m \<Longrightarrow> (x, z) \<in> parent_rel m \<Longrightarrow> y = z"
  by (simp add: parent_rel_def)

lemma ancestor_loop_sound: "ancestor_loop m a c visited \<Longrightarrow> (c, a) \<in> (parent_rel m)\<^sup>+"
proof (induction m a c visited rule: ancestor_loop.induct)
  case (1 m a c visited)
  from 1(2) obtain p where p: "c \<notin> visited" "omap_find m c = Some p" "p = a \<or> ancestor_loop m a p (insert c visited)"
    by (subst (asm) ancestor_loop.simps) (auto split: if_splits option.splits)
  then have "(c, p) \<in> parent_rel m" by (simp add: parent_rel_def)
  with 1(1) p show ?case by (auto intro: trancl_into_trancl2)
qed

text \<open>The loop searches the first cycle it closes to the end: a chain that reaches the ancestor and
  returns to a visited pointer has met the ancestor before.\<close>

lemma ancestor_loop_complete:
  assumes "(c, a) \<in> (parent_rel m) ^^ Suc n" and "\<And>k. k \<le> n \<Longrightarrow> \<exists>y. (c, y) \<in> (parent_rel m) ^^ k \<and> y \<notin> visited"
    and "\<And>i j y. i < j \<Longrightarrow> j \<le> n \<Longrightarrow> (c, y) \<in> (parent_rel m) ^^ i \<Longrightarrow> (c, y) \<notin> (parent_rel m) ^^ j"
  shows "ancestor_loop m a c visited"
  using assms
proof (induction n arbitrary: c visited)
  case 0
  then show ?case by (subst ancestor_loop.simps) (fastforce simp: parent_rel_def)
next
  case (Suc n)
  from Suc.prems(1) obtain p where p: "(c, p) \<in> parent_rel m" "(p, a) \<in> (parent_rel m) ^^ Suc n"
    by (blast dest: relpow_Suc_D2)
  from Suc.prems(2) [of 0] have c: "c \<notin> visited" by simp
  have "ancestor_loop m a p (insert c visited)"
  proof (rule Suc.IH [OF p(2)])
    fix k assume "k \<le> n"
    with Suc.prems(2) [of "Suc k"] obtain y where y: "(c, y) \<in> (parent_rel m) ^^ Suc k" "y \<notin> visited" by auto
    from Suc.prems(3) [of 0 "Suc k" c] \<open>k \<le> n\<close> y(1) have "y \<noteq> c" by auto
    moreover from y(1) p(1) have "(p, y) \<in> (parent_rel m) ^^ k"
      by (metis parent_rel_functional relpow_Suc_D2)
    ultimately show "\<exists>y. (p, y) \<in> (parent_rel m) ^^ k \<and> y \<notin> insert c visited" using y(2) by blast
  next
    fix i j y assume "i < j" "j \<le> n" "(p, y) \<in> (parent_rel m) ^^ i"
    with p(1) have "(c, y) \<in> (parent_rel m) ^^ Suc i" by (blast intro: relpow_Suc_I2)
    with Suc.prems(3) [of "Suc i" "Suc j" y] \<open>i < j\<close> \<open>j \<le> n\<close> have "(c, y) \<notin> (parent_rel m) ^^ Suc j" by simp
    with p(1) show "(p, y) \<notin> (parent_rel m) ^^ j" by (blast intro: relpow_Suc_I2)
  qed
  with p(1) c show ?case by (subst ancestor_loop.simps) (simp add: parent_rel_def)
qed

lemma parent_relpow_functional: "(x, y) \<in> (parent_rel m) ^^ k \<Longrightarrow> (x, z) \<in> (parent_rel m) ^^ k \<Longrightarrow> y = z"
proof (induction k arbitrary: y z)
  case (Suc k)
  from Suc.prems obtain v w where "(x, v) \<in> (parent_rel m) ^^ k" "(v, y) \<in> parent_rel m"
    "(x, w) \<in> (parent_rel m) ^^ k" "(w, z) \<in> parent_rel m" by auto
  with Suc.IH show ?case using parent_rel_functional by metis
qed simp

lemma relpow_split: "(x, z) \<in> R ^^ n \<Longrightarrow> k \<le> n \<Longrightarrow> \<exists>y. (x, y) \<in> R ^^ k \<and> (y, z) \<in> R ^^ (n - k)"
  using relpow_add [of k "n - k" R] by (auto simp: relcomp_unfold)

lemma shortest_chain:
  assumes "(c, a) \<in> (parent_rel m) ^^ Suc n" and "\<And>n'. n' < n \<Longrightarrow> (c, a) \<notin> (parent_rel m) ^^ Suc n'"
    and "i < j" and "j \<le> n" and "(c, y) \<in> (parent_rel m) ^^ i"
  shows "(c, y) \<notin> (parent_rel m) ^^ j"
proof
  assume j: "(c, y) \<in> (parent_rel m) ^^ j"
  obtain y' where "(c, y') \<in> (parent_rel m) ^^ j" "(y', a) \<in> (parent_rel m) ^^ (Suc n - j)"
    using relpow_split [OF assms(1), of j] assms(4) by auto
  with j have "(y, a) \<in> (parent_rel m) ^^ (Suc n - j)" using parent_relpow_functional by blast
  with assms(5) have "(c, a) \<in> (parent_rel m) ^^ (i + (Suc n - j))" by (auto simp: relpow_add)
  moreover have "i + (Suc n - j) = Suc (i + (n - j))" "i + (n - j) < n" using assms(3,4) by auto
  ultimately show False using assms(2) by metis
qed

text \<open>C31. The walk along the parents of a pointer ends on every map, also on one with a cycle, and
  finds an ancestor exactly when a chain of parents leads to it.\<close>

theorem ancestor_iff_chain:
  "is_pointer_borrow_ancestor s ancestor pointer \<longleftrightarrow> (pointer, ancestor) \<in> (parent_rel (pointer_borrow_parent s))\<^sup>+"
proof
  assume "(pointer, ancestor) \<in> (parent_rel (pointer_borrow_parent s))\<^sup>+"
  then have "\<exists>n. (pointer, ancestor) \<in> (parent_rel (pointer_borrow_parent s)) ^^ Suc n"
    by (metis trancl_power gr0_conv_Suc)
  then obtain n where n: "(pointer, ancestor) \<in> (parent_rel (pointer_borrow_parent s)) ^^ Suc n"
    and least: "\<And>n'. n' < n \<Longrightarrow> (pointer, ancestor) \<notin> (parent_rel (pointer_borrow_parent s)) ^^ Suc n'"
    using exists_least_iff [of "\<lambda>n. (pointer, ancestor) \<in> (parent_rel (pointer_borrow_parent s)) ^^ Suc n"] by blast
  have "\<exists>y. (pointer, y) \<in> (parent_rel (pointer_borrow_parent s)) ^^ k \<and> y \<notin> {}" if "k \<le> n" for k
    using relpow_split [OF n, of k] that by auto
  with n shortest_chain [OF n least] show "is_pointer_borrow_ancestor s ancestor pointer"
    unfolding is_pointer_borrow_ancestor_def by (intro ancestor_loop_complete) blast+
qed (simp add: is_pointer_borrow_ancestor_def ancestor_loop_sound)

end
