(* ===== verification/Ast_Analysis.thy ===== *)
theory Ast_Analysis
  imports Syntax_Tree
begin

text \<open>
  Walks over the syntax tree (\<^verbatim>\<open>src/ir/ast_analysis.cpp\<close>). A walk is a function on nodes that gives
  the nodes it visits next; \<open>children\<close> lists every node a node points to, so that what a walk leaves
  out can be stated. The interface \<open>ast_walk\<close> holds what all walks share: they go to children only,
  so they end, and what they collect is what they find on the nodes they reach.
\<close>

datatype node = ExprNode expr | StmtNode stmt

text \<open>The expressions below arms, entries, requirements and named fields.\<close>

fun pattern_exprs :: "'e match_pattern \<Rightarrow> 'e list" where
  "pattern_exprs NullPattern = []"
| "pattern_exprs (MatchPattern k b l) = [l]"

fun arm_exprs :: "'e match_arm \<Rightarrow> 'e list" where
  "arm_exprs NullArm = []"
| "arm_exprs (MatchArm p e) = pattern_exprs p @ [e]"

fun entry_exprs :: "'e map_entry \<Rightarrow> 'e list" where
  "entry_exprs NullEntry = []"
| "entry_exprs (MapEntry k v) = [k, v]"

fun requirement_exprs :: "'e requirement \<Rightarrow> 'e list" where
  "requirement_exprs (Requirement k e t c as n) = [e]"

abbreviation exprs :: "expr list \<Rightarrow> node list" where
  "exprs \<equiv> map ExprNode"

abbreviation stmts :: "stmt list option \<Rightarrow> node list" where
  "stmts b \<equiv> map StmtNode (elems b)"

fun expr_children :: "expr \<Rightarrow> node list" where
  "expr_children (BinaryOp op l r) = exprs [l, r]"
| "expr_children (FoldExpression op e right) = exprs [e]"
| "expr_children (UnaryOp op e) = exprs [e]"
| "expr_children (UpdateExpression k pre e) = exprs [e]"
| "expr_children (Ternary c t f) = exprs [c, t, f]"
| "expr_children (TryExpression e) = exprs [e]"
| "expr_children (SizeofExpression t e) = exprs [e]"
| "expr_children (CexprExpression e) = exprs [e]"
| "expr_children (InlineAsm t tmpl arch as v) = exprs as"
| "expr_children (FunctionCall n as) = exprs as"
| "expr_children (RequiresExpression ps rs) = exprs (concat (map requirement_exprs rs))"
| "expr_children (CallableInvoke e as) = exprs (e # as)"
| "expr_children (MethodCall e m as) = exprs (e # as)"
| "expr_children (MatchExpression e arms) = exprs (e # concat (map arm_exprs arms))"
| "expr_children (CastExpression k e n) = exprs [e]"
| "expr_children (RangeExpression a b i) = exprs [a, b]"
| "expr_children (ListLiteral es) = exprs (elems es)"
| "expr_children (MapLiteral es) = exprs (concat (map entry_exprs (elems es)))"
| "expr_children (Closure ps body) = stmts body"
| "expr_children (ArrayFill v n) = exprs [v, n]"
| "expr_children (IndexExpression b i) = exprs [b, i]"
| "expr_children (TupleLiteral es) = exprs (elems es)"
| "expr_children (TupleAccess e i) = exprs [e]"
| "expr_children (MapIterator e k) = exprs [e]"
| "expr_children (FieldAccess s f e) = exprs [e]"
| "expr_children (Format s as ns) = exprs (as @ map snd ns)"
| "expr_children (StructLiteral n d as fs) = exprs (map snd fs)"
| "expr_children _ = []"

fun stmt_children :: "stmt \<Rightarrow> node list" where
  "stmt_children (BlockStatement b u) = stmts b"
| "stmt_children (DerefAssignment p v) = exprs [p, v]"
| "stmt_children (ExpressionStatement e) = exprs [e]"
| "stmt_children (ReturnStmt e) = exprs [e]"
| "stmt_children (ThrowStmt e) = exprs [e]"
| "stmt_children (LetDecl t n e b) = exprs [e]"
| "stmt_children (CexprDecl t n e b) = exprs [e]"
| "stmt_children (VarDecl t n e z st g b) = exprs [e]"
| "stmt_children (Assignment n e) = exprs [e]"
| "stmt_children (FieldAssignment s f e t) = exprs [t, e]"
| "stmt_children (IfStmt i c t ei el u b) = StmtNode i # ExprNode c # stmts t @ StmtNode ei # stmts el"
| "stmt_children (CexprIf c t ei el) = ExprNode c # stmts t @ StmtNode ei # stmts el"
| "stmt_children (ForStmt v i e b) = ExprNode e # stmts b"
| "stmt_children (WhileStmt c b u) = ExprNode c # stmts b"
| "stmt_children (TryCatch t n ty c) = [StmtNode t, StmtNode c]"
| "stmt_children (PrintStmt k s as ns d) = exprs (as @ map snd ns)"
| "stmt_children (AssertEq l r) = exprs [l, r]"
| "stmt_children (AssertStmt c) = exprs [c]"
| "stmt_children (StaticAssert c) = exprs [c]"
| "stmt_children _ = []"

fun children :: "node \<Rightarrow> node list" where
  "children (ExprNode e) = expr_children e"
| "children (StmtNode s) = stmt_children s"

fun node_size :: "node \<Rightarrow> nat" where
  "node_size (ExprNode e) = size e"
| "node_size (StmtNode s) = size s"

lemma size_elems: "x \<in> set (elems xs) \<Longrightarrow> f x \<le> size_option (size_list f) xs"
  by (cases xs) (auto intro: size_list_estimation' le_SucI)

lemma size_arm: "e \<in> set (arm_exprs a) \<Longrightarrow> f e \<le> size_match_arm f a"
proof (cases a)
  case (MatchArm p e')
  then show "e \<in> set (arm_exprs a) \<Longrightarrow> f e \<le> size_match_arm f a" by (cases p) auto
qed simp

lemma size_entry: "e \<in> set (entry_exprs a) \<Longrightarrow> f e \<le> size_map_entry f a"
  by (cases a) auto

lemma size_requirement: "e \<in> set (requirement_exprs a) \<Longrightarrow> f e \<le> size_requirement f a"
  by (cases a) auto

lemma size_below: "y \<in> set ys \<Longrightarrow> g x \<le> h y \<Longrightarrow> g x \<le> size_list h ys"
  by (auto intro: le_trans size_list_estimation')

lemma size_named: "x \<in> set fs \<Longrightarrow> f (snd x) \<le> size_list (size_prod g f) fs"
  by (rule size_below) (auto simp: size_prod_def split: prod.split)

lemma size_arms: "x \<in> set (concat (map arm_exprs arms)) \<Longrightarrow> f x \<le> size_list (size_match_arm f) arms"
  by (auto intro!: size_below size_arm)

lemma size_entries:
  "x \<in> set (concat (map entry_exprs (elems es))) \<Longrightarrow> f x \<le> size_option (size_list (size_map_entry f)) es"
  by (cases es) (auto intro!: size_below size_entry le_SucI)

lemma size_requirements:
  "x \<in> set (concat (map requirement_exprs rs)) \<Longrightarrow> f x \<le> size_list (size_requirement f) rs"
  by (auto intro!: size_below size_requirement)

lemma size_member: "x \<in> set xs \<Longrightarrow> f x \<le> size_list f xs"
  by (simp add: size_list_estimation')

lemmas size_parts = size_named [where f = size and g = "\<lambda>x. 0"] size_member [where f = "size :: expr \<Rightarrow> nat"]
  size_member [where f = "size :: stmt \<Rightarrow> nat"]

lemma expr_children_smaller:
  assumes "n \<in> set (expr_children e)"
  shows "node_size n < size e"
proof (cases e)
  case (RequiresExpression ps rs)
  with assms obtain x where "n = ExprNode x" "x \<in> set (concat (map requirement_exprs rs))" by auto
  with RequiresExpression size_requirements [of x rs size] show ?thesis by simp
next
  case (MatchExpression t arms)
  with assms obtain x where "n = ExprNode x" "x = t \<or> x \<in> set (concat (map arm_exprs arms))" by auto
  with MatchExpression size_arms [of x arms size] show ?thesis by fastforce
next
  case (MapLiteral es)
  with assms obtain x where "n = ExprNode x" "x \<in> set (concat (map entry_exprs (elems es)))" by auto
  with MapLiteral size_entries [of x es size] show ?thesis by simp
qed (use assms in \<open>auto simp: elems_def dest!: size_parts split: option.splits\<close>)

lemma stmt_children_smaller:
  assumes "n \<in> set (stmt_children s)"
  shows "node_size n < size s"
proof (cases s)
  case (IfStmt i c t ei el u b)
  with assms size_elems [of _ t size] size_elems [of _ el size] show ?thesis by fastforce
next
  case (CexprIf c t ei el)
  with assms size_elems [of _ t size] size_elems [of _ el size] show ?thesis by fastforce
qed (use assms in \<open>auto simp: elems_def dest!: size_parts split: option.splits\<close>)

lemma children_smaller: "n \<in> set (children m) \<Longrightarrow> node_size n < node_size m"
  by (cases m) (auto dest: expr_children_smaller stmt_children_smaller)

section \<open>Walks\<close>

lemma rtrancl_unfold_first: "(n, m) \<in> R\<^sup>* \<longleftrightarrow> n = m \<or> (\<exists>k. (n, k) \<in> R \<and> (k, m) \<in> R\<^sup>*)"
  by (meson converse_rtranclE converse_rtrancl_into_rtrancl rtrancl.rtrancl_refl)

locale ast_walk =
  fixes nexts :: "node \<Rightarrow> node list"
  assumes nexts_children: "set (nexts n) \<subseteq> set (children n)"
begin

abbreviation visits :: "(node \<times> node) set" where
  "visits \<equiv> {(n, m). m \<in> set (nexts n)}"

lemma nexts_smaller: "m \<in> set (nexts n) \<Longrightarrow> node_size m < node_size n"
  using nexts_children children_smaller by blast

text \<open>A set that is collected at a node and below is what the nodes reached hold.\<close>

lemma collected:
  assumes "\<And>n. f n = here n \<union> \<Union> (f ` set (nexts n))"
  shows "x \<in> f n \<longleftrightarrow> (\<exists>m. (n, m) \<in> visits\<^sup>* \<and> x \<in> here m)"
proof (induction "node_size n" arbitrary: n rule: less_induct)
  case less
  have "x \<in> f m \<longleftrightarrow> (\<exists>k. (m, k) \<in> visits\<^sup>* \<and> x \<in> here k)" if "m \<in> set (nexts n)" for m
    using less nexts_smaller that by blast
  moreover have "x \<in> f n \<longleftrightarrow> x \<in> here n \<or> (\<exists>m \<in> set (nexts n). x \<in> f m)"
    using assms [of n] by (simp only: Un_iff UN_iff)
  ultimately have "x \<in> f n \<longleftrightarrow> x \<in> here n \<or> (\<exists>m \<in> set (nexts n). \<exists>k. (m, k) \<in> visits\<^sup>* \<and> x \<in> here k)"
    by blast
  also have "\<dots> \<longleftrightarrow> (\<exists>m. (n, m) \<in> visits\<^sup>* \<and> x \<in> here m)"
    unfolding rtrancl_unfold_first [of n] by blast
  finally show ?case .
qed

lemma found:
  assumes "\<And>n. f n \<longleftrightarrow> hit n \<or> (\<exists>m \<in> set (nexts n). f m)"
  shows "f n \<longleftrightarrow> (\<exists>m. (n, m) \<in> visits\<^sup>* \<and> hit m)"
proof -
  have "{u. f n} = {u. hit n} \<union> \<Union> ((\<lambda>n. {u. f n}) ` set (nexts n))" for n
    using assms [of n] by auto
  from collected [OF this, of "()" n] show ?thesis by (simp only: mem_Collect_eq)
qed

text \<open>A walk that leaves out nothing below a node finds what any larger walk finds there.\<close>

lemma walks_agree:
  assumes "\<And>m. (n, m) \<in> R\<^sup>* \<Longrightarrow> {k. (m, k) \<in> R} = set (nexts m)"
  shows "(n, m) \<in> R\<^sup>* \<longleftrightarrow> (n, m) \<in> visits\<^sup>*"
proof
  assume "(n, m) \<in> R\<^sup>*"
  then show "(n, m) \<in> visits\<^sup>*"
  proof (induction rule: rtrancl_induct)
    case (step k l)
    with assms [OF step(1)] show ?case by (auto intro: rtrancl_into_rtrancl)
  qed simp
next
  assume "(n, m) \<in> visits\<^sup>*"
  then show "(n, m) \<in> R\<^sup>*"
  proof (induction rule: rtrancl_induct)
    case (step k l)
    with assms [OF step.IH] show ?case by (auto intro: rtrancl_into_rtrancl)
  qed simp
qed

end

section \<open>Used identifiers\<close>

fun used_here :: "node \<Rightarrow> string set" where
  "used_here (ExprNode (Identifier x)) = {x}"
| "used_here (ExprNode (FunctionCall f as)) = {f}"
| "used_here (ExprNode (FieldAccess s f e)) = (if s = [] then {} else {s})"
| "used_here (StmtNode (Assignment x e)) = {x}"
| "used_here (StmtNode (FieldAssignment s f e t)) = (if s = [] then {} else {s})"
| "used_here _ = {}"

text \<open>The kinds of nodes the walk has no case for.\<close>

fun unseen :: "node \<Rightarrow> bool" where
  "unseen (ExprNode (RequiresExpression ps rs)) = True"
| "unseen (StmtNode (CexprIf c t ei el)) = True"
| "unseen (StmtNode (StaticAssert c)) = True"
| "unseen _ = False"

definition used_next :: "node \<Rightarrow> node list" where
  "used_next n = (if unseen n then [] else children n)"

interpretation uw: ast_walk used_next
  by unfold_locales (simp add: used_next_def)

function used_idents :: "node \<Rightarrow> string set" where
  "used_idents n = used_here n \<union> \<Union> (used_idents ` set (used_next n))"
  by pat_completeness auto
termination by (relation "measure node_size") (auto simp: uw.nexts_smaller)

declare used_idents.simps [simp del]

definition collect_used_idents :: "node \<Rightarrow> string set \<Rightarrow> string set" where
  "collect_used_idents n out = out \<union> used_idents n"

text \<open>All nodes below a node.\<close>

definition below :: "node \<Rightarrow> node set" where
  "below n = {m. (n, m) \<in> {(a, b). b \<in> set (children a)}\<^sup>*}"

lemma used_next_below:
  assumes "\<forall>m \<in> below n. \<not> unseen m"
  shows "below n = {m. (n, m) \<in> uw.visits\<^sup>*}"
  using uw.walks_agree [of n "{(a, b). b \<in> set (children a)}"] assms by (auto simp: below_def used_next_def)

text \<open>The identifiers collected from a node are the names its nodes use, up to the statements and
  expressions the walk does not enter; a node that has no compile-time conditional, static
  assertion or \<open>requires\<close> below it gives the names of all nodes below it.\<close>

theorem used_idents_spec:
  "(x \<in> collect_used_idents n out \<longleftrightarrow>
     x \<in> out \<or> (\<exists>m. (n, m) \<in> {(a, b). \<not> unseen a \<and> b \<in> set (children a)}\<^sup>* \<and> x \<in> used_here m)) \<and>
   ((\<forall>m \<in> below n. \<not> unseen m) \<longrightarrow> collect_used_idents n out = out \<union> \<Union> (used_here ` below n))"
proof -
  have v: "uw.visits = {(a, b). \<not> unseen a \<and> b \<in> set (children a)}" by (auto simp: used_next_def split: if_splits)
  have u: "x \<in> used_idents n \<longleftrightarrow> (\<exists>m. (n, m) \<in> uw.visits\<^sup>* \<and> x \<in> used_here m)" for x
    by (rule uw.collected) (rule used_idents.simps)
  then have "used_idents n = \<Union> (used_here ` below n)" if "\<forall>m \<in> below n. \<not> unseen m"
    unfolding used_next_below [OF that] by blast
  with u [unfolded v] show ?thesis by (auto simp: collect_used_idents_def)
qed

lemma used_idents_spec_witness:
  "collect_used_idents (ExprNode (BinaryOp OP_PLUS (Identifier ''a'') (FunctionCall ''f'' []))) {''x''} = {''x'', ''a'', ''f''}"
proof -
  let ?a = "Identifier ''a''" and ?f = "FunctionCall ''f'' []"
  let ?e = "BinaryOp OP_PLUS ?a ?f"
  have below: "m \<in> {ExprNode ?e, ExprNode ?a, ExprNode ?f}" if "m \<in> below (ExprNode ?e)" for m
    using that unfolding below_def mem_Collect_eq by (induction rule: rtrancl_induct) auto
  have "{ExprNode ?e, ExprNode ?a, ExprNode ?f} \<subseteq> below (ExprNode ?e)"
    unfolding below_def by (auto intro: r_into_rtrancl)
  with below have "below (ExprNode ?e) = {ExprNode ?e, ExprNode ?a, ExprNode ?f}" by blast
  with used_idents_spec [of "''x''" "ExprNode ?e" "{''x''}"] show ?thesis by auto
qed

text \<open>A variable that is only used inside a compile-time conditional is not seen.\<close>

lemma cexpr_if_hides_uses:
  "collect_used_idents (StmtNode (CexprIf c t ei el)) out = out \<and>
   used_here (ExprNode (Identifier x)) = {x} \<and>
   ExprNode (Identifier x) \<in> below (StmtNode (CexprIf c (Some [ExpressionStatement (Identifier x)]) ei el))"
proof -
  have "used_idents (StmtNode (CexprIf c t ei el)) = {}"
    by (subst used_idents.simps) (simp add: used_next_def)
  moreover have "(StmtNode (CexprIf c (Some [ExpressionStatement (Identifier x)]) ei el),
      StmtNode (ExpressionStatement (Identifier x))) \<in> {(a, b). b \<in> set (children a)}"
    "(StmtNode (ExpressionStatement (Identifier x)), ExprNode (Identifier x)) \<in> {(a, b). b \<in> set (children a)}"
    by simp_all
  ultimately show ?thesis unfolding below_def collect_used_idents_def
    by (auto intro: converse_rtrancl_into_rtrancl simp del: children.simps)
qed

section \<open>Searches\<close>

fun update_hit :: "node \<Rightarrow> bool" where
  "update_hit (ExprNode (UpdateExpression k pre e)) = True"
| "update_hit _ = False"

fun update_next :: "node \<Rightarrow> node list" where
  "update_next (ExprNode (BinaryOp op l r)) = exprs [l, r]"
| "update_next (ExprNode (UnaryOp op e)) = exprs [e]"
| "update_next (ExprNode (Ternary c t f)) = exprs [c, t, f]"
| "update_next (ExprNode (IndexExpression b i)) = exprs [b, i]"
| "update_next (ExprNode (CastExpression k e n)) = exprs [e]"
| "update_next (ExprNode (TryExpression e)) = exprs [e]"
| "update_next (ExprNode (FunctionCall f as)) = exprs as"
| "update_next (ExprNode (MethodCall e m as)) = exprs (e # as)"
| "update_next (ExprNode (FieldAccess s f e)) = exprs [e]"
| "update_next (ExprNode (Format s as ns)) = exprs (as @ map snd ns)"
| "update_next _ = []"

fun exception_hit :: "node \<Rightarrow> bool" where
  "exception_hit (StmtNode (ThrowStmt e)) = True"
| "exception_hit (StmtNode (TryCatch t n ty c)) = True"
| "exception_hit _ = False"

fun exception_next :: "node \<Rightarrow> node list" where
  "exception_next (StmtNode (BlockStatement b u)) = stmts b"
| "exception_next (StmtNode (IfStmt i c t ei el u p)) = StmtNode i # stmts t @ StmtNode ei # stmts el"
| "exception_next (StmtNode (ForStmt v i e b)) = stmts b"
| "exception_next (StmtNode (WhileStmt c b u)) = stmts b"
| "exception_next (ExprNode (Closure ps b)) = stmts b"
| "exception_next _ = []"

fun exit_hit :: "node \<Rightarrow> bool" where
  "exit_hit (StmtNode (ReturnStmt e)) = True"
| "exit_hit (StmtNode BreakStmt) = True"
| "exit_hit (StmtNode ContinueStmt) = True"
| "exit_hit _ = False"

fun exit_next :: "node \<Rightarrow> node list" where
  "exit_next (StmtNode (BlockStatement b u)) = stmts b"
| "exit_next (StmtNode (IfStmt i c t ei el u p)) = StmtNode i # stmts t @ StmtNode ei # stmts el"
| "exit_next (StmtNode (ForStmt v i e b)) = stmts b"
| "exit_next (StmtNode (WhileStmt c b u)) = stmts b"
| "exit_next (StmtNode (TryCatch t n ty c)) = [StmtNode t, StmtNode c]"
| "exit_next _ = []"

lemma update_next_children: "set (update_next n) \<subseteq> set (children n)"
  by (cases n rule: update_next.cases) auto

lemma exception_next_children: "set (exception_next n) \<subseteq> set (children n)"
  by (cases n rule: exception_next.cases) auto

lemma exit_next_children: "set (exit_next n) \<subseteq> set (children n)"
  by (cases n rule: exit_next.cases) auto

interpretation pw: ast_walk update_next by unfold_locales (rule update_next_children)
interpretation ew: ast_walk exception_next by unfold_locales (rule exception_next_children)
interpretation xw: ast_walk exit_next by unfold_locales (rule exit_next_children)

function contains_update_expression :: "node \<Rightarrow> bool" where
  "contains_update_expression n \<longleftrightarrow> update_hit n \<or> list_ex contains_update_expression (update_next n)"
  by pat_completeness auto
termination by (relation "measure node_size") (auto simp: pw.nexts_smaller)

function contains_exception_control_flow :: "node \<Rightarrow> bool" where
  "contains_exception_control_flow n \<longleftrightarrow> exception_hit n \<or> list_ex contains_exception_control_flow (exception_next n)"
  by pat_completeness auto
termination by (relation "measure node_size") (auto simp: ew.nexts_smaller)

function contains_unsupported_try_control_flow :: "node \<Rightarrow> bool" where
  "contains_unsupported_try_control_flow n \<longleftrightarrow>
     exit_hit n \<or> list_ex contains_unsupported_try_control_flow (exit_next n)"
  by pat_completeness auto
termination by (relation "measure node_size") (auto simp: xw.nexts_smaller)

declare contains_update_expression.simps [simp del] contains_exception_control_flow.simps [simp del]
  contains_unsupported_try_control_flow.simps [simp del]

text \<open>A function body is a list of statements.\<close>

definition body_contains_exception_control_flow :: "stmt list option \<Rightarrow> bool" where
  "body_contains_exception_control_flow b = list_ex contains_exception_control_flow (stmts b)"

fun strip_iter_methods :: "expr \<Rightarrow> expr" where
  "strip_iter_methods (MethodCall e m as) =
     (if m = ''iter'' \<or> m = ''into_iter'' \<or> m = ''enumerate'' then strip_iter_methods e else MethodCall e m as)"
| "strip_iter_methods e = e"

text \<open>The statements nested in a statement, without those inside expressions.\<close>

definition nested :: "node \<Rightarrow> node \<Rightarrow> bool" where
  "nested n m \<longleftrightarrow> (n, m) \<in> {(a, b). b \<in> set (children a) \<and> (\<exists>s. b = StmtNode s)}\<^sup>*"

fun cexpr_if :: "node \<Rightarrow> bool" where
  "cexpr_if (StmtNode (CexprIf c t ei el)) = True"
| "cexpr_if _ = False"

lemma exit_next_stmts: "\<not> cexpr_if (StmtNode s) \<Longrightarrow> set (exit_next (StmtNode s)) = {b \<in> set (children (StmtNode s)). \<exists>s. b = StmtNode s}"
  by (cases s) auto

lemma nested_exit:
  assumes "\<And>m. nested (StmtNode s) m \<Longrightarrow> \<not> cexpr_if m"
  shows "nested (StmtNode s) m \<longleftrightarrow> (StmtNode s, m) \<in> xw.visits\<^sup>*"
  unfolding nested_def
proof (rule xw.walks_agree)
  fix m assume m: "(StmtNode s, m) \<in> {(a, b). b \<in> set (children a) \<and> (\<exists>s. b = StmtNode s)}\<^sup>*"
  then obtain s' where s': "m = StmtNode s'" by (induction rule: rtrancl_induct) auto
  from m assms have "\<not> cexpr_if (StmtNode s')" by (simp add: nested_def s')
  from exit_next_stmts [OF this] show "{k. (m, k) \<in> {(a, b). b \<in> set (children a) \<and> (\<exists>s. b = StmtNode s)}} = set (exit_next m)"
    unfolding s' by (simp del: children.simps)
qed

text \<open>C35. The search for what a \<open>try\<close> block may not contain finds a return, break or continue
  nested at any depth, and nothing else, unless a compile-time conditional is among the nested
  statements: the search does not enter it.\<close>

theorem try_exits_found:
  assumes "\<And>m. nested (StmtNode s) m \<Longrightarrow> \<not> cexpr_if m"
  shows "contains_unsupported_try_control_flow (StmtNode s) \<longleftrightarrow> (\<exists>m. nested (StmtNode s) m \<and> exit_hit m)"
proof -
  have "contains_unsupported_try_control_flow n \<longleftrightarrow>
      exit_hit n \<or> (\<exists>m \<in> set (exit_next n). contains_unsupported_try_control_flow m)" for n
    by (subst contains_unsupported_try_control_flow.simps) (simp add: list_ex_iff)
  from xw.found [OF this, of "StmtNode s"] show ?thesis by (simp only: nested_exit [OF assms])
qed

lemma try_exits_found_witness:
  "contains_unsupported_try_control_flow
     (StmtNode (BlockStatement (Some [WhileStmt (BoolLiteral True) (Some [BreakStmt]) False]) False))"
proof -
  let ?w = "WhileStmt (BoolLiteral True) (Some [BreakStmt]) False"
  let ?b = "BlockStatement (Some [?w]) False"
  have below: "m \<in> {StmtNode ?b, StmtNode ?w, StmtNode BreakStmt}" if "nested (StmtNode ?b) m" for m
    using that unfolding nested_def by (induction rule: rtrancl_induct) auto
  have "nested (StmtNode ?b) (StmtNode ?w)" unfolding nested_def by (rule r_into_rtrancl) simp
  then have "nested (StmtNode ?b) (StmtNode BreakStmt)"
    unfolding nested_def by (rule rtrancl_into_rtrancl) simp
  then have "\<exists>m. nested (StmtNode ?b) m \<and> exit_hit m" by (intro exI conjI) auto
  moreover have "\<not> cexpr_if m" if "nested (StmtNode ?b) m" for m using below [OF that] by auto
  ultimately show ?thesis using try_exits_found [of ?b] by blast
qed

lemma cexpr_if_hides_exit:
  "\<not> contains_unsupported_try_control_flow (StmtNode (CexprIf c t ei el)) \<and>
   \<not> contains_exception_control_flow (StmtNode (CexprIf c t ei el))"
  by (simp add: contains_unsupported_try_control_flow.simps contains_exception_control_flow.simps)

end
