(* ===== verification/Borrow_Check.thy ===== *)
theory Borrow_Check
  imports Borrow_Places Ast_Analysis
begin

text \<open>
  The borrow state as the compiler walks a function: releasing borrows at the last use of a pointer
  (\<^verbatim>\<open>src/ir/ownership.cpp\<close>, \<^verbatim>\<open>src/ir/lifecycle.cpp\<close>, \<^verbatim>\<open>src/ir/control_flow.cpp\<close>), joining the
  states of several exits of a loop, shadowing a pointer, and the checks of reads and writes
  (\<^verbatim>\<open>src/ir/borrows.cpp\<close>). An error is its message; positions are left out.
\<close>

section \<open>Maps\<close>

definition omap_erase :: "'k \<Rightarrow> ('k, 'v) omap \<Rightarrow> ('k, 'v) omap" where
  "omap_erase k m = filter (\<lambda>p. fst p \<noteq> k) m"

definition omap_emplace :: "'k::linorder \<Rightarrow> 'v \<Rightarrow> ('k, 'v) omap \<Rightarrow> ('k, 'v) omap" where
  "omap_emplace k v m = (case omap_find m k of None \<Rightarrow> omap_put k v m | Some w \<Rightarrow> m)"

lemma omap_wf_filter: "omap_wf m \<Longrightarrow> omap_wf (filter P m)"
  unfolding omap_wf_def by (induction m) auto

lemma omap_find_erase: "omap_find (omap_erase k m) = (omap_find m)(k := None)"
  unfolding omap_erase_def omap_find_def by (induction m) (auto simp: fun_eq_iff)

lemma omap_wf_erase: "omap_wf m \<Longrightarrow> omap_wf (omap_erase k m)"
  by (simp add: omap_erase_def omap_wf_filter)

lemma omap_wf_emplace: "omap_wf m \<Longrightarrow> omap_wf (omap_emplace k v m)"
  by (simp add: omap_emplace_def omap_wf_put split: option.split)

lemma omap_find_emplace:
  "omap_wf m \<Longrightarrow> omap_find (omap_emplace k v m) = (case omap_find m k of None \<Rightarrow> (omap_find m)(k \<mapsto> v) | Some w \<Rightarrow> omap_find m)"
  by (simp add: omap_emplace_def omap_find_put split: option.split)

text \<open>\<^verbatim>\<open>map[key].insert(x)\<close>\<close>

definition add_to :: "string \<Rightarrow> string \<Rightarrow> (string, string set) omap \<Rightarrow> (string, string set) omap" where
  "add_to k x m = omap_put k (insert x (case omap_find m k of None \<Rightarrow> {} | Some xs \<Rightarrow> xs)) m"

section \<open>Releasing the borrow of a pointer\<close>

definition is_mut_borrower :: "borrow_state \<Rightarrow> string \<Rightarrow> bool" where
  "is_mut_borrower s p \<longleftrightarrow> list_ex (\<lambda>(k, b). b = p) (active_mut_borrower s)"

text \<open>Another pointer points to the variable.\<close>

definition slot_borrowed :: "(string, string) omap \<Rightarrow> string \<Rightarrow> bool" where
  "slot_borrowed targets p \<longleftrightarrow> list_ex (\<lambda>(q, owner). q \<noteq> p \<and> owner = p) targets"

definition drop_borrower :: "string \<Rightarrow> (string, string set) omap \<Rightarrow> (string, string set) omap" where
  "drop_borrower p m = filter (\<lambda>(k, bs). bs \<noteq> {}) (map (\<lambda>(k, bs). (k, bs - {p})) m)"

text \<open>One turn of the loop that keeps the entry of a root owner: an exclusive borrow of the same
  owner under another key moves to it.\<close>

definition keep_root :: "(string, string) omap \<Rightarrow> string \<Rightarrow> string \<times> string \<Rightarrow> (string, string) omap \<Rightarrow> (string, string) omap" where
  "keep_root targets p borrow muts =
     (if fst borrow = p \<or> omap_find muts (snd borrow) \<noteq> None then muts
      else case List.find (\<lambda>(k, b). omap_find targets b = Some (snd borrow)) muts of
             None \<Rightarrow> muts
           | Some (k, b) \<Rightarrow>
               let muts' = omap_put (snd borrow) b muts
               in if k \<noteq> snd borrow then omap_erase k muts' else muts')"

definition release_pointer :: "string \<Rightarrow> borrow_state \<Rightarrow> borrow_state" where
  "release_pointer p s =
     (let targets = pointer_borrow_target s;
          muts = filter (\<lambda>(k, b). b \<noteq> p) (active_mut_borrower s)
      in s\<lparr>active_borrowers := drop_borrower p (active_borrowers s),
           active_mut_borrower := fold (keep_root targets p) targets muts,
           pointer_borrow_target := omap_erase p targets,
           pointer_borrow_place := omap_erase p (pointer_borrow_place s),
           pointer_borrow_parent := omap_erase p (pointer_borrow_parent s)\<rparr>)"

lemma release_pointer_maps [simp]:
  "pointer_borrow_target (release_pointer p s) = omap_erase p (pointer_borrow_target s)"
  "pointer_borrow_place (release_pointer p s) = omap_erase p (pointer_borrow_place s)"
  "pointer_borrow_parent (release_pointer p s) = omap_erase p (pointer_borrow_parent s)"
  by (simp_all add: release_pointer_def Let_def)

lemma erase_shorter: "omap_find m p \<noteq> None \<Longrightarrow> length (omap_erase p m) < length m"
  unfolding omap_find_def omap_erase_def by (induction m) (auto intro: le_imp_less_Suc)

function clear_pointer_borrow :: "string \<Rightarrow> borrow_state \<Rightarrow> borrow_state" where
  "clear_pointer_borrow p s =
     (if slot_borrowed (pointer_borrow_target s) p then s
      else
        let owner = (case omap_find (pointer_borrow_target s) p of None \<Rightarrow> [] | Some r \<Rightarrow> r);
            s' = release_pointer p s
        in if owner \<noteq> [] \<and> owner \<noteq> p \<and> omap_find (pointer_borrow_target s') owner \<noteq> None \<and>
              \<not> slot_borrowed (pointer_borrow_target s') owner
           then clear_pointer_borrow owner s' else s')"
  by pat_completeness auto
termination
  by (relation "measure (\<lambda>(p, s). length (pointer_borrow_target s))") (auto intro!: erase_shorter split: option.splits)

declare clear_pointer_borrow.simps [simp del]

text \<open>The pointers whose borrows end: the pointer, then the pointer variable it pointed to when
  that one waited for its last borrow, and so on.\<close>

function released :: "string \<Rightarrow> (string, string) omap \<Rightarrow> string list" where
  "released p targets =
     (if slot_borrowed targets p then []
      else p # (case omap_find targets p of
                  None \<Rightarrow> []
                | Some owner \<Rightarrow>
                    if owner \<noteq> [] \<and> owner \<noteq> p \<and> omap_find (omap_erase p targets) owner \<noteq> None
                    then released owner (omap_erase p targets) else []))"
  by pat_completeness auto
termination
  by (relation "measure (\<lambda>(p, targets). length targets)") (auto intro!: erase_shorter)

declare released.simps [simp del]

definition mut_borrowers :: "borrow_state \<Rightarrow> string set" where
  "mut_borrowers s = snd ` set (active_mut_borrower s)"

lemma is_mut_borrower_iff: "is_mut_borrower s p \<longleftrightarrow> p \<in> mut_borrowers s"
  by (force simp: is_mut_borrower_def mut_borrowers_def list_ex_iff)

definition shared_borrow :: "borrow_state \<Rightarrow> string \<Rightarrow> string \<Rightarrow> bool" where
  "shared_borrow s owner p \<longleftrightarrow> (\<exists>bs. (owner, bs) \<in> set (active_borrowers s) \<and> p \<in> bs)"

lemma set_omap_put: "omap_wf m \<Longrightarrow> set (omap_put k v m) = insert (k, v) {p \<in> set m. fst p \<noteq> k}"
proof (induction m)
  case (Cons p m)
  have "omap_wf m" "\<forall>x \<in> set m. fst p < fst x" using Cons.prems by (auto simp: omap_wf_def)
  with Cons.IH show ?case by auto
qed simp

lemma find_None_notin: "omap_find m k = None \<longleftrightarrow> k \<notin> fst ` set m"
  by (simp add: omap_find_def map_of_eq_None_iff)

lemma keep_root_wf: "omap_wf muts \<Longrightarrow> omap_wf (keep_root targets p borrow muts)"
  by (auto simp: keep_root_def Let_def omap_wf_put omap_wf_erase split: option.split)

lemma muts_split:
  assumes "omap_wf m" and "(k, b) \<in> set m"
  shows "set m = insert (k, b) {x \<in> set m. fst x \<noteq> k}"
proof -
  have v: "v = b" if "(k, v) \<in> set m" for v
    using that assms(2) omap_find_Some_iff [OF assms(1), of k] by (metis option.inject)
  show ?thesis
  proof (rule set_eqI)
    fix x show "x \<in> set m \<longleftrightarrow> x \<in> insert (k, b) {x \<in> set m. fst x \<noteq> k}"
      using assms(2) v [of "snd x"] by (cases x) auto
  qed
qed

lemma keep_root_values:
  assumes "omap_wf muts"
  shows "snd ` set (keep_root targets p borrow muts) = snd ` set muts"
proof (cases "List.find (\<lambda>(k, b). omap_find targets b = Some (snd borrow)) muts")
  case (Some kb)
  obtain k b where kb: "kb = (k, b)" by (cases kb)
  with Some have in_muts: "(k, b) \<in> set muts" by (auto simp: find_Some_iff in_set_conv_nth)
  show ?thesis
  proof (cases "fst borrow = p \<or> omap_find muts (snd borrow) \<noteq> None")
    case False
    then have new: "snd borrow \<notin> fst ` set muts" by (simp add: find_None_notin)
    with in_muts have "k \<noteq> snd borrow" by force
    with False Some kb have
      "set (keep_root targets p borrow muts) = {x \<in> insert (snd borrow, b) {x \<in> set muts. fst x \<noteq> snd borrow}. fst x \<noteq> k}"
      by (simp add: keep_root_def omap_erase_def set_omap_put [OF assms])
    also have "snd ` \<dots> = insert b (snd ` {x \<in> set muts. fst x \<noteq> k})"
      using new \<open>k \<noteq> snd borrow\<close> by force
    also have "\<dots> = snd ` set muts"
      using arg_cong [OF muts_split [OF assms in_muts], of "image snd"] by (simp only: image_insert snd_conv)
    finally show ?thesis .
  qed (simp add: keep_root_def)
qed (simp add: keep_root_def)

lemma keep_roots:
  "omap_wf muts \<Longrightarrow> omap_wf (fold (keep_root targets p) bs muts) \<and>
   snd ` set (fold (keep_root targets p) bs muts) = snd ` set muts"
  by (induction bs arbitrary: muts) (simp_all add: keep_root_wf keep_root_values)

definition borrow_wf :: "borrow_state \<Rightarrow> bool" where
  "borrow_wf s \<longleftrightarrow> omap_wf (pointer_borrow_target s) \<and> omap_wf (pointer_borrow_place s) \<and>
     omap_wf (pointer_borrow_parent s) \<and> omap_wf (active_borrowers s) \<and> omap_wf (active_mut_borrower s) \<and>
     omap_wf (aggregate_borrow_origins s) \<and> omap_wf (aggregate_borrow_places s) \<and>
     omap_wf (aggregate_borrow_field_places s) \<and> omap_wf (runtime_closure_borrow_owners s)"

lemma omap_wf_map_values: "omap_wf (map (\<lambda>(k, v). (k, f k v)) m) = omap_wf m"
proof -
  have "map fst (map (\<lambda>(k, v). (k, f k v)) m) = map fst m" by (induction m) auto
  then show ?thesis by (simp only: omap_wf_def)
qed

lemma drop_borrower_wf: "omap_wf m \<Longrightarrow> omap_wf (drop_borrower p m)"
  using omap_wf_map_values [of "\<lambda>k bs. bs - {p}" m] by (simp add: drop_borrower_def omap_wf_filter)

lemma drop_borrower_iff: "(\<exists>bs. (k, bs) \<in> set (drop_borrower p m) \<and> q \<in> bs) \<longleftrightarrow> (\<exists>bs. (k, bs) \<in> set m \<and> q \<in> bs) \<and> q \<noteq> p"
  unfolding drop_borrower_def by force

lemma release_pointer_wf: "borrow_wf s \<Longrightarrow> borrow_wf (release_pointer p s)"
  by (simp add: borrow_wf_def release_pointer_def Let_def omap_wf_erase omap_wf_filter drop_borrower_wf keep_roots)

lemma release_pointer_effect:
  assumes "borrow_wf s"
  shows "shared_borrow (release_pointer p s) k q \<longleftrightarrow> shared_borrow s k q \<and> q \<noteq> p"
    and "mut_borrowers (release_pointer p s) = mut_borrowers s - {p}"
proof -
  show "shared_borrow (release_pointer p s) k q \<longleftrightarrow> shared_borrow s k q \<and> q \<noteq> p"
    by (simp add: shared_borrow_def release_pointer_def Let_def drop_borrower_iff)
  have "omap_wf (filter (\<lambda>(k, b). b \<noteq> p) (active_mut_borrower s))" using assms by (simp add: borrow_wf_def omap_wf_filter)
  moreover have "snd ` set (filter (\<lambda>(k, b). b \<noteq> p) m) = snd ` set m - {p}" for m :: "(string \<times> string) list"
    by (induction m) auto
  ultimately show "mut_borrowers (release_pointer p s) = mut_borrowers s - {p}"
    by (simp add: mut_borrowers_def release_pointer_def Let_def keep_roots)
qed

lemma erase_filter: "omap_erase q (filter (\<lambda>(k, v). k \<notin> R) m) = filter (\<lambda>(k, v). k \<notin> insert q R) m"
  unfolding omap_erase_def by (induction m) auto

lemma filter_erase: "filter (\<lambda>(k, v). k \<notin> R) (omap_erase q m) = filter (\<lambda>(k, v). k \<notin> insert q R) m"
  unfolding omap_erase_def by (induction m) auto

text \<open>The fields no release touches, and what a release of a set of pointers leaves of the others.\<close>

definition other_fields :: "borrow_state \<Rightarrow> _" where
  "other_fields s =
     (constexpr_values s, global_named_values s, variable_scope_depth s, moved_variables s,
      immutable_reference_variables s, aggregate_borrow_origins s, aggregate_borrow_places s,
      aggregate_borrow_field_places s, runtime_closure_borrow_owners s, pointer_parameter_borrow_origins s)"

definition without :: "string set \<Rightarrow> borrow_state \<Rightarrow> borrow_state \<Rightarrow> bool" where
  "without R s s' \<longleftrightarrow>
     pointer_borrow_target s' = filter (\<lambda>(k, v). k \<notin> R) (pointer_borrow_target s) \<and>
     pointer_borrow_place s' = filter (\<lambda>(k, v). k \<notin> R) (pointer_borrow_place s) \<and>
     pointer_borrow_parent s' = filter (\<lambda>(k, v). k \<notin> R) (pointer_borrow_parent s) \<and>
     mut_borrowers s' = mut_borrowers s - R \<and>
     (\<forall>owner q. shared_borrow s' owner q \<longleftrightarrow> shared_borrow s owner q \<and> q \<notin> R) \<and>
     other_fields s' = other_fields s"

lemma without_empty: "without {} s s"
  by (simp add: without_def)

lemma without_release:
  assumes "borrow_wf s"
  shows "without {p} s (release_pointer p s)"
proof -
  have "omap_erase p m = filter (\<lambda>(k, v). k \<notin> {p}) m" for m :: "(string, string) omap"
    unfolding omap_erase_def by (induction m) auto
  moreover have "other_fields (release_pointer p s) = other_fields s"
    by (simp add: other_fields_def release_pointer_def Let_def)
  ultimately show ?thesis unfolding without_def using release_pointer_effect [OF assms] by simp
qed

lemma without_trans:
  assumes "without R s t" and "without Q t u"
  shows "without (R \<union> Q) s u"
proof -
  have f: "filter (\<lambda>(k, v). k \<notin> Q) (filter (\<lambda>(k, v). k \<notin> R) m) = filter (\<lambda>(k, v). k \<notin> R \<union> Q) m" for m :: "(string, string) omap"
    by (induction m) auto
  with assms show ?thesis unfolding without_def by auto
qed

lemma clear_released:
  "borrow_wf s \<Longrightarrow> borrow_wf (clear_pointer_borrow p s) \<and>
     without (set (released p (pointer_borrow_target s))) s (clear_pointer_borrow p s)"
proof (induction p s rule: clear_pointer_borrow.induct)
  case (1 p s)
  let ?t = "pointer_borrow_target s"
  note wf = release_pointer_wf [OF 1(2), of p] and r = without_release [OF 1(2), of p]
  show ?case
  proof (cases "slot_borrowed ?t p")
    case True
    then show ?thesis using 1(2) without_empty by (simp add: clear_pointer_borrow.simps released.simps)
  next
    case False
    let ?owner = "case omap_find ?t p of None \<Rightarrow> [] | Some r \<Rightarrow> r"
    show ?thesis
    proof (cases "?owner \<noteq> [] \<and> ?owner \<noteq> p \<and> omap_find (omap_erase p ?t) ?owner \<noteq> None \<and>
        \<not> slot_borrowed (omap_erase p ?t) ?owner")
      case True
      then obtain r where o: "omap_find ?t p = Some r" "?owner = r" by (cases "omap_find ?t p") auto
      from 1(1) [OF False refl refl] True wf
      have "borrow_wf (clear_pointer_borrow ?owner (release_pointer p s)) \<and>
        without (set (released ?owner (omap_erase p ?t))) (release_pointer p s) (clear_pointer_borrow ?owner (release_pointer p s))"
        by simp
      moreover have "clear_pointer_borrow p s = clear_pointer_borrow ?owner (release_pointer p s)"
        using True False by (subst clear_pointer_borrow.simps) simp
      moreover have "set (released p ?t) = {p} \<union> set (released ?owner (omap_erase p ?t))"
        using True False o by (subst released.simps) simp
      ultimately show ?thesis using without_trans [OF r] by simp
    next
      case no: False
      then have "clear_pointer_borrow p s = release_pointer p s"
        using False by (subst clear_pointer_borrow.simps) (auto simp: Let_def)
      moreover have "set (released p ?t) = {p}"
        using no False by (subst released.simps) (auto simp: released.simps [of _ "omap_erase p ?t"] split: option.splits)
      ultimately show ?thesis using wf r by simp
    qed
  qed
qed

lemma released_closed: "q \<in> set (released p t) \<Longrightarrow> (k, q) \<in> set t \<Longrightarrow> k \<in> set (released p t)"
proof (induction p t rule: released.induct)
  case (1 p t)
  from 1(2) have p: "\<not> slot_borrowed t p" by (subst (asm) released.simps) (auto split: if_splits)
  then have head: "p \<in> set (released p t)" by (subst released.simps) simp
  show ?case
  proof (cases "k = p \<or> q = p")
    case True
    then show ?thesis using head p 1(3) by (auto simp: slot_borrowed_def list_ex_iff)
  next
    case False
    from 1(2) p False obtain owner where o: "omap_find t p = Some owner" "owner \<noteq> []" "owner \<noteq> p"
      "omap_find (omap_erase p t) owner \<noteq> None" "q \<in> set (released owner (omap_erase p t))"
      by (cases "omap_find t p") (auto simp: released.simps [of p t] split: if_splits)
    with 1(1) [OF p o(1)] False 1(3) have "k \<in> set (released owner (omap_erase p t))" by (auto simp: omap_erase_def)
    with p o show ?thesis by (simp add: released.simps [of p t])
  qed
qed

lemma released_head: "p \<in> set (released p t) \<longleftrightarrow> \<not> slot_borrowed t p"
proof -
  have "set (released p t) \<noteq> {} \<longleftrightarrow> \<not> slot_borrowed t p" "\<not> slot_borrowed t p \<Longrightarrow> p \<in> set (released p t)"
    by (subst released.simps, simp)+
  then show ?thesis by auto
qed

text \<open>C10. Clearing the borrow of a pointer releases a set of pointers: nothing while another pointer
  points to its variable, and otherwise the pointer and the pointer variables that waited for it.
  Afterwards no owner has a released pointer among its borrowers and nothing points to a released
  pointer; the borrows of all others, shared and exclusive, are what they were.\<close>

theorem clear_pointer_borrow_spec:
  assumes "borrow_wf s"
  shows "borrow_wf (clear_pointer_borrow p s) \<and>
    without (set (released p (pointer_borrow_target s))) s (clear_pointer_borrow p s) \<and>
    (p \<in> set (released p (pointer_borrow_target s)) \<longleftrightarrow> \<not> slot_borrowed (pointer_borrow_target s) p) \<and>
    (slot_borrowed (pointer_borrow_target s) p \<longrightarrow> clear_pointer_borrow p s = s) \<and>
    (\<forall>q \<in> set (released p (pointer_borrow_target s)). \<forall>k. (k, q) \<notin> set (pointer_borrow_target (clear_pointer_borrow p s)))"
proof -
  note c = clear_released [OF assms, of p]
  have "(k, q) \<notin> set (pointer_borrow_target (clear_pointer_borrow p s))"
    if "q \<in> set (released p (pointer_borrow_target s))" for k q
    using c released_closed [OF that, of k] by (auto simp: without_def)
  moreover have "slot_borrowed (pointer_borrow_target s) p \<Longrightarrow> clear_pointer_borrow p s = s"
    by (subst clear_pointer_borrow.simps) simp
  ultimately show ?thesis using c released_head by blast
qed

lemma clear_pointer_borrow_spec_witness:
  "shared_borrow (clear_pointer_borrow ''q''
      (empty_borrow_state\<lparr>pointer_borrow_target := [(''p'', ''a''), (''q'', ''b'')],
         active_borrowers := [(''a'', {''p''}), (''b'', {''q''})]\<rparr>)) ''a'' ''p''"
proof -
  let ?s = "empty_borrow_state\<lparr>pointer_borrow_target := [(''p'', ''a''), (''q'', ''b'')],
         active_borrowers := [(''a'', {''p''}), (''b'', {''q''})]\<rparr>"
  have wf: "borrow_wf ?s" by (simp add: borrow_wf_def omap_wf_def empty_borrow_state_def)
  have "set (released ''q'' (pointer_borrow_target ?s)) = {''q''}"
    by (simp add: released.simps slot_borrowed_def omap_find_def omap_erase_def)
  moreover have "shared_borrow ?s ''a'' ''p''" by (simp add: shared_borrow_def)
  ultimately show ?thesis using clear_pointer_borrow_spec [OF wf, of "''q''"] by (simp add: without_def)
qed

section \<open>The last use of a borrow\<close>

definition drop_from :: "string \<Rightarrow> string \<Rightarrow> (string, string set) omap \<Rightarrow> (string, string set) omap" where
  "drop_from x owner m =
     (case omap_find m owner of
        None \<Rightarrow> m
      | Some bs \<Rightarrow> if bs - {x} = {} then omap_erase owner m else omap_put owner (bs - {x}) m)"

definition clear_aggregate_borrow_origins :: "string \<Rightarrow> borrow_state \<Rightarrow> borrow_state" where
  "clear_aggregate_borrow_origins x s0 =
     (let s1 = s0\<lparr>aggregate_borrow_places := omap_erase x (aggregate_borrow_places s0),
                  aggregate_borrow_field_places := omap_erase x (aggregate_borrow_field_places s0)\<rparr>;
          s = (if is_mut_borrower s1 x then clear_pointer_borrow x s1 else s1)
      in case omap_find (aggregate_borrow_origins s) x of
           None \<Rightarrow> s\<lparr>pointer_borrow_place := omap_erase x (pointer_borrow_place s)\<rparr>
         | Some origins \<Rightarrow>
             s\<lparr>active_borrowers := fold (drop_from x) (sorted_list_of_set origins) (active_borrowers s),
               aggregate_borrow_origins := omap_erase x (aggregate_borrow_origins s),
               pointer_borrow_place := omap_erase x (pointer_borrow_place s)\<rparr>)"

definition release_runtime_closure_borrows :: "string \<Rightarrow> borrow_state \<Rightarrow> borrow_state" where
  "release_runtime_closure_borrows closure s =
     (case omap_find (runtime_closure_borrow_owners s) closure of
        None \<Rightarrow> s
      | Some owners \<Rightarrow>
          s\<lparr>active_borrowers := fold (drop_from closure) (sorted_list_of_set owners) (active_borrowers s)\<rparr>)"

definition future_idents :: "stmt list \<Rightarrow> nat \<Rightarrow> string set" where
  "future_idents body i = fold (\<lambda>st. collect_used_idents (StmtNode st)) (drop (Suc i) body) {}"

definition captured_in_live_closures :: "borrow_state \<Rightarrow> string set \<Rightarrow> string set" where
  "captured_in_live_closures s future =
     \<Union> (set (map (\<lambda>(closure, owners).
        if closure \<in> future
        then {c \<in> owners. omap_find (pointer_borrow_target s) c \<noteq> None \<or> omap_find (aggregate_borrow_origins s) c \<noteq> None}
        else {}) (runtime_closure_borrow_owners s)))"

text \<open>The keys of a map that belong to the scope and are not used again.\<close>

definition expired :: "borrow_state \<Rightarrow> int \<Rightarrow> string set \<Rightarrow> (string, 'v) omap \<Rightarrow> string list" where
  "expired s depth kept m = filter (\<lambda>x. variable_scope_depth s x = Some depth \<and> x \<notin> kept) (map fst m)"

definition expire_unused_local_borrows :: "stmt list \<Rightarrow> nat \<Rightarrow> int \<Rightarrow> borrow_state \<Rightarrow> borrow_state" where
  "expire_unused_local_borrows body i depth s =
     (let future = future_idents body i;
          kept = future \<union> captured_in_live_closures s future;
          s1 = fold clear_pointer_borrow (expired s depth kept (pointer_borrow_target s)) s;
          s2 = fold clear_aggregate_borrow_origins (expired s1 depth kept (aggregate_borrow_origins s1)) s1
      in fold release_runtime_closure_borrows (expired s2 depth future (runtime_closure_borrow_owners s2)) s2)"

text \<open>A step that leaves the borrows of one pointer as they are.\<close>

definition keeps :: "string \<Rightarrow> borrow_state \<Rightarrow> borrow_state \<Rightarrow> bool" where
  "keeps x s s' \<longleftrightarrow> borrow_wf s' \<and>
     omap_find (pointer_borrow_target s') x = omap_find (pointer_borrow_target s) x \<and>
     omap_find (pointer_borrow_place s') x = omap_find (pointer_borrow_place s) x \<and>
     (\<forall>owner. shared_borrow s' owner x \<longleftrightarrow> shared_borrow s owner x) \<and>
     (x \<in> mut_borrowers s' \<longleftrightarrow> x \<in> mut_borrowers s) \<and>
     set (pointer_borrow_target s') \<subseteq> set (pointer_borrow_target s)"

lemma keeps_refl: "borrow_wf s \<Longrightarrow> keeps x s s"
  by (simp add: keeps_def)

lemma keeps_trans: "keeps x s t \<Longrightarrow> keeps x t u \<Longrightarrow> keeps x s u"
  by (auto simp: keeps_def)

lemma omap_find_filter: "omap_find (filter (\<lambda>(k, v). k \<notin> R) m) x = (if x \<in> R then None else omap_find m x)"
  unfolding omap_find_def by (induction m) auto

lemma keeps_without: "borrow_wf s' \<Longrightarrow> without R s s' \<Longrightarrow> x \<notin> R \<Longrightarrow> keeps x s s'"
  by (auto simp: keeps_def without_def omap_find_filter)

lemma released_pointed: "x \<in> set (released p t) \<Longrightarrow> x \<noteq> p \<Longrightarrow> \<exists>k. (k, x) \<in> set t"
proof (induction p t rule: released.induct)
  case (1 p t)
  from 1(2,3) obtain owner where o: "\<not> slot_borrowed t p" "omap_find t p = Some owner" "owner \<noteq> []" "owner \<noteq> p"
    "omap_find (omap_erase p t) owner \<noteq> None" "x \<in> set (released owner (omap_erase p t))"
    by (cases "omap_find t p") (auto simp: released.simps [of p t] split: if_splits)
  show ?case
  proof (cases "x = owner")
    case True
    with o(2) show ?thesis by (auto simp: omap_find_def dest: map_of_SomeD)
  next
    case False
    with 1(1) [OF o(1,2)] o(3-6) show ?thesis by (auto simp: omap_erase_def)
  qed
qed

lemma keeps_clear:
  "borrow_wf s \<Longrightarrow> p \<noteq> x \<Longrightarrow> \<forall>k. (k, x) \<notin> set (pointer_borrow_target s) \<Longrightarrow> keeps x s (clear_pointer_borrow p s)"
  using clear_released [of s p] released_pointed keeps_without by metis

lemma drop_from_wf: "omap_wf m \<Longrightarrow> omap_wf (drop_from x owner m)"
  by (simp add: drop_from_def omap_wf_put omap_wf_erase split: option.split)

lemma drop_from_other:
  assumes "omap_wf m" and "q \<noteq> x"
  shows "(\<exists>bs. (k, bs) \<in> set (drop_from x owner m) \<and> q \<in> bs) \<longleftrightarrow> (\<exists>bs. (k, bs) \<in> set m \<and> q \<in> bs)"
proof -
  have "(\<exists>bs. omap_find (drop_from x owner m) k = Some bs \<and> q \<in> bs) \<longleftrightarrow> (\<exists>bs. omap_find m k = Some bs \<and> q \<in> bs)"
    using assms by (auto simp: drop_from_def omap_find_erase omap_find_put split: option.splits)
  then show ?thesis by (simp only: omap_find_Some_iff [OF assms(1)] omap_find_Some_iff [OF drop_from_wf [OF assms(1)]])
qed

lemma drops_from:
  "omap_wf m \<Longrightarrow> q \<noteq> x \<Longrightarrow> omap_wf (fold (drop_from x) owners m) \<and>
   ((\<exists>bs. (k, bs) \<in> set (fold (drop_from x) owners m) \<and> q \<in> bs) \<longleftrightarrow> (\<exists>bs. (k, bs) \<in> set m \<and> q \<in> bs))"
  by (induction owners arbitrary: m) (auto simp: drop_from_wf drop_from_other)

lemma keeps_drops:
  assumes "borrow_wf s" and "y \<noteq> x" and "borrow_wf (s'\<lparr>active_borrowers := active_borrowers s\<rparr>)"
    and "pointer_borrow_target s' = pointer_borrow_target s" and "active_mut_borrower s' = active_mut_borrower s"
    and "omap_find (pointer_borrow_place s') x = omap_find (pointer_borrow_place s) x"
    and "active_borrowers s' = fold (drop_from y) owners (active_borrowers s)"
  shows "keeps x s s'"
  using assms drops_from [of "active_borrowers s" x y]
  by (auto simp: keeps_def borrow_wf_def shared_borrow_def mut_borrowers_def)

lemma keeps_clear_aggregate:
  assumes "borrow_wf s" and "y \<noteq> x" and "\<forall>k. (k, x) \<notin> set (pointer_borrow_target s)"
  shows "keeps x s (clear_aggregate_borrow_origins y s)"
proof -
  let ?s1 = "s\<lparr>aggregate_borrow_places := omap_erase y (aggregate_borrow_places s),
      aggregate_borrow_field_places := omap_erase y (aggregate_borrow_field_places s)\<rparr>"
  define t where "t = (if is_mut_borrower ?s1 y then clear_pointer_borrow y ?s1 else ?s1)"
  have wf1: "borrow_wf ?s1" using assms(1) by (simp add: borrow_wf_def omap_wf_erase)
  have "keeps x s ?s1" using wf1 by (simp add: keeps_def shared_borrow_def mut_borrowers_def)
  moreover have "keeps x ?s1 t"
    using keeps_clear [OF wf1 assms(2)] assms(3) keeps_refl [OF wf1] by (simp add: t_def)
  ultimately have st: "keeps x s t" by (rule keeps_trans)
  then have wf: "borrow_wf t" by (simp add: keeps_def)
  have "keeps x t (clear_aggregate_borrow_origins y s)"
  proof (cases "omap_find (aggregate_borrow_origins t) y")
    case None
    then have "clear_aggregate_borrow_origins y s = t\<lparr>pointer_borrow_place := omap_erase y (pointer_borrow_place t)\<rparr>"
      by (simp add: clear_aggregate_borrow_origins_def Let_def t_def)
    then show ?thesis using wf assms(2)
      by (intro keeps_drops [where owners = "[]"]) (auto simp: borrow_wf_def omap_wf_erase omap_find_erase)
  next
    case (Some os)
    then have "clear_aggregate_borrow_origins y s = t\<lparr>active_borrowers := fold (drop_from y) (sorted_list_of_set os) (active_borrowers t),
         aggregate_borrow_origins := omap_erase y (aggregate_borrow_origins t),
         pointer_borrow_place := omap_erase y (pointer_borrow_place t)\<rparr>"
      by (simp add: clear_aggregate_borrow_origins_def Let_def t_def)
    then show ?thesis using wf assms(2)
      by (intro keeps_drops [where owners = "sorted_list_of_set os"]) (auto simp: borrow_wf_def omap_wf_erase omap_find_erase)
  qed
  with st show ?thesis by (rule keeps_trans)
qed

lemma keeps_release_closure: "borrow_wf s \<Longrightarrow> y \<noteq> x \<Longrightarrow> keeps x s (release_runtime_closure_borrows y s)"
  unfolding release_runtime_closure_borrows_def
  by (auto split: option.split intro: keeps_refl) (rule keeps_drops; auto simp: borrow_wf_def)

lemma keeps_fold:
  assumes "\<And>y s. borrow_wf s \<Longrightarrow> y \<noteq> x \<Longrightarrow> \<forall>k. (k, x) \<notin> set (pointer_borrow_target s) \<Longrightarrow> keeps x s (f y s)"
    and "borrow_wf s" and "\<forall>k. (k, x) \<notin> set (pointer_borrow_target s)" and "x \<notin> set ys"
  shows "keeps x s (fold f ys s)"
  using assms(2-4)
proof (induction ys arbitrary: s)
  case (Cons y ys)
  with assms(1) have k: "keeps x s (f y s)" by auto
  then have "borrow_wf (f y s)" "\<forall>k. (k, x) \<notin> set (pointer_borrow_target (f y s))"
    using Cons.prems(2) by (auto simp: keeps_def)
  with Cons k show ?case using keeps_trans by fastforce
qed (simp add: keeps_refl)

lemma future_idents_iff: "x \<in> future_idents body i \<longleftrightarrow> (\<exists>st \<in> set (drop (Suc i) body). x \<in> used_idents (StmtNode st))"
proof -
  have "x \<in> fold (\<lambda>st. collect_used_idents (StmtNode st)) ss out \<longleftrightarrow> x \<in> out \<or> (\<exists>st \<in> set ss. x \<in> used_idents (StmtNode st))" for ss out
    by (induction ss arbitrary: out) (auto simp: collect_used_idents_def)
  then show ?thesis by (simp add: future_idents_def)
qed

text \<open>C15. The borrows of a pointer survive the expiry at the end of a statement, shared and exclusive
  ones, with the place they were taken of, when a later statement of the block has the pointer among
  the names collected from it (which leaves out what stands in compile-time conditionals) and no other
  pointer points to the pointer itself.\<close>

theorem expire_keeps_used:
  assumes "borrow_wf s" and "st \<in> set (drop (Suc i) body)" and "x \<in> used_idents (StmtNode st)"
    and "\<forall>k. (k, x) \<notin> set (pointer_borrow_target s)"
  shows "keeps x s (expire_unused_local_borrows body i depth s)"
proof -
  define future where "future = future_idents body i"
  define kept where "kept = future \<union> captured_in_live_closures s future"
  have x: "x \<in> future" "x \<in> kept" using assms(2,3) by (auto simp: future_def kept_def future_idents_iff)
  define s1 where "s1 = fold clear_pointer_borrow (expired s depth kept (pointer_borrow_target s)) s"
  define s2 where "s2 = fold clear_aggregate_borrow_origins (expired s1 depth kept (aggregate_borrow_origins s1)) s1"
  have 1: "keeps x s s1" unfolding s1_def
    by (rule keeps_fold) (use assms x keeps_clear in \<open>auto simp: expired_def\<close>)
  then have p1: "borrow_wf s1" "\<forall>k. (k, x) \<notin> set (pointer_borrow_target s1)" using assms(4) by (auto simp: keeps_def)
  have 2: "keeps x s1 s2" unfolding s2_def
    by (rule keeps_fold) (use p1 x keeps_clear_aggregate in \<open>auto simp: expired_def\<close>)
  then have p2: "borrow_wf s2" "\<forall>k. (k, x) \<notin> set (pointer_borrow_target s2)" using p1 by (auto simp: keeps_def)
  have "keeps x s2 (fold release_runtime_closure_borrows (expired s2 depth future (runtime_closure_borrow_owners s2)) s2)"
    by (rule keeps_fold) (use p2 x keeps_release_closure in \<open>auto simp: expired_def\<close>)
  with 1 2 keeps_trans have "keeps x s (fold release_runtime_closure_borrows (expired s2 depth future (runtime_closure_borrow_owners s2)) s2)"
    by blast
  then show ?thesis by (simp add: expire_unused_local_borrows_def Let_def s1_def s2_def kept_def future_def)
qed

lemma used_identifier [simp]: "used_idents (ExprNode (Identifier x)) = {x}"
  and used_expression_statement [simp]: "used_idents (StmtNode (ExpressionStatement e)) = used_idents (ExprNode e)"
  and used_cexpr_if [simp]: "used_idents (StmtNode (CexprIf c t ei el)) = {}"
  by (subst used_idents.simps, simp add: used_next_def)+

definition borrows_a :: borrow_state where
  "borrows_a = empty_borrow_state\<lparr>pointer_borrow_target := [(''x'', ''a'')], active_mut_borrower := [(''a'', ''x'')],
     variable_scope_depth := [''a'' \<mapsto> 1, ''x'' \<mapsto> 1, ''q'' \<mapsto> 1]\<rparr>"

definition borrows_x :: borrow_state where
  "borrows_x = borrows_a\<lparr>pointer_borrow_target := [(''q'', ''x''), (''x'', ''a'')],
     active_mut_borrower := [(''a'', ''x''), (''x'', ''q'')]\<rparr>"

lemmas borrow_examples = borrows_a_def borrows_x_def empty_borrow_state_def

lemma expire_keeps_used_witness:
  "''x'' \<in> mut_borrowers (expire_unused_local_borrows [BreakStmt, ExpressionStatement (Identifier ''x'')] 0 1 borrows_a)"
proof -
  have "borrow_wf borrows_a" by (simp add: borrow_wf_def omap_wf_def borrow_examples)
  moreover have "ExpressionStatement (Identifier ''x'') \<in> set (drop (Suc 0) [BreakStmt, ExpressionStatement (Identifier ''x'')])"
    by simp
  moreover have "''x'' \<in> used_idents (StmtNode (ExpressionStatement (Identifier ''x'')))" by simp
  moreover have "\<forall>k. (k, ''x'') \<notin> set (pointer_borrow_target borrows_a)" by (simp add: borrow_examples)
  ultimately have "keeps ''x'' borrows_a
      (expire_unused_local_borrows [BreakStmt, ExpressionStatement (Identifier ''x'')] 0 1 borrows_a)"
    by (rule expire_keeps_used)
  moreover have "''x'' \<in> mut_borrowers borrows_a" by (simp add: mut_borrowers_def borrow_examples)
  ultimately show ?thesis by (simp add: keeps_def)
qed

text \<open>A step that adds no borrow.\<close>

definition shrinks :: "borrow_state \<Rightarrow> borrow_state \<Rightarrow> bool" where
  "shrinks s s' \<longleftrightarrow> borrow_wf s' \<and> set (pointer_borrow_target s') \<subseteq> set (pointer_borrow_target s) \<and>
     mut_borrowers s' \<subseteq> mut_borrowers s \<and> (\<forall>owner q. shared_borrow s' owner q \<longrightarrow> shared_borrow s owner q)"

lemma shrinks_refl: "borrow_wf s \<Longrightarrow> shrinks s s"
  by (simp add: shrinks_def)

lemma shrinks_trans: "shrinks s t \<Longrightarrow> shrinks t u \<Longrightarrow> shrinks s u"
  by (auto simp: shrinks_def)

lemma shrinks_clear: "borrow_wf s \<Longrightarrow> shrinks s (clear_pointer_borrow p s)"
  using clear_released [of s p] by (auto simp: shrinks_def without_def)

lemma drop_from_less:
  assumes "omap_wf m" and "(k, bs) \<in> set (drop_from x owner m)" and "q \<in> bs"
  shows "\<exists>bs. (k, bs) \<in> set m \<and> q \<in> bs"
proof -
  have "omap_find (drop_from x owner m) k = Some bs"
    using assms(2) omap_find_Some_iff [OF drop_from_wf [OF assms(1)]] by blast
  then have "\<exists>bs. omap_find m k = Some bs \<and> q \<in> bs"
    using assms(1,3) by (auto simp: drop_from_def omap_find_erase omap_find_put split: option.splits if_splits)
  then show ?thesis by (simp add: omap_find_Some_iff [OF assms(1)])
qed

lemma drops_less:
  "omap_wf m \<Longrightarrow> omap_wf (fold (drop_from x) owners m) \<and>
   (\<forall>k bs q. (k, bs) \<in> set (fold (drop_from x) owners m) \<longrightarrow> q \<in> bs \<longrightarrow> (\<exists>bs. (k, bs) \<in> set m \<and> q \<in> bs))"
proof (induction owners arbitrary: m)
  case (Cons owner owners)
  note IH = Cons.IH [OF drop_from_wf [OF Cons.prems], of x owner]
  show ?case using IH drop_from_less [OF Cons.prems, of _ _ x owner] by simp blast
qed auto

lemma shrinks_drops:
  assumes "borrow_wf s" and "borrow_wf (s'\<lparr>active_borrowers := active_borrowers s\<rparr>)"
    and "pointer_borrow_target s' = pointer_borrow_target s" and "active_mut_borrower s' = active_mut_borrower s"
    and "active_borrowers s' = fold (drop_from y) owners (active_borrowers s)"
  shows "shrinks s s'"
  using assms drops_less [of "active_borrowers s" y owners]
  by (auto simp: shrinks_def borrow_wf_def shared_borrow_def mut_borrowers_def)

lemma shrinks_clear_aggregate:
  assumes "borrow_wf s"
  shows "shrinks s (clear_aggregate_borrow_origins y s)"
proof -
  let ?s1 = "s\<lparr>aggregate_borrow_places := omap_erase y (aggregate_borrow_places s),
      aggregate_borrow_field_places := omap_erase y (aggregate_borrow_field_places s)\<rparr>"
  define t where "t = (if is_mut_borrower ?s1 y then clear_pointer_borrow y ?s1 else ?s1)"
  have wf1: "borrow_wf ?s1" using assms by (simp add: borrow_wf_def omap_wf_erase)
  have "shrinks s ?s1" using wf1 by (simp add: shrinks_def shared_borrow_def mut_borrowers_def)
  moreover have "shrinks ?s1 t" using shrinks_clear [OF wf1] shrinks_refl [OF wf1] by (simp add: t_def)
  ultimately have st: "shrinks s t" by (rule shrinks_trans)
  then have wf: "borrow_wf t" by (simp add: shrinks_def)
  have "shrinks t (clear_aggregate_borrow_origins y s)"
  proof (cases "omap_find (aggregate_borrow_origins t) y")
    case None
    then have "clear_aggregate_borrow_origins y s = t\<lparr>pointer_borrow_place := omap_erase y (pointer_borrow_place t)\<rparr>"
      by (simp add: clear_aggregate_borrow_origins_def Let_def t_def)
    then show ?thesis using wf by (intro shrinks_drops [where owners = "[]"]) (auto simp: borrow_wf_def omap_wf_erase)
  next
    case (Some os)
    then have "clear_aggregate_borrow_origins y s = t\<lparr>active_borrowers := fold (drop_from y) (sorted_list_of_set os) (active_borrowers t),
         aggregate_borrow_origins := omap_erase y (aggregate_borrow_origins t),
         pointer_borrow_place := omap_erase y (pointer_borrow_place t)\<rparr>"
      by (simp add: clear_aggregate_borrow_origins_def Let_def t_def)
    then show ?thesis using wf
      by (intro shrinks_drops [where owners = "sorted_list_of_set os"]) (auto simp: borrow_wf_def omap_wf_erase)
  qed
  with st show ?thesis by (rule shrinks_trans)
qed

lemma shrinks_release_closure: "borrow_wf s \<Longrightarrow> shrinks s (release_runtime_closure_borrows y s)"
  unfolding release_runtime_closure_borrows_def
  by (auto split: option.split intro: shrinks_refl) (rule shrinks_drops; auto simp: borrow_wf_def)

lemma shrinks_fold:
  assumes "\<And>y s. borrow_wf s \<Longrightarrow> shrinks s (f y s)" and "borrow_wf s"
  shows "shrinks s (fold f ys s)"
  using assms(2)
proof (induction ys arbitrary: s)
  case (Cons y ys)
  have "shrinks s (f y s)" using Cons.prems by (rule assms(1))
  moreover from this have "shrinks (f y s) (fold f ys (f y s))" by (intro Cons.IH) (simp add: shrinks_def)
  ultimately show ?case using shrinks_trans by simp
qed (simp add: shrinks_refl)

definition no_borrow :: "borrow_state \<Rightarrow> string \<Rightarrow> bool" where
  "no_borrow s x \<longleftrightarrow> omap_find (pointer_borrow_target s) x = None \<and> x \<notin> mut_borrowers s \<and> (\<forall>owner. \<not> shared_borrow s owner x)"

lemma no_borrow_shrinks: "no_borrow s x \<Longrightarrow> shrinks s s' \<Longrightarrow> no_borrow s' x"
  unfolding no_borrow_def shrinks_def find_None_notin by blast

lemma cleared_fold:
  assumes "borrow_wf s" and "x \<in> set ys" and "\<forall>k. (k, x) \<notin> set (pointer_borrow_target s)"
  shows "no_borrow (fold clear_pointer_borrow ys s) x"
proof -
  obtain pre post where ys: "ys = pre @ x # post" using split_list [OF assms(2)] by blast
  let ?p = "fold clear_pointer_borrow pre s"
  have p: "shrinks s ?p" using shrinks_fold [of clear_pointer_borrow] shrinks_clear assms(1) by blast
  then have wf: "borrow_wf ?p" by (simp add: shrinks_def)
  have "\<not> slot_borrowed (pointer_borrow_target ?p) x" using p assms(3) by (auto simp: shrinks_def slot_borrowed_def list_ex_iff)
  then have "x \<in> set (released x (pointer_borrow_target ?p))" by (simp add: released_head)
  then have "no_borrow (clear_pointer_borrow x ?p) x"
    using clear_released [OF wf, of x] by (simp add: no_borrow_def without_def omap_find_filter)
  moreover have "shrinks (clear_pointer_borrow x ?p) (fold clear_pointer_borrow post (clear_pointer_borrow x ?p))"
    using shrinks_fold [of clear_pointer_borrow] shrinks_clear clear_released [OF wf, of x] by blast
  ultimately show ?thesis using no_borrow_shrinks by (simp add: ys)
qed

text \<open>C29. The expiry ends every borrow of a pointer of the scope that no later statement of the block
  names outside a compile-time conditional, that no closure called later holds and that no pointer points to:
  it has no target and borrows nothing, shared or exclusively. A use inside a compile-time
  conditional does not count, so such a pointer loses its borrows before its last use.\<close>

theorem expire_drops_unnamed:
  assumes "borrow_wf s" and "omap_find (pointer_borrow_target s) x \<noteq> None" and "variable_scope_depth s x = Some depth"
    and "\<forall>st \<in> set (drop (Suc i) body). (\<exists>c t ei el. st = CexprIf c t ei el) \<or> x \<notin> used_idents (StmtNode st)"
    and "x \<notin> captured_in_live_closures s (future_idents body i)"
    and "\<forall>k. (k, x) \<notin> set (pointer_borrow_target s)"
  shows "omap_find (pointer_borrow_target (expire_unused_local_borrows body i depth s)) x = None \<and>
    x \<notin> mut_borrowers (expire_unused_local_borrows body i depth s) \<and>
    (\<forall>owner. \<not> shared_borrow (expire_unused_local_borrows body i depth s) owner x)"
proof -
  define future where "future = future_idents body i"
  define kept where "kept = future \<union> captured_in_live_closures s future"
  have "x \<notin> future" using assms(4) used_cexpr_if by (auto simp: future_def future_idents_iff)
  with assms(5) have x: "x \<notin> kept" by (simp add: kept_def future_def)
  define s1 where "s1 = fold clear_pointer_borrow (expired s depth kept (pointer_borrow_target s)) s"
  define s2 where "s2 = fold clear_aggregate_borrow_origins (expired s1 depth kept (aggregate_borrow_origins s1)) s1"
  have "x \<in> set (expired s depth kept (pointer_borrow_target s))"
    using x assms(2,3) by (auto simp: expired_def find_None_notin)
  from cleared_fold [OF assms(1) this assms(6)] have 1: "no_borrow s1 x" by (simp add: s1_def)
  have "shrinks s s1" unfolding s1_def using shrinks_fold [of clear_pointer_borrow] shrinks_clear assms(1) by blast
  then have w1: "borrow_wf s1" by (simp add: shrinks_def)
  have 2: "shrinks s1 s2" unfolding s2_def
    using shrinks_fold [of clear_aggregate_borrow_origins] shrinks_clear_aggregate w1 by blast
  then have w2: "borrow_wf s2" by (simp add: shrinks_def)
  have "shrinks s2 (fold release_runtime_closure_borrows (expired s2 depth future (runtime_closure_borrow_owners s2)) s2)"
    using shrinks_fold [of release_runtime_closure_borrows] shrinks_release_closure w2 by blast
  from no_borrow_shrinks [OF no_borrow_shrinks [OF 1 2] this] show ?thesis
    by (simp add: no_borrow_def expire_unused_local_borrows_def Let_def s1_def s2_def kept_def future_def)
qed

text \<open>\<open>x\<close> borrows \<open>a\<close> exclusively and is used again, inside a compile-time conditional.\<close>

lemma expire_drops_unnamed_witness:
  "mut_borrowers borrows_a = {''x''} \<and>
   ''x'' \<notin> mut_borrowers (expire_unused_local_borrows
     [BreakStmt, CexprIf (BoolLiteral True) (Some [ExpressionStatement (Identifier ''x'')]) NullStmt None] 0 1 borrows_a)"
proof -
  let ?b = "[BreakStmt, CexprIf (BoolLiteral True) (Some [ExpressionStatement (Identifier ''x'')]) NullStmt None]"
  have "borrow_wf borrows_a" "omap_find (pointer_borrow_target borrows_a) ''x'' \<noteq> None"
    "variable_scope_depth borrows_a ''x'' = Some 1" "''x'' \<notin> captured_in_live_closures borrows_a (future_idents ?b 0)"
    "\<forall>k. (k, ''x'') \<notin> set (pointer_borrow_target borrows_a)"
    by (simp_all add: borrow_wf_def omap_wf_def borrow_examples omap_find_def captured_in_live_closures_def)
  from expire_drops_unnamed [OF this(1-3) _ this(4,5)] show ?thesis by (simp add: mut_borrowers_def borrow_examples)
qed

text \<open>A pointer used again after the last use of a pointer to it loses its borrow as well.\<close>

lemmas expire_simps = expire_unused_local_borrows_def Let_def captured_in_live_closures_def expired_def
  clear_pointer_borrow.simps release_pointer_def slot_borrowed_def omap_erase_def omap_find_def drop_borrower_def
  keep_root_def is_mut_borrower_def clear_aggregate_borrow_origins_def future_idents_def collect_used_idents_def

lemma expire_drops_pointed:
  "''x'' \<in> mut_borrowers borrows_x \<and>
   mut_borrowers (expire_unused_local_borrows [BreakStmt, ExpressionStatement (Identifier ''x'')] 0 1 borrows_x) = {}"
  by (intro conjI) (simp_all add: expire_simps borrow_examples mut_borrowers_def)

end
