(* ===== verification/Borrow_Access.thy ===== *)
theory Borrow_Access
  imports Borrow_Check
begin

text \<open>
  Whether an access is allowed: reading a place (\<^verbatim>\<open>validateBorrowRead\<close>), and expressions that carry
  a borrow of a local variable out of its scope (\<^verbatim>\<open>src/ir/borrows.cpp\<close>). A check returns the message
  of the error it reports, if any.
\<close>

section \<open>Reading a place\<close>

fun accessed_through :: "expr \<Rightarrow> string \<Rightarrow> bool" where
  "accessed_through (UnaryOp op e) p =
     (case (op, e) of (OP_DEREF, Identifier x) \<Rightarrow> x = p | _ \<Rightarrow> accessed_through e p)"
| "accessed_through (FieldAccess s f e) p = accessed_through e p"
| "accessed_through (IndexExpression b i) p = accessed_through b p"
| "accessed_through (TupleAccess e i) p = accessed_through e p"
| "accessed_through _ p = False"

definition accessed_through_descendant :: "borrow_state \<Rightarrow> expr \<Rightarrow> string \<Rightarrow> bool" where
  "accessed_through_descendant s e b =
     list_ex (\<lambda>(p, parent). is_pointer_borrow_ancestor s b p \<and> accessed_through e p) (pointer_borrow_parent s)"

definition quoted :: "string \<Rightarrow> string" where
  "quoted n = [squote] @ n @ [squote]"

text \<open>\<^verbatim>\<open>suppressBorrowReadValidation\<close> is an argument.\<close>

definition validate_borrow_read :: "bool \<Rightarrow> borrow_state \<Rightarrow> expr \<Rightarrow> string option" where
  "validate_borrow_read suppress s e =
     (let place = resolve_place s e;
          moved = (if place = [] then None
                   else List.find (\<lambda>m. places_overlap place m) (sorted_list_of_set (moved_variables s)))
      in case moved of
           Some m \<Rightarrow> Some (''use of moved value: '' @ quoted m)
         | None \<Rightarrow>
             if suppress then None
             else
               let owner = resolve_owner s e
               in if owner = [] \<or> place = [] then None
                  else map_option
                    (\<lambda>(k, b). ''cannot read overlapping part of '' @ quoted owner @
                       '' while mutably borrowed by '' @ quoted b)
                    (List.find (\<lambda>(k, b). \<not> accessed_through e b \<and> \<not> accessed_through_descendant s e b \<and>
                        borrower_place_overlaps s b owner place) (active_mut_borrower s)))"

lemma find_None_all: "List.find P xs = None \<longleftrightarrow> (\<forall>x \<in> set xs. \<not> P x)"
  by (auto simp: find_None_iff)

lemma read_ok_iff:
  assumes "finite (moved_variables s)" and "resolve_place s e \<noteq> []"
  shows "validate_borrow_read suppress s e = None \<longleftrightarrow>
    (\<forall>m \<in> moved_variables s. \<not> places_overlap (resolve_place s e) m) \<and>
    (suppress \<or> resolve_owner s e = [] \<or>
     (\<forall>(k, b) \<in> set (active_mut_borrower s). accessed_through e b \<or> accessed_through_descendant s e b \<or>
        \<not> borrower_place_overlaps s b (resolve_owner s e) (resolve_place s e)))"
proof (cases "List.find (places_overlap (resolve_place s e)) (sorted_list_of_set (moved_variables s))")
  case None
  with assms(1) have "\<forall>m \<in> moved_variables s. \<not> places_overlap (resolve_place s e) m" by (simp add: find_None_all)
  moreover have "validate_borrow_read suppress s e = None \<longleftrightarrow> suppress \<or> resolve_owner s e = [] \<or>
      List.find (\<lambda>(k, b). \<not> accessed_through e b \<and> \<not> accessed_through_descendant s e b \<and>
        borrower_place_overlaps s b (resolve_owner s e) (resolve_place s e)) (active_mut_borrower s) = None"
    using assms(2) by (simp add: validate_borrow_read_def Let_def None)
  ultimately show ?thesis by (auto simp: find_None_all)
next
  case (Some m)
  then have "m \<in> set (sorted_list_of_set (moved_variables s)) \<and> places_overlap (resolve_place s e) m"
    unfolding find_Some_iff in_set_conv_nth by blast
  then have "m \<in> moved_variables s" "places_overlap (resolve_place s e) m" using assms(1) by simp_all
  with Some assms(2) show ?thesis by (auto simp: validate_borrow_read_def Let_def)
qed

text \<open>The places the checker has recorded for an exclusive borrow \<open>(k, b)\<close>: those of the aggregate \<open>b\<close>,
  each listed under the variable it starts with; else the recorded place of the pointer \<open>b\<close>, or
  where there is none its target, or \<open>k\<close> when it has no target; and \<open>k\<close> itself when the target is
  another variable, which a join of two branches leaves behind.\<close>

definition starts_at :: "string \<Rightarrow> string \<Rightarrow> bool" where
  "starts_at x place \<longleftrightarrow> (\<exists>gs. split_path place = (x, False) # gs)"

definition holds :: "borrow_state \<Rightarrow> string \<Rightarrow> string \<Rightarrow> string \<Rightarrow> bool" where
  "holds s k b place \<longleftrightarrow>
     (case omap_find (aggregate_borrow_places s) b of
        Some owners \<Rightarrow> \<exists>x ps. omap_find owners x = Some ps \<and> place \<in> ps \<and> starts_at x place
      | None \<Rightarrow>
          (case omap_find (pointer_borrow_target s) b of
             Some t \<Rightarrow> starts_at t place \<and> place = (case omap_find (pointer_borrow_place s) b of Some p \<Rightarrow> p | None \<Rightarrow> t) \<or>
               k \<noteq> t \<and> place = k \<and> name_ok k
           | None \<Rightarrow> place = (case omap_find (pointer_borrow_place s) b of Some p \<Rightarrow> p | None \<Rightarrow> k)))"

text \<open>The recorded target of a pointer is the variable it leads into.\<close>

definition aimed :: "borrow_state \<Rightarrow> (string \<rightharpoonup> string \<times> access list) \<Rightarrow> bool" where
  "aimed s pt \<longleftrightarrow> (\<forall>x r p. pt x = Some (r, p) \<longrightarrow> omap_find (pointer_borrow_target s) x = Some r)"

lemma resolve_owner_root:
  assumes "denotes rho pt e r p" and "aimed s pt"
  shows "resolve_owner s e = r"
  using assms(1)
proof (induction rule: denotes.induct)
  case (d_field e r p f x)
  then show ?case using denotes_not_null [of rho pt e] by auto
next
  case (d_deref x r p)
  with assms(2) show ?case by (simp add: aimed_def)
qed simp_all

lemma root_plain: "well_named place \<Longrightarrow> covers place ((r, False) # cs) \<Longrightarrow> name_ok r \<and> starts_at r place"
  by (auto simp: well_named_def covers_def split_render list_all2_Cons2 seg_covers_def name_ok_def starts_at_def)

lemma starts_at_path:
  "starts_at x place \<Longrightarrow> covers place path \<Longrightarrow> comparable ((r, False) # cs) path \<Longrightarrow> x = r"
  by (auto simp: starts_at_def covers_def list_all2_Cons1 seg_covers_def)

lemma starts_at_name: "name_ok x \<Longrightarrow> starts_at x x"
  using well_named_root [of x] root_plain [of x x "[]"] by blast

lemma name_overlaps:
  assumes "name_ok r" and "covers place ((r, False) # cs)"
  shows "places_overlap r place"
  using covered_comparable_meets [of "split_path r" "[(r, False)]" "split_path place" "(r, False) # cs"]
    assms(2) well_named_root [OF assms(1)] by (auto simp: covers_def places_overlap_def)

lemma held_overlaps:
  assumes "omap_wf (active_mut_borrower s)" and "(k, b) \<in> set (active_mut_borrower s)"
    and "holds s k b place" and "covers place path" and "comparable ((r, False) # cs) path"
    and "name_ok r" and "covers read_place ((r, False) # cs)"
  shows "borrower_place_overlaps s b r read_place"
proof -
  have o: "places_overlap place read_place" if "place \<noteq> []"
    using covered_comparable_meets [of "split_path place" path "split_path read_place" "(r, False) # cs"]
      assms(4,5,7) by (auto simp: covers_def places_overlap_def)
  have o: "places_overlap place read_place" using o by (cases "place = []") (simp_all add: places_overlap_def)
  have k: "omap_find (active_mut_borrower s) k = Some b" using assms(1,2) by (simp add: omap_find_Some_iff)
  have at: "x = r" if "starts_at x place" for x using starts_at_path [OF that assms(4,5)] .
  have nm: "name_ok k \<Longrightarrow> place = k \<Longrightarrow> k = r" using at starts_at_name by blast
  note r = name_overlaps [OF assms(6,7)]
  show ?thesis
  proof (cases "omap_find (aggregate_borrow_places s) b")
    case (Some owners)
    with assms(3) at o show ?thesis by (auto simp: holds_def borrower_place_overlaps_def)
  next
    case None
    show ?thesis
    proof (cases "omap_find (pointer_borrow_target s) b")
      case (Some t)
      with None assms(3) at o r k nm show ?thesis
        by (cases "omap_find (pointer_borrow_place s) b") (auto simp: holds_def borrower_place_overlaps_def)
    next
      case none: None
      with None assms(3) o r show ?thesis
        by (cases "omap_find (pointer_borrow_place s) b") (auto simp: holds_def borrower_place_overlaps_def)
    qed
  qed
qed

text \<open>C2. A read that is accepted touches no memory of a moved place. Unless the check for borrows is
  suppressed, it touches no memory of a place recorded for any exclusive borrow either, but for
  borrowers it goes through itself or through a pointer derived from them.\<close>

theorem accepted_read_is_disjoint:
  assumes "validate_borrow_read suppress s e = None"
    and "denotes rho pt e r p" and "agrees s rho" and "tracked s pt" and "aimed s pt"
    and "finite (moved_variables s)" and "omap_wf (active_mut_borrower s)"
  shows "(\<forall>m \<in> moved_variables s. \<forall>path. covers m path \<longrightarrow> \<not> comparable (memory_path (r, p)) path) \<and>
    (\<not> suppress \<longrightarrow> (\<forall>(k, b) \<in> set (active_mut_borrower s). \<forall>place path.
       holds s k b place \<longrightarrow> covers place path \<longrightarrow> comparable (memory_path (r, p)) path \<longrightarrow>
       accessed_through e b \<or> accessed_through_descendant s e b))"
proof -
  from place_covers_memory [OF assms(2-4)] have c: "covers (resolve_place s e) (memory_path (r, p))"
    and w: "well_named (resolve_place s e)" by simp_all
  then have ne: "resolve_place s e \<noteq> []" by (auto simp: covers_def)
  note ok = assms(1) [unfolded read_ok_iff [OF assms(6) ne] resolve_owner_root [OF assms(2,5)]]
  have root: "name_ok r" using root_plain [OF w] c by simp
  have "places_overlap (resolve_place s e) m" if "covers m path" "comparable (memory_path (r, p)) path" for m path
    using covered_comparable_meets that c unfolding places_overlap_def covers_def by blast
  moreover have "accessed_through e b \<or> accessed_through_descendant s e b"
    if "\<not> suppress" "(k, b) \<in> set (active_mut_borrower s)" "holds s k b place" "covers place path"
      "comparable (memory_path (r, p)) path" for k b place path
  proof -
    have "borrower_place_overlaps s b r (resolve_place s e)"
      using held_overlaps [OF assms(7) that(2-4) _ root] that(5) c by simp
    with ok that(1,2) root show ?thesis by (auto simp: name_ok_def)
  qed
  ultimately show ?thesis using ok by blast
qed

text \<open>\<open>b\<close> borrows \<open>a.z\<close> exclusively and \<open>a.y\<close> was moved; \<open>a.x\<close> can be read, and is neither.\<close>

lemma accepted_read_is_disjoint_witness:
  "\<not> comparable (memory_path (''a'', [AField ''x''])) (memory_path (''a'', [AField ''y''])) \<and>
   \<not> comparable (memory_path (''a'', [AField ''x''])) (memory_path (''a'', [AField ''z'']))"
proof -
  let ?s = "empty_borrow_state\<lparr>moved_variables := {''a.y''}, active_mut_borrower := [(''a'', ''b'')],
    pointer_borrow_target := [(''b'', ''a'')], pointer_borrow_place := [(''b'', ''a.z'')]\<rparr>"
    and ?e = "FieldAccess ''a'' ''x'' NullExpr"
  have d: "denotes Map.empty Map.empty ?e ''a'' [AField ''x'']"
    by (rule denotes.d_field_of) (simp_all add: name_ok_def no_sep_def)
  have h: "agrees ?s Map.empty" "tracked ?s Map.empty" "aimed ?s Map.empty" "finite (moved_variables ?s)"
    "omap_wf (active_mut_borrower ?s)"
    by (simp_all add: agrees_def tracked_def aimed_def empty_borrow_state_def omap_wf_def)
  have v: "validate_borrow_read False ?s ?e = None"
    by (simp add: validate_borrow_read_def empty_borrow_state_def extend_place_def places_overlap_def no_sep_def meets_def
        borrower_place_overlaps_def omap_find_def Let_def)
  note T = accepted_read_is_disjoint [OF v d h]
  have "covers ''a.y'' (memory_path (''a'', [AField ''y'']))" and z: "covers ''a.z'' (memory_path (''a'', [AField ''z'']))"
    by (simp_all add: covers_def seg_covers_def concrete_def no_sep_def)
  moreover have "holds ?s ''a'' ''b'' ''a.z''"
    by (simp add: holds_def starts_at_def empty_borrow_state_def omap_find_def no_sep_def)
  moreover have "\<not> accessed_through ?e ''b''" "\<not> accessed_through_descendant ?s ?e ''b''"
    by (simp_all add: accessed_through_descendant_def empty_borrow_state_def)
  moreover have "(''a'', ''b'') \<in> set (active_mut_borrower ?s)" by simp
  ultimately have "\<not> comparable (memory_path (''a'', [AField ''x''])) (memory_path (''a'', [AField ''y'']))"
    "\<not> comparable (memory_path (''a'', [AField ''x''])) (memory_path (''a'', [AField ''z'']))"
    using T by (simp, blast)
  then show ?thesis ..
qed

section \<open>Borrows that leave their scope\<close>

definition is_local_owner :: "borrow_state \<Rightarrow> string \<Rightarrow> bool" where
  "is_local_owner s owner \<longleftrightarrow> owner \<noteq> [] \<and>
     (variable_scope_depth s owner \<noteq> None \<or>
      (case first_index (\<lambda>c. \<not> no_sep c) owner of
         None \<Rightarrow> False
       | Some i \<Rightarrow> i \<noteq> 0 \<and> variable_scope_depth s (take i owner) \<noteq> None))"

definition reborrow_prefix :: "string \<Rightarrow> string" where
  "reborrow_prefix x = ''@reborrow:'' @ x @ '':''"

definition identifier_carries :: "borrow_state \<Rightarrow> string \<Rightarrow> bool" where
  "identifier_carries s x \<longleftrightarrow>
     (case omap_find (pointer_borrow_target s) x of Some owner \<Rightarrow> is_local_owner s owner | None \<Rightarrow> False) \<or>
     list_ex (\<lambda>(owner, bs). x \<in> bs \<and> is_local_owner s owner) (active_borrowers s) \<or>
     list_ex (\<lambda>(k, b). b = x \<and> (is_local_owner s k \<or>
        starts_with (reborrow_prefix x) k \<and> is_local_owner s (drop (length (reborrow_prefix x)) k)))
       (active_mut_borrower s) \<or>
     (case omap_find (aggregate_borrow_origins s) x of
        Some owners \<Rightarrow> \<exists>owner \<in> owners. is_local_owner s owner | None \<Rightarrow> False)"

text \<open>What is found at a node, and where the search goes on. A match arm is searched in its pattern and
  its expression; the cases the source does not list are not entered.\<close>

fun carries_hit :: "borrow_state \<Rightarrow> node \<Rightarrow> bool" where
  "carries_hit s (ExprNode (Identifier x)) = identifier_carries s x"
| "carries_hit s (ExprNode (UnaryOp op e)) =
     ((op = OP_ADDR \<or> op = OP_ADDR_MUT) \<and> is_local_owner s (resolve_owner s e))"
| "carries_hit s _ = False"

fun carries_next :: "node \<Rightarrow> node list" where
  "carries_next (ExprNode (SizeofExpression t e)) = []"
| "carries_next (ExprNode (RequiresExpression ps rs)) = []"
| "carries_next (ExprNode (Closure ps b)) = []"
| "carries_next (ExprNode e) = children (ExprNode e)"
| "carries_next (StmtNode st) = []"

lemma carries_next_children: "set (carries_next n) \<subseteq> set (children n)"
proof (cases n)
  case (ExprNode e)
  then show ?thesis by (cases e) auto
qed simp

interpretation cw: ast_walk carries_next by unfold_locales (rule carries_next_children)

function carries :: "borrow_state \<Rightarrow> node \<Rightarrow> bool" where
  "carries s n \<longleftrightarrow> carries_hit s n \<or> list_ex (carries s) (carries_next n)"
  by pat_completeness auto
termination by (relation "measure (\<lambda>(s, n). node_size n)") (auto simp: cw.nexts_smaller)

declare carries.simps [simp del]

definition expression_carries_local_borrow :: "borrow_state \<Rightarrow> expr \<Rightarrow> bool" where
  "expression_carries_local_borrow s e = carries s (ExprNode e)"

lemma carries_iff: "carries s n \<longleftrightarrow> (\<exists>m. (n, m) \<in> cw.visits\<^sup>* \<and> carries_hit s m)"
proof -
  have "carries s n \<longleftrightarrow> carries_hit s n \<or> (\<exists>m \<in> set (carries_next n). carries s m)" for n
    by (subst carries.simps) (simp add: list_ex_iff)
  from cw.found [OF this] show ?thesis .
qed

text \<open>The address of a local variable's place, taken anywhere in an expression outside closures,
  \<open>sizeof\<close> and \<open>requires\<close>, is found, and so is a pointer or an aggregate that borrows one.\<close>

lemma local_address_found:
  assumes "(ExprNode e, ExprNode (UnaryOp op l)) \<in> cw.visits\<^sup>*" and "op = OP_ADDR \<or> op = OP_ADDR_MUT"
    and "variable_scope_depth s (resolve_owner s l) \<noteq> None" and "resolve_owner s l \<noteq> []"
  shows "expression_carries_local_borrow s e"
  using assms unfolding expression_carries_local_borrow_def carries_iff
  by (intro exI [of _ "ExprNode (UnaryOp op l)"]) (auto simp: is_local_owner_def)

end
