(* ===== verification/Ownership.thy ===== *)
theory Ownership
  imports Borrow_Access
begin

text \<open>
  Which types are copied and which are moved, and what moving a value out of an expression does to
  the set of moved places (\<^verbatim>\<open>src/ir/ownership.cpp\<close>, \<^verbatim>\<open>src/ir/moves.cpp\<close>). What the rest of the
  code generator knows of the program's types is an argument: the members of structs, the structs
  with a cleanup method and the visible enums, the types it gives to expressions, and the name of
  an instance of a generic struct, which it creates when it is first asked for.
\<close>

section \<open>Copy and move\<close>

record struct_table =
  struct_members :: "(string, (string \<times> type_node) list) omap"
  struct_has_cleanup :: "string \<Rightarrow> bool"
  visible_enum :: "string \<Rightarrow> bool"
  instance_name :: "string \<Rightarrow> type_node list \<Rightarrow> string"

datatype ownership_class = Copy | MoveOnly

fun copy_kind :: "type_kind \<Rightarrow> bool" where
  "copy_kind k \<longleftrightarrow> k \<in> {TYPE_BOOL, TYPE_INT, TYPE_FLOAT, TYPE_DOUBLE, TYPE_I8, TYPE_I16, TYPE_I32, TYPE_I64,
     TYPE_U8, TYPE_U16, TYPE_U32, TYPE_U64, TYPE_PTR, TYPE_STRING, TYPE_STR8, TYPE_STR16}"

declare copy_kind.simps [simp del]

text \<open>The name under which a type is looked up as a struct.\<close>

fun struct_name :: "struct_table \<Rightarrow> type_node \<Rightarrow> string option" where
  "struct_name t (StructTypeRef n) = Some n"
| "struct_name t (GenericStructTypeRef n as) = Some (instance_name t n as)"
| "struct_name t _ = None"

definition all_copy :: "(type_node \<Rightarrow> ownership_class) \<Rightarrow> type_node list \<Rightarrow> ownership_class" where
  "all_copy f ts = (if list_all (\<lambda>t. f t = Copy) ts then Copy else MoveOnly)"

lemma all_copy_cong [fundef_cong]: "ts = us \<Longrightarrow> (\<And>t. t \<in> set us \<Longrightarrow> f t = g t) \<Longrightarrow> all_copy f ts = all_copy g us"
  by (auto simp: all_copy_def list_all_iff)

lemma card_unvisited:
  assumes "omap_find m n = Some v" and "n \<notin> V"
  shows "card (fst ` set m - insert n V) < card (fst ` set m - V)"
proof (rule psubset_card_mono)
  have "n \<in> fst ` set m" using assms(1) find_None_notin [of m n] by (cases "n \<in> fst ` set m") auto
  with assms(2) show "fst ` set m - insert n V \<subset> fst ` set m - V" by blast
qed simp

function classify :: "struct_table \<Rightarrow> string set \<Rightarrow> type_node \<Rightarrow> ownership_class" where
  "classify t visiting ty =
     (case ty of
        NullType \<Rightarrow> MoveOnly
      | TupleType None \<Rightarrow> MoveOnly
      | TupleType (Some ts) \<Rightarrow> all_copy (classify t visiting) ts
      | PointerType e \<Rightarrow> Copy
      | _ \<Rightarrow>
          (case struct_name t ty of
             Some n \<Rightarrow>
               if visible_enum t n then Copy
               else (case omap_find (struct_members t) n of
                       None \<Rightarrow> MoveOnly
                     | Some members \<Rightarrow>
                         if struct_has_cleanup t n then MoveOnly
                         else if n \<in> visiting then MoveOnly
                         else all_copy (classify t (insert n visiting)) (map snd members))
           | None \<Rightarrow> if copy_kind (the (kind_of ty)) then Copy else MoveOnly))"
  by pat_completeness auto
termination
  by (relation "measures [\<lambda>(t, visiting, ty). card (fst ` set (struct_members t) - visiting), \<lambda>(t, visiting, ty). size ty]")
    (auto simp: less_Suc_eq_le intro: card_unvisited le_SucI size_list_estimation' [OF _ order_refl])

declare classify.simps [simp del]

definition classify_ownership :: "struct_table \<Rightarrow> type_node \<Rightarrow> ownership_class" where
  "classify_ownership t ty = classify t {} ty"

definition is_copy_type :: "struct_table \<Rightarrow> type_node \<Rightarrow> bool" where
  "is_copy_type t ty \<longleftrightarrow> classify_ownership t ty = Copy"

definition ownership_class_name :: "struct_table \<Rightarrow> type_node \<Rightarrow> string" where
  "ownership_class_name t ty = (if classify_ownership t ty = Copy then ''Copy'' else ''MoveOnly'')"

lemma all_copy_Copy [simp]: "all_copy f ts = Copy \<longleftrightarrow> (\<forall>t \<in> set ts. f t = Copy)"
  by (simp add: all_copy_def list_all_iff)

text \<open>Being copied as a least property: a type is copied for a reason of finite depth, so a struct
  that contains itself is not.\<close>

inductive copied :: "struct_table \<Rightarrow> nat \<Rightarrow> type_node \<Rightarrow> bool" for t where
  copied_tuple: "\<forall>ty \<in> set ts. copied t n ty \<Longrightarrow> copied t (Suc n) (TupleType (Some ts))"
| copied_pointer: "copied t n (PointerType e)"
| copied_enum: "struct_name t ty = Some s \<Longrightarrow> visible_enum t s \<Longrightarrow> copied t n ty"
| copied_struct: "struct_name t ty = Some s \<Longrightarrow> omap_find (struct_members t) s = Some ms \<Longrightarrow>
    \<not> struct_has_cleanup t s \<Longrightarrow> \<forall>m \<in> set ms. copied t n (snd m) \<Longrightarrow> copied t (Suc n) ty"
| copied_scalar: "struct_name t ty = None \<Longrightarrow> kind_of ty = Some k \<Longrightarrow> copy_kind k \<Longrightarrow> copied t n ty"

inductive_cases copied_refE: "copied t n (StructTypeRef s)"

lemma copied_mono: "copied t n ty \<Longrightarrow> n \<le> n' \<Longrightarrow> copied t n' ty"
proof (induction arbitrary: n' rule: copied.induct)
  case (copied_tuple ts n)
  then obtain k where "n' = Suc k" "n \<le> k" by (cases n') auto
  with copied_tuple show ?case by (auto intro: copied.copied_tuple)
next
  case (copied_struct ty s ms n)
  then obtain k where "n' = Suc k" "n \<le> k" by (cases n') auto
  with copied_struct show ?case by (blast intro: copied.copied_struct)
qed (auto intro: copied.intros)

lemma copied_all: "\<forall>ty \<in> set ts. \<exists>n. copied t n ty \<Longrightarrow> \<exists>n. \<forall>ty \<in> set ts. copied t n ty"
proof (induction ts)
  case (Cons ty ts)
  then obtain n m where "copied t n ty" "\<forall>ty \<in> set ts. copied t m ty" by auto
  then have "\<forall>u \<in> set (ty # ts). copied t (max n m) u" by (auto intro: copied_mono)
  then show ?case by blast
qed simp

lemma classify_struct:
  "struct_name t ty = Some n \<Longrightarrow> classify t V ty =
     (if visible_enum t n then Copy
      else case omap_find (struct_members t) n of
             None \<Rightarrow> MoveOnly
           | Some members \<Rightarrow> if struct_has_cleanup t n \<or> n \<in> V then MoveOnly
               else all_copy (classify t (insert n V)) (map snd members))"
  by (subst classify.simps, cases ty) (auto split: option.split)

lemma classify_tuple: "classify t V (TupleType (Some ts)) = all_copy (classify t V) ts"
  by (subst classify.simps) simp

lemma classify_other:
  "struct_name t ty = None \<Longrightarrow> (\<And>ts. ty \<noteq> TupleType (Some ts)) \<Longrightarrow>
   classify t V ty = Copy \<longleftrightarrow> (\<exists>e. ty = PointerType e) \<or> (\<exists>k. kind_of ty = Some k \<and> copy_kind k)"
  by (subst classify.simps, cases ty) (auto simp: copy_kind.simps split: option.split)

lemma classify_struct_sound:
  assumes "classify t V ty = Copy" and "struct_name t ty = Some n"
    and "\<And>ms m. omap_find (struct_members t) n = Some ms \<Longrightarrow> n \<notin> V \<Longrightarrow> m \<in> set (map snd ms) \<Longrightarrow>
      \<not> visible_enum t n \<Longrightarrow> \<not> struct_has_cleanup t n \<Longrightarrow> classify t (insert n V) m = Copy \<Longrightarrow> \<exists>k. copied t k m"
  shows "\<exists>k. copied t k ty"
proof (cases "visible_enum t n")
  case True
  with assms(2) show ?thesis by (blast intro: copied.copied_enum)
next
  case False
  with assms(1,2) obtain ms where ms: "omap_find (struct_members t) n = Some ms" "\<not> struct_has_cleanup t n" "n \<notin> V"
    "\<forall>m \<in> set (map snd ms). classify t (insert n V) m = Copy"
    by (auto simp: classify_struct split: option.splits if_splits)
  then have "\<forall>m \<in> set (map snd ms). \<exists>k. copied t k m" using assms(3) False by blast
  from copied_all [OF this] obtain k where "\<forall>m \<in> set ms. copied t k (snd m)" by auto
  with ms assms(2) show ?thesis by (blast intro: copied.copied_struct)
qed

lemma classify_sound: "classify t V ty = Copy \<Longrightarrow> \<exists>n. copied t n ty"
proof (induction t V ty rule: classify.induct)
  case (1 t V ty)
  consider n where "struct_name t ty = Some n" | ts where "ty = TupleType (Some ts)"
    | "struct_name t ty = None" "\<And>ts. ty \<noteq> TupleType (Some ts)" by (cases "struct_name t ty") auto
  then show ?case
  proof cases
    case (1 n)
    then show ?thesis using "1.IH" by (intro classify_struct_sound [OF "1.prems" 1]) (cases ty; simp)
  next
    case (2 ts)
    with "1.prems" have "\<forall>u \<in> set ts. classify t V u = Copy" by (simp add: classify_tuple)
    with "1.IH" 2 have "\<forall>u \<in> set ts. \<exists>k. copied t k u" by auto
    from copied_all [OF this] 2 show ?thesis by (auto intro: copied.copied_tuple)
  next
    case 3
    with "1.prems" classify_other [OF 3] show ?thesis by (blast intro: copied.intros)
  qed
qed

text \<open>Visited structs do not matter for a type that is copied, when none of them is copied for a reason
  as short as the type's.\<close>

lemma classify_complete:
  "copied t n ty \<Longrightarrow> \<forall>ty' v. struct_name t ty' = Some v \<longrightarrow> v \<in> V \<longrightarrow> \<not> visible_enum t v \<longrightarrow> \<not> copied t n ty' \<Longrightarrow>
   classify t V ty = Copy"
proof (induction n arbitrary: ty V rule: less_induct)
  case (less n)
  from less.prems(1) show ?case
  proof (cases rule: copied.cases)
    case (copied_tuple ts k)
    have "classify t V u = Copy" if "u \<in> set ts" for u
    proof (rule less.IH [of k])
      show "copied t k u" "k < n" using copied_tuple that by auto
      show "\<forall>ty' v. struct_name t ty' = Some v \<longrightarrow> v \<in> V \<longrightarrow> \<not> visible_enum t v \<longrightarrow> \<not> copied t k ty'"
        using less.prems(2) \<open>k < n\<close> by (meson copied_mono less_imp_le)
    qed
    then show ?thesis by (simp add: copied_tuple(2) classify_tuple)
  next
    case (copied_struct v ms k)
    show ?thesis
    proof (cases "visible_enum t v")
      case False
      let ?P = "\<lambda>j. copied t j ty"
      define j where "j = (LEAST j. ?P j)"
      have j: "?P j" "j \<le> n" "\<And>i. i < j \<Longrightarrow> \<not> ?P i"
        unfolding j_def using less.prems(1) by (auto intro: LeastI Least_le dest: not_less_Least)
      from j(1) False copied_struct(2) obtain i where i: "j = Suc i" "\<forall>m \<in> set ms. copied t i (snd m)"
        by (cases rule: copied.cases) (use copied_struct in auto)
      have same: "copied t i ty' \<Longrightarrow> struct_name t ty' = Some v \<Longrightarrow> copied t i ty" for ty'
      proof -
        assume "copied t i ty'" "struct_name t ty' = Some v"
        then show "copied t i ty"
          by (cases rule: copied.cases) (use copied_struct False in \<open>auto intro: copied.copied_struct\<close>)
      qed
      have "classify t (insert v V) (snd m) = Copy" if "m \<in> set ms" for m
      proof (rule less.IH [of i])
        show "i < n" "copied t i (snd m)" using i j(2) that by auto
        show "\<forall>ty' w. struct_name t ty' = Some w \<longrightarrow> w \<in> insert v V \<longrightarrow> \<not> visible_enum t w \<longrightarrow> \<not> copied t i ty'"
        proof (intro allI impI)
          fix ty' w assume w: "struct_name t ty' = Some w" "w \<in> insert v V" "\<not> visible_enum t w"
          show "\<not> copied t i ty'"
          proof (cases "w = v")
            case True
            with same [of ty'] j(3) [of i] i(1) w(1) show ?thesis by auto
          next
            case False
            with less.prems(2) w have "\<not> copied t n ty'" by blast
            then show ?thesis using copied_mono [of t i ty' n] i(1) j(2) by auto
          qed
        qed
      qed
      moreover have "v \<notin> V" using less.prems copied_struct False by blast
      ultimately show ?thesis using copied_struct False by (simp add: classify_struct)
    qed (use copied_struct in \<open>simp add: classify_struct\<close>)
  next
    case copied_pointer
    then show ?thesis by (simp add: classify_other)
  next
    case (copied_enum s)
    then show ?thesis by (simp add: classify_struct)
  next
    case (copied_scalar k)
    then have "\<And>ts. ty \<noteq> TupleType (Some ts)" by (auto simp: copy_kind.simps)
    with copied_scalar show ?thesis by (simp add: classify_other)
  qed
qed

text \<open>C18. The walk over a type, which remembers the structs it is in, always ends, and finds the types
  that are copied: pointers, enums, scalars and strings, and tuples and structs all of whose parts
  are copied, where a struct has no cleanup and does not contain itself.\<close>

theorem copy_types:
  "is_copy_type t ty \<longleftrightarrow> (\<exists>n. copied t n ty)"
  unfolding is_copy_type_def classify_ownership_def using classify_sound classify_complete [where V = "{}"] by blast

lemma recursive_struct_moves:
  assumes "omap_find (struct_members t) s = Some ms" and "(f, StructTypeRef s) \<in> set ms" and "\<not> visible_enum t s"
  shows "\<not> is_copy_type t (StructTypeRef s)"
proof -
  have "\<not> copied t n (StructTypeRef s)" for n
  proof (induction n)
    case 0
    show ?case by (rule notI, erule copied_refE) (use assms in auto)
  next
    case (Suc n)
    show ?case by (rule notI, erule copied_refE) (use assms Suc in auto)
  qed
  then show ?thesis using classify_sound [of t "{}" "StructTypeRef s"]
    by (auto simp: is_copy_type_def classify_ownership_def)
qed

section \<open>Moved places\<close>

definition is_variable_moved :: "borrow_state \<Rightarrow> string \<Rightarrow> bool" where
  "is_variable_moved s x \<longleftrightarrow> x \<in> moved_variables s"

text \<open>A place under a variable: it goes on with a field or an index.\<close>

definition place_under :: "string \<Rightarrow> string \<Rightarrow> bool" where
  "place_under x place \<longleftrightarrow> length x < length place \<and> starts_with x place \<and> \<not> no_sep (place ! length x)"

definition clear_moved_variable :: "string \<Rightarrow> borrow_state \<Rightarrow> borrow_state" where
  "clear_moved_variable x s =
     s\<lparr>moved_variables := {m \<in> moved_variables s. \<not> (m = x \<and> \<not> contains_str ''[*]'' m \<or> place_under x m)}\<rparr>"

text \<open>The queries of the code generator this uses: types of expressions, which variables are moved,
  and the struct type of a variable when it has an automatic cleanup.\<close>

record move_queries =
  lvalue_type :: "expr \<Rightarrow> type_node option"
  inferred_type :: "expr \<Rightarrow> type_node option"
  copies :: "type_node \<Rightarrow> bool"
  move_only :: "string \<Rightarrow> bool"
  cleanup_struct :: "string \<Rightarrow> string option"

text \<open>The state of a move: the borrow state, the errors reported, and the variables whose drop flag
  was cleared, the last first.\<close>

record move_state =
  borrows :: borrow_state
  move_errors :: "string list"
  dropped :: "string list"

definition report :: "string \<Rightarrow> move_state \<Rightarrow> move_state" where
  "report msg m = m\<lparr>move_errors := move_errors m @ [msg]\<rparr>"

definition mark_moved :: "string \<Rightarrow> move_state \<Rightarrow> move_state" where
  "mark_moved place m = m\<lparr>borrows := (borrows m)\<lparr>moved_variables := insert place (moved_variables (borrows m))\<rparr>\<rparr>"

definition move_conflict :: "borrow_state \<Rightarrow> string \<Rightarrow> string \<Rightarrow> string \<Rightarrow> bool" where
  "move_conflict s owner place borrower \<longleftrightarrow>
     \<not> (case omap_find (pointer_borrow_target s) borrower of Some o' \<Rightarrow> o' \<noteq> owner | None \<Rightarrow> False) \<and>
     borrower_place_overlaps s borrower owner place"

definition validate_move_from_borrowed_place :: "move_queries \<Rightarrow> borrow_state \<Rightarrow> expr \<Rightarrow> string option" where
  "validate_move_from_borrowed_place q s e =
     (case (case lvalue_type q e of None \<Rightarrow> inferred_type q e | Some ty \<Rightarrow> Some ty) of
        None \<Rightarrow> None
      | Some ty \<Rightarrow>
          let owner = resolve_owner s e;
              place = (if resolve_place s e = [] then owner else resolve_place s e)
          in if copies q ty \<or> owner = [] then None
             else
               let shared = (case omap_find (active_borrowers s) owner of
                               None \<Rightarrow> [] | Some bs \<Rightarrow> sorted_list_of_set bs)
               in map_option (\<lambda>b. ''cannot move '' @ quoted place @ '' while borrowed by '' @ quoted b)
                    (List.find (move_conflict s owner place) (shared @ map snd (active_mut_borrower s))))"

definition partial_move_error :: "move_queries \<Rightarrow> string \<Rightarrow> string \<Rightarrow> string option" where
  "partial_move_error q owner place =
     map_option (\<lambda>ty. ''cannot partially move '' @ quoted place @ '' from type '' @ quoted ty @
        '' because it has an automatic cleanup method'') (cleanup_struct q owner)"

text \<open>Moving a part of a variable; the flag tells whether the analysis goes on.\<close>

definition move_part :: "move_queries \<Rightarrow> expr \<Rightarrow> bool \<Rightarrow> move_state \<Rightarrow> move_state \<times> bool" where
  "move_part q e borrowed m =
     (if borrowed then (m, True)
      else case validate_move_from_borrowed_place q (borrows m) e of
             Some msg \<Rightarrow> (report msg m, False)
           | None \<Rightarrow>
               let owner = resolve_owner (borrows m) e; place = resolve_place (borrows m) e
               in if (case lvalue_type q e of Some ty \<Rightarrow> \<not> copies q ty | None \<Rightarrow> False) \<and> place \<noteq> [] \<and>
                     owner \<notin> global_named_values (borrows m)
                  then (case partial_move_error q owner place of
                          Some msg \<Rightarrow> (report msg m, False)
                        | None \<Rightarrow> (mark_moved place m, True))
                  else (m, True))"

definition use_identifier :: "move_queries \<Rightarrow> string \<Rightarrow> bool \<Rightarrow> move_state \<Rightarrow> move_state" where
  "use_identifier q x borrowed m =
     (if x \<in> global_named_values (borrows m) then m
      else if is_variable_moved (borrows m) x then report (''use of moved value: '' @ quoted x) m
      else if \<not> borrowed \<and> move_only q x then
        (case validate_move_from_borrowed_place q (borrows m) (Identifier x) of
           Some msg \<Rightarrow> report msg m
         | None \<Rightarrow> mark_moved x (m\<lparr>dropped := x # dropped m\<rparr>))
      else m)"

text \<open>\<^verbatim>\<open>movedVariables\<close> of the two branches of a conditional, joined.\<close>

definition join_moved :: "move_state \<Rightarrow> move_state \<Rightarrow> move_state" where
  "join_moved t f = f\<lparr>borrows := (borrows f)\<lparr>moved_variables := moved_variables (borrows t) \<union> moved_variables (borrows f)\<rparr>\<rparr>"

definition with_moved_of :: "move_state \<Rightarrow> move_state \<Rightarrow> move_state" where
  "with_moved_of a m = m\<lparr>borrows := (borrows m)\<lparr>moved_variables := moved_variables (borrows a)\<rparr>\<rparr>"

lemma entry_smaller:
  "e \<in> set (elems es) \<Longrightarrow> x \<in> set (entry_exprs e) \<Longrightarrow> size x < Suc (size_option (size_list (size_map_entry size)) es)"
  using size_entries [of x es size] by (auto simp: less_Suc_eq_le)

lemma field_smaller: "(f, b) \<in> set fs \<Longrightarrow> size b < Suc (size_list (size_prod (\<lambda>x. 0) size) fs)"
  using size_named [of "(f, b)" fs size "\<lambda>x. 0"] by simp

text \<open>The lambda \<^verbatim>\<open>consume\<close>, which analyses both branches of a conditional and joins them.\<close>

function (sequential) consume ::
    "move_queries \<Rightarrow> expr \<Rightarrow> bool \<Rightarrow> move_state \<Rightarrow> move_state" where
  "consume q (Identifier x) borrowed m = use_identifier q x borrowed m"
| "consume q (UnaryOp op e) borrowed m =
     (if op = OP_ADDR \<or> op = OP_ADDR_MUT then consume q e True m
      else if op = OP_DEREF \<and> \<not> borrowed then
        (case validate_move_from_borrowed_place q (borrows m) (UnaryOp op e) of
           Some msg \<Rightarrow> report msg m
         | None \<Rightarrow> consume q e True m)
      else consume q e (borrowed \<or> op = OP_DEREF) m)"
| "consume q (BinaryOp op l r) borrowed m = consume q r False (consume q l False m)"
| "consume q (FieldAccess s f e) borrowed m =
     (case move_part q (FieldAccess s f e) borrowed m of
        (m', go) \<Rightarrow>
          if \<not> go then m'
          else if e \<noteq> NullExpr then consume q e True m'
          else if s \<noteq> [] \<and> s \<notin> global_named_values (borrows m') \<and> is_variable_moved (borrows m') s
          then report (''use of moved value: '' @ quoted s) m' else m')"
| "consume q (IndexExpression b i) borrowed m =
     (case move_part q (IndexExpression b i) borrowed m of
        (m', go) \<Rightarrow> if go then consume q i False (consume q b True m') else m')"
| "consume q (TupleAccess e i) borrowed m =
     (case move_part q (TupleAccess e i) borrowed m of
        (m', go) \<Rightarrow> if go then consume q e True m' else m')"
| "consume q (CastExpression k e n) borrowed m = consume q e False m"
| "consume q (TryExpression e) borrowed m = consume q e False m"
| "consume q (Ternary c t f) borrowed m =
     (let m1 = consume q c False m;
          mt = consume q t False m1;
          mf = consume q f False (with_moved_of m1 mt)
      in join_moved mt mf)"
| "consume q (ListLiteral es) borrowed m = fold (\<lambda>e. consume q e False) (elems es) m"
| "consume q (MapLiteral es) borrowed m =
     fold (\<lambda>e. consume q e False) (concat (map entry_exprs (elems es))) m"
| "consume q (TupleLiteral es) borrowed m = fold (\<lambda>e. consume q e False) (elems es) m"
| "consume q (StructLiteral n d as fs) borrowed m = fold (\<lambda>e. consume q e False) (map snd fs) m"
| "consume q _ borrowed m = m"
  by pat_completeness auto
termination
  by (relation "measure (\<lambda>(q, e, b, m). size e)")
    (auto intro: elems_size entry_smaller field_smaller)

definition consume_move_from_expression :: "move_queries \<Rightarrow> expr \<Rightarrow> move_state \<Rightarrow> move_state" where
  "consume_move_from_expression q e m = consume q e False m"

end
