(* ===== verification/Move_Paths.thy ===== *)
theory Move_Paths
  imports Ownership
begin

text \<open>
  The move analysis against the runs of an expression: a run, which takes one branch of each
  conditional, is a sequence of uses and moves of whole variables, stated without the analysis. Where
  the analysis of an expression reports nothing, no run of it uses a variable after it was moved.
\<close>

section \<open>What the analysis changes\<close>

definition moved_of :: "move_state \<Rightarrow> string set" where
  "moved_of m = moved_variables (borrows m)"

definition same_but_moved :: "move_state \<Rightarrow> move_state \<Rightarrow> bool" where
  "same_but_moved m n \<longleftrightarrow> (borrows n)\<lparr>moved_variables := {}\<rparr> = (borrows m)\<lparr>moved_variables := {}\<rparr>"

definition extends :: "move_state \<Rightarrow> move_state \<Rightarrow> bool" where
  "extends m n \<longleftrightarrow> (\<exists>es. move_errors n = move_errors m @ es) \<and> moved_of m \<subseteq> moved_of n \<and> same_but_moved m n"

lemma extends_refl [simp, intro]: "extends m m"
  by (simp add: extends_def same_but_moved_def moved_of_def)

lemma extends_trans [trans]: "extends m n \<Longrightarrow> extends n k \<Longrightarrow> extends m k"
  by (auto simp: extends_def same_but_moved_def moved_of_def)

lemma extends_steps [simp, intro]:
  "extends m (report msg m)" "extends m (mark_moved place m)" "extends m (m\<lparr>dropped := d\<rparr>)"
  "extends m (mark_moved place (m\<lparr>dropped := d\<rparr>))"
  by (auto simp: extends_def same_but_moved_def moved_of_def report_def mark_moved_def)

lemma extends_use: "extends m (use_identifier q x b m)"
  by (simp add: use_identifier_def split: option.split)

lemma extends_part: "extends m (fst (move_part q e b m))"
  by (auto simp: move_part_def Let_def split: option.split)

lemma extends_fold: "(\<And>e m. e \<in> set es \<Longrightarrow> extends m (f e m)) \<Longrightarrow> extends m (fold f es m)"
proof (induction es arbitrary: m)
  case (Cons e es)
  then have "extends m (f e m)" "extends (f e m) (fold f es (f e m))" by auto
  then show ?case using extends_trans by simp
qed simp

lemma extends_join:
  "extends m t \<Longrightarrow> extends (with_moved_of m t) f \<Longrightarrow> extends m (join_moved t f)"
  by (auto simp: extends_def same_but_moved_def moved_of_def join_moved_def with_moved_of_def)

lemma consume_extends: "extends m (consume q e b m)"
proof (induction "size e" arbitrary: e b m rule: less_induct)
  case less
  note IH = less.hyps
  show ?case
  proof (cases e)
    case (UnaryOp op x)
    with IH [of x] show ?thesis by (auto split: option.split)
  next
    case (BinaryOp op l r)
    have "extends m (consume q l False m)"
      and "extends (consume q l False m) (consume q r False (consume q l False m))"
      using IH [of l] IH [of r] BinaryOp by simp_all
    from extends_trans [OF this] BinaryOp show ?thesis by simp
  next
    case (FieldAccess s f x)
    obtain m' go where p: "move_part q e b m = (m', go)" by fastforce
    with extends_part [of m q e b] have m': "extends m m'" by simp
    have "extends m' (consume q x True m')" using IH [of x] FieldAccess by simp
    from extends_trans [OF m' this] extends_trans [OF m' extends_steps(1)] m' p FieldAccess show ?thesis by auto
  next
    case (IndexExpression x i)
    obtain m' go where p: "move_part q e b m = (m', go)" by fastforce
    with extends_part [of m q e b] have m': "extends m m'" by simp
    have "extends m' (consume q x True m')"
      and "extends (consume q x True m') (consume q i False (consume q x True m'))"
      using IH [of x] IH [of i] IndexExpression by simp_all
    from extends_trans [OF m' extends_trans [OF this]] m' p IndexExpression show ?thesis by auto
  next
    case (TupleAccess x i)
    obtain m' go where p: "move_part q e b m = (m', go)" by fastforce
    with extends_part [of m q e b] have m': "extends m m'" by simp
    have "extends m' (consume q x True m')" using IH [of x] TupleAccess by simp
    from extends_trans [OF m' this] m' p TupleAccess show ?thesis by auto
  next
    case (Ternary c t f)
    have c: "extends m (consume q c False m)"
      and branch: "extends k (consume q t False k)" "extends k (consume q f False k)" for k
      using IH [of c] IH [of t] IH [of f] Ternary by simp_all
    from extends_trans [OF c extends_join [OF branch(1) branch(2)]] Ternary show ?thesis
      by (simp add: Let_def)
  next
    case (ListLiteral es)
    then show ?thesis using IH elems_size [of _ es size] by (auto intro: extends_fold)
  next
    case (MapLiteral es)
    have "extends m (consume q x False m)" if "x \<in> set (concat (map entry_exprs (elems es)))" for x m
      using IH [of x] entry_smaller [of _ es x] that MapLiteral by auto
    then have "extends m (fold (\<lambda>e. consume q e False) (concat (map entry_exprs (elems es))) m)"
      by (intro extends_fold) blast
    with MapLiteral show ?thesis by simp
  next
    case (TupleLiteral es)
    then show ?thesis using IH elems_size [of _ es size] by (auto intro: extends_fold)
  next
    case (StructLiteral n d as fs)
    have "extends m (consume q x False m)" if "x \<in> set (map snd fs)" for x m
      using IH [of x] field_smaller [of _ x fs] that StructLiteral by auto
    then have "extends m (fold (\<lambda>e. consume q e False) (map snd fs) m)" by (intro extends_fold) blast
    with StructLiteral show ?thesis by simp
  qed (use IH extends_use in auto)
qed

section \<open>Steps that report nothing\<close>

definition clean_step :: "move_state \<Rightarrow> move_state \<Rightarrow> bool" where
  "clean_step m m' \<longleftrightarrow> move_errors m' = move_errors m"

lemma clean_trans: "clean_step m n \<Longrightarrow> clean_step n k \<Longrightarrow> clean_step m k"
  by (simp add: clean_step_def)

lemma clean_parts: "extends m n \<Longrightarrow> extends n k \<Longrightarrow> clean_step m k \<Longrightarrow> clean_step m n \<and> clean_step n k"
  unfolding clean_step_def extends_def by (elim conjE exE) simp

lemma not_clean_report [simp]: "\<not> clean_step m (report msg m)"
  by (simp add: clean_step_def report_def)

text \<open>Only the dereference of a variable reads the state; every other operator passes its operand on.\<close>

definition derefs :: "unary_op \<Rightarrow> expr \<Rightarrow> bool" where
  "derefs op e \<longleftrightarrow> op = OP_DEREF \<and> (case e of Identifier x \<Rightarrow> True | _ \<Rightarrow> False)"

lemma derefs_var: "derefs op e \<Longrightarrow> \<exists>x. op = OP_DEREF \<and> e = Identifier x"
  unfolding derefs_def by (cases e) simp_all

lemma not_derefs:
  "\<not> derefs op e \<Longrightarrow> (case (op, e) of (OP_DEREF, Identifier x) \<Rightarrow> f x | _ \<Rightarrow> g) = g"
  unfolding derefs_def by (cases op; simp; cases e; simp)

lemma resolve_owner_unary: "\<not> derefs op e \<Longrightarrow> resolve_owner s (UnaryOp op e) = resolve_owner s e"
  unfolding resolve_owner.simps by (rule not_derefs)

lemma resolve_place_unary: "\<not> derefs op e \<Longrightarrow> resolve_place s (UnaryOp op e) = resolve_place s e"
  unfolding resolve_place.simps by (rule not_derefs)

lemma resolve_owner_moved [simp]: "resolve_owner (s\<lparr>moved_variables := M\<rparr>) e = resolve_owner s e"
proof (induction "size e" arbitrary: e rule: less_induct)
  case less
  show ?case
  proof (cases e)
    case (UnaryOp op x)
    with less [of x] resolve_owner_unary [of op x] derefs_var [of op x] show ?thesis by (cases "derefs op x") auto
  qed (use less in auto)
qed

lemma constant_integer_moved [simp]: "constant_integer (s\<lparr>moved_variables := M\<rparr>) e = constant_integer s e"
proof (induction "size e" arbitrary: e rule: less_induct)
  case less
  then show ?case by (cases e) (simp_all cong: option.case_cong)
qed

lemma resolve_place_moved [simp]: "resolve_place (s\<lparr>moved_variables := M\<rparr>) e = resolve_place s e"
proof (induction "size e" arbitrary: e rule: less_induct)
  case less
  show ?case
  proof (cases e)
    case (UnaryOp op x)
    with less [of x] resolve_place_unary [of op x] derefs_var [of op x] show ?thesis by (cases "derefs op x") auto
  next
    case (IndexExpression b i)
    have "resolve_place (s\<lparr>moved_variables := M\<rparr>) b = resolve_place s b" using less [of b] IndexExpression by simp
    with IndexExpression show ?thesis by (cases i) simp_all
  qed (use less in auto)
qed

lemma validate_move_moved [simp]:
  "validate_move_from_borrowed_place q (s\<lparr>moved_variables := M\<rparr>) e = validate_move_from_borrowed_place q s e"
proof -
  have "borrower_place_overlaps (s\<lparr>moved_variables := M\<rparr>) b owner place = borrower_place_overlaps s b owner place" for b owner place
    by (simp add: borrower_place_overlaps_def cong: option.case_cong if_cong)
  then have "move_conflict (s\<lparr>moved_variables := M\<rparr>) owner place = move_conflict s owner place" for owner place
    by (simp add: fun_eq_iff move_conflict_def)
  then show ?thesis by (simp add: validate_move_from_borrowed_place_def Let_def cong: option.case_cong if_cong)
qed

lemma global_named_values_moved [simp]: "global_named_values (s\<lparr>moved_variables := M\<rparr>) = global_named_values s"
  by simp

text \<open>All queries but the one for moved variables give the same on both sides.\<close>

lemma same_queries:
  assumes "same_but_moved m n"
  shows "resolve_owner (borrows n) e = resolve_owner (borrows m) e"
    and "resolve_place (borrows n) e = resolve_place (borrows m) e"
    and "validate_move_from_borrowed_place q (borrows n) e = validate_move_from_borrowed_place q (borrows m) e"
    and "global_named_values (borrows n) = global_named_values (borrows m)"
proof -
  have e: "(borrows n)\<lparr>moved_variables := {}\<rparr> = (borrows m)\<lparr>moved_variables := {}\<rparr>"
    using assms by (simp add: same_but_moved_def)
  show "resolve_owner (borrows n) e = resolve_owner (borrows m) e" using arg_cong [OF e, of "\<lambda>s. resolve_owner s e"] by simp
  show "resolve_place (borrows n) e = resolve_place (borrows m) e" using arg_cong [OF e, of "\<lambda>s. resolve_place s e"] by simp
  show "validate_move_from_borrowed_place q (borrows n) e = validate_move_from_borrowed_place q (borrows m) e"
    using arg_cong [OF e, of "\<lambda>s. validate_move_from_borrowed_place q s e"] by simp
  show "global_named_values (borrows n) = global_named_values (borrows m)"
    using arg_cong [OF e, of global_named_values] by simp
qed

lemma clean_join:
  assumes "extends n t" and "extends (with_moved_of n t) f" and "clean_step n (join_moved t f)"
  shows "clean_step n t" and "clean_step (with_moved_of n t) f"
proof -
  obtain es es' where e: "move_errors t = move_errors n @ es" "move_errors f = move_errors t @ es'"
    using assms(1,2) by (auto simp: extends_def with_moved_of_def)
  have f: "move_errors f = move_errors n" using assms(3) by (simp add: clean_step_def join_moved_def)
  from e f have es: "es = []" "es' = []" by simp_all
  from e es show "clean_step n t" "clean_step (with_moved_of n t) f"
    by (simp_all add: clean_step_def with_moved_of_def)
qed

section \<open>Runs\<close>

text \<open>What a run of an expression does with whole variables, in order: it uses one, and it moves one
  when the variable is read as a value of a type that is moved. \<open>borrowed\<close> says that only an address is
  wanted or a part is reached. One branch of a conditional runs. The parts of the other expressions
  (of a call, say) are analysed when code is made for them, not by the walk over this one.\<close>

datatype move_event = Uses string | Moves string

fun walked :: "expr \<Rightarrow> bool" where
  "walked (Identifier x) = True"
| "walked (UnaryOp op e) = True"
| "walked (BinaryOp op l r) = True"
| "walked (FieldAccess s f e) = True"
| "walked (IndexExpression b i) = True"
| "walked (TupleAccess e i) = True"
| "walked (CastExpression k e n) = True"
| "walked (TryExpression e) = True"
| "walked (Ternary c t f) = True"
| "walked (ListLiteral es) = True"
| "walked (MapLiteral es) = True"
| "walked (TupleLiteral es) = True"
| "walked (StructLiteral n d as fs) = True"
| "walked _ = False"

inductive run :: "move_queries \<Rightarrow> string set \<Rightarrow> expr \<Rightarrow> bool \<Rightarrow> move_event list \<Rightarrow> bool" for q G where
  run_global: "x \<in> G \<Longrightarrow> run q G (Identifier x) b []"
| run_move: "x \<notin> G \<Longrightarrow> \<not> b \<Longrightarrow> move_only q x \<Longrightarrow> run q G (Identifier x) b [Uses x, Moves x]"
| run_read: "x \<notin> G \<Longrightarrow> b \<or> \<not> move_only q x \<Longrightarrow> run q G (Identifier x) b [Uses x]"
| run_unary: "run q G e (b \<or> op \<in> {OP_ADDR, OP_ADDR_MUT, OP_DEREF}) tr \<Longrightarrow> run q G (UnaryOp op e) b tr"
| run_binary: "run q G l False tr \<Longrightarrow> run q G r False tr' \<Longrightarrow> run q G (BinaryOp op l r) b (tr @ tr')"
| run_field: "e \<noteq> NullExpr \<Longrightarrow> run q G e True tr \<Longrightarrow> run q G (FieldAccess s f e) b tr"
| run_named_field: "run q G (FieldAccess s f NullExpr) b (if s = [] \<or> s \<in> G then [] else [Uses s])"
| run_index: "run q G x True tr \<Longrightarrow> run q G i False tr' \<Longrightarrow> run q G (IndexExpression x i) b (tr @ tr')"
| run_tuple_access: "run q G e True tr \<Longrightarrow> run q G (TupleAccess e i) b tr"
| run_cast: "run q G e False tr \<Longrightarrow> run q G (CastExpression k e n) b tr"
| run_try: "run q G e False tr \<Longrightarrow> run q G (TryExpression e) b tr"
| run_then: "run q G c False tr \<Longrightarrow> run q G t False tr' \<Longrightarrow> run q G (Ternary c t f) b (tr @ tr')"
| run_else: "run q G c False tr \<Longrightarrow> run q G f False tr' \<Longrightarrow> run q G (Ternary c t f) b (tr @ tr')"
| run_list: "list_all2 (\<lambda>e. run q G e False) (elems es) trs \<Longrightarrow> run q G (ListLiteral es) b (concat trs)"
| run_map: "list_all2 (\<lambda>e. run q G e False) (concat (map entry_exprs (elems es))) trs \<Longrightarrow>
    run q G (MapLiteral es) b (concat trs)"
| run_tuple: "list_all2 (\<lambda>e. run q G e False) (elems es) trs \<Longrightarrow> run q G (TupleLiteral es) b (concat trs)"
| run_struct: "list_all2 (\<lambda>e. run q G e False) (map snd fs) trs \<Longrightarrow> run q G (StructLiteral n d as fs) b (concat trs)"
| run_other: "\<not> walked e \<Longrightarrow> run q G e b []"

text \<open>A run is safe from the variables \<open>M\<close> that are moved before it.\<close>

fun safe_run :: "string set \<Rightarrow> move_event list \<Rightarrow> bool" where
  "safe_run M [] \<longleftrightarrow> True"
| "safe_run M (Uses x # tr) \<longleftrightarrow> x \<notin> M \<and> safe_run M tr"
| "safe_run M (Moves x # tr) \<longleftrightarrow> safe_run (insert x M) tr"

definition moves_in :: "move_event list \<Rightarrow> string set" where
  "moves_in tr = {x. Moves x \<in> set tr}"

lemma moves_in_simps [simp]:
  "moves_in [] = {}" "moves_in (Uses x # tr) = moves_in tr" "moves_in (Moves x # tr) = insert x (moves_in tr)"
  "moves_in (tr @ tr') = moves_in tr \<union> moves_in tr'"
  by (auto simp: moves_in_def)

lemma safe_run_append: "safe_run M (tr @ tr') \<longleftrightarrow> safe_run M tr \<and> safe_run (M \<union> moves_in tr) tr'"
  by (induction M tr rule: safe_run.induct) auto

lemma safe_run_subset: "safe_run M tr \<Longrightarrow> N \<subseteq> M \<Longrightarrow> safe_run N tr"
proof (induction M tr arbitrary: N rule: safe_run.induct)
  case (3 M x tr)
  have "insert x N \<subseteq> insert x M" using 3(3) by blast
  moreover have "safe_run (insert x M) tr" using 3(2) by simp
  ultimately have "safe_run (insert x N) tr" by (rule 3(1) [rotated])
  then show ?case by simp
qed auto

lemma safe_run_use:
  assumes "safe_run M (pre @ Uses x # post)"
  shows "x \<notin> M" and "Moves x \<notin> set pre"
  using assms by (auto simp: safe_run_append moves_in_def)

text \<open>What one step of the analysis owes to the runs.\<close>

definition covers :: "(move_state \<Rightarrow> move_state) \<Rightarrow> string set \<Rightarrow> move_event list \<Rightarrow> bool" where
  "covers f G tr \<longleftrightarrow> (\<forall>m. extends m (f m)) \<and>
     (\<forall>m. global_named_values (borrows m) = G \<longrightarrow> clean_step m (f m) \<longrightarrow>
        safe_run (moved_of m) tr \<and> moves_in tr \<subseteq> moved_of (f m))"

lemma coversD:
  assumes "covers f G tr" and "global_named_values (borrows m) = G" and "clean_step m (f m)"
  shows "safe_run (moved_of m) tr" and "moves_in tr \<subseteq> moved_of (f m)" and "moved_of m \<subseteq> moved_of (f m)"
    and "global_named_values (borrows (f m)) = G"
proof -
  have ext: "extends m (f m)" using assms(1) by (simp add: covers_def)
  show "safe_run (moved_of m) tr" "moves_in tr \<subseteq> moved_of (f m)" using assms by (simp_all add: covers_def)
  show "moved_of m \<subseteq> moved_of (f m)" using ext by (simp add: extends_def)
  have "same_but_moved m (f m)" using ext by (simp add: extends_def)
  from same_queries(4) [OF this] show "global_named_values (borrows (f m)) = G" using assms(2) by (rule trans)
qed

lemma covers_comp:
  assumes f: "covers f G tr" and g: "covers g G tr'"
  shows "covers (\<lambda>m. g (f m)) G (tr @ tr')"
  unfolding covers_def
proof (intro conjI allI impI)
  have ext: "extends m (f m)" "extends (f m) (g (f m))" for m using f g by (auto simp: covers_def)
  then show "extends m (g (f m))" for m using extends_trans by blast
  fix m assume G: "global_named_values (borrows m) = G" and c: "clean_step m (g (f m))"
  have c1: "clean_step m (f m)" and c2: "clean_step (f m) (g (f m))" using clean_parts [OF ext c] by blast+
  note F = coversD [OF f G c1]
  note H = coversD [OF g F(4) c2]
  have "safe_run (moved_of m \<union> moves_in tr) tr'" by (rule safe_run_subset [OF H(1)]) (use F(2,3) in blast)
  then show "safe_run (moved_of m) (tr @ tr')" using F(1) by (simp add: safe_run_append)
  show "moves_in (tr @ tr') \<subseteq> moved_of (g (f m))" using F(2,3) H(2,3) by auto
qed

lemma covers_none: "(\<And>m. extends m (f m)) \<Longrightarrow> covers f G []"
  by (simp add: covers_def)

lemma covers_fold: "list_all2 (\<lambda>e. covers (f e) G) es trs \<Longrightarrow> covers (fold f es) G (concat trs)"
proof (induction rule: list_all2_induct)
  case (Cons e es tr trs)
  from covers_comp [OF this(1) this(3)] show ?case by (simp add: comp_def)
qed (simp add: covers_none id_def)

section \<open>The analysis covers the runs\<close>

lemma covers_eqI: "(\<And>m. f m = g m) \<Longrightarrow> covers g G tr \<Longrightarrow> covers f G tr"
  by (simp add: covers_def)

lemma covers_weaken:
  assumes "\<And>m. extends m (f m)" and "covers g G tr" and "\<And>m. clean_step m (f m) \<Longrightarrow> \<exists>n. extends m n \<and> clean_step m n \<and> f m = g n"
  shows "covers f G tr"
  unfolding covers_def
proof (intro conjI allI impI)
  show "extends m (f m)" for m by (rule assms(1))
  fix m assume G: "global_named_values (borrows m) = G" and c: "clean_step m (f m)"
  from assms(3) [OF c] obtain n where n: "extends m n" "clean_step m n" "f m = g n" by blast
  have "extends n (g n)" using assms(2) by (simp add: covers_def)
  from clean_parts [OF n(1) this] c n(3) have cn: "clean_step n (g n)" by simp
  have "same_but_moved m n" using n(1) by (simp add: extends_def)
  from same_queries(4) [OF this] have Gn: "global_named_values (borrows n) = G" using G by (rule trans)
  note N = coversD [OF assms(2) Gn cn]
  show "safe_run (moved_of m) tr" using safe_run_subset [OF N(1)] n(1) by (simp add: extends_def)
  show "moves_in tr \<subseteq> moved_of (f m)" using N(2) n(3) by simp
qed

lemma move_part_goes_on:
  assumes "clean_step m m'" and "move_part q e b m = (m', go)"
  shows "go"
  using assms by (auto simp: move_part_def Let_def split: if_splits option.splits)

text \<open>After the part itself is moved, the walk goes on with the place it is part of.\<close>

lemma covers_part:
  assumes g: "covers g G tr" and f: "\<And>m. f m = (case move_part q e b m of (m', go) \<Rightarrow> if go then g m' else m')"
  shows "covers f G tr"
proof (rule covers_weaken [OF _ g])
  have ext: "extends m (g m)" for m using g by (simp add: covers_def)
  fix m
  obtain m' go where p: "move_part q e b m = (m', go)" by fastforce
  with extends_part [of m q e b] have m': "extends m m'" by simp
  show "extends m (f m)" using p m' extends_trans [OF m' ext] by (simp add: f)
  assume c: "clean_step m (f m)"
  have "clean_step m m'"
  proof (cases go)
    case True
    with p f have "f m = g m'" by simp
    with clean_parts [OF m' ext] c show ?thesis by simp
  qed (use p f c in simp)
  with move_part_goes_on [OF this p] p m' f show "\<exists>n. extends m n \<and> clean_step m n \<and> f m = g n" by auto
qed

lemma covers_use:
  assumes "run q G (Identifier x) b tr"
  shows "covers (use_identifier q x b) G tr"
proof -
  have "tr = [] \<and> x \<in> G \<or> tr = [Uses x, Moves x] \<and> x \<notin> G \<and> \<not> b \<and> move_only q x \<or> tr = [Uses x] \<and> x \<notin> G"
    using assms by (cases rule: run.cases) auto
  then show ?thesis unfolding covers_def
    by (auto simp: extends_use) (auto simp: use_identifier_def is_variable_moved_def moved_of_def mark_moved_def split: option.splits)
qed

lemma covers_then:
  assumes "covers t G tr" and "\<And>m. extends m (f m)"
  shows "covers (\<lambda>m. join_moved (t m) (f (with_moved_of m (t m)))) G tr"
  unfolding covers_def
proof (intro conjI allI impI)
  have ext: "extends m (t m)" for m using assms(1) by (simp add: covers_def)
  show "extends m (join_moved (t m) (f (with_moved_of m (t m))))" for m by (rule extends_join [OF ext assms(2)])
  fix m assume "global_named_values (borrows m) = G" and "clean_step m (join_moved (t m) (f (with_moved_of m (t m))))"
  note T = coversD [OF assms(1) this(1) clean_join(1) [OF ext assms(2) this(2)]]
  then show "safe_run (moved_of m) tr" "moves_in tr \<subseteq> moved_of (join_moved (t m) (f (with_moved_of m (t m))))"
    by (auto simp: moved_of_def join_moved_def)
qed

lemma covers_else:
  assumes "covers f G tr" and "\<And>m. extends m (t m)"
  shows "covers (\<lambda>m. join_moved (t m) (f (with_moved_of m (t m)))) G tr"
  unfolding covers_def
proof (intro conjI allI impI)
  have ext: "extends m (f m)" for m using assms(1) by (simp add: covers_def)
  show "extends m (join_moved (t m) (f (with_moved_of m (t m))))" for m by (rule extends_join [OF assms(2) ext])
  fix m let ?n = "with_moved_of m (t m)"
  assume G: "global_named_values (borrows m) = G" and c: "clean_step m (join_moved (t m) (f ?n))"
  have "same_but_moved m ?n" using assms(2) [of m] by (simp add: extends_def same_but_moved_def with_moved_of_def)
  from same_queries(4) [OF this] have "global_named_values (borrows ?n) = G" using G by (rule trans)
  note F = coversD [OF assms(1) this clean_join(2) [OF assms(2) ext c]]
  have "moved_of ?n = moved_of m" by (simp add: moved_of_def with_moved_of_def)
  with F show "safe_run (moved_of m) tr" "moves_in tr \<subseteq> moved_of (join_moved (t m) (f ?n))"
    by (auto simp: moved_of_def join_moved_def)
qed

lemma covers_each:
  "list_all2 (\<lambda>e tr. run q G e False tr \<and> covers (consume q e False) G tr) es trs \<Longrightarrow>
   covers (fold (\<lambda>e. consume q e False) es) G (concat trs)"
  by (rule covers_fold, erule list_all2_mono) simp

lemma walked_no_part: "\<not> walked e \<Longrightarrow> consume q e b m = m"
  by (cases e) simp_all

lemma covers_unary:
  assumes x: "covers (consume q x (b \<or> op \<in> {OP_ADDR, OP_ADDR_MUT, OP_DEREF})) G tr"
  shows "covers (consume q (UnaryOp op x) b) G tr"
proof (cases "op = OP_DEREF \<and> \<not> b")
  case True
  with x have x: "covers (consume q x True) G tr" by simp
  show ?thesis
  proof (rule covers_weaken [OF consume_extends x])
    fix m assume "clean_step m (consume q (UnaryOp op x) b m)"
    with True have "consume q (UnaryOp op x) b m = consume q x True m" by (auto split: option.splits)
    then show "\<exists>n. extends m n \<and> clean_step m n \<and> consume q (UnaryOp op x) b m = consume q x True n"
      by (auto simp: clean_step_def)
  qed
next
  case False
  then show ?thesis by (intro covers_eqI [OF _ x]) auto
qed

lemma covers_named_field:
  "covers (consume q (FieldAccess s f NullExpr) b) G (if s = [] \<or> s \<in> G then [] else [Uses s])"
proof -
  let ?g = "\<lambda>m. if s \<noteq> [] \<and> s \<notin> global_named_values (borrows m) \<and> is_variable_moved (borrows m) s
    then report (''use of moved value: '' @ quoted s) m else m"
  have "covers ?g G (if s = [] \<or> s \<in> G then [] else [Uses s])"
    unfolding covers_def by (auto simp: is_variable_moved_def moved_of_def)
  from covers_part [OF this refl, of q "FieldAccess s f NullExpr" b] show ?thesis
    by (rule covers_eqI [rotated]) (simp split: prod.split)
qed

lemma run_covered: "run q G e b tr \<Longrightarrow> covers (consume q e b) G tr"
proof (induction rule: run.induct)
  case (run_global x b)
  show ?case by (rule covers_eqI [OF _ covers_use [OF run.run_global [OF run_global]]]) simp
next
  case (run_move x b)
  show ?case by (rule covers_eqI [OF _ covers_use [OF run.run_move [OF run_move]]]) simp
next
  case (run_read x b)
  show ?case by (rule covers_eqI [OF _ covers_use [OF run.run_read [OF run_read]]]) simp
next
  case (run_binary l tr r tr' b)
  show ?case by (rule covers_eqI [OF _ covers_comp [OF run_binary.IH]]) simp
next
  case (run_field e tr s f b)
  show ?case by (rule covers_part [OF run_field.IH, where e = "FieldAccess s f e" and b = b and q = q])
    (use run_field in \<open>simp split: prod.split\<close>)
next
  case (run_index x tr i tr' b)
  show ?case by (rule covers_part [OF covers_comp [OF run_index.IH], where e = "IndexExpression x i" and b = b and q = q]) simp
next
  case (run_tuple_access e tr i b)
  show ?case by (rule covers_part [OF run_tuple_access.IH, where e = "TupleAccess e i" and b = b and q = q]) simp
next
  case (run_cast e tr k n b)
  show ?case by (rule covers_eqI [OF _ run_cast.IH]) simp
next
  case (run_try e tr b)
  show ?case by (rule covers_eqI [OF _ run_try.IH]) simp
next
  case (run_then c tr t tr' f b)
  show ?case
    by (rule covers_eqI [OF _ covers_comp [OF run_then.IH(1) covers_then [OF run_then.IH(2) consume_extends]]])
      (simp add: Let_def)
next
  case (run_else c tr f tr' t b)
  show ?case
    by (rule covers_eqI [OF _ covers_comp [OF run_else.IH(1) covers_else [OF run_else.IH(2) consume_extends]]])
      (simp add: Let_def)
next
  case (run_list es trs b)
  show ?case by (rule covers_eqI [OF _ covers_each [OF run_list]]) simp
next
  case (run_map es trs b)
  show ?case by (rule covers_eqI [OF _ covers_each [OF run_map]]) simp
next
  case (run_tuple es trs b)
  show ?case by (rule covers_eqI [OF _ covers_each [OF run_tuple]]) simp
next
  case (run_struct fs trs n d as b)
  show ?case by (rule covers_eqI [OF _ covers_each [OF run_struct]]) simp
next
  case (run_other e b)
  then show ?case by (simp add: covers_none walked_no_part)
qed (rule covers_unary covers_named_field, assumption?)+

text \<open>C1. Where the move analysis of an expression reports nothing, no run of the expression uses a
  variable that was moved before it or that the run has itself moved, whichever branch of each
  conditional is taken; and every variable the run moves is among the moved places afterwards.\<close>

theorem no_use_after_move:
  assumes "move_errors (consume_move_from_expression q e m) = move_errors m"
    and "run q (global_named_values (borrows m)) e False tr"
  shows "(\<forall>pre x post. tr = pre @ Uses x # post \<longrightarrow> x \<notin> moved_variables (borrows m) \<and> Moves x \<notin> set pre) \<and>
    {x. Moves x \<in> set tr} \<subseteq> moved_variables (borrows (consume_move_from_expression q e m))"
proof -
  have "clean_step m (consume q e False m)" using assms(1) by (simp add: clean_step_def consume_move_from_expression_def)
  note C = coversD [OF run_covered [OF assms(2)] refl this]
  show ?thesis using safe_run_use [of "moved_of m"] C(1,2)
    unfolding moved_of_def moves_in_def consume_move_from_expression_def by blast
qed

text \<open>\<open>(c ? a : b)\<close> moves one of \<open>a\<close> and \<open>b\<close>, and afterwards neither can be used.\<close>

definition move_all :: move_queries where
  "move_all = \<lparr>lvalue_type = (\<lambda>_. None), inferred_type = (\<lambda>_. None), copies = (\<lambda>_. False), move_only = (\<lambda>x. x \<noteq> ''c''),
     cleanup_struct = (\<lambda>_. None)\<rparr>"

definition no_moves :: move_state where
  "no_moves = \<lparr>borrows = empty_borrow_state, move_errors = [], dropped = []\<rparr>"

lemma no_use_after_move_witness:
  "''b'' \<notin> moved_variables (borrows no_moves) \<and> Moves ''b'' \<notin> set [Uses ''c''] \<and>
   ''b'' \<in> moved_variables (borrows (consume_move_from_expression move_all
     (Ternary (Identifier ''c'') (Identifier ''a'') (Identifier ''b'')) no_moves))"
proof -
  let ?e = "Ternary (Identifier ''c'') (Identifier ''a'') (Identifier ''b'')" and ?tr = "[Uses ''c''] @ Uses ''b'' # [Moves ''b'']"
  have e: "move_errors (consume_move_from_expression move_all ?e no_moves) = move_errors no_moves"
    by (auto simp: consume_move_from_expression_def use_identifier_def is_variable_moved_def mark_moved_def
        validate_move_from_borrowed_place_def with_moved_of_def join_moved_def move_all_def no_moves_def
        empty_borrow_state_def Let_def)
  have "run move_all (global_named_values (borrows no_moves)) ?e False ([Uses ''c''] @ [Uses ''b'', Moves ''b''])"
    by (intro run_else run_move run_read) (simp_all add: no_moves_def empty_borrow_state_def move_all_def)
  then have "run move_all (global_named_values (borrows no_moves)) ?e False ?tr" by simp
  note T = no_use_after_move [OF e this]
  have "''b'' \<notin> moved_variables (borrows no_moves) \<and> Moves ''b'' \<notin> set [Uses ''c'']"
    using T by blast
  moreover have "''b'' \<in> {x. Moves x \<in> set ?tr}" by simp
  ultimately show ?thesis using T by blast
qed

text \<open>What the analysis has once moved is a use-after-move from then on: a variable that is moved twice
  is reported, and so is one moved under a condition and used afterwards.\<close>

lemma moved_then_used:
  assumes "x \<notin> global_named_values (borrows m)" and "x \<in> moved_variables (borrows m)"
  shows "consume_move_from_expression q (Identifier x) m = report (''use of moved value: '' @ quoted x) m"
  using assms by (simp add: consume_move_from_expression_def use_identifier_def is_variable_moved_def)

end
