(* ===== verification/Cexpr_Values.thy ===== *)
theory Cexpr_Values
  imports Borrow_Places Overload_Names
begin

text \<open>
  Values of compile-time evaluation and the operations on them (\<^verbatim>\<open>src/ir/constexpr.cpp\<close>, with the
  classification of kinds of \<^verbatim>\<open>src/ir/common.cpp\<close>). Integers are words of 64 bits, read as signed or
  unsigned by the kind of the type. Floating point numbers and the machine's operations on them are
  the parameter \<open>float_ops\<close>. An operation gives a value, fails with the message of the error, or
  is \<open>Undefined\<close> where C++ leaves its behaviour undefined.
\<close>

unbundle bit_operations_syntax

section \<open>Kinds\<close>

fun normalize_inferred_kind :: "type_kind \<Rightarrow> type_kind" where
  "normalize_inferred_kind TYPE_INT = TYPE_I32"
| "normalize_inferred_kind TYPE_STR8 = TYPE_STRING"
| "normalize_inferred_kind TYPE_STR16 = TYPE_STRING"
| "normalize_inferred_kind k = k"

definition is_integer_kind :: "type_kind \<Rightarrow> bool" where
  "is_integer_kind k \<longleftrightarrow> normalize_inferred_kind k \<in>
     {TYPE_I8, TYPE_I16, TYPE_I32, TYPE_I64, TYPE_U8, TYPE_U16, TYPE_U32, TYPE_U64}"

definition is_float_kind :: "type_kind \<Rightarrow> bool" where
  "is_float_kind k \<longleftrightarrow> normalize_inferred_kind k \<in> {TYPE_FLOAT, TYPE_DOUBLE}"

definition is_unsigned_kind :: "type_kind \<Rightarrow> bool" where
  "is_unsigned_kind k \<longleftrightarrow> k \<in> {TYPE_U8, TYPE_U16, TYPE_U32, TYPE_U64}"

section \<open>Values\<close>

datatype 'a outcome = Value 'a | Failed string | Undefined

fun outcome_bind :: "'a outcome \<Rightarrow> ('a \<Rightarrow> 'b outcome) \<Rightarrow> 'b outcome" where
  "outcome_bind (Value x) f = f x"
| "outcome_bind (Failed e) f = Failed e"
| "outcome_bind Undefined f = Undefined"

lemma outcome_bind_cong [fundef_cong]:
  "r = r' \<Longrightarrow> (\<And>x. r' = Value x \<Longrightarrow> f x = g x) \<Longrightarrow> outcome_bind r f = outcome_bind r' g"
  by (cases r') simp_all

lemma outcome_bind_Value [simp]: "outcome_bind r f = Value y \<longleftrightarrow> (\<exists>x. r = Value x \<and> f x = Value y)"
  by (cases r) simp_all

text \<open>Operations of the machine on numbers of type \<^verbatim>\<open>double\<close>; the limits are those of \<^verbatim>\<open>numeric_limits\<close>,
  the greatest or the least positive one of \<^verbatim>\<open>float\<close> or of \<^verbatim>\<open>double\<close>.\<close>

record 'f float_ops =
  f_add :: "'f \<Rightarrow> 'f \<Rightarrow> 'f"
  f_sub :: "'f \<Rightarrow> 'f \<Rightarrow> 'f"
  f_mul :: "'f \<Rightarrow> 'f \<Rightarrow> 'f"
  f_div :: "'f \<Rightarrow> 'f \<Rightarrow> 'f"
  f_neg :: "'f \<Rightarrow> 'f"
  f_lt :: "'f \<Rightarrow> 'f \<Rightarrow> bool"
  f_le :: "'f \<Rightarrow> 'f \<Rightarrow> bool"
  f_eq :: "'f \<Rightarrow> 'f \<Rightarrow> bool"
  f_of_int :: "int \<Rightarrow> 'f"
  f_to_int :: "'f \<Rightarrow> 64 word"
  f_of_bits32 :: "int \<Rightarrow> 'f"
  f_of_bits64 :: "int \<Rightarrow> 'f"
  f_limit :: "bool \<Rightarrow> bool \<Rightarrow> 'f"

record 'f cexpr_value =
  vk :: constexpr_kind
  vi :: "64 word"
  vb :: bool
  vf :: 'f
  vn :: string
  vt :: type_kind

definition fresh_value :: "'f float_ops \<Rightarrow> 'f cexpr_value" where
  "fresh_value fo = \<lparr>vk = ConstInt, vi = 0, vb = False, vf = f_of_int fo 0, vn = [], vt = TYPE_I64\<rparr>"

definition truth_float :: "'f float_ops \<Rightarrow> bool \<Rightarrow> 'f" where
  "truth_float fo b = f_of_int fo (if b then 1 else 0)"

definition nonzero :: "'f float_ops \<Rightarrow> 'f \<Rightarrow> bool" where
  "nonzero fo x \<longleftrightarrow> \<not> f_eq fo x (f_of_int fo 0)"

definition set_bool :: "'f float_ops \<Rightarrow> bool \<Rightarrow> 'f cexpr_value \<Rightarrow> 'f cexpr_value" where
  "set_bool fo b out =
     out\<lparr>vk := ConstBool, vi := (if b then 1 else 0), vb := b, vf := truth_float fo b, vt := TYPE_BOOL\<rparr>"

definition set_type :: "'f float_ops \<Rightarrow> string \<Rightarrow> 'f cexpr_value \<Rightarrow> 'f cexpr_value" where
  "set_type fo n out =
     out\<lparr>vk := ConstType, vn := n, vb := n \<noteq> [], vi := (if n \<noteq> [] then 1 else 0), vf := truth_float fo (n \<noteq> []),
       vt := TYPE_I64\<rparr>"

definition set_opaque :: "'f float_ops \<Rightarrow> string \<Rightarrow> 'f cexpr_value \<Rightarrow> 'f cexpr_value" where
  "set_opaque fo n out =
     out\<lparr>vk := ConstOpaqueStruct, vn := n, vt := TYPE_STRUCT, vb := True, vi := 1, vf := f_of_int fo 1\<rparr>"

definition set_int :: "'f float_ops \<Rightarrow> 64 word \<Rightarrow> type_kind \<Rightarrow> 'f cexpr_value \<Rightarrow> 'f cexpr_value" where
  "set_int fo n k out = out\<lparr>vk := ConstInt, vi := n, vb := n \<noteq> 0, vf := f_of_int fo (sint n), vt := k\<rparr>"

definition set_float :: "'f float_ops \<Rightarrow> 'f \<Rightarrow> type_kind \<Rightarrow> 'f cexpr_value \<Rightarrow> 'f cexpr_value" where
  "set_float fo x k out = out\<lparr>vk := ConstFloat, vf := x, vi := f_to_int fo x, vb := nonzero fo x, vt := k\<rparr>"

definition int_float :: "'f float_ops \<Rightarrow> type_kind \<Rightarrow> 64 word \<Rightarrow> 'f" where
  "int_float fo k n = f_of_int fo (if is_unsigned_kind k then uint n else sint n)"

definition value_as_double :: "'f float_ops \<Rightarrow> 'f cexpr_value \<Rightarrow> 'f" where
  "value_as_double fo v =
     (case vk v of ConstFloat \<Rightarrow> vf v | ConstBool \<Rightarrow> truth_float fo (vb v) | _ \<Rightarrow> int_float fo (vt v) (vi v))"

definition value_as_int :: "'f float_ops \<Rightarrow> 'f cexpr_value \<Rightarrow> 64 word" where
  "value_as_int fo v =
     (case vk v of
        ConstBool \<Rightarrow> if vb v then 1 else 0
      | ConstFloat \<Rightarrow> f_to_int fo (vf v)
      | ConstType \<Rightarrow> if vn v = [] then 0 else 1
      | _ \<Rightarrow> vi v)"

text \<open>The test a condition makes.\<close>

definition condition_holds :: "'f float_ops \<Rightarrow> 'f cexpr_value \<Rightarrow> bool" where
  "condition_holds fo v = (if vk v = ConstBool then vb v else nonzero fo (value_as_double fo v))"

definition placeholder :: "'f cexpr_value \<Rightarrow> bool" where
  "placeholder v \<longleftrightarrow> vk v = ConstOpaqueStruct \<or> vk v = ConstType"

section \<open>Conversion\<close>

definition coerce :: "'f float_ops \<Rightarrow> string \<Rightarrow> type_kind \<Rightarrow> 'f cexpr_value \<Rightarrow> 'f cexpr_value outcome" where
  "coerce fo ctxt target v =
     (let k = normalize_inferred_kind target
      in if vk v = ConstOpaqueStruct then
           Failed (''struct values in '' @ ctxt @ '' are only supported for generic type dispatch with type_id(T); '' @
             ''struct fields and struct constants are not compile-time evaluable yet'')
         else if vk v = ConstType then
           Failed (''type_id values in '' @ ctxt @ '' can only be used in compile-time comparisons'')
         else if k = TYPE_BOOL then
           Value (set_bool fo (case vk v of ConstBool \<Rightarrow> vb v | ConstFloat \<Rightarrow> nonzero fo (vf v) | _ \<Rightarrow> vi v \<noteq> 0) v)
         else if is_float_kind k then Value (set_float fo (value_as_double fo v) k v)
         else if is_integer_kind k then Value (set_int fo (value_as_int fo v) k v)
         else Failed (ctxt @ '' currently supports only integer, float, and bool types''))"

text \<open>The constant that is emitted; the integers of a type have its width.\<close>

datatype 'f llvm_constant = ConstantFP type_kind 'f | ConstantInt nat int

fun kind_bits :: "type_kind \<Rightarrow> nat option" where
  "kind_bits TYPE_BOOL = Some 1"
| "kind_bits TYPE_BIT = Some 1"
| "kind_bits TYPE_I8 = Some 8"
| "kind_bits TYPE_U8 = Some 8"
| "kind_bits TYPE_I16 = Some 16"
| "kind_bits TYPE_U16 = Some 16"
| "kind_bits TYPE_INT = Some 32"
| "kind_bits TYPE_I32 = Some 32"
| "kind_bits TYPE_U32 = Some 32"
| "kind_bits TYPE_I64 = Some 64"
| "kind_bits TYPE_U64 = Some 64"
| "kind_bits _ = None"

definition build_constant :: "'f float_ops \<Rightarrow> type_node \<Rightarrow> 'f cexpr_value \<Rightarrow> string + 'f llvm_constant" where
  "build_constant fo target v =
     (if vk v = ConstOpaqueStruct then
        Inl (''struct values in cexpr are only supported for generic type dispatch with type_id(T); '' @
          ''struct fields and struct constants are not compile-time evaluable yet'')
      else if vk v = ConstType then Inl ''type_id values in cexpr can only be used in compile-time comparisons''
      else
        let k = (case kind_of target of Some t \<Rightarrow> normalize_inferred_kind t | None \<Rightarrow> vt v)
        in if is_float_kind k then Inr (ConstantFP k (value_as_double fo v))
           else if k = TYPE_BOOL then
             Inr (ConstantInt 1 (of_bool (case vk v of ConstBool \<Rightarrow> vb v | ConstFloat \<Rightarrow> nonzero fo (vf v) | _ \<Rightarrow> vi v \<noteq> 0)))
           else case kind_bits k of
                  None \<Rightarrow> Inl ''cexpr currently supports only integer, float, and bool values''
                | Some n \<Rightarrow> Inr (ConstantInt n (take_bit n (sint (value_as_int fo v)))))"

section \<open>Operators\<close>

text \<open>Signed arithmetic is on \<^verbatim>\<open>int64_t\<close>: undefined when the result does not fit.\<close>

definition signed_result :: "int \<Rightarrow> 64 word outcome" where
  "signed_result r = (case in_int64 r of Some n \<Rightarrow> Value (word_of_int n) | None \<Rightarrow> Undefined)"

definition shift_error :: string where
  "shift_error = ''shift count in cexpr must be between 0 and 63''"

fun int_arith :: "bool \<Rightarrow> binary_op \<Rightarrow> 64 word \<Rightarrow> 64 word \<Rightarrow> 64 word outcome" where
  "int_arith u OP_PLUS l r = (if u then Value (l + r) else signed_result (sint l + sint r))"
| "int_arith u OP_MINUS l r = (if u then Value (l - r) else signed_result (sint l - sint r))"
| "int_arith u OP_MULTIPLY l r = (if u then Value (l * r) else signed_result (sint l * sint r))"
| "int_arith u OP_DIVIDE l r =
     (if r = 0 then Failed ''division by zero in cexpr''
      else if u then Value (l div r) else signed_result (sint l sdiv sint r))"
| "int_arith u OP_MODULO l r =
     (if r = 0 then Failed ''modulo by zero in cexpr''
      else if u then Value (l mod r)
      else if sint l = int64_min \<and> sint r = - 1 then Undefined else Value (word_of_int (sint l smod sint r)))"
| "int_arith u OP_BITAND l r = Value (l AND r)"
| "int_arith u OP_BITOR l r = Value (l OR r)"
| "int_arith u OP_BITXOR l r = Value (l XOR r)"
| "int_arith u OP_SHL l r =
     (if sint r < 0 \<or> 64 \<le> uint r then Failed shift_error else Value (push_bit (unat r) l))"
| "int_arith u OP_SHR l r =
     (if sint r < 0 \<or> 64 \<le> uint r then Failed shift_error
      else Value (if u then drop_bit (unat r) l else signed_drop_bit (unat r) l))"
| "int_arith u op l r = Failed ''unsupported binary operator in cexpr''"

fun int_compare :: "bool \<Rightarrow> binary_op \<Rightarrow> 64 word \<Rightarrow> 64 word \<Rightarrow> bool option" where
  "int_compare u OP_LT l r = Some (if u then l < r else sint l < sint r)"
| "int_compare u OP_GT l r = Some (if u then r < l else sint r < sint l)"
| "int_compare u OP_LE l r = Some (if u then l \<le> r else sint l \<le> sint r)"
| "int_compare u OP_GE l r = Some (if u then r \<le> l else sint r \<le> sint l)"
| "int_compare u OP_EQ l r = Some (l = r)"
| "int_compare u OP_NE l r = Some (l \<noteq> r)"
| "int_compare u op l r = None"

fun float_compare :: "'f float_ops \<Rightarrow> binary_op \<Rightarrow> 'f \<Rightarrow> 'f \<Rightarrow> bool option" where
  "float_compare fo OP_LT x y = Some (f_lt fo x y)"
| "float_compare fo OP_GT x y = Some (f_lt fo y x)"
| "float_compare fo OP_LE x y = Some (f_le fo x y)"
| "float_compare fo OP_GE x y = Some (f_le fo y x)"
| "float_compare fo OP_EQ x y = Some (f_eq fo x y)"
| "float_compare fo OP_NE x y = Some (\<not> f_eq fo x y)"
| "float_compare fo op x y = None"

fun float_arith :: "'f float_ops \<Rightarrow> binary_op \<Rightarrow> 'f \<Rightarrow> 'f \<Rightarrow> 'f outcome" where
  "float_arith fo OP_PLUS x y = Value (f_add fo x y)"
| "float_arith fo OP_MINUS x y = Value (f_sub fo x y)"
| "float_arith fo OP_MULTIPLY x y = Value (f_mul fo x y)"
| "float_arith fo OP_DIVIDE x y =
     (if f_eq fo y (f_of_int fo 0) then Failed ''division by zero in cexpr'' else Value (f_div fo x y))"
| "float_arith fo OP_MODULO x y = Failed ''modulo in cexpr requires integers''"
| "float_arith fo OP_BITAND x y = Failed ''bitwise and in cexpr requires integers''"
| "float_arith fo OP_BITOR x y = Failed ''bitwise or in cexpr requires integers''"
| "float_arith fo OP_BITXOR x y = Failed ''bitwise xor in cexpr requires integers''"
| "float_arith fo OP_SHL x y = Failed ''shift in cexpr requires integers''"
| "float_arith fo OP_SHR x y = Failed ''shift in cexpr requires integers''"
| "float_arith fo op x y = Failed ''unsupported binary operator in cexpr''"

definition float_result_kind :: "'f cexpr_value \<Rightarrow> 'f cexpr_value \<Rightarrow> type_kind" where
  "float_result_kind l r = (if vt l = TYPE_DOUBLE \<or> vt r = TYPE_DOUBLE then TYPE_DOUBLE else TYPE_FLOAT)"

definition unsigned_ops :: "'f cexpr_value \<Rightarrow> 'f cexpr_value \<Rightarrow> bool" where
  "unsigned_ops l r \<longleftrightarrow> is_unsigned_kind (vt l) \<or> is_unsigned_kind (vt r)"

definition integer_result_kind :: "'f cexpr_value \<Rightarrow> 'f cexpr_value \<Rightarrow> type_kind" where
  "integer_result_kind l r = (if unsigned_ops l r \<and> \<not> is_unsigned_kind (vt l) then vt r else vt l)"

text \<open>Both operands are values; \<open>&&\<close> and \<open>||\<close> look at both here, the shortcut is taken before.\<close>

definition value_binary ::
    "'f float_ops \<Rightarrow> binary_op \<Rightarrow> 'f cexpr_value \<Rightarrow> 'f cexpr_value \<Rightarrow> 'f cexpr_value \<Rightarrow> 'f cexpr_value outcome" where
  "value_binary fo op l r out =
     (let x = value_as_double fo l; y = value_as_double fo r; any_float = (vk l = ConstFloat \<or> vk r = ConstFloat);
          a = value_as_int fo l; b = value_as_int fo r; u = unsigned_ops l r
      in if op = OP_AND then Value (set_bool fo (nonzero fo x \<and> nonzero fo y) out)
         else if op = OP_OR then Value (set_bool fo (nonzero fo x \<or> nonzero fo y) out)
         else case (if any_float then float_compare fo op x y else int_compare u op a b) of
                Some c \<Rightarrow> Value (set_bool fo c out)
              | None \<Rightarrow>
                  if any_float then
                    outcome_bind (float_arith fo op x y) (\<lambda>z. Value (set_float fo z (float_result_kind l r) out))
                  else
                    outcome_bind (int_arith u op a b)
                      (\<lambda>n. Value ((set_int fo n (integer_result_kind l r) out)
                         \<lparr>vf := int_float fo (integer_result_kind l r) n\<rparr>)))"

definition eval_binary ::
    "'f float_ops \<Rightarrow> binary_op \<Rightarrow> 'f cexpr_value \<Rightarrow> 'f cexpr_value \<Rightarrow> 'f cexpr_value \<Rightarrow> 'f cexpr_value outcome" where
  "eval_binary fo op l r out =
     (if vk l = ConstType \<or> vk r = ConstType then
        (if vk l \<noteq> ConstType \<or> vk r \<noteq> ConstType \<or> op \<noteq> OP_EQ \<and> op \<noteq> OP_NE then
           Failed ''type_id values in cexpr support only == and !=''
         else Value (set_bool fo ((vn l = vn r) = (op = OP_EQ)) out))
      else if vk l = ConstOpaqueStruct \<or> vk r = ConstOpaqueStruct then
        Failed (''struct values in cexpr are only supported for generic type dispatch with type_id(T); '' @
          ''struct value operations are not compile-time evaluable yet'')
      else value_binary fo op l r out)"

text \<open>The left operand decides.\<close>

definition shortcut :: "binary_op \<Rightarrow> 'f cexpr_value \<Rightarrow> bool" where
  "shortcut op l \<longleftrightarrow> \<not> placeholder l \<and> (op = OP_AND \<and> \<not> vb l \<or> op = OP_OR \<and> vb l)"

definition eval_unary ::
    "'f float_ops \<Rightarrow> unary_op \<Rightarrow> 'f cexpr_value \<Rightarrow> 'f cexpr_value \<Rightarrow> 'f cexpr_value outcome" where
  "eval_unary fo op v out =
     (if placeholder v then
        Failed (''cexpr unary operators require a value; struct and type_id placeholders are only '' @
          ''available for type dispatch'')
      else case op of
        OP_NEG \<Rightarrow>
          if vk v = ConstFloat then Value (set_float fo (f_neg fo (vf v)) (vt v) out)
          else outcome_bind
            (if is_unsigned_kind (vt v) then Value (- value_as_int fo v) else signed_result (- sint (value_as_int fo v)))
            (\<lambda>n. Value (set_int fo n (vt v) out))
      | OP_NOT \<Rightarrow> Value (set_bool fo (\<not> nonzero fo (value_as_double fo v)) out)
      | OP_BITNOT \<Rightarrow>
          if vk v = ConstFloat then Failed ''bitwise not in cexpr requires an integer''
          else Value (set_int fo (NOT (value_as_int fo v)) (vt v) out)
      | _ \<Rightarrow> Failed ''unsupported unary operator in cexpr'')"

end
