(* ===== verification/Type_Text.thy ===== *)
theory Type_Text
  imports Type_Aliases
begin

text \<open>
  Types as text: printing (\<^verbatim>\<open>toString\<close> of the type nodes, \<^verbatim>\<open>src/ast.cpp\<close>) and reading
  (\<^verbatim>\<open>Helpers::type_from_text\<close>, \<^verbatim>\<open>src/ir/common.cpp\<close>). The text of a type is how templates, concepts
  and compile-time evaluation remember it. A null pointer prints as \<^verbatim>\<open>void\<close> where the code tests it.
\<close>

section \<open>Printing\<close>

fun kind_text :: "type_kind \<Rightarrow> string" where
  "kind_text TYPE_VOID = ''void''"
| "kind_text TYPE_BOOL = ''bool''"
| "kind_text TYPE_BIT = ''bit''"
| "kind_text TYPE_INT = ''i32''"
| "kind_text TYPE_FLOAT = ''f32''"
| "kind_text TYPE_DOUBLE = ''f64''"
| "kind_text TYPE_STRING = ''str8''"
| "kind_text TYPE_STR8 = ''str8''"
| "kind_text TYPE_STR16 = ''str16''"
| "kind_text TYPE_LIST = ''list''"
| "kind_text TYPE_MAP = ''map''"
| "kind_text TYPE_TUPLE = ''tuple''"
| "kind_text TYPE_PTR = ''ptr''"
| "kind_text TYPE_STRUCT = ''struct''"
| "kind_text TYPE_I8 = ''i8''"
| "kind_text TYPE_I16 = ''i16''"
| "kind_text TYPE_I32 = ''i32''"
| "kind_text TYPE_I64 = ''i64''"
| "kind_text TYPE_U8 = ''u8''"
| "kind_text TYPE_U16 = ''u16''"
| "kind_text TYPE_U32 = ''u32''"
| "kind_text TYPE_U64 = ''u64''"
| "kind_text _ = ''unknown''"

text \<open>The element and the capacities below the outermost node of a multidimensional array.\<close>

fun array_shape :: "type_node \<Rightarrow> type_node \<times> int list" where
  "array_shape (ArrayType e n) = (case array_shape e of (s, ns) \<Rightarrow> (s, n # ns))"
| "array_shape (MultiArrayType e n m) = (case array_shape e of (s, ns) \<Rightarrow> (s, n # ns))"
| "array_shape t = (t, [])"

lemma array_shape_size: "size (fst (array_shape t)) \<le> size t"
  by (induction t rule: array_shape.induct) (auto split: prod.splits)

lemma type_list_size: "x \<in> set ts \<Longrightarrow> size (x :: type_node) \<le> size_list size ts"
  by (simp add: size_list_estimation')

function type_text :: "type_node \<Rightarrow> string" where
  "type_text NullType = ''void''"
| "type_text (PlainType k) = kind_text k"
| "type_text (PointerType e) = ''ptr<'' @ type_text e @ ''>''"
| "type_text (TraitObjectType n) = ''dyn '' @ n"
| "type_text (ReferenceType e m) = ''&'' @ (if m then ''mut '' else '''') @ type_text e"
| "type_text (GenericListType e) = ''list<'' @ type_text e @ ''>''"
| "type_text (ArrayType e n) = ''array<'' @ type_text e @ '', '' @ int_str n @ ''>''"
| "type_text (MultiArrayType e n m) =
     (if m then ''mutmultiarray<'' else ''multiarray<'') @
     (if fst (array_shape e) = NullType then ''unknown'' else type_text (fst (array_shape e))) @
     concat (map (\<lambda>d. '', '' @ int_str d) (n # snd (array_shape e))) @ ''>''"
| "type_text (MapType k v) = ''map<'' @ type_text k @ '', '' @ type_text v @ ''>''"
| "type_text (TupleType ts) =
     ''tuple<'' @ joined '', '' (map type_text (case ts of None \<Rightarrow> [] | Some us \<Rightarrow> us)) @ ''>''"
| "type_text (FunctionType ps r) =
     ''fn('' @ joined '', '' (map type_text (case ps of None \<Rightarrow> [] | Some us \<Rightarrow> us)) @ '') -> '' @ type_text r"
| "type_text (StructTypeRef n) = n"
| "type_text (GenericStructTypeRef n as) = n @ ''<'' @ joined '', '' (map type_text as) @ ''>''"
  by pat_completeness auto
termination
  by (relation "measure size")
    (auto simp: less_Suc_eq_le array_shape_size split: option.splits dest!: type_list_size)

section \<open>Reading\<close>

definition wrapped_generic :: "string \<Rightarrow> string \<Rightarrow> bool" where
  "wrapped_generic s head \<longleftrightarrow> length head + 2 < length s \<and> starts_with head s \<and> s ! length head = CHR ''<'' \<and>
     last s = CHR ''>''"

definition unwrapped :: "string \<Rightarrow> string \<Rightarrow> string" where
  "unwrapped head s = substr s (length head + 1) (length s - (length head + 2))"

fun split_loop :: "int \<Rightarrow> char \<Rightarrow> string \<Rightarrow> string \<Rightarrow> string list" where
  "split_loop depth prev cur [] = [trim cur]"
| "split_loop depth prev cur (c # cs) =
     (if c \<in> {CHR ''<'', CHR ''('', CHR ''[''} then split_loop (depth + 1) c (cur @ [c]) cs
      else if c = CHR '')'' \<or> c = CHR '']'' \<or> c = CHR ''>'' \<and> prev \<noteq> CHR ''-'' then
        split_loop (depth - 1) c (cur @ [c]) cs
      else if c = CHR '','' \<and> depth = 0 then trim cur # split_loop depth c [] cs
      else split_loop depth c (cur @ [c]) cs)"

definition split_top_level_commas :: "string \<Rightarrow> string list" where
  "split_top_level_commas s = split_loop 0 (CHR 0x00) [] s"

definition primitive_names :: "(string \<times> type_kind) list" where
  "primitive_names =
     [(''bool'', TYPE_BOOL), (''bit'', TYPE_BIT), (''i32'', TYPE_I32), (''i8'', TYPE_I8), (''i16'', TYPE_I16),
      (''i64'', TYPE_I64), (''u8'', TYPE_U8), (''u16'', TYPE_U16), (''u32'', TYPE_U32), (''u64'', TYPE_U64),
      (''f32'', TYPE_FLOAT), (''f64'', TYPE_DOUBLE), (''str8'', TYPE_STR8), (''str16'', TYPE_STR16)]"

text \<open>The bracket that closes the parameters of a function type, counted from the one that opens them.\<close>

fun closing_paren :: "nat \<Rightarrow> string \<Rightarrow> nat option" where
  "closing_paren d [] = None"
| "closing_paren d (c # cs) =
     (if c = CHR ''('' then map_option Suc (closing_paren (Suc d) cs)
      else if c = CHR '')'' then (if d = 1 then Some 0 else map_option Suc (closing_paren (d - 1) cs))
      else map_option Suc (closing_paren d cs))"

text \<open>The parameters and the result of a function type.\<close>

definition function_parts :: "string \<Rightarrow> (string list \<times> string) option" where
  "function_parts s =
     (if \<not> starts_with ''fn('' s then None
      else case closing_paren 1 (drop 3 s) of
             None \<Rightarrow> None
           | Some n \<Rightarrow>
               let result = trim (drop (n + 4) s); body = trim (substr s 3 n)
               in if starts_with ''->'' result
                  then Some (if body = [] then [] else split_top_level_commas body, drop 2 result) else None)"

text \<open>\<^verbatim>\<open>from_chars\<close> for a 64-bit integer that takes the whole text.\<close>

definition parse_int64 :: "string \<Rightarrow> int option" where
  "parse_int64 s =
     (let digits = (if s \<noteq> [] \<and> hd s = CHR ''-'' then tl s else s);
          n = (if s \<noteq> [] \<and> hd s = CHR ''-'' then - int (digits_val digits) else int (digits_val digits))
      in if digits = [] \<or> \<not> list_all isdigit digits \<or> n < - (2 ^ 63) \<or> 2 ^ 63 \<le> n then None else Some n)"

definition array_wrapper :: "string \<Rightarrow> string option" where
  "array_wrapper s = List.find (wrapped_generic s) [''array'', ''multiarray'', ''mutmultiarray'']"

definition array_of :: "string \<Rightarrow> type_node \<Rightarrow> int \<Rightarrow> type_node" where
  "array_of wrapper e n = (if wrapper = ''array'' then ArrayType e n else MultiArrayType e n (wrapper = ''mutmultiarray''))"

definition array_parts :: "string \<Rightarrow> (string \<times> string list) option" where
  "array_parts s =
     (case array_wrapper s of
        None \<Rightarrow> None
      | Some w \<Rightarrow>
          let parts = split_top_level_commas (unwrapped w s)
          in if length parts < 2 then None else Some (w, parts))"

definition map_parts :: "string \<Rightarrow> (string \<times> string) option" where
  "map_parts s =
     (if wrapped_generic s ''map'' then
        (case split_top_level_commas (unwrapped ''map'' s) of [k, v] \<Rightarrow> Some (k, v) | _ \<Rightarrow> None)
      else None)"

definition generic_parts :: "string \<Rightarrow> (string \<times> string list) option" where
  "generic_parts s =
     (case find_char CHR ''<'' s of
        None \<Rightarrow> None
      | Some p \<Rightarrow>
          if last s = CHR ''>''
          then Some (trim (take p s), split_top_level_commas (substr s (p + 1) (length s - p - 2))) else None)"

section \<open>Pieces are shorter\<close>

lemma trim_length: "length (trim s) \<le> length s"
  by (simp add: trim_def) (metis length_dropWhile_le length_rev order_trans)

lemma split_loop_shorter: "p \<in> set (split_loop depth prev cur s) \<Longrightarrow> length p \<le> length cur + length s"
proof (induction depth prev cur s rule: split_loop.induct)
  case (1 depth prev cur)
  then show ?case by (simp add: trim_length)
next
  case (2 depth prev cur c cs)
  have t: "length (trim cur) \<le> length cur + length (c # cs)" using trim_length [of cur] by simp
  show ?case
  proof (cases "c \<in> {CHR ''<'', CHR ''('', CHR ''['', CHR '')'', CHR '']''} \<or> c = CHR ''>'' \<and> prev \<noteq> CHR ''-''")
    case True
    with 2 show ?thesis by (auto split: if_splits)
  next
    case False
    show ?thesis
    proof (cases "c = CHR '','' \<and> depth = 0")
      case True
      with 2(5) t consider "p = trim cur" | "p \<in> set (split_loop depth c [] cs)" by auto
      then show ?thesis using 2(3) True t by cases auto
    next
      case other: False
      with 2(4,5) False show ?thesis by (auto split: if_splits)
    qed
  qed
qed

lemma split_shorter: "p \<in> set (split_top_level_commas s) \<Longrightarrow> length p \<le> length s"
  using split_loop_shorter by (fastforce simp: split_top_level_commas_def)

lemma unwrapped_shorter: "wrapped_generic s h \<Longrightarrow> length (unwrapped h s) < length s"
  by (auto simp: wrapped_generic_def unwrapped_def substr_def)

lemma closing_paren_less: "closing_paren d s = Some n \<Longrightarrow> n < length s"
  by (induction d s arbitrary: n rule: closing_paren.induct) (auto split: if_splits)

lemma function_parts_shorter:
  assumes "function_parts s = Some (ps, r)"
  shows "p \<in> set ps \<Longrightarrow> length p < length s" and "length r < length s"
proof -
  obtain n where n: "starts_with ''fn('' s" "closing_paren 1 (drop 3 s) = Some n"
    "ps = (if trim (substr s 3 n) = [] then [] else split_top_level_commas (trim (substr s 3 n)))"
    "r = drop 2 (trim (drop (n + 4) s))"
    using assms by (auto simp: function_parts_def Let_def split: if_splits option.splits)
  have l: "n + 3 < length s" using closing_paren_less [OF n(2)] by simp
  show "length r < length s" using trim_length [of "drop (n + 4) s"] l unfolding n(4) by simp
  assume "p \<in> set ps"
  then have "length p \<le> length (trim (substr s 3 n))" using split_shorter by (auto simp: n(3) split: if_splits)
  with trim_length [of "substr s 3 n"] l show "length p < length s" by (simp add: substr_def)
qed

lemma array_parts_shorter: "array_parts s = Some (w, ps) \<Longrightarrow> ps \<noteq> [] \<and> (\<forall>p \<in> set ps. length p < length s)"
  using unwrapped_shorter split_shorter le_less_trans
  by (fastforce simp: array_parts_def array_wrapper_def Let_def find_Some_iff split: option.splits if_splits)

lemma map_parts_shorter: "map_parts s = Some (k, v) \<Longrightarrow> length k < length s \<and> length v < length s"
proof -
  assume "map_parts s = Some (k, v)"
  then have w: "wrapped_generic s ''map''" and "split_top_level_commas (unwrapped ''map'' s) = [k, v]"
    by (auto simp: map_parts_def split: if_splits list.splits)
  then have "length k \<le> length (unwrapped ''map'' s)" "length v \<le> length (unwrapped ''map'' s)"
    by (simp_all add: split_shorter)
  with unwrapped_shorter [OF w] show ?thesis by simp
qed

lemma generic_parts_shorter: "generic_parts s = Some (n, ps) \<Longrightarrow> p \<in> set ps \<Longrightarrow> length p < length s"
  using split_shorter find_char_SomeD by (fastforce simp: generic_parts_def substr_def split: option.splits if_splits)

lemma prefix_shorter: "starts_with p s \<Longrightarrow> p \<noteq> [] \<Longrightarrow> 0 < n \<Longrightarrow> length (drop n s) < length s"
  by (auto simp: starts_with_conv)

function type_from_text :: "string \<Rightarrow> type_node" where
  "type_from_text text0 =
     (let s = trim text0
      in if s = ''void'' then PlainType TYPE_VOID
         else if starts_with ''&mut '' s then ReferenceType (type_from_text (drop 5 s)) True
         else if starts_with ''&'' s then ReferenceType (type_from_text (drop 1 s)) False
         else if wrapped_generic s ''ptr'' then PointerType (type_from_text (unwrapped ''ptr'' s))
         else case map_of primitive_names s of Some k \<Rightarrow> PlainType k | None \<Rightarrow>
           if starts_with ''dyn '' s then TraitObjectType (trim (drop 4 s))
           else case function_parts s of
             Some (ps, r) \<Rightarrow> FunctionType (Some (map type_from_text ps)) (type_from_text r)
           | None \<Rightarrow>
               case array_parts s of
                 Some (w, parts) \<Rightarrow>
                   if list_all (\<lambda>p. parse_int64 p \<noteq> None) (tl parts)
                   then fold (\<lambda>p e. array_of w e (the (parse_int64 p))) (rev (tl parts)) (type_from_text (hd parts))
                   else StructTypeRef s
               | None \<Rightarrow>
                   if wrapped_generic s ''list'' then GenericListType (type_from_text (unwrapped ''list'' s))
                   else case map_parts s of
                     Some (k, v) \<Rightarrow> MapType (type_from_text k) (type_from_text v)
                   | None \<Rightarrow>
                       if wrapped_generic s ''tuple'' then
                         TupleType (Some (map type_from_text (split_top_level_commas (unwrapped ''tuple'' s))))
                       else case generic_parts s of
                         Some (n, parts) \<Rightarrow> GenericStructTypeRef n (map type_from_text parts)
                       | None \<Rightarrow> StructTypeRef s)"
  by pat_completeness auto
termination
proof (relation "measure length", goal_cases)
  case (2 t s)
  then show ?case using prefix_shorter [of "''&mut ''" s 5] trim_length [of t] by simp
next
  case (3 t s)
  then show ?case using prefix_shorter [of "''&''" s 1] trim_length [of t] by simp
next
  case (4 t s)
  then show ?case using unwrapped_shorter [of s "''ptr''"] trim_length [of t] by simp
next
  case (5 t s)
  then show ?case using unwrapped_shorter [of s "''list''"] trim_length [of t] by simp
next
  case (6 t s p)
  then show ?case using unwrapped_shorter [of s "''tuple''"] split_shorter [of p] trim_length [of t] by fastforce
next
  case (7 t s z n ps p)
  then show ?case using generic_parts_shorter [of s n ps p] trim_length [of t] by simp
next
  case (8 t s z k v)
  then show ?case using map_parts_shorter [of s k v] trim_length [of t] by simp
next
  case (9 t s z k v)
  then show ?case using map_parts_shorter [of s k v] trim_length [of t] by simp
next
  case (10 t s z w ps)
  then have "hd ps \<in> set ps" "\<forall>p \<in> set ps. length p < length s" using array_parts_shorter [of s w ps] by auto
  with 10 show ?case using trim_length [of t] by fastforce
next
  case (11 t s z ps r p)
  then show ?case using function_parts_shorter(1) [of s ps r p] trim_length [of t] by simp
next
  case (12 t s z ps r)
  then show ?case using function_parts_shorter(2) [of s ps r] trim_length [of t] by simp
qed simp

declare type_from_text.simps [simp del]

section \<open>Text that stays in one piece\<close>

definition name_char :: "char \<Rightarrow> bool" where
  "name_char c \<longleftrightarrow> isalnum c \<or> c = CHR ''_'' \<or> c = CHR '':''"

definition plain_char :: "char \<Rightarrow> bool" where
  "plain_char c \<longleftrightarrow> c \<notin> {CHR ''<'', CHR ''('', CHR ''['', CHR '')'', CHR '']'', CHR ''>'', CHR '',''}"

lemma name_char_plain: "name_char c \<Longrightarrow> plain_char c \<and> \<not> isspace c \<and> c \<noteq> CHR ''-'' \<and> c \<noteq> CHR ''&''"
  by (auto simp: name_char_def plain_char_def isalnum_def isdigit_def isupper_def islower_def isspace_def)

definition skips :: "int \<Rightarrow> string \<Rightarrow> bool" where
  "skips n s \<longleftrightarrow> s \<noteq> [] \<and>
     (\<forall>d p cur rest. n \<le> d \<longrightarrow> split_loop d p cur (s @ rest) = split_loop d (last s) (cur @ s) rest)"

definition closes :: "string \<Rightarrow> bool" where
  "closes s \<longleftrightarrow> (\<forall>d rest. 1 \<le> d \<longrightarrow> closing_paren d (s @ rest) = map_option ((+) (length s)) (closing_paren d rest))"

lemma skips_append: "skips n a \<Longrightarrow> skips n b \<Longrightarrow> skips n (a @ b)"
  by (simp add: skips_def)

lemma skips_mono: "skips n s \<Longrightarrow> n \<le> m \<Longrightarrow> skips m s"
  unfolding skips_def by (meson order_trans)

lemma skips_chars:
  "s \<noteq> [] \<Longrightarrow> list_all plain_char s \<Longrightarrow> skips 0 s"
  "s \<noteq> [] \<Longrightarrow> list_all (\<lambda>c. plain_char c \<or> c = CHR '','') s \<Longrightarrow> skips 1 s"
proof -
  have "split_loop d p cur (s @ rest) = split_loop d (last s) (cur @ s) rest"
    if "s \<noteq> []" "list_all (\<lambda>c. plain_char c \<or> c = CHR '','' \<and> d \<noteq> 0) s" for s d p cur rest
    using that
  proof (induction s arbitrary: p cur)
    case (Cons c s)
    show ?case
    proof (cases "s = []")
      case True
      with Cons.prems show ?thesis by (auto simp: plain_char_def)
    next
      case False
      with Cons show ?thesis by (auto simp: plain_char_def)
    qed
  qed simp
  note run = this
  show "s \<noteq> [] \<Longrightarrow> list_all plain_char s \<Longrightarrow> skips 0 s"
    unfolding skips_def using run by (simp add: list_all_iff)
  show "s \<noteq> [] \<Longrightarrow> list_all (\<lambda>c. plain_char c \<or> c = CHR '','') s \<Longrightarrow> skips 1 s"
    unfolding skips_def by (intro conjI allI impI run) (auto simp: list_all_iff)
qed

lemma skips_angle: "skips 1 s \<Longrightarrow> last s \<noteq> CHR ''-'' \<Longrightarrow> skips 0 (CHR ''<'' # s @ ''>'')"
  by (simp add: skips_def)

lemma skips_paren: "s = [] \<or> skips 1 s \<Longrightarrow> skips 0 (CHR ''('' # s @ '')'')"
  by (auto simp: skips_def)

lemma skips_arrow: "skips 0 '' -> ''"
  by (simp add: skips_def)

lemma closes_append: "closes a \<Longrightarrow> closes b \<Longrightarrow> closes (a @ b)"
  unfolding closes_def by (auto simp: map_option_case split: option.split)

lemma closes_chars: "CHR ''('' \<notin> set s \<Longrightarrow> CHR '')'' \<notin> set s \<Longrightarrow> closes s"
proof (induction s)
  case (Cons c s)
  then have "closes s" by simp
  with Cons.prems show ?case unfolding closes_def by (auto simp: map_option_case split: option.split)
qed (simp add: closes_def option.map_ident_strong)

lemma closes_paren: "closes s \<Longrightarrow> closes (CHR ''('' # s @ '')'')"
  unfolding closes_def by (auto simp: map_option_case split: option.split)

text \<open>A part of a list of types, and the text of one type.\<close>

definition part_text :: "string \<Rightarrow> bool" where
  "part_text s \<longleftrightarrow> skips 1 s \<and> closes s \<and> last s \<noteq> CHR ''-''"

definition one_type :: "string \<Rightarrow> bool" where
  "one_type s \<longleftrightarrow> skips 0 s \<and> closes s \<and> last s \<noteq> CHR ''-'' \<and> \<not> isspace (hd s) \<and> \<not> isspace (last s)"

lemma one_type_part: "one_type s \<Longrightarrow> part_text s"
  unfolding one_type_def part_text_def using skips_mono [of 0 s 1] by simp

lemma one_type_nonempty: "one_type s \<Longrightarrow> s \<noteq> []"
  by (simp add: one_type_def skips_def)

lemma one_type_trim: "one_type s \<Longrightarrow> trim s = s"
  by (simp add: one_type_def trim_tight)

lemma part_comma: "part_text a \<Longrightarrow> part_text b \<Longrightarrow> part_text (a @ '', '' @ b)"
proof -
  have "skips 1 '', ''" "closes '', ''" by (rule skips_chars closes_chars; simp add: plain_char_def)+
  then show "part_text a \<Longrightarrow> part_text b \<Longrightarrow> part_text (a @ '', '' @ b)"
    unfolding part_text_def using skips_append [of 1 a "'', '' @ b"] skips_append [of 1 "'', ''" b]
      closes_append [of a "'', '' @ b"] closes_append [of "'', ''" b] by (auto simp: skips_def)
qed

lemma part_joined: "ss \<noteq> [] \<Longrightarrow> \<forall>s \<in> set ss. part_text s \<Longrightarrow> part_text (joined '', '' ss)"
  by (induction "'', ''" ss rule: joined.induct) (auto intro: part_comma [simplified])

lemma joined_nonempty: "\<forall>s \<in> set ss. s \<noteq> [] \<Longrightarrow> joined '', '' ss = [] \<longleftrightarrow> ss = []"
  by (induction "'', ''" ss rule: joined.induct) auto

lemma joined_ends:
  assumes "ss \<noteq> []" and "\<forall>s \<in> set ss. one_type s"
  shows "hd (joined '', '' ss) = hd (hd ss) \<and> last (joined '', '' ss) = last (last ss)"
proof -
  have "\<forall>s \<in> set ss. s \<noteq> []" using assms(2) one_type_nonempty by blast
  with assms(1) show ?thesis
    by (induction "'', ''" ss rule: joined.induct) (auto simp: last_append hd_append joined_nonempty)
qed

lemma blank_trim: "one_type s \<Longrightarrow> pre = [] \<or> pre = '' '' \<Longrightarrow> trim (pre @ s) = s"
  using one_type_trim [of s] by (auto simp: trim_def)

text \<open>The parts of a list are found again.\<close>

lemma split_joined_from:
  assumes "ss \<noteq> []" and "\<forall>s \<in> set ss. one_type s" and "pre = [] \<or> pre = '' ''"
  shows "split_loop 0 p pre (joined '', '' ss) = ss"
  using assms
proof (induction "'', ''" ss arbitrary: p pre rule: joined.induct)
  case (2 s)
  then have "skips 0 s" "trim (pre @ s) = s" by (auto simp: blank_trim one_type_def)
  moreover from this have "split_loop 0 p pre (s @ []) = split_loop 0 (last s) (pre @ s) []" by (simp add: skips_def del: append_Nil2)
  ultimately show ?case by simp
next
  case (3 s t ts)
  then have s: "skips 0 s" "trim (pre @ s) = s" using blank_trim [of s pre] by (auto simp: one_type_def)
  have "split_loop 0 p pre (s @ '', '' @ joined '', '' (t # ts)) =
      split_loop 0 (last s) (pre @ s) ('', '' @ joined '', '' (t # ts))"
    using s(1) unfolding skips_def by blast
  also have "\<dots> = s # split_loop 0 (CHR '' '') '' '' (joined '', '' (t # ts))" using s(2) by simp
  also have "\<dots> = s # t # ts" using 3 by simp
  finally show ?case by simp
qed simp

lemma split_joined: "ss \<noteq> [] \<Longrightarrow> \<forall>s \<in> set ss. one_type s \<Longrightarrow> split_top_level_commas (joined '', '' ss) = ss"
  unfolding split_top_level_commas_def by (rule split_joined_from) simp_all

section \<open>Types that can be read back\<close>

definition type_name :: "string \<Rightarrow> bool" where
  "type_name n \<longleftrightarrow> n \<noteq> [] \<and> list_all name_char n \<and> n \<noteq> ''void'' \<and> map_of primitive_names n = None"

definition template_name :: "string \<Rightarrow> bool" where
  "template_name n \<longleftrightarrow> n \<noteq> [] \<and> list_all name_char n \<and>
     n \<notin> {''ptr'', ''array'', ''multiarray'', ''mutmultiarray'', ''list'', ''map'', ''tuple''}"

definition capacity :: "int \<Rightarrow> bool" where
  "capacity n \<longleftrightarrow> - (2 ^ 63) \<le> n \<and> n < 2 ^ 63"

fun readable :: "type_node \<Rightarrow> bool" where
  "readable NullType = False"
| "readable (PlainType k) = (k = TYPE_VOID \<or> k = TYPE_INT \<or> k = TYPE_STRING \<or> k \<in> snd ` set primitive_names)"
| "readable (PointerType e) = readable e"
| "readable (TraitObjectType n) = (n \<noteq> [] \<and> list_all name_char n)"
| "readable (ReferenceType e m) = readable e"
| "readable (GenericListType e) = readable e"
| "readable (ArrayType e n) = (capacity n \<and> readable e)"
| "readable (MultiArrayType e n m) =
     (capacity n \<and> readable e \<and> (case e of ArrayType _ _ \<Rightarrow> False | MultiArrayType _ _ m' \<Rightarrow> m' = m | _ \<Rightarrow> True))"
| "readable (MapType k v) = (readable k \<and> readable v)"
| "readable (TupleType ts) = (case ts of None \<Rightarrow> False | Some us \<Rightarrow> us \<noteq> [] \<and> list_all readable us)"
| "readable (FunctionType ps r) = ((case ps of None \<Rightarrow> True | Some us \<Rightarrow> list_all readable us) \<and> readable r)"
| "readable (StructTypeRef n) = type_name n"
| "readable (GenericStructTypeRef n as) = (template_name n \<and> as \<noteq> [] \<and> list_all readable as)"

text \<open>What is read: \<^verbatim>\<open>int\<close> prints as \<^verbatim>\<open>i32\<close>, a string as \<^verbatim>\<open>str8\<close>, and missing parameters are none.\<close>

fun reread :: "type_node \<Rightarrow> type_node" where
  "reread NullType = NullType"
| "reread (PlainType k) = PlainType (if k = TYPE_INT then TYPE_I32 else if k = TYPE_STRING then TYPE_STR8 else k)"
| "reread (PointerType e) = PointerType (reread e)"
| "reread (TraitObjectType n) = TraitObjectType n"
| "reread (ReferenceType e m) = ReferenceType (reread e) m"
| "reread (GenericListType e) = GenericListType (reread e)"
| "reread (ArrayType e n) = ArrayType (reread e) n"
| "reread (MultiArrayType e n m) = MultiArrayType (reread e) n m"
| "reread (MapType k v) = MapType (reread k) (reread v)"
| "reread (TupleType ts) = TupleType (map_option (map reread) ts)"
| "reread (FunctionType ps r) = FunctionType (Some (case ps of None \<Rightarrow> [] | Some us \<Rightarrow> map reread us)) (reread r)"
| "reread (StructTypeRef n) = StructTypeRef n"
| "reread (GenericStructTypeRef n as) = GenericStructTypeRef n (map reread as)"

lemma name_not: "list_all name_char n \<Longrightarrow> c \<in> set n \<Longrightarrow> plain_char c \<and> \<not> isspace c \<and> c \<noteq> CHR ''-'' \<and> c \<noteq> CHR ''&''"
  using name_char_plain by (auto simp: list_all_iff)

lemma name_one_type:
  assumes "n \<noteq> []" and "list_all name_char n"
  shows "one_type n"
proof -
  have "skips 0 n" using assms name_not by (intro skips_chars) (auto simp: list_all_iff)
  moreover have "closes n" using name_not [OF assms(2)] by (intro closes_chars) (auto simp: plain_char_def)
  ultimately show ?thesis using name_not [OF assms(2)] assms(1) by (simp add: one_type_def)
qed

lemma int_str_one_type: "one_type (int_str n)"
proof -
  have c: "isdigit c \<or> c = CHR ''-''" if "c \<in> set (int_str n)" for c
    using that dec_str_digits by (auto simp: int_str_def split: if_splits)
  have ne: "int_str n \<noteq> []" and l: "isdigit (last (int_str n))" and h: "\<not> isspace (hd (int_str n))"
    using dec_str_digits [of "nat n"] dec_str_digits [of "nat (- n)"] isdigit_not_isspace
    by (auto simp: int_str_def isspace_def)
  have p: "plain_char c \<and> c \<noteq> CHR ''('' \<and> c \<noteq> CHR '')''" if "c \<in> set (int_str n)" for c
    using c [OF that] by (auto simp: plain_char_def isdigit_def)
  have "skips 0 (int_str n)" using ne p by (intro skips_chars) (auto simp: list_all_iff)
  moreover have "closes (int_str n)" using p by (intro closes_chars) blast+
  ultimately show ?thesis using l h isdigit_not_isspace [OF l] by (auto simp: one_type_def isdigit_def)
qed

lemma parse_int64_str: "capacity n \<Longrightarrow> parse_int64 (int_str n) = Some n"
proof -
  assume n: "capacity n"
  show ?thesis
  proof (cases "n < 0")
    case True
    with dec_str_digits [of "nat (- n)"] n show ?thesis
      by (simp add: parse_int64_def int_str_def capacity_def list_all_iff)
  next
    case False
    have "hd (dec_str (nat n)) \<noteq> CHR ''-''" using dec_str_digits [of "nat n"] by (auto simp: isdigit_def dest!: hd_in_set)
    with False dec_str_digits [of "nat n"] n show ?thesis
      by (simp add: parse_int64_def int_str_def capacity_def list_all_iff)
  qed
qed

lemma template_one_type:
  assumes "n \<noteq> []" and "list_all name_char n" and "part_text s"
  shows "one_type (n @ ''<'' @ s @ ''>'')"
proof -
  have n: "one_type n" by (rule name_one_type [OF assms(1,2)])
  have s: "skips 0 (CHR ''<'' # s @ ''>'')" using assms(3) by (intro skips_angle) (auto simp: part_text_def)
  have "closes ''<''" "closes ''>''" by (rule closes_chars; simp)+
  then have "closes (''<'' @ s @ ''>'')" using assms(3) closes_append by (auto simp: part_text_def simp del: append_Cons)
  with n s skips_append [of 0 n] closes_append [of n] assms(1) show ?thesis
    by (simp add: one_type_def isspace_def)
qed

lemma prefix_one_type:
  assumes "list_all plain_char p" and "p \<noteq> []" and "\<not> isspace (hd p)" and "one_type s"
  shows "one_type (p @ s)"
proof -
  have "skips 0 p" using assms(2,1) by (rule skips_chars(1))
  moreover have "closes p" using assms(1) by (intro closes_chars) (auto simp: list_all_iff plain_char_def)
  ultimately show ?thesis using assms skips_append [of 0 p s] closes_append [of p s] one_type_nonempty [of s]
    by (simp add: one_type_def)
qed

lemma function_one_type:
  assumes "\<forall>s \<in> set ss. one_type s" and "one_type r"
  shows "one_type (''fn('' @ joined '', '' ss @ '') -> '' @ r)"
proof -
  have parts: "ss = [] \<or> part_text (joined '', '' ss)" using part_joined [of ss] assms(1) one_type_part by auto
  have "skips 0 (CHR ''('' # joined '', '' ss @ '')'')" using parts by (intro skips_paren) (auto simp: part_text_def)
  moreover have "closes (CHR ''('' # joined '', '' ss @ '')'')"
    using parts by (intro closes_paren) (auto simp: part_text_def closes_chars)
  moreover have "skips 0 ''fn''" "closes ''fn''" "closes '' -> ''" by (rule skips_chars closes_chars; simp add: plain_char_def)+
  moreover have "skips 0 r" "closes r" using assms(2) by (simp_all add: one_type_def)
  moreover note skips_arrow
  ultimately have "skips 0 (''fn'' @ (CHR ''('' # joined '', '' ss @ '')'') @ '' -> '' @ r) \<and>
    closes (''fn'' @ (CHR ''('' # joined '', '' ss @ '')'') @ '' -> '' @ r)"
    by (intro conjI skips_append closes_append)
  with assms(2) one_type_nonempty [OF assms(2)] show ?thesis by (simp add: one_type_def isspace_def)
qed

lemma joined_parts: "joined '', '' (x # xs) = x @ concat (map (\<lambda>d. '', '' @ d) xs)"
  by (induction xs arbitrary: x) auto

lemma shape_readable: "readable t \<Longrightarrow> readable (fst (array_shape t))"
  by (induction t rule: array_shape.induct) (auto split: prod.splits)

lemma shape_not_null: "readable t \<Longrightarrow> fst (array_shape t) \<noteq> NullType"
  using shape_readable [of t] by auto

lemma multiarray_text:
  "readable e \<Longrightarrow> type_text (MultiArrayType e n m) =
     (if m then ''mutmultiarray'' else ''multiarray'') @ ''<'' @
     joined '', '' (type_text (fst (array_shape e)) # map int_str (n # snd (array_shape e))) @ ''>''"
  by (simp add: joined_parts comp_def shape_not_null)

lemma joined_one_type: "ss \<noteq> [] \<Longrightarrow> \<forall>s \<in> set ss. one_type s \<Longrightarrow> part_text (joined '', '' ss)"
  using part_joined one_type_part by blast

lemma one_type_text: "readable t \<Longrightarrow> one_type (type_text t)"
proof (induction t rule: type_text.induct)
  case (2 k)
  then show ?case by (auto simp: primitive_names_def intro!: name_one_type)
    (auto simp: name_char_def isalnum_def isdigit_def islower_def)
next
  case (3 e)
  then have "one_type (''ptr'' @ ''<'' @ type_text e @ ''>'')"
    by (intro template_one_type) (auto simp: name_char_def isalnum_def islower_def one_type_part)
  then show ?case by simp
next
  case (4 n)
  then have "one_type (''dyn '' @ n)"
    by (intro prefix_one_type name_one_type) (auto simp: plain_char_def isspace_def)
  then show ?case by simp
next
  case (5 e m)
  then have "one_type ((''&'' @ (if m then ''mut '' else '''')) @ type_text e)"
    by (intro prefix_one_type) (auto simp: plain_char_def isspace_def)
  then show ?case by simp
next
  case (6 e)
  then have "one_type (''list'' @ ''<'' @ type_text e @ ''>'')"
    by (intro template_one_type) (auto simp: name_char_def isalnum_def islower_def one_type_part)
  then show ?case by simp
next
  case (7 e n)
  then have "one_type (''array'' @ ''<'' @ joined '', '' [type_text e, int_str n] @ ''>'')"
    by (intro template_one_type joined_one_type) (auto simp: name_char_def isalnum_def islower_def int_str_one_type)
  then show ?case by simp
next
  case (8 e n m)
  then have e: "readable e" by simp
  with 8 have "\<forall>s \<in> set (type_text (fst (array_shape e)) # map int_str (n # snd (array_shape e))). one_type s"
    by (auto simp: int_str_one_type shape_readable shape_not_null)
  then show ?case unfolding multiarray_text [OF e]
    by (intro template_one_type joined_one_type) (auto simp: name_char_def isalnum_def islower_def isdigit_def)
next
  case (9 k v)
  then have "one_type (''map'' @ ''<'' @ joined '', '' [type_text k, type_text v] @ ''>'')"
    by (intro template_one_type joined_one_type) (auto simp: name_char_def isalnum_def islower_def)
  then show ?case by simp
next
  case (10 ts)
  then obtain us where "ts = Some us" "us \<noteq> []" "\<forall>s \<in> set (map type_text us). one_type s"
    by (auto simp: list_all_iff split: option.splits)
  then have "one_type (''tuple'' @ ''<'' @ joined '', '' (map type_text us) @ ''>'')"
    by (intro template_one_type joined_one_type) (auto simp: name_char_def isalnum_def islower_def)
  with \<open>ts = Some us\<close> show ?case by simp
next
  case (11 ps r)
  then have "\<forall>s \<in> set (map type_text (case ps of None \<Rightarrow> [] | Some us \<Rightarrow> us)). one_type s" "one_type (type_text r)"
    by (auto simp: list_all_iff split: option.splits)
  from function_one_type [OF this] show ?case by simp
next
  case (12 n)
  then show ?case by (simp add: type_name_def name_one_type)
next
  case (13 n as)
  then have "\<forall>s \<in> set (map type_text as). one_type s" by (auto simp: list_all_iff)
  with 13 show ?case unfolding type_text.simps
    by (intro template_one_type joined_one_type) (auto simp: template_name_def)
qed simp_all

section \<open>Reading what was printed\<close>

lemma before_angle: "CHR ''<'' \<notin> set n \<Longrightarrow> takeWhile (\<lambda>c. c \<noteq> CHR ''<'') (n @ CHR ''<'' # r) = n"
  by (induction n) auto

lemma name_prefix:
  assumes "starts_with p (n @ CHR ''<'' # r)" and "CHR ''<'' \<notin> set p"
  shows "set p \<subseteq> set n"
proof -
  obtain t where "n @ CHR ''<'' # r = p @ t" using assms(1) unfolding starts_with_conv by blast
  then obtain us where "n = p @ us \<or> p = n @ us \<and> CHR ''<'' # r = us @ t" by (auto simp: append_eq_append_conv2)
  with assms(2) show ?thesis by (cases us) auto
qed

lemma wrapped_template:
  assumes "CHR ''<'' \<notin> set n" and "CHR ''<'' \<notin> set h" and "r \<noteq> []"
  shows "wrapped_generic (n @ CHR ''<'' # r @ ''>'') h \<longleftrightarrow> h = n"
proof
  assume w: "wrapped_generic (n @ CHR ''<'' # r @ ''>'') h"
  let ?s = "n @ CHR ''<'' # r @ ''>''"
  obtain t where "?s = h @ CHR ''<'' # t"
    using w unfolding wrapped_generic_def starts_with_conv by (metis Cons_nth_drop_Suc append_eq_conv_conj add_lessD1)
  then show "h = n" using before_angle [OF assms(1)] before_angle [OF assms(2)] by metis
next
  assume "h = n"
  with assms(3) show "wrapped_generic (n @ CHR ''<'' # r @ ''>'') h"
    by (cases r) (auto simp: wrapped_generic_def starts_with_def nth_append)
qed

lemma unwrapped_template: "unwrapped n (n @ CHR ''<'' # r @ ''>'') = r"
  by (simp add: unwrapped_def substr_def)

lemma template_pieces:
  assumes "n \<noteq> []" and "list_all name_char n" and "parts \<noteq> []" and "\<forall>p \<in> set parts. one_type p"
  defines "s \<equiv> n @ CHR ''<'' # joined '', '' parts @ ''>''"
  shows "trim s = s" and "\<not> starts_with ''&mut '' s" and "\<not> starts_with ''&'' s" and "\<not> starts_with ''dyn '' s"
    and "s \<noteq> ''void''" and "map_of primitive_names s = None" and "function_parts s = None"
    and "\<And>h. CHR ''<'' \<notin> set h \<Longrightarrow> wrapped_generic s h \<longleftrightarrow> h = n"
    and "array_parts s = (if n \<in> {''array'', ''multiarray'', ''mutmultiarray''} \<and> 2 \<le> length parts then Some (n, parts) else None)"
    and "map_parts s = (if n = ''map'' then (case parts of [k, v] \<Rightarrow> Some (k, v) | _ \<Rightarrow> None) else None)"
    and "generic_parts s = Some (n, parts)"
proof -
  have angle: "CHR ''<'' \<notin> set n" using name_not [OF assms(2)] by (auto simp: plain_char_def)
  have ne: "joined '', '' parts \<noteq> []" using joined_nonempty [of parts] assms(3,4) one_type_nonempty by blast
  have "one_type s" using template_one_type [OF assms(1,2) joined_one_type [OF assms(3,4)]] by (simp add: s_def)
  then show "trim s = s" by (rule one_type_trim)
  have pre: "\<not> starts_with p s" if "c \<in> set p" "\<not> name_char c" "CHR ''<'' \<notin> set p" for p c
    using name_prefix [of p n] that assms(2) unfolding s_def by (auto simp: list_all_iff)
  have "\<not> name_char CHR ''&''" "\<not> name_char CHR '' ''" "\<not> name_char CHR ''(''"
    by (simp_all add: name_char_def isalnum_def isdigit_def isupper_def islower_def)
  then show "\<not> starts_with ''&mut '' s" "\<not> starts_with ''&'' s" "\<not> starts_with ''dyn '' s" "function_parts s = None"
    using pre [of "CHR ''&''" "''&mut ''"] pre [of "CHR ''&''" "''&''"] pre [of "CHR '' ''" "''dyn ''"]
      pre [of "CHR ''(''" "''fn(''"] by (simp_all add: function_parts_def)
  have "CHR ''<'' \<in> set s" by (simp add: s_def)
  moreover have "CHR ''<'' \<notin> set ''void''" "\<forall>q \<in> fst ` set primitive_names. CHR ''<'' \<notin> set q"
    by (simp_all add: primitive_names_def)
  ultimately show "s \<noteq> ''void''" "map_of primitive_names s = None" by (force simp: map_of_eq_None_iff)+
  show wrap: "wrapped_generic s h \<longleftrightarrow> h = n" if "CHR ''<'' \<notin> set h" for h
    unfolding s_def by (rule wrapped_template [OF angle that ne])
  have un: "split_top_level_commas (unwrapped n s) = parts"
    unfolding s_def unwrapped_template by (rule split_joined [OF assms(3,4)])
  have "array_wrapper s = (if n \<in> {''array'', ''multiarray'', ''mutmultiarray''} then Some n else None)"
    unfolding array_wrapper_def by (simp add: wrap)
  with un show "array_parts s = (if n \<in> {''array'', ''multiarray'', ''mutmultiarray''} \<and> 2 \<le> length parts then Some (n, parts) else None)"
    by (simp add: array_parts_def Let_def)
  show "map_parts s = (if n = ''map'' then (case parts of [k, v] \<Rightarrow> Some (k, v) | _ \<Rightarrow> None) else None)"
    using un by (auto simp: map_parts_def wrap split: list.split)
  have "trim n = n" using name_one_type [OF assms(1,2)] by (rule one_type_trim)
  moreover have "find_char CHR ''<'' s = Some (length n)" unfolding s_def by (rule find_char_append [OF angle])
  moreover have "split_top_level_commas (joined '', '' parts) = parts" by (rule split_joined [OF assms(3,4)])
  ultimately show "generic_parts s = Some (n, parts)" by (simp add: generic_parts_def s_def substr_def)
qed

lemma read_template:
  assumes "n \<noteq> []" and "list_all name_char n" and "parts \<noteq> []" and "\<forall>p \<in> set parts. one_type p"
  defines "s \<equiv> n @ CHR ''<'' # joined '', '' parts @ ''>''"
  shows "type_from_text s =
    (if n = ''ptr'' then PointerType (type_from_text (joined '', '' parts))
     else if n \<in> {''array'', ''multiarray'', ''mutmultiarray''} \<and> 2 \<le> length parts then
       (if list_all (\<lambda>p. parse_int64 p \<noteq> None) (tl parts)
        then fold (\<lambda>p e. array_of n e (the (parse_int64 p))) (rev (tl parts)) (type_from_text (hd parts))
        else StructTypeRef s)
     else if n = ''list'' then GenericListType (type_from_text (joined '', '' parts))
     else if n = ''map'' \<and> length parts = 2 then MapType (type_from_text (parts ! 0)) (type_from_text (parts ! 1))
     else if n = ''tuple'' then TupleType (Some (map type_from_text parts))
     else GenericStructTypeRef n (map type_from_text parts))"
proof -
  note p = template_pieces [OF assms(1-4), folded s_def]
  have "unwrapped n s = joined '', '' parts" unfolding s_def by (rule unwrapped_template)
  moreover have "split_top_level_commas (joined '', '' parts) = parts" by (rule split_joined [OF assms(3,4)])
  ultimately have un: "unwrapped n s = joined '', '' parts" "split_top_level_commas (unwrapped n s) = parts" by simp_all
  consider "n = ''ptr''" | "n \<in> {''array'', ''multiarray'', ''mutmultiarray''}" | "n = ''list''" | "n = ''map''" | "n = ''tuple''"
    | "n \<notin> {''ptr'', ''array'', ''multiarray'', ''mutmultiarray'', ''list'', ''map'', ''tuple''}"
    by (simp only: insert_iff empty_iff) argo
  then show ?thesis
  proof cases
    case 1
    with un(1) show ?thesis by (subst type_from_text.simps) (simp add: p Let_def)
  next
    case 2
    then have "n \<noteq> ''ptr''" "n \<noteq> ''list''" "n \<noteq> ''map''" "n \<noteq> ''tuple''" by auto
    with 2 show ?thesis by (subst type_from_text.simps) (simp add: p Let_def)
  next
    case 3
    with un(1) show ?thesis by (subst type_from_text.simps) (simp add: p Let_def)
  next
    case 4
    have "(case parts of [k, v] \<Rightarrow> Some (k, v) | _ \<Rightarrow> None) = (if length parts = 2 then Some (parts ! 0, parts ! 1) else None)"
      by (simp split: list.split)
    with 4 show ?thesis by (subst type_from_text.simps) (simp add: p Let_def)
  next
    case 5
    with un(2) show ?thesis by (subst type_from_text.simps) (simp add: p Let_def)
  next
    case 6
    then have "''ptr'' \<noteq> n" "''list'' \<noteq> n" "''tuple'' \<noteq> n" by auto
    with 6 show ?thesis by (subst type_from_text.simps) (simp add: p Let_def)
  qed
qed

lemma not_wrapped: "CHR ''<'' \<notin> set n \<Longrightarrow> \<not> wrapped_generic n h"
  unfolding wrapped_generic_def by (metis add_lessD1 nth_mem)

lemma read_name: "type_name n \<Longrightarrow> type_from_text n = StructTypeRef n"
proof -
  assume n: "type_name n"
  then have name: "n \<noteq> []" "list_all name_char n" by (simp_all add: type_name_def)
  have no: "\<not> starts_with p n" if "c \<in> set p" "\<not> name_char c" for p c
    using that name(2) by (auto simp: starts_with_conv list_all_iff)
  have odd: "\<not> name_char CHR ''&''" "\<not> name_char CHR '' ''" "\<not> name_char CHR ''(''" "\<not> name_char CHR ''<''"
    by (simp_all add: name_char_def isalnum_def isdigit_def isupper_def islower_def)
  then have angle: "CHR ''<'' \<notin> set n" using name(2) by (auto simp: list_all_iff)
  have "\<not> wrapped_generic n h" for h by (rule not_wrapped [OF angle])
  then have "array_parts n = None" "map_parts n = None" "\<not> wrapped_generic n h" for h
    by (simp_all add: array_parts_def array_wrapper_def map_parts_def)
  moreover have "find_char CHR ''<'' n = None" using angle by simp
  then have "generic_parts n = None" unfolding generic_parts_def by (simp del: find_char_None)
  moreover have "function_parts n = None" using no [of "CHR ''(''" "''fn(''"] odd by (simp add: function_parts_def)
  moreover have "\<not> starts_with ''&mut '' n" "\<not> starts_with ''&'' n" "\<not> starts_with ''dyn '' n"
    using no [of "CHR ''&''" "''&mut ''"] no [of "CHR ''&''" "''&''"] no [of "CHR '' ''" "''dyn ''"] odd by simp_all
  ultimately show ?thesis using n one_type_trim [OF name_one_type [OF name]]
    by (subst type_from_text.simps) (simp add: type_name_def Let_def)
qed

lemma read_primitive:
  assumes "(n, k) \<in> set primitive_names"
  shows "type_from_text n = PlainType k"
proof -
  have "n \<in> fst ` set primitive_names" using assms by force
  then have n: "n \<noteq> []" "list_all name_char n" "n \<noteq> ''void''"
    by (auto simp: primitive_names_def name_char_def isalnum_def isdigit_def islower_def)
  have "map_of primitive_names n = Some k" using assms by (intro map_of_is_SomeI) (simp_all add: primitive_names_def)
  moreover have odd: "\<not> name_char CHR ''&''" "\<not> name_char CHR ''<''"
    by (simp_all add: name_char_def isalnum_def isdigit_def isupper_def islower_def)
  then have "CHR ''&'' \<notin> set n" "CHR ''<'' \<notin> set n" using n(2) by (auto simp: list_all_iff)
  then have "\<not> starts_with ''&mut '' n" "\<not> starts_with ''&'' n" "\<not> wrapped_generic n h" for h
    using not_wrapped by (auto simp: starts_with_conv)
  ultimately show ?thesis using n one_type_trim [OF name_one_type [OF n(1,2)]]
    by (subst type_from_text.simps) (simp add: Let_def)
qed

lemma read_reference:
  assumes "readable e"
  shows "type_from_text (''&'' @ (if m then ''mut '' else '''') @ type_text e) = ReferenceType (type_from_text (type_text e)) m"
proof -
  note e = one_type_text [OF assms]
  have t: "trim (''&'' @ (if m then ''mut '' else '''') @ type_text e) = ''&'' @ (if m then ''mut '' else '''') @ type_text e"
    using prefix_one_type [of "''&'' @ (if m then ''mut '' else '''')", OF _ _ _ e]
    by (intro one_type_trim) (simp add: plain_char_def isspace_def)
  have m: "\<not> starts_with ''mut '' (type_text e)"
  proof
    assume "starts_with ''mut '' (type_text e)"
    then obtain r where r: "type_text e = ''mut '' @ r" by (auto simp: starts_with_conv)
    then show False
    proof (cases e)
      case (PlainType k)
      with assms r show ?thesis by (auto simp: primitive_names_def)
    next
      case (StructTypeRef n)
      with assms r show ?thesis
        by (auto simp: type_name_def name_char_def isalnum_def isdigit_def isupper_def islower_def)
    next
      case (GenericStructTypeRef n as)
      have "CHR '' '' \<notin> set n" using GenericStructTypeRef assms name_not [of n "CHR '' ''"]
        by (auto simp: template_name_def isspace_def)
      moreover have "n @ CHR ''<'' # joined '', '' (map type_text as) @ ''>'' = ''mut '' @ r"
        using r GenericStructTypeRef by simp
      then have "set ''mut '' \<subseteq> set n" by (intro name_prefix [of _ n "joined '', '' (map type_text as) @ ''>''"]) (simp_all add: starts_with_conv)
      ultimately show ?thesis by auto
    qed (use assms r in \<open>auto split: if_splits\<close>)
  qed
  show ?thesis
  proof (cases m)
    case True
    then show ?thesis using t by (subst type_from_text.simps) (simp add: Let_def starts_with_def)
  next
    case False
    with m have "\<not> starts_with ''&mut '' (''&'' @ type_text e)" by (simp add: starts_with_def numeral_eq_Suc)
    with False show ?thesis using t by (subst type_from_text.simps) (simp add: Let_def starts_with_def)
  qed
qed

lemma read_dyn:
  assumes "n \<noteq> []" and "list_all name_char n"
  shows "type_from_text (''dyn '' @ n) = TraitObjectType n"
proof -
  have "one_type (''dyn '' @ n)" using prefix_one_type [of "''dyn ''" n] name_one_type [OF assms]
    by (simp add: plain_char_def isspace_def)
  then have t: "trim (''dyn '' @ n) = ''dyn '' @ n" by (rule one_type_trim)
  have angle: "CHR ''<'' \<notin> set n" using name_not [OF assms(2), of "CHR ''<''"] by (auto simp: plain_char_def)
  then have "\<not> wrapped_generic (''dyn '' @ n) ''ptr''" by (intro not_wrapped) simp
  moreover have "map_of primitive_names (''dyn '' @ n) = None" by (simp add: primitive_names_def)
  moreover have "trim n = n" by (rule one_type_trim [OF name_one_type [OF assms]])
  ultimately show ?thesis using t by (subst type_from_text.simps) (simp add: Let_def starts_with_def)
qed

lemma function_parts_text:
  assumes "\<forall>s \<in> set ss. one_type s" and "one_type r"
  shows "function_parts (''fn('' @ joined '', '' ss @ '') -> '' @ r) = Some (ss, CHR '' '' # r)"
proof -
  let ?body = "joined '', '' ss" and ?s = "''fn('' @ joined '', '' ss @ '') -> '' @ r"
  have "closes ?body" using part_joined [of ss] assms(1) one_type_part by (cases "ss = []") (auto simp: part_text_def closes_chars)
  then have "closing_paren 1 (drop 3 ?s) = Some (length ?body)" by (simp add: closes_def)
  moreover have "?s = (''fn('' @ ?body @ '')'') @ '' -> '' @ r" "length (''fn('' @ ?body @ '')'') = length ?body + 4" by simp_all
  then have "drop (length ?body + 4) ?s = '' -> '' @ r" by (metis append_eq_conv_conj)
  moreover have "trim ('' -> '' @ r) = ''-> '' @ r"
  proof -
    have "one_type (''-> '' @ r)"
      using assms(2) one_type_nonempty [OF assms(2)] closes_append [of "''-> ''" r]
      by (auto simp: one_type_def skips_def isspace_def closes_chars)
    from blank_trim [OF this, of "'' ''"] show ?thesis by simp
  qed
  moreover have "substr ?s 3 (length ?body) = ?body" by (simp add: substr_def)
  moreover have "trim ?body = ?body" "?body = [] \<longleftrightarrow> ss = []"
    using joined_ends [of ss] assms(1) joined_nonempty [of ss] one_type_nonempty
    by (auto intro!: trim_tight simp: one_type_def dest: last_in_set hd_in_set)
  ultimately show ?thesis using split_joined [of ss] assms(1) by (simp add: function_parts_def Let_def starts_with_def)
qed

lemma read_function:
  assumes "\<forall>s \<in> set ss. one_type s" and "one_type r"
  shows "type_from_text (''fn('' @ joined '', '' ss @ '') -> '' @ r) =
    FunctionType (Some (map type_from_text ss)) (type_from_text (CHR '' '' # r))"
proof -
  have "\<not> wrapped_generic (''fn('' @ joined '', '' ss @ '') -> '' @ r) ''ptr''"
    by (simp add: wrapped_generic_def starts_with_def)
  moreover have "map_of primitive_names (''fn('' @ joined '', '' ss @ '') -> '' @ r) = None"
    by (simp add: primitive_names_def)
  ultimately show ?thesis
    using one_type_trim [OF function_one_type [OF assms]] function_parts_text [OF assms]
    by (subst type_from_text.simps) (simp add: Let_def starts_with_def)
qed

lemma read_blank: "type_from_text (CHR '' '' # s) = type_from_text s"
proof -
  have "trim (CHR '' '' # s) = trim s" by (simp add: trim_def)
  then show ?thesis by (subst (1 2) type_from_text.simps) simp
qed

lemma read_capacities: "\<forall>n \<in> set ns. capacity n \<Longrightarrow> list_all (\<lambda>p. parse_int64 p \<noteq> None) (map int_str ns) \<and>
    fold (\<lambda>p e. array_of w e (the (parse_int64 p))) (rev (map int_str ns)) e = foldr (\<lambda>n e. array_of w e n) ns e"
  by (induction ns) (auto simp: parse_int64_str)

lemma shape_reread:
  assumes "readable (MultiArrayType e n m)"
  shows "\<forall>k \<in> set (snd (array_shape e)). capacity k"
    and "foldr (\<lambda>n e. MultiArrayType e n m) (snd (array_shape e)) (reread (fst (array_shape e))) = reread e"
proof -
  have "(\<forall>k \<in> set (snd (array_shape e)). capacity k) \<and>
    foldr (\<lambda>n e. MultiArrayType e n m) (snd (array_shape e)) (reread (fst (array_shape e))) = reread e"
    using assms
  proof (induction e arbitrary: n rule: array_shape.induct)
    case (2 e k m')
    then have m: "m' = m" by simp
    then have k: "capacity k" "readable (MultiArrayType e k m)" using 2(2) unfolding m by simp_all
    from 2(1) [OF k(2)] k(1) m show ?case by (simp add: case_prod_beta)
  qed simp_all
  then show "\<forall>k \<in> set (snd (array_shape e)). capacity k"
    and "foldr (\<lambda>n e. MultiArrayType e n m) (snd (array_shape e)) (reread (fst (array_shape e))) = reread e" by auto
qed

lemmas name_chars = name_char_def isalnum_def isdigit_def isupper_def islower_def

lemma read_text: "readable t \<Longrightarrow> type_from_text (type_text t) = reread t"
proof (induction t rule: type_text.induct)
  case (2 k)
  have "type_from_text ''void'' = PlainType TYPE_VOID"
    by (subst type_from_text.simps) (simp add: trim_tight isspace_def)
  moreover have "k \<noteq> TYPE_VOID \<Longrightarrow> (kind_text k, if k = TYPE_INT then TYPE_I32 else if k = TYPE_STRING then TYPE_STR8 else k) \<in> set primitive_names"
    using 2 by (cases k) (simp_all add: primitive_names_def)
  ultimately show ?case using read_primitive by (cases "k = TYPE_VOID") simp_all
next
  case (3 e)
  then show ?case using read_template [of "''ptr''" "[type_text e]"] one_type_text [of e] by (simp add: name_chars)
next
  case (4 n)
  then show ?case using read_dyn [of n] by simp
next
  case (5 e m)
  then show ?case using read_reference [of e m] by simp
next
  case (6 e)
  then show ?case using read_template [of "''list''" "[type_text e]"] one_type_text [of e] by (simp add: name_chars)
next
  case (7 e n)
  then show ?case using read_template [of "''array''" "[type_text e, int_str n]"] one_type_text [of e] int_str_one_type [of n]
    by (simp add: parse_int64_str array_of_def name_chars)
next
  case (8 e n m)
  let ?w = "if m then ''mutmultiarray'' else ''multiarray''" and ?s = "fst (array_shape e)"
  have e: "readable e" using 8 by simp
  note s = shape_readable [OF e] and nn = shape_not_null [OF e]
  have c: "\<forall>k \<in> set (n # snd (array_shape e)). capacity k" using shape_reread(1) [OF 8(2)] 8(2) by simp
  have "\<forall>p \<in> set (type_text ?s # map int_str (n # snd (array_shape e))). one_type p"
    using one_type_text [OF s] int_str_one_type by auto
  from read_template [OF _ _ _ this, of ?w] read_capacities [OF c, of ?w "reread ?s"] 8(1) [OF nn s]
  have "type_from_text (type_text (MultiArrayType e n m)) = foldr (\<lambda>n e. array_of ?w e n) (n # snd (array_shape e)) (reread ?s)"
    unfolding multiarray_text [OF e] by (simp add: name_chars)
  also have "\<dots> = MultiArrayType (foldr (\<lambda>n e. MultiArrayType e n m) (snd (array_shape e)) (reread ?s)) n m"
    by (simp add: array_of_def)
  finally show ?case using shape_reread(2) [OF 8(2)] by simp
next
  case (9 k v)
  then show ?case using read_template [of "''map''" "[type_text k, type_text v]"] one_type_text [of k] one_type_text [of v] by (simp add: name_chars)
next
  case (10 ts)
  then obtain us where us: "ts = Some us" "us \<noteq> []" "\<forall>u \<in> set us. readable u" by (auto simp: list_all_iff split: option.splits)
  then have "\<forall>s \<in> set (map type_text us). one_type s" "map (\<lambda>u. type_from_text (type_text u)) us = map reread us"
    using 10(1) one_type_text by auto
  with read_template [of "''tuple''" "map type_text us"] us show ?case by (simp add: comp_def name_chars)
next
  case (11 ps r)
  let ?us = "case ps of None \<Rightarrow> [] | Some us \<Rightarrow> us"
  have us: "\<forall>u \<in> set ?us. readable u" "readable r" using 11(3) by (auto simp: list_all_iff split: option.splits)
  then have "\<forall>s \<in> set (map type_text ?us). one_type s" "one_type (type_text r)" using one_type_text by auto
  moreover have "map (\<lambda>u. type_from_text (type_text u)) ?us = map reread ?us" using 11(1) us(1) by simp
  ultimately show ?case using read_function [of "map type_text ?us" "type_text r"] 11(2) [OF us(2)]
    by (simp add: read_blank comp_def split: option.splits)
next
  case (12 n)
  then show ?case using read_name by simp
next
  case (13 n as)
  then have "\<forall>s \<in> set (map type_text as). one_type s" "map (\<lambda>u. type_from_text (type_text u)) as = map reread as"
    using one_type_text by (auto simp: list_all_iff)
  moreover have "n \<noteq> []" "list_all name_char n" "as \<noteq> []"
    "n \<notin> {''ptr'', ''array'', ''multiarray'', ''mutmultiarray'', ''list'', ''map'', ''tuple''}"
    using 13(2) by (simp_all add: template_name_def)
  ultimately show ?case using read_template [of n "map type_text as"] by (simp add: comp_def)
qed simp_all



end
