(* ===== verification/Cexpr_Eval.thy ===== *)
theory Cexpr_Eval
  imports Cexpr_Values Type_Text Ast_Analysis
begin

text \<open>
  The compile-time evaluator (\<^verbatim>\<open>src/ir/constexpr.cpp\<close>): expressions, calls of \<^verbatim>\<open>cexpr fn\<close> overloads and
  their bodies. What the code generator knows of the program is the record \<open>cexpr_context\<close>: the
  tables of compile-time values, aliases, types and overloads are data of the model; the inference
  of types, sizes, \<^verbatim>\<open>requires\<close> expressions and concepts are functions. The module whose code is
  evaluated is passed along, and the environment is an option because the pointer to it may be null.
\<close>

section \<open>Names of types\<close>

text \<open>Aliases of a struct name are followed; \<^const>\<open>None\<close> is a chain that does not end.\<close>

partial_function (option) canonical_type_name :: "(string \<rightharpoonup> type_node) \<Rightarrow> type_node \<Rightarrow> string option" where
  "canonical_type_name aliases t =
     (case t of
        NullType \<Rightarrow> Some ''''
      | StructTypeRef n \<Rightarrow>
          (case aliases n of
             Some u \<Rightarrow> if u \<noteq> NullType then canonical_type_name aliases u else Some n
           | None \<Rightarrow> Some n)
      | _ \<Rightarrow> Some (type_text t))"

section \<open>What the evaluator reads\<close>

record cexpr_function =
  fn_name :: string
  fn_is_cexpr :: bool
  fn_type_params :: "string list"
  fn_parameters :: "parameter_list option"
  fn_return_type :: type_node
  fn_body :: "stmt list option"
  fn_source_module :: string
  fn_constraints :: function_constraints

record cexpr_overload =
  ov_node :: "cexpr_function option"
  ov_public :: bool
  ov_module :: string

type_synonym 'f cexpr_env = "string \<rightharpoonup> 'f cexpr_value"

record 'f cexpr_context =
  floats :: "'f float_ops"
  constants :: "'f cexpr_env"
  type_aliases :: "string \<rightharpoonup> type_node"
  known_types :: "string set"
  known_structs :: "string set"
  enum_bases :: "string set"
  visible_enum_name :: "string \<Rightarrow> string"
  struct_variable :: "string \<Rightarrow> string option"
  overloads :: "string \<rightharpoonup> cexpr_overload list"
  infer_type :: "string \<Rightarrow> expr \<Rightarrow> type_node"
  size_of_target :: "string \<Rightarrow> type_node \<Rightarrow> expr \<Rightarrow> string + 64 word"
  requires_result :: "string \<Rightarrow> parameter_list option \<Rightarrow> expr requirement list \<Rightarrow> 'f cexpr_env option \<Rightarrow> nat \<Rightarrow>
    'f cexpr_value \<Rightarrow> 'f cexpr_value outcome"
  concept_result :: "string \<Rightarrow> string \<Rightarrow> type_node list \<Rightarrow> 'f cexpr_env option \<Rightarrow> nat \<Rightarrow>
    'f cexpr_value \<Rightarrow> 'f cexpr_value outcome"
  constraint_result :: "cexpr_function \<Rightarrow> (string \<rightharpoonup> type_node) \<Rightarrow> string + string set list"
  expr_text :: "expr \<Rightarrow> string"

definition canonical_name :: "'f cexpr_context \<Rightarrow> type_node \<Rightarrow> string" where
  "canonical_name c t = (case canonical_type_name (type_aliases c) t of Some n \<Rightarrow> n | None \<Rightarrow> '''')"

definition alias_target :: "'f cexpr_context \<Rightarrow> string \<Rightarrow> type_node option" where
  "alias_target c n = (case type_aliases c n of Some t \<Rightarrow> if t = NullType then None else Some t | None \<Rightarrow> None)"

definition type_name_from_identifier :: "'f cexpr_context \<Rightarrow> string \<Rightarrow> string option" where
  "type_name_from_identifier c n =
     (case alias_target c n of
        Some t \<Rightarrow> Some (canonical_name c t)
      | None \<Rightarrow>
          if n \<in> known_types c \<or> n \<in> known_structs c \<or> n \<in> enum_bases c then Some n
          else if visible_enum_name c n \<noteq> [] then Some (visible_enum_name c n) else None)"

text \<open>Type parameters of a generic function, bound by matching parameter types with argument types.\<close>

fun bind_type_params ::
    "'f cexpr_context \<Rightarrow> string set \<Rightarrow> type_node \<Rightarrow> type_node \<Rightarrow> (string \<rightharpoonup> string) \<Rightarrow> (string \<rightharpoonup> string) option"
and bind_type_args ::
    "'f cexpr_context \<Rightarrow> string set \<Rightarrow> type_node list \<Rightarrow> type_node list \<Rightarrow> (string \<rightharpoonup> string) \<Rightarrow> (string \<rightharpoonup> string) option"
where
  "bind_type_params c tps pat con b =
     (if pat = NullType \<or> con = NullType then Some b
      else case pat of
        StructTypeRef n \<Rightarrow>
          if n \<in> tps then
            (case b n of
               None \<Rightarrow> Some (b(n \<mapsto> canonical_name c con))
             | Some m \<Rightarrow> if m = canonical_name c con then Some b else None)
          else Some b
      | GenericListType p \<Rightarrow>
          (case con of GenericListType e \<Rightarrow> bind_type_params c tps p e b | ArrayType e n \<Rightarrow> bind_type_params c tps p e b
             | MultiArrayType e n m \<Rightarrow> bind_type_params c tps p e b | _ \<Rightarrow> Some b)
      | ArrayType p k \<Rightarrow>
          (case con of GenericListType e \<Rightarrow> bind_type_params c tps p e b | ArrayType e n \<Rightarrow> bind_type_params c tps p e b
             | MultiArrayType e n m \<Rightarrow> bind_type_params c tps p e b | _ \<Rightarrow> Some b)
      | MultiArrayType p k m' \<Rightarrow>
          (case con of GenericListType e \<Rightarrow> bind_type_params c tps p e b | ArrayType e n \<Rightarrow> bind_type_params c tps p e b
             | MultiArrayType e n m \<Rightarrow> bind_type_params c tps p e b | _ \<Rightarrow> Some b)
      | MapType pk pv \<Rightarrow>
          (case con of
             MapType ck cv \<Rightarrow>
               (case bind_type_params c tps pk ck b of None \<Rightarrow> None | Some b' \<Rightarrow> bind_type_params c tps pv cv b')
           | _ \<Rightarrow> Some b)
      | PointerType p \<Rightarrow> (case con of PointerType e \<Rightarrow> bind_type_params c tps p e b | _ \<Rightarrow> Some b)
      | ReferenceType p m' \<Rightarrow> (case con of ReferenceType e m \<Rightarrow> bind_type_params c tps p e b | _ \<Rightarrow> Some b)
      | GenericStructTypeRef n ps \<Rightarrow>
          (case con of
             GenericStructTypeRef n' cs \<Rightarrow> if length ps = length cs then bind_type_args c tps ps cs b else Some b
           | _ \<Rightarrow> Some b)
      | _ \<Rightarrow> Some b)"
| "bind_type_args c tps (p # ps) (t # ts) b =
     (case bind_type_params c tps p t b of None \<Rightarrow> None | Some b' \<Rightarrow> bind_type_args c tps ps ts b')"
| "bind_type_args c tps _ _ b = Some b"

section \<open>Built-in functions\<close>

definition bound_type :: "'f cexpr_env option \<Rightarrow> string \<Rightarrow> string option" where
  "bound_type env n =
     (case env of
        None \<Rightarrow> None
      | Some e \<Rightarrow> (case e (''__type:'' @ n) of Some v \<Rightarrow> if vk v = ConstType then Some (vn v) else None | None \<Rightarrow> None))"

definition named_type :: "'f cexpr_context \<Rightarrow> 'f cexpr_env option \<Rightarrow> string \<Rightarrow> string option" where
  "named_type c env n =
     (case bound_type env n of
        Some t \<Rightarrow> if t \<noteq> [] then Some t else type_name_from_identifier c n
      | None \<Rightarrow> type_name_from_identifier c n)"

text \<open>\<^verbatim>\<open>numeric_limits<T>::max\<close> and \<^verbatim>\<open>min\<close>: the type and the operation.\<close>

definition numeric_limits_call :: "string \<Rightarrow> (string \<times> string) option" where
  "numeric_limits_call n =
     (case rfind_str ''numeric_limits<'' n of
        None \<Rightarrow> None
      | Some p \<Rightarrow>
          (case find_str_from ''>::'' n (p + 15) of
             None \<Rightarrow> None
           | Some e \<Rightarrow>
               let operation = drop (e + 3) n
               in if operation = ''max'' \<or> operation = ''min'' then Some (substr n (p + 15) (e - (p + 15)), operation)
                  else None))"

fun integer_limit :: "type_kind \<Rightarrow> bool \<Rightarrow> int option" where
  "integer_limit TYPE_I8 mx = Some (if mx then 127 else - 128)"
| "integer_limit TYPE_I16 mx = Some (if mx then 32767 else - 32768)"
| "integer_limit TYPE_I32 mx = Some (if mx then 2147483647 else - 2147483648)"
| "integer_limit TYPE_I64 mx = Some (if mx then 9223372036854775807 else - 9223372036854775808)"
| "integer_limit TYPE_INT mx = Some (if mx then 9223372036854775807 else - 9223372036854775808)"
| "integer_limit TYPE_U8 mx = Some (if mx then 255 else 0)"
| "integer_limit TYPE_U16 mx = Some (if mx then 65535 else 0)"
| "integer_limit TYPE_U32 mx = Some (if mx then 4294967295 else 0)"
| "integer_limit TYPE_U64 mx = Some (if mx then 18446744073709551615 else 0)"
| "integer_limit _ mx = None"

definition numeric_limit ::
    "'f float_ops \<Rightarrow> string \<Rightarrow> type_node \<Rightarrow> 'f cexpr_value \<Rightarrow> 'f cexpr_value outcome" where
  "numeric_limit fo operation t out =
     (let mx = (operation = ''max''); k = the (kind_of t)
      in if k = TYPE_BOOL \<or> k = TYPE_BIT then
           Value (out\<lparr>vk := ConstBool, vb := mx, vi := (if mx then 1 else 0), vf := truth_float fo mx, vt := k\<rparr>)
         else if k = TYPE_FLOAT then
           Value (out\<lparr>vk := ConstFloat, vf := f_limit fo mx False, vi := f_to_int fo (f_limit fo mx False), vt := k\<rparr>)
         else if k = TYPE_DOUBLE then Value (out\<lparr>vk := ConstFloat, vf := f_limit fo mx True, vi := 0, vt := k\<rparr>)
         else case integer_limit k mx of
           Some n \<Rightarrow> Value (out\<lparr>vk := ConstInt, vi := word_of_int n, vf := f_of_int fo (sint (word_of_int n :: 64 word)), vt := k\<rparr>)
         | None \<Rightarrow> Failed (''numeric_limits<T>::'' @ operation @ ''() supports only primitive numeric types''))"

fun is_pointer_type :: "type_node \<Rightarrow> bool" where
  "is_pointer_type (PointerType e) = True"
| "is_pointer_type _ = False"

fun is_array_type :: "type_node \<Rightarrow> bool" where
  "is_array_type (ArrayType e n) = True"
| "is_array_type (MultiArrayType e n m) = True"
| "is_array_type _ = False"

text \<open>The only argument of a function of types, which must be a name.\<close>

fun type_argument :: "string \<Rightarrow> string \<Rightarrow> expr list \<Rightarrow> string outcome" where
  "type_argument count_error name_error [Identifier n] = Value n"
| "type_argument count_error name_error [e] = Failed name_error"
| "type_argument count_error name_error _ = Failed count_error"

text \<open>\<^const>\<open>None\<close> when the name is not built in.\<close>

definition builtin_call ::
    "'f cexpr_context \<Rightarrow> string \<Rightarrow> 'f cexpr_env option \<Rightarrow> string \<Rightarrow> expr list \<Rightarrow> 'f cexpr_value \<Rightarrow>
     'f cexpr_value outcome option" where
  "builtin_call c m env n args out =
     (let fo = floats c; type_text_of = (\<lambda>x. case named_type c env x of Some t \<Rightarrow> t | None \<Rightarrow> '''')
      in case numeric_limits_call n of
        Some (tn, operation) \<Rightarrow>
          Some (if args \<noteq> [] then Failed (''numeric_limits<T>::'' @ operation @ ''() does not take arguments'')
            else numeric_limit fo operation (type_from_text (case bound_type env tn of Some t \<Rightarrow> t | None \<Rightarrow> tn)) out)
      | None \<Rightarrow>
          if n = ''__mlang_is_enum_type'' then
            Some (outcome_bind (type_argument ''__mlang_is_enum_type expects one type argument''
                ''__mlang_is_enum_type expects a type name'' args)
              (\<lambda>x. Value (set_bool fo (visible_enum_name c (type_text_of x) \<noteq> [] \<or> type_text_of x \<in> enum_bases c) out)))
          else if n = ''is_pointer'' \<or> n = ''is_array'' then
            Some (case args of
              [a] \<Rightarrow> Value (set_bool fo ((if n = ''is_pointer'' then is_pointer_type else is_array_type) (infer_type c m a)) out)
            | _ \<Rightarrow> Failed (n @ '' expects one value argument''))
          else if n = ''__mlang_is_pointer_type'' \<or> n = ''__mlang_is_array_type'' then
            Some (outcome_bind (type_argument (n @ '' expects one type argument'') (n @ '' expects a type name'') args)
              (\<lambda>x. Value (set_bool fo
                 (if n = ''__mlang_is_pointer_type'' then starts_with ''ptr<'' (type_text_of x)
                  else starts_with ''array<'' (type_text_of x) \<or> starts_with ''multiarray<'' (type_text_of x) \<or>
                    starts_with ''mutmultiarray<'' (type_text_of x)) out)))
          else if n = ''type_id'' then
            Some (outcome_bind (type_argument ''type_id expects one type argument'' ''type_id expects a type name'' args)
              (\<lambda>x. case named_type c env x of
                 Some t \<Rightarrow> Value (set_type fo t out)
               | None \<Rightarrow> Failed (''unknown type in type_id: '' @ [squote] @ x @ [squote])))
          else None)"

section \<open>Overloads\<close>

definition the_kind :: "type_node \<Rightarrow> type_kind" where
  "the_kind t = (case kind_of t of Some k \<Rightarrow> k | None \<Rightarrow> TYPE_VOID)"

definition concrete_type ::
    "'f cexpr_context \<Rightarrow> string \<Rightarrow> 'f cexpr_env option \<Rightarrow> cexpr_function \<Rightarrow> expr \<Rightarrow> type_node" where
  "concrete_type c m env f e =
     (let bound = (case (env, e) of (Some en, Identifier x) \<Rightarrow> en x | _ \<Rightarrow> None)
      in case bound of
           Some v \<Rightarrow>
             if vk v = ConstType then infer_type c m e
             else if vk v = ConstOpaqueStruct \<and> vn v \<noteq> [] then StructTypeRef (vn v)
             else if (fn_name f = ''is_pointer'' \<or> fn_name f = ''is_array'') \<and> infer_type c m e \<noteq> NullType then infer_type c m e
             else PlainType (vt v)
         | None \<Rightarrow> infer_type c m e)"

definition bindings_for ::
    "'f cexpr_context \<Rightarrow> cexpr_function \<Rightarrow> parameter list \<Rightarrow> type_node list \<Rightarrow> (string \<rightharpoonup> string) option" where
  "bindings_for c f ps ts =
     (if fn_type_params f = [] then Some Map.empty
      else fold (\<lambda>(p, t) b. Option.bind b (bind_type_params c (set (fn_type_params f)) (param_type p) t))
        (zip ps ts) (Some Map.empty))"

definition function_env :: "'f float_ops \<Rightarrow> cexpr_function \<Rightarrow> (string \<rightharpoonup> string) \<Rightarrow> 'f cexpr_env" where
  "function_env fo f tb =
     (\<lambda>x. case (if starts_with ''__type:'' x then tb (drop 7 x) else None) of
        Some t \<Rightarrow> Some (set_type fo t (fresh_value fo))
      | None \<Rightarrow>
          (case rfind_str ''::'' (fn_name f) of
             Some p \<Rightarrow>
               if x = ''$literal_namespace'' \<or> x = ''$concept_namespace''
               then Some ((fresh_value fo)\<lparr>vk := ConstType, vn := take p (fn_name f)\<rparr>) else None
           | None \<Rightarrow> None))"

text \<open>Argument values are converted to the kind of the argument's own type; only a literal operator
  uses the kind of the parameter.\<close>

definition argument_kind :: "bool \<Rightarrow> parameter \<Rightarrow> type_node \<Rightarrow> type_kind" where
  "argument_kind literal p t =
     (if literal then the_kind (param_type p)
      else normalize_inferred_kind (the_kind (if t \<noteq> NullType then t else param_type p)))"

fun bind_arguments ::
    "'f float_ops \<Rightarrow> string \<Rightarrow> bool \<Rightarrow> nat \<Rightarrow> (parameter \<times> type_node \<times> 'f cexpr_value outcome) list \<Rightarrow> 'f cexpr_env \<Rightarrow>
     'f cexpr_env outcome" where
  "bind_arguments fo n literal i [] env = Value env"
| "bind_arguments fo n literal i ((p, t, r) # rest) env =
     (case r of
        Failed e \<Rightarrow>
          Failed (if e = [] then ''argument '' @ dec_str (i + 1) @ '' in cexpr call to '' @ [squote] @ n @ [squote] @
            '' is not compile-time evaluable'' else e)
      | Undefined \<Rightarrow> Undefined
      | Value v \<Rightarrow>
          if vk v = ConstOpaqueStruct \<and> argument_kind literal p t = TYPE_STRUCT
          then bind_arguments fo n literal (i + 1) rest (env(param_name p \<mapsto> v))
          else outcome_bind (coerce fo ''cexpr fn parameters'' (argument_kind literal p t) v)
            (\<lambda>w. bind_arguments fo n literal (i + 1) rest (env(param_name p \<mapsto> w))))"

record 'f candidate =
  ca_function :: cexpr_function
  ca_env :: "'f cexpr_env"
  ca_ranking :: function_constraints
  ca_cost :: nat

datatype 'f selection = Run cexpr_function "'f cexpr_env" | Candidates "'f candidate list" string

definition conversion_cost ::
    "'f cexpr_context \<Rightarrow> cexpr_function \<Rightarrow> parameter list \<Rightarrow> type_node list \<Rightarrow> (string \<rightharpoonup> type_node) \<Rightarrow> nat" where
  "conversion_cost c f ps ts cb =
     (let args = map (\<lambda>n. case cb n of Some t \<Rightarrow> t | None \<Rightarrow> StructTypeRef n) (fn_type_params f)
      in length (filter (\<lambda>(p, t). t \<noteq> NullType \<and>
           canonical_name c (substituteTypeParams (fn_type_params f) args (param_type p)) \<noteq> canonical_name c t) (zip ps ts)))"

definition usable_overload :: "string \<Rightarrow> bool \<Rightarrow> nat \<Rightarrow> cexpr_overload \<Rightarrow> (cexpr_function \<times> parameter list) option" where
  "usable_overload m check_visible n ov =
     (if check_visible \<and> \<not> isOverloadVisible (ov_module ov) (ov_public ov) m then None
      else case ov_node ov of
             None \<Rightarrow> None
           | Some f \<Rightarrow>
               (case fn_parameters f of
                  None \<Rightarrow> None
                | Some ps \<Rightarrow>
                    if fn_is_cexpr f \<and> fn_body f \<noteq> None \<and> \<not> is_var_arg ps \<and> length (parameters ps) = n
                    then Some (f, parameters ps) else None))"

fun try_overloads ::
    "'f cexpr_context \<Rightarrow> string \<Rightarrow> 'f cexpr_env option \<Rightarrow> string \<Rightarrow> expr list \<Rightarrow> 'f cexpr_value outcome list \<Rightarrow> bool \<Rightarrow> bool \<Rightarrow>
     cexpr_overload list \<Rightarrow> 'f candidate list \<Rightarrow> string \<Rightarrow> 'f selection outcome" where
  "try_overloads c m env n args results literal constrained [] cands failure = Value (Candidates cands failure)"
| "try_overloads c m env n args results literal constrained (ov # ovs) cands failure =
     (case usable_overload m (literal \<or> constrained) (length args) ov of
        None \<Rightarrow> try_overloads c m env n args results literal constrained ovs cands failure
      | Some (f, ps) \<Rightarrow>
          let ts = map (concrete_type c m env f) args
          in case bindings_for c f ps ts of
               None \<Rightarrow> try_overloads c m env n args results literal constrained ovs cands failure
             | Some tb \<Rightarrow>
                 let cb = (\<lambda>x. map_option type_from_text (tb x))
                 in case (if constrained then constraint_result c f cb else Inr []) of
                      Inl e \<Rightarrow> try_overloads c m env n args results literal constrained ovs cands e
                    | Inr terms \<Rightarrow>
                        outcome_bind (bind_arguments (floats c) n literal 0 (zip ps (zip ts results)) (function_env (floats c) f tb))
                          (\<lambda>en.
                            if constrained then
                              try_overloads c m env n args results literal constrained ovs
                                (cands @ [\<lparr>ca_function = f, ca_env = en,
                                   ca_ranking = (if fn_type_params f = [] then fn_constraints f
                                      else (fn_constraints f)\<lparr>genericOrigin := Some (own (fn_constraints f))\<rparr>)
                                      \<lparr>constraintTerms := terms\<rparr>,
                                   ca_cost = conversion_cost c f ps ts cb\<rparr>]) failure
                            else Value (Run f en)))"

definition dominated :: "'f candidate list \<Rightarrow> nat \<Rightarrow> bool" where
  "dominated cs i \<longleftrightarrow> list_ex (\<lambda>j. j \<noteq> i \<and> ca_cost (cs ! j) = ca_cost (cs ! i) \<and>
     moreConstrained (Some (ca_ranking (cs ! j))) (Some (ca_ranking (cs ! i)))) [0..<length cs]"

text \<open>The candidates of least cost that no other of them is more constrained than.\<close>

definition best_candidates :: "'f candidate list \<Rightarrow> nat list" where
  "best_candidates cs =
     filter (\<lambda>i. list_all (\<lambda>d. ca_cost (cs ! i) \<le> ca_cost d) cs \<and> \<not> dominated cs i) [0..<length cs]"

definition call_error :: "string \<Rightarrow> (string \<times> string) option \<Rightarrow> string" where
  "call_error n literal =
     (case literal of
        Some (suffix', input) \<Rightarrow>
          ''user-defined literal suffix '' @ [squote] @ suffix' @ [squote] @
          '' requires a visible cexpr fn operator for input type '' @ [squote] @ input @ [squote]
      | None \<Rightarrow> ''cexpr call requires a matching '' @ [squote] @ ''cexpr fn'' @ [squote] @ '' overload: '' @
          [squote] @ n @ [squote])"

definition choose_candidate ::
    "string \<Rightarrow> (string \<times> string) option \<Rightarrow> bool \<Rightarrow> 'f selection \<Rightarrow> (cexpr_function \<times> 'f cexpr_env) outcome" where
  "choose_candidate n literal constrained sel =
     (case sel of
        Run f en \<Rightarrow> Value (f, en)
      | Candidates cs failure \<Rightarrow>
          (case best_candidates cs of
             [i] \<Rightarrow> Value (ca_function (cs ! i), ca_env (cs ! i))
           | [] \<Rightarrow>
               Failed (if constrained \<and> failure \<noteq> [] then
                 ''constraints not satisfied for cexpr call to '' @ [squote] @ n @ [squote] @ '': '' @ failure
                 else call_error n literal)
           | _ \<Rightarrow> Failed (''ambiguous constrained cexpr call to '' @ [squote] @ n @ [squote])))"

text \<open>The function a call runs and the environment of its parameters, from the values of the arguments.\<close>

definition select_overload ::
    "'f cexpr_context \<Rightarrow> string \<Rightarrow> 'f cexpr_env option \<Rightarrow> string \<Rightarrow> expr list \<Rightarrow> 'f cexpr_value outcome list \<Rightarrow>
     (cexpr_function \<times> 'f cexpr_env) outcome" where
  "select_overload c m env n args results =
     (let literal = decodeOperatorName n;
          scope = (case env of Some e \<Rightarrow> e ''$literal_namespace'' | None \<Rightarrow> None);
          lookup = (case scope of
                      Some v \<Rightarrow>
                        if literal \<noteq> None \<and> \<not> contains_str ''::'' n
                        then scopedOperatorName (\<lambda>x. overloads c x \<noteq> None) n (vn v) else n
                    | None \<Rightarrow> n)
      in case overloads c lookup of
           None \<Rightarrow>
             Failed (case literal of
               Some (suffix', input) \<Rightarrow> ''no user-defined literal operator for suffix '' @ [squote] @ suffix' @ [squote] @
                 '' with input type '' @ [squote] @ input @ [squote]
             | None \<Rightarrow> ''unknown function in cexpr call: '' @ [squote] @ n @ [squote])
         | Some ovs \<Rightarrow>
             let constrained = list_ex (\<lambda>ov. case ov_node ov of
                   Some f \<Rightarrow> constraintKey (fn_constraints f) \<noteq> [] | None \<Rightarrow> False) ovs
             in outcome_bind (try_overloads c m env n args results (literal \<noteq> None) constrained ovs [] '''')
                  (choose_candidate n literal constrained))"

section \<open>Expressions, calls and statements\<close>

text \<open>A parameter or a local name; the second lookup is for a type parameter.\<close>

definition local_value :: "'f cexpr_env option \<Rightarrow> string \<Rightarrow> 'f cexpr_value option" where
  "local_value env x =
     (case env of
        None \<Rightarrow> None
      | Some e \<Rightarrow>
          (case e x of
             Some v \<Rightarrow> Some v
           | None \<Rightarrow>
               (case e (''__type:'' @ x) of Some v \<Rightarrow> if vk v = ConstType then Some v else None | None \<Rightarrow> None)))"

definition global_value ::
    "'f cexpr_context \<Rightarrow> 'f cexpr_env option \<Rightarrow> string \<Rightarrow> 'f cexpr_value \<Rightarrow> 'f cexpr_value outcome" where
  "global_value c env x out =
     (case constants c x of
        Some v \<Rightarrow> Value v
      | None \<Rightarrow>
          (case type_name_from_identifier c x of
             Some t \<Rightarrow> Value (set_type (floats c) t out)
           | None \<Rightarrow>
               (case struct_variable c x of
                  Some s \<Rightarrow> Value (set_opaque (floats c) s out)
                | None \<Rightarrow>
                    Failed ((if env = None then ''runtime variable is not available in cexpr: ''
                      else ''unknown compile-time variable in cexpr: '') @ [squote] @ x @ [squote]))))"

definition identifier_value ::
    "'f cexpr_context \<Rightarrow> 'f cexpr_env option \<Rightarrow> string \<Rightarrow> 'f cexpr_value \<Rightarrow> 'f cexpr_value outcome" where
  "identifier_value c env x out =
     (case local_value env x of Some v \<Rightarrow> Value v | None \<Rightarrow> global_value c env x out)"

definition int_literal :: "'f float_ops \<Rightarrow> int \<Rightarrow> type_kind \<Rightarrow> 'f cexpr_value \<Rightarrow> 'f cexpr_value" where
  "int_literal fo n explicit out =
     (let k = (if explicit = TYPE_VOID then TYPE_I64 else explicit)
      in (set_int fo (word_of_int n) k out)\<lparr>vf := int_float fo k (word_of_int n)\<rparr>)"

definition struct_placeholder ::
    "'f cexpr_context \<Rightarrow> string \<Rightarrow> string \<Rightarrow> expr \<Rightarrow> 'f cexpr_value \<Rightarrow> 'f cexpr_value" where
  "struct_placeholder c m n e out =
     (let t = canonical_name c (infer_type c m e) in set_opaque (floats c) (if t = [] then n else t) out)"

definition size_value :: "'f cexpr_value \<Rightarrow> string + 64 word \<Rightarrow> 'f cexpr_value outcome" where
  "size_value out r =
     (case r of
        Inl e \<Rightarrow> Failed e
      | Inr n \<Rightarrow> Value (out\<lparr>vk := ConstInt, vi := n, vb := n \<noteq> 0, vt := TYPE_I64\<rparr>))"

text \<open>A \<^verbatim>\<open>var\<close> without initializer.\<close>

definition zero_value :: "'f float_ops \<Rightarrow> type_node \<Rightarrow> 'f cexpr_value outcome" where
  "zero_value fo t =
     (let k = (if t = NullType then TYPE_I64 else normalize_inferred_kind (the_kind t)); v = fresh_value fo
      in if k = TYPE_BOOL then Value (v\<lparr>vk := ConstBool, vt := TYPE_BOOL\<rparr>)
         else if is_float_kind k then Value (v\<lparr>vk := ConstFloat, vt := k\<rparr>)
         else if is_integer_kind k then Value (v\<lparr>vt := k\<rparr>)
         else Failed (''cexpr fn zero-initialization currently supports '' @ ''only integer, float, and bool vars''))"

definition declared_value ::
    "'f float_ops \<Rightarrow> string \<Rightarrow> type_node \<Rightarrow> 'f cexpr_value \<Rightarrow> 'f cexpr_value outcome" where
  "declared_value fo ctxt t v = (if t = NullType then Value v else coerce fo ctxt (the_kind t) v)"

text \<open>The outer \<^verbatim>\<open>else\<close> of a \<^verbatim>\<open>cexpr if\<close> is that of its last \<^verbatim>\<open>else if\<close>, unless this has its own.\<close>

fun graft_else :: "stmt list option \<Rightarrow> stmt \<Rightarrow> stmt" where
  "graft_else b (CexprIf c t ei e) =
     CexprIf c t (if ei = NullStmt then ei else graft_else b ei) (if ei = NullStmt \<and> e = None then b else e)"
| "graft_else b s = s"

text \<open>The environment, the value returned or left over, and whether the function has returned.\<close>

type_synonym 'f body_result = "'f cexpr_env \<times> 'f cexpr_value \<times> bool"

text \<open>A nested list of statements works on a copy of the environment.\<close>

definition leave_block ::
    "'f cexpr_env \<Rightarrow> ('f cexpr_env \<Rightarrow> 'f cexpr_value \<Rightarrow> 'f body_result outcome) \<Rightarrow> 'f body_result outcome \<Rightarrow>
     'f body_result outcome" where
  "leave_block env rest r =
     outcome_bind r (\<lambda>(inner, v, returned). if returned then Value (env, v, True) else rest env v)"

lemma leave_block_cong [fundef_cong]:
  assumes "r = r'" "env = env'" "\<And>v. rest env' v = rest' env' v"
  shows "leave_block env rest r = leave_block env' rest' r'"
  using assms by (cases r') (auto simp: leave_block_def)

definition call_result :: "string \<Rightarrow> cexpr_function \<Rightarrow> 'f body_result \<Rightarrow> 'f cexpr_value outcome" where
  "call_result n f r =
     (case r of (env, v, returned) \<Rightarrow>
        if \<not> returned then Failed (''cexpr fn '' @ [squote] @ n @ [squote] @ '' must return a value'')
        else if fn_return_type f = NullType then Value v
        else Value (v\<lparr>vt := normalize_inferred_kind (the_kind (fn_return_type f))\<rparr>))"

definition depth_error :: string where
  "depth_error = ''cexpr recursion depth exceeded''"

lemma size_graft_else: "size (graft_else b s) \<le> size s + size_option (size_list size) b"
  by (induction b s rule: graft_else.induct) auto

lemma body_size: "size_option (size_list size) b \<le> n \<Longrightarrow> size_list size (elems b) < Suc n"
  by (cases b) simp_all

lemma size_grafted: "size s + size_option (size_list size) b \<le> n \<Longrightarrow> size (graft_else b s) < Suc n"
  using size_graft_else [of b s] by linarith

text \<open>The depth is the parameter of the same name, at most 64. Operands and arguments start from a
  fresh value; \<open>out\<close> is the value the result is written to.\<close>

function (sequential) eval_expr ::
      "'f cexpr_context \<Rightarrow> string \<Rightarrow> 'f cexpr_env option \<Rightarrow> nat \<Rightarrow> expr \<Rightarrow> 'f cexpr_value \<Rightarrow>
      'f cexpr_value outcome"
and eval_call :: "'f cexpr_context \<Rightarrow> string \<Rightarrow> 'f cexpr_env option \<Rightarrow> nat \<Rightarrow> string \<Rightarrow> expr list \<Rightarrow> 'f cexpr_value \<Rightarrow>
      'f cexpr_value outcome"
and eval_stmts :: "'f cexpr_context \<Rightarrow> string \<Rightarrow> 'f cexpr_env \<Rightarrow> nat \<Rightarrow> stmt list \<Rightarrow> 'f cexpr_value \<Rightarrow>
      'f body_result outcome"
where
  "eval_expr c m env depth e out =
     (if e = NullExpr then Failed ''missing expression in cexpr''
      else if 64 < depth then Failed depth_error
      else
        let fo = floats c; fresh = fresh_value fo; ev = eval_expr c m env (depth + 1)
        in case e of
        CexprExpression x \<Rightarrow> ev x out
      | SizeofExpression t x \<Rightarrow> size_value out (size_of_target c m t x)
      | RequiresExpression ps rs \<Rightarrow> requires_result c m ps rs env (depth + 1) out
      | ConceptApplication n ts \<Rightarrow> concept_result c m n ts env (depth + 1) out
      | IntLiteral n k \<Rightarrow> Value (int_literal fo n k out)
      | BoolLiteral b \<Rightarrow> Value (set_bool fo b out)
      | FloatLiteral n \<Rightarrow> Value (set_float fo (f_of_bits32 fo n) TYPE_FLOAT out)
      | DoubleLiteral n \<Rightarrow> Value (set_float fo (f_of_bits64 fo n) TYPE_DOUBLE out)
      | Identifier x \<Rightarrow> identifier_value c env x out
      | StructLiteral n d as fs \<Rightarrow> Value (struct_placeholder c m n e out)
      | CastExpression k x ch \<Rightarrow> outcome_bind (ev x out) (coerce fo ''cexpr casts'' k)
      | FunctionCall n args \<Rightarrow> eval_call c m env (depth + 1) n args out
      | UnaryOp op x \<Rightarrow> outcome_bind (ev x fresh) (\<lambda>v. eval_unary fo op v out)
      | BinaryOp op x y \<Rightarrow>
          outcome_bind (ev x fresh)
            (\<lambda>l. if shortcut op l then Value (set_bool fo (vb l) out)
                 else outcome_bind (ev y fresh) (\<lambda>r. eval_binary fo op l r out))
      | Ternary x y z \<Rightarrow>
          outcome_bind (ev x fresh)
            (\<lambda>v. if placeholder v then
                   Failed (''cexpr ternary condition requires a bool or numeric '' @
                     ''value, not a struct or type_id placeholder'')
                 else ev (if condition_holds fo v then y else z) out)
      | _ \<Rightarrow> Failed (''unsupported expression in cexpr: '' @ expr_text c e))"
| "eval_call c m env depth n args out =
     (if 64 < depth then Failed depth_error
      else case builtin_call c m env n args out of
        Some r \<Rightarrow> r
      | None \<Rightarrow>
          outcome_bind (select_overload c m env n args (map (\<lambda>e. eval_expr c m env (depth + 1) e (fresh_value (floats c))) args))
            (\<lambda>(f, env').
               outcome_bind (eval_stmts c (fn_source_module f) env' (depth + 1) (elems (fn_body f)) (fresh_value (floats c)))
                 (call_result n f)))"
| "eval_stmts c m env depth [] ret = Value (env, ret, False)"
| "eval_stmts c m env depth (s # rest) ret =
     (let fo = floats c; fresh = fresh_value fo; ev = eval_expr c m (Some env) (depth + 1);
          next = (\<lambda>env. eval_stmts c m env depth rest)
      in case s of
        NullStmt \<Rightarrow> next env ret
      | ReturnStmt e \<Rightarrow>
          if e = NullExpr then Failed ''cexpr fn does not support bare return''
          else outcome_bind (ev e ret) (\<lambda>v. Value (env, v, True))
      | LetDecl t x e p \<Rightarrow>
          if e = NullExpr then Failed ''cexpr fn let declarations require an initializer''
          else outcome_bind (outcome_bind (ev e fresh) (declared_value fo ''cexpr fn let declarations'' t))
                 (\<lambda>v. next (env(x \<mapsto> v)) ret)
      | CexprDecl t x e p \<Rightarrow>
          if e = NullExpr then Failed ''cexpr fn let declarations require an initializer''
          else outcome_bind (outcome_bind (ev e fresh) (declared_value fo ''cexpr fn let declarations'' t))
                 (\<lambda>v. next (env(x \<mapsto> v)) ret)
      | VarDecl t x e a b d p \<Rightarrow>
          outcome_bind
            (if e = NullExpr then zero_value fo t
             else outcome_bind (ev e fresh) (declared_value fo ''cexpr fn var declarations'' t))
            (\<lambda>v. next (env(x \<mapsto> v)) ret)
      | Assignment x e \<Rightarrow>
          if env x = None then Failed (''unknown variable in cexpr fn assignment: '' @ [squote] @ x @ [squote])
          else outcome_bind (ev e fresh) (\<lambda>v. next (env(x \<mapsto> v)) ret)
      | ExpressionStatement e \<Rightarrow> outcome_bind (ev e fresh) (\<lambda>v. next env ret)
      | BlockStatement body sc \<Rightarrow> leave_block env next (eval_stmts c m env (depth + 1) (elems body) ret)
      | CexprIf cond th ei el \<Rightarrow>
          outcome_bind (ev cond fresh)
            (\<lambda>v. if placeholder v then
                   Failed (''cexpr if condition requires a bool or numeric value, '' @ ''not a struct or type_id placeholder'')
                 else if condition_holds fo v then leave_block env next (eval_stmts c m env (depth + 1) (elems th) ret)
                 else if ei \<noteq> NullStmt then leave_block env next (eval_stmts c m env (depth + 1) [graft_else el ei] ret)
                 else leave_block env next (eval_stmts c m env (depth + 1) (elems el) ret))
      | IfStmt ini cond th ei el a p \<Rightarrow>
          if ini \<noteq> NullStmt then Failed ''cexpr fn does not support if let/if var initializers''
          else outcome_bind (ev cond ret)
            (\<lambda>v. if condition_holds fo v then leave_block env next (eval_stmts c m env (depth + 1) (elems th) v)
                 else if ei \<noteq> NullStmt then leave_block env next (eval_stmts c m env (depth + 1) [ei] v)
                 else leave_block env next (eval_stmts c m env (depth + 1) (elems el) v))
      | _ \<Rightarrow> Failed ''statement is not supported in cexpr fn'')"
  by pat_completeness auto
termination
proof (relation "measures
    [\<lambda>p. case p of Inl (c, m, env, d, e, out) \<Rightarrow> 66 - d | Inr (Inl (c, m, env, d, n, args, out)) \<Rightarrow> 66 - d
       | Inr (Inr (c, m, env, d, ss, ret)) \<Rightarrow> 66 - d,
     \<lambda>p. case p of Inl q \<Rightarrow> 0 | Inr (Inl q) \<Rightarrow> 0 | Inr (Inr (c, m, env, d, ss, ret)) \<Rightarrow> size_list size ss + 1]")
qed (auto, (rule body_size size_grafted, linarith)+)

end
