(* ===== verification/Cexpr_Props.thy ===== *)
theory Cexpr_Props
  imports Cexpr_Eval
begin

text \<open>
  Properties of compile-time evaluation (\<^verbatim>\<open>src/ir/constexpr.cpp\<close>): the limit on the depth decides only
  whether there is a value, never which, where no concept is asked for; nested blocks; \<^verbatim>\<open>else\<close> of an \<^verbatim>\<open>if\<close> chain; the arithmetic
  against that of the integers; the choice of an overload.
\<close>

declare eval_expr.simps [simp del] and eval_call.simps [simp del] and eval_stmts.simps(2) [simp del]

section \<open>The limit on the depth\<close>

text \<open>Where the first has a value the second has the same, or it may also have none when \<open>k\<close> does not hold.\<close>

definition preserves :: "bool \<Rightarrow> 'a outcome \<Rightarrow> 'a outcome \<Rightarrow> bool" where
  "preserves k r r' \<longleftrightarrow> (\<forall>v. r = Value v \<longrightarrow> r' = Value v \<or> \<not> k \<and> (\<forall>w. r' \<noteq> Value w))"

lemma preserves_same [simp]: "preserves k r r"
  by (simp add: preserves_def)

lemma preserves_error [simp]: "preserves k (Failed e) r" "preserves k Undefined r"
  by (simp_all add: preserves_def)

lemma preserves_no_value: "\<not> k \<Longrightarrow> preserves k r (Failed e)" "\<not> k \<Longrightarrow> preserves k r Undefined"
  by (simp_all add: preserves_def)

lemma preserves_bind:
  "preserves k r r' \<Longrightarrow> (\<And>x. r = Value x \<Longrightarrow> preserves k (f x) (f' x)) \<Longrightarrow> preserves k (outcome_bind r f) (outcome_bind r' f')"
  by (auto simp: preserves_def)

lemma leave_block_preserves:
  "preserves k r r' \<Longrightarrow> (\<And>v. preserves k (rest env v) (rest' env v)) \<Longrightarrow> preserves k (leave_block env rest r) (leave_block env rest' r')"
  unfolding leave_block_def by (rule preserves_bind) (auto split: prod.split)

lemma bind_arguments_preserves:
  "list_all2 (preserves k) rs rs' \<Longrightarrow>
   preserves k (bind_arguments fo n l i (zip ps (zip ts rs)) env) (bind_arguments fo n l i (zip ps (zip ts rs')) env)"
proof (induction ps arbitrary: ts rs rs' i env)
  case (Cons p ps)
  show ?case
  proof (cases "ts = [] \<or> rs = []")
    case True
    then show ?thesis using Cons.prems by auto
  next
    case False
    then obtain t ts' r rs1 where s: "ts = t # ts'" "rs = r # rs1" by (meson list.exhaust)
    then obtain r' rs1' where s': "rs' = r' # rs1'" "preserves k r r'" "list_all2 (preserves k) rs1 rs1'"
      using Cons.prems by (auto simp: list_all2_Cons1)
    show ?thesis
    proof (cases r)
      case (Value v)
      show ?thesis
      proof (cases r')
        case same: (Value w)
        then have "w = v" using s'(2) Value by (simp add: preserves_def)
        with s s'(1) Value same show ?thesis by (auto intro!: preserves_bind Cons.IH [OF s'(3)])
      qed (use s s' Value in \<open>auto simp: preserves_def\<close>)
    qed (use s in simp_all)
  qed
qed simp

lemma try_overloads_preserves:
  assumes "list_all2 (preserves k) rs rs'"
  shows "preserves k (try_overloads c m env n args rs l con ovs cs e) (try_overloads c m env n args rs' l con ovs cs e)"
proof (induction ovs arbitrary: cs e)
  case (Cons ov ovs)
  show ?case
    using Cons.IH
    by (cases con; cases "usable_overload m (l \<or> con) (length args) ov")
      (auto simp: Let_def split: option.splits sum.splits prod.splits
        intro!: preserves_bind bind_arguments_preserves assms)
qed simp

lemma select_overload_preserves:
  "list_all2 (preserves k) rs rs' \<Longrightarrow> preserves k (select_overload c m env n args rs) (select_overload c m env n args rs')"
  by (auto simp: select_overload_def Let_def split: option.splits intro!: preserves_bind try_overloads_preserves)

text \<open>The evaluator where every \<^verbatim>\<open>requires\<close> expression and every use of a concept is an error: an evaluation
  that has a value there asks for none of them.\<close>

definition without_concepts :: "'f cexpr_context \<Rightarrow> 'f cexpr_context" where
  "without_concepts c = c\<lparr>requires_result := (\<lambda>m ps rs env d out. Failed []), concept_result := (\<lambda>m n ts env d out. Failed [])\<rparr>"

lemma without_concepts_reads [simp]:
  "floats (without_concepts c) = floats c" "constants (without_concepts c) = constants c"
  "type_aliases (without_concepts c) = type_aliases c" "known_types (without_concepts c) = known_types c"
  "known_structs (without_concepts c) = known_structs c" "enum_bases (without_concepts c) = enum_bases c"
  "visible_enum_name (without_concepts c) = visible_enum_name c" "struct_variable (without_concepts c) = struct_variable c"
  "overloads (without_concepts c) = overloads c" "infer_type (without_concepts c) = infer_type c"
  "size_of_target (without_concepts c) = size_of_target c" "constraint_result (without_concepts c) = constraint_result c"
  "expr_text (without_concepts c) = expr_text c" "requires_result (without_concepts c) = (\<lambda>m ps rs env d out. Failed [])"
  "concept_result (without_concepts c) = (\<lambda>m n ts env d out. Failed [])"
  by (simp_all add: without_concepts_def)

lemma without_concepts_names [simp]:
  "canonical_name (without_concepts c) = canonical_name c" "alias_target (without_concepts c) = alias_target c"
  by (unfold canonical_name_def alias_target_def without_concepts_reads) (rule refl)+

lemma without_concepts_types [simp]: "type_name_from_identifier (without_concepts c) = type_name_from_identifier c"
  by (unfold type_name_from_identifier_def without_concepts_reads without_concepts_names, rule refl)

lemma without_concepts_named [simp]: "named_type (without_concepts c) = named_type c"
  by (unfold named_type_def without_concepts_types, rule refl)

lemma without_concepts_values [simp]:
  "concrete_type (without_concepts c) = concrete_type c" "struct_placeholder (without_concepts c) = struct_placeholder c"
  "conversion_cost (without_concepts c) = conversion_cost c" "builtin_call (without_concepts c) = builtin_call c"
  "identifier_value (without_concepts c) = identifier_value c"
  by (unfold concrete_type_def global_value_def struct_placeholder_def conversion_cost_def builtin_call_def
      identifier_value_def without_concepts_reads without_concepts_names without_concepts_types without_concepts_named)
    (rule refl)+

lemma bind_params_without_concepts:
  "bind_type_params (without_concepts c) tps p t b = bind_type_params c tps p t b"
  "bind_type_args (without_concepts c) tps ps ts b = bind_type_args c tps ps ts b"
proof (induction c tps p t b and c tps ps ts b rule: bind_type_params_bind_type_args.induct)
  case (1 c tps p t b)
  then show ?case
    by (subst (1 2) bind_type_params.simps) (cases p; cases t; auto split: option.split)
qed (auto split: option.split)

lemma without_concepts_bindings [simp]: "bindings_for (without_concepts c) = bindings_for c"
  by (unfold bindings_for_def bind_params_without_concepts, rule refl)

lemma try_overloads_without_concepts:
  "try_overloads (without_concepts c) m env n args rs l k ovs cs e = try_overloads c m env n args rs l k ovs cs e"
proof (induction ovs arbitrary: cs e)
  case (Cons ov ovs)
  show ?case
    unfolding try_overloads.simps without_concepts_reads without_concepts_values without_concepts_bindings Cons.IH
    by (rule refl)
qed simp

lemma select_overload_without_concepts [simp]: "select_overload (without_concepts c) = select_overload c"
  by (unfold select_overload_def try_overloads_without_concepts without_concepts_reads, rule refl)

lemma same_reads:
  assumes "c = without_concepts c1"
  shows "floats c = floats c1" "size_of_target c = size_of_target c1" "expr_text c = expr_text c1"
    "identifier_value c = identifier_value c1" "struct_placeholder c = struct_placeholder c1"
    "builtin_call c = builtin_call c1" "select_overload c = select_overload c1"
    "requires_result c = (\<lambda>m ps rs env d out. Failed [])" "concept_result c = (\<lambda>m n ts env d out. Failed [])"
  by (simp_all add: assms)

text \<open>The evaluation without concepts against the one with them at a smaller depth.\<close>

lemma eval_preserves:
  assumes "c = without_concepts c1"
  shows "k \<longrightarrow> d' \<le> depth \<Longrightarrow> preserves k (eval_expr c m env depth e out) (eval_expr c1 m env d' e out)"
    and "k \<longrightarrow> d' \<le> depth \<Longrightarrow> preserves k (eval_call c m env depth n args out) (eval_call c1 m env d' n args out)"
    and "k \<longrightarrow> d' \<le> depth \<Longrightarrow> preserves k (eval_stmts c m env2 depth ss out) (eval_stmts c1 m env2 d' ss out)"
  using assms
proof (induction c m env depth e out and c m env depth n args out and c m env2 depth ss out
    arbitrary: d' and d' and d' rule: eval_expr_eval_call_eval_stmts.induct)
  case (1 c m env depth e out)
  show ?case
  proof (cases "e = NullExpr \<or> 64 < depth \<or> 64 < d'")
    case True
    then show ?thesis using 1(3)
      by (auto simp: eval_expr.simps [of c m env depth] eval_expr.simps [of c1 m env d'] intro!: preserves_no_value)
  next
    case False
    have ev: "preserves k (eval_expr c m env (Suc depth) x o') (eval_expr c1 m env (Suc d') x o')" for x o'
      using 1(1) [of "floats c" _ "Suc d'"] False 1(3,4) by simp
    have call: "preserves k (eval_call c m env (Suc depth) n as out) (eval_call c1 m env (Suc d') n as out)"
      if "e = FunctionCall n as" for n as
      using 1(2) [of "floats c" _ _ n as "Suc d'"] False 1(3,4) that by simp
    note same = same_reads [OF 1(4)]
    show ?thesis
      using False
      unfolding eval_expr.simps [of c m env depth] eval_expr.simps [of c1 m env d'] same(1-5)
      by (cases e) (auto simp: Let_def same intro!: ev call preserves_bind)
  qed
next
  case (2 c m env depth n args out)
  note same = same_reads [OF 2(4)]
  show ?case
  proof (cases "64 < depth \<or> 64 < d' \<or> builtin_call c m env n args out \<noteq> None")
    case True
    then show ?thesis
      unfolding eval_call.simps [of c m env depth] eval_call.simps [of c1 m env d'] same using 2(3) by (auto intro!: preserves_no_value)
  next
    case False
    let ?rs = "\<lambda>c d. map (\<lambda>e. eval_expr c m env (Suc d) e (fresh_value (floats c))) args"
    have "list_all2 (preserves k) (?rs c depth) (?rs c1 d')"
      using 2(1) [of _ "Suc d'"] False 2(3,4) by (simp add: list_all2_conv_all_nth same(1))
    then have sel: "preserves k (select_overload c m env n args (?rs c depth)) (select_overload c1 m env n args (?rs c1 d'))"
      unfolding same(7) by (rule select_overload_preserves)
    have body: "preserves k (eval_stmts c (fn_source_module f) en (Suc depth) (elems (fn_body f)) (fresh_value (floats c)))
        (eval_stmts c1 (fn_source_module f) en (Suc d') (elems (fn_body f)) (fresh_value (floats c1)))"
      if "select_overload c m env n args (?rs c depth) = Value (f, en)" for f en
      using 2(2) [of "(f, en)" f en "Suc d'"] False 2(3,4) that by (simp add: same(1))
    show ?thesis
      using False
      unfolding eval_call.simps [of c m env depth] eval_call.simps [of c1 m env d']
      by (auto simp: same(6) intro!: preserves_bind sel body)
  qed
next
  case 3
  then show ?case by simp
next
  case (4 c m env depth s rest ret)
  have ev: "preserves k (eval_expr c m (Some env) (Suc depth) x o') (eval_expr c1 m (Some env) (Suc d') x o')" for x o'
    using 4(1) [of "floats c" _ "Suc d'"] 4(10,11) by simp
  have rest: "preserves k (eval_stmts c m en depth rest o') (eval_stmts c1 m en d' rest o')" for en o'
    using 4(2) [of "floats c" _ _ d'] 4(10,11) by simp
  note same = same_reads [OF 4(11)]
  note step = eval_stmts.simps(2) [of c m env depth s rest] eval_stmts.simps(2) [of c1 m env d' s rest] same(1)
  show ?case
  proof (cases s)
    case (BlockStatement body sc)
    then have "preserves k (eval_stmts c m env (Suc depth) (elems body) ret) (eval_stmts c1 m env (Suc d') (elems body) ret)"
      using 4(3) [of _ _ _ _ body sc "Suc d'"] 4(10,11) by simp
    then show ?thesis
      using BlockStatement unfolding step
      by (auto simp: Let_def intro!: leave_block_preserves rest)
  next
    case (IfStmt ini cond th ei el a p)
    have "preserves k (eval_stmts c m env (Suc depth) ss v) (eval_stmts c1 m env (Suc d') ss v)"
      if "\<not> ini \<noteq> NullStmt" "eval_expr c m (Some env) (Suc depth) cond ret = Value v"
        "condition_holds (floats c) v \<and> ss = elems th \<or>
         \<not> condition_holds (floats c) v \<and> (ei \<noteq> NullStmt \<and> ss = [ei] \<or> ei = NullStmt \<and> ss = elems el)" for ss v
      using 4(4,5,6) [of "floats c" _ _ _ ini cond th ei el a p v "Suc d'"] 4(10,11) IfStmt that by auto
    then show ?thesis
      using IfStmt unfolding step
      by (auto simp: Let_def intro!: leave_block_preserves rest preserves_bind ev)
  next
    case (CexprIf cond th ei el)
    have "preserves k (eval_stmts c m env (Suc depth) ss ret) (eval_stmts c1 m env (Suc d') ss ret)"
      if "eval_expr c m (Some env) (Suc depth) cond (fresh_value (floats c)) = Value v" "\<not> placeholder v"
        "condition_holds (floats c) v \<and> ss = elems th \<or>
         \<not> condition_holds (floats c) v \<and> (ei \<noteq> NullStmt \<and> ss = [graft_else el ei] \<or> ei = NullStmt \<and> ss = elems el)"
      for ss v
      using 4(7,8,9) [of "floats c" _ _ _ cond th ei el v "Suc d'"] 4(10,11) CexprIf that by auto
    then show ?thesis
      using CexprIf unfolding step
      by (auto simp: Let_def intro!: leave_block_preserves rest preserves_bind ev)
  qed (unfold step, auto simp: Let_def intro!: ev rest preserves_bind)
qed

text \<open>C4. The limit of 64 on the depth decides only whether an expression has a value, never which, where
  the evaluation asks for no \<^verbatim>\<open>requires\<close> expression and no concept: an expression that has a value at
  some depth in this way has the same at every smaller depth; at a greater one it has the same or none;
  and there is none beyond the limit.\<close>

theorem depth_only_limits:
  assumes "eval_expr (without_concepts c) m env d e out = Value v"
  shows "d \<le> 64 \<and> (\<forall>d'. d' \<le> d \<longrightarrow> eval_expr c m env d' e out = Value v) \<and>
    (\<forall>d' w. eval_expr c m env d' e out = Value w \<longrightarrow> w = v)"
proof (intro conjI allI impI)
  show "d \<le> 64" using assms by (auto simp: eval_expr.simps [of "without_concepts c" m env d] split: if_splits)
  show "eval_expr c m env d' e out = Value v" if "d' \<le> d" for d'
    using eval_preserves(1) [OF refl, of True d' d c m env e out] that assms by (simp add: preserves_def)
  show "w = v" if "eval_expr c m env d' e out = Value w" for d' w
    using eval_preserves(1) [OF refl, of False d' d c m env e out] that assms by (simp add: preserves_def)
qed

section \<open>Examples\<close>

text \<open>Numbers that are integers, and what a program of some functions gives the evaluator.\<close>

definition integer_floats :: "int float_ops" where
  "integer_floats = \<lparr>f_add = (+), f_sub = (-), f_mul = (*), f_div = (sdiv), f_neg = uminus, f_lt = (<), f_le = (\<le>),
     f_eq = (=), f_of_int = id, f_to_int = word_of_int, f_of_bits32 = id, f_of_bits64 = id, f_limit = (\<lambda>a b. 0)\<rparr>"

definition program_context :: "cexpr_function list \<Rightarrow> int cexpr_context" where
  "program_context fs =
     \<lparr>floats = integer_floats, constants = Map.empty, type_aliases = Map.empty, known_types = {}, known_structs = {},
      enum_bases = {}, visible_enum_name = (\<lambda>x. []), struct_variable = Map.empty,
      overloads = (\<lambda>n. let gs = filter (\<lambda>f. fn_name f = n) fs
        in if gs = [] then None else Some (map (\<lambda>f. \<lparr>ov_node = Some f, ov_public = True, ov_module = []\<rparr>) gs)),
      infer_type = (\<lambda>m e. PlainType TYPE_I64), size_of_target = (\<lambda>m t e. Inl ''no size''),
      requires_result = (\<lambda>m ps rs env d out. Failed ''requires''), concept_result = (\<lambda>m n ts env d out. Failed ''concept''),
      constraint_result = (\<lambda>f b. Inr []), expr_text = (\<lambda>e. [])\<rparr>"

definition simple_function :: "string \<Rightarrow> string list \<Rightarrow> stmt list \<Rightarrow> cexpr_function" where
  "simple_function n ps body =
     \<lparr>fn_name = n, fn_is_cexpr = True, fn_type_params = [],
      fn_parameters = Some \<lparr>parameters = map (\<lambda>p. \<lparr>param_type = PlainType TYPE_I64, param_name = p, is_pack = False,
        is_shared_self = False\<rparr>) ps, is_var_arg = False\<rparr>,
      fn_return_type = PlainType TYPE_I64, fn_body = Some body, fn_source_module = [],
      fn_constraints = \<lparr>own = \<lparr>requiresClause = None, typeParamTraitBounds = []\<rparr>, genericOrigin = None,
        constraintTerms = []\<rparr>\<rparr>"

text \<open>\<^verbatim>\<open>cexpr fn down(n: i64) -> i64 { return n == 0 ? 7 : down(n - 1); }\<close>\<close>

definition countdown :: cexpr_function where
  "countdown = simple_function ''down'' [''n'']
     [ReturnStmt (Ternary (BinaryOp OP_EQ (Identifier ''n'') (IntLiteral 0 TYPE_VOID)) (IntLiteral 7 TYPE_VOID)
        (FunctionCall ''down'' [BinaryOp OP_MINUS (Identifier ''n'') (IntLiteral 1 TYPE_VOID)]))]"

definition integer_value :: "int \<Rightarrow> int cexpr_value" where
  "integer_value n = set_int integer_floats (word_of_int n) TYPE_I64 (fresh_value integer_floats)"

lemma countdown_runs:
  "eval_expr (program_context [countdown]) [] None 30 (FunctionCall ''down'' [IntLiteral 3 TYPE_VOID])
     (fresh_value integer_floats) = Value (integer_value 7)"
  by code_simp

lemma countdown_limit:
  "eval_expr (program_context [countdown]) [] None 0 (FunctionCall ''down'' [IntLiteral 15 TYPE_VOID])
     (fresh_value integer_floats) = Failed depth_error"
  by code_simp

lemma depth_only_limits_witness:
  "eval_expr (program_context [countdown]) [] None 5 (FunctionCall ''down'' [IntLiteral 3 TYPE_VOID])
     (fresh_value integer_floats) = Value (integer_value 7)"
proof -
  have "eval_expr (without_concepts (program_context [countdown])) [] None 30 (FunctionCall ''down'' [IntLiteral 3 TYPE_VOID])
     (fresh_value integer_floats) = Value (integer_value 7)"
    by code_simp
  from depth_only_limits [OF this] show ?thesis by simp
qed

section \<open>Environments\<close>

fun written :: "stmt \<Rightarrow> string set" where
  "written (LetDecl t x e p) = {x}"
| "written (CexprDecl t x e p) = {x}"
| "written (VarDecl t x e a b d p) = {x}"
| "written (Assignment x e) = {x}"
| "written _ = {}"

lemma leave_block_value:
  "leave_block env rest r = Value (env', v, b) \<longleftrightarrow>
     (\<exists>inner w. r = Value (inner, w, True) \<and> env' = env \<and> v = w \<and> b) \<or>
     (\<exists>inner w. r = Value (inner, w, False) \<and> rest env w = Value (env', v, b))"
  by (cases r) (auto simp: leave_block_def split: prod.splits)

lemma eval_stmts_writes:
  "eval_stmts c m env d ss ret = Value (env', v, b) \<Longrightarrow> x \<notin> \<Union> (written ` set ss) \<Longrightarrow> env' x = env x"
proof (induction ss arbitrary: env ret)
  case (Cons s ss)
  have IH: "eval_stmts c m en d ss o' = Value (env', v, b) \<Longrightarrow> env' x = en x" for en o'
    using Cons.IH Cons.prems(2) by simp
  have x: "x \<notin> written s" using Cons.prems(2) by simp
  show ?case
    using Cons.prems(1) x unfolding eval_stmts.simps(2) [of c m env d s ss]
    by (cases s) (auto simp: Let_def leave_block_value dest!: IH split: if_splits)
qed simp

lemma eval_stmts_defined:
  "eval_stmts c m env d ss ret = Value (env', v, b) \<Longrightarrow> env x \<noteq> None \<Longrightarrow> env' x \<noteq> None"
proof (induction ss arbitrary: env ret)
  case (Cons s ss)
  have IH: "eval_stmts c m en d ss o' = Value (env', v, b) \<Longrightarrow> env' x \<noteq> None" if "en x \<noteq> None" for en o'
    using Cons.IH that by simp
  show ?case
    using Cons.prems unfolding eval_stmts.simps(2) [of c m env d s ss]
    by (cases s) (auto simp: Let_def leave_block_value dest!: IH [rotated] split: if_splits)
qed auto

text \<open>C17. A list of statements changes only the names that its own \<^verbatim>\<open>let\<close>, \<^verbatim>\<open>var\<close> and assignment statements
  name, and loses none. A nested block or branch never changes the environment around it, so what is
  assigned there to a variable of the function is lost, against the documentation, by which bodies
  support assignment, \<^verbatim>\<open>if\<close> and nested blocks: after a block, and after an \<^verbatim>\<open>if\<close>, that do not return, the
  rest runs in the environment from before.\<close>

theorem nested_assignments_lost:
  assumes "eval_stmts c m env d ss ret = Value (env', v, b)"
  shows "(\<forall>x. x \<notin> \<Union> (written ` set ss) \<longrightarrow> env' x = env x) \<and> dom env \<subseteq> dom env' \<and>
    (\<forall>sc rest d0. d = Suc d0 \<and> \<not> b \<longrightarrow>
       eval_stmts c m env d0 (BlockStatement (Some ss) sc # rest) ret = eval_stmts c m env d0 rest v) \<and>
    (\<forall>cond a p rest d0 w. d = Suc d0 \<and> \<not> b \<and> eval_expr c m (Some env) d cond w = Value ret \<and> condition_holds (floats c) ret \<longrightarrow>
       eval_stmts c m env d0 (IfStmt NullStmt cond (Some ss) NullStmt None a p # rest) w = eval_stmts c m env d0 rest v)"
proof (intro conjI allI impI subsetI)
  show "env' x = env x" if "x \<notin> \<Union> (written ` set ss)" for x
    by (rule eval_stmts_writes [OF assms that])
  show "x \<in> dom env'" if "x \<in> dom env" for x
    using eval_stmts_defined [OF assms, of x] that by auto
  show "eval_stmts c m env d0 (BlockStatement (Some ss) sc # rest) ret = eval_stmts c m env d0 rest v"
    if "d = Suc d0 \<and> \<not> b" for sc rest d0
    using assms that by (simp add: eval_stmts.simps(2) Let_def leave_block_def)
  show "eval_stmts c m env d0 (IfStmt NullStmt cond (Some ss) NullStmt None a p # rest) w = eval_stmts c m env d0 rest v"
    if "d = Suc d0 \<and> \<not> b \<and> eval_expr c m (Some env) d cond w = Value ret \<and> condition_holds (floats c) ret"
    for cond a p rest d0 w
    using assms that by (auto simp: eval_stmts.simps(2) Let_def leave_block_def)
qed

text \<open>\<^verbatim>\<open>cexpr fn flag(x: i64) -> i64 { var y: i64 = 1; if x { y = 5; } return y; }\<close>\<close>

definition flag :: cexpr_function where
  "flag = simple_function ''flag'' [''x'']
     [VarDecl (PlainType TYPE_I64) ''y'' (IntLiteral 1 TYPE_VOID) False False False NoPrediction,
      IfStmt NullStmt (Identifier ''x'') (Some [Assignment ''y'' (IntLiteral 5 TYPE_VOID)]) NullStmt None False NoPrediction,
      ReturnStmt (Identifier ''y'')]"

lemma flag_assignment:
  "eval_stmts (program_context [flag]) [] [''y'' \<mapsto> integer_value 1] 3 [Assignment ''y'' (IntLiteral 5 TYPE_VOID)]
     (integer_value 2) = Value ([''y'' \<mapsto> integer_value 1, ''y'' \<mapsto> integer_value 5], integer_value 2, False)"
  by (simp add: eval_stmts.simps(2) eval_expr.simps Let_def program_context_def integer_value_def int_literal_def
      set_int_def fresh_value_def integer_floats_def int_float_def is_unsigned_kind_def)

lemma nested_assignments_lost_witness:
  "eval_stmts (program_context [flag]) [] [''y'' \<mapsto> integer_value 1] 2
     [BlockStatement (Some [Assignment ''y'' (IntLiteral 5 TYPE_VOID)]) False, ReturnStmt (Identifier ''y'')] (integer_value 2) =
   eval_stmts (program_context [flag]) [] [''y'' \<mapsto> integer_value 1] 2 [ReturnStmt (Identifier ''y'')] (integer_value 2) \<and>
   eval_expr (program_context [flag]) [] None 0 (FunctionCall ''flag'' [IntLiteral 9 TYPE_VOID]) (fresh_value integer_floats) =
     Value (integer_value 1)"
proof
  show "eval_stmts (program_context [flag]) [] [''y'' \<mapsto> integer_value 1] 2
     [BlockStatement (Some [Assignment ''y'' (IntLiteral 5 TYPE_VOID)]) False, ReturnStmt (Identifier ''y'')] (integer_value 2) =
   eval_stmts (program_context [flag]) [] [''y'' \<mapsto> integer_value 1] 2 [ReturnStmt (Identifier ''y'')] (integer_value 2)"
    using nested_assignments_lost [OF flag_assignment] by (simp add: numeral_3_eq_3 numeral_2_eq_2)
  show "eval_expr (program_context [flag]) [] None 0 (FunctionCall ''flag'' [IntLiteral 9 TYPE_VOID])
     (fresh_value integer_floats) = Value (integer_value 1)"
    by code_simp
qed

section \<open>Chains of conditions\<close>

definition is_false :: "'f cexpr_context \<Rightarrow> string \<Rightarrow> 'f cexpr_env \<Rightarrow> nat \<Rightarrow> expr \<Rightarrow> 'f cexpr_value \<Rightarrow> bool" where
  "is_false c m env d e out \<longleftrightarrow>
     (case eval_expr c m (Some env) d e out of
        Value v \<Rightarrow> \<not> placeholder v \<and> \<not> condition_holds (floats c) v
      | _ \<Rightarrow> False)"

lemma is_falseD:
  "is_false c m env d e out \<Longrightarrow>
     \<exists>v. eval_expr c m (Some env) d e out = Value v \<and> \<not> condition_holds (floats c) v \<and> \<not> placeholder v"
  by (cases "eval_expr c m (Some env) d e out") (simp_all add: is_false_def)

lemma eval_no_stmts: "(\<lambda>en. eval_stmts c m en d []) = (\<lambda>en w. Value (en, w, False))"
  by (simp add: fun_eq_iff)

text \<open>C28. In a chain \<open>if\<close>, \<open>else if\<close>, \<open>else\<close> whose conditions are both false a body of a \<^verbatim>\<open>cexpr fn\<close> runs the
  statements of the \<open>else\<close> for \<^verbatim>\<open>cexpr if\<close>, for which the evaluator moves them to the last condition,
  but skips them for a plain \<open>if\<close>: the parser leaves them at the first condition, and the rest of
  the body runs as if they were not there.\<close>

theorem else_of_chain:
  assumes "\<forall>out. is_false c m env (Suc d) cond out" and "\<forall>out. is_false c m env (Suc (Suc d)) cond2 out"
  shows "(\<exists>w. eval_stmts c m env d
        (IfStmt NullStmt cond th (IfStmt NullStmt cond2 th2 NullStmt None a2 p2) (Some el) a p # rest) ret =
      eval_stmts c m env d rest w) \<and>
    eval_stmts c m env d (CexprIf cond th (CexprIf cond2 th2 NullStmt None) (Some el) # rest) ret =
      leave_block env (\<lambda>en. eval_stmts c m en d rest)
        (leave_block env (\<lambda>en w. Value (en, w, False)) (eval_stmts c m env (Suc (Suc d)) el ret))"
proof
  obtain v where v: "eval_expr c m (Some env) (Suc d) cond ret = Value v" "\<not> condition_holds (floats c) v"
    using is_falseD assms(1) by blast
  obtain w where w: "eval_expr c m (Some env) (Suc (Suc d)) cond2 v = Value w" "\<not> condition_holds (floats c) w"
    using is_falseD assms(2) by blast
  show "\<exists>w. eval_stmts c m env d
        (IfStmt NullStmt cond th (IfStmt NullStmt cond2 th2 NullStmt None a2 p2) (Some el) a p # rest) ret =
      eval_stmts c m env d rest w"
    using v w by (auto simp: eval_stmts.simps(2) Let_def leave_block_def)
  let ?f = "fresh_value (floats c)"
  obtain v' where "eval_expr c m (Some env) (Suc d) cond ?f = Value v'" "\<not> condition_holds (floats c) v'" "\<not> placeholder v'"
    using is_falseD assms(1) by blast
  moreover obtain w' where "eval_expr c m (Some env) (Suc (Suc d)) cond2 ?f = Value w'" "\<not> condition_holds (floats c) w'"
      "\<not> placeholder w'"
    using is_falseD assms(2) by blast
  ultimately show "eval_stmts c m env d (CexprIf cond th (CexprIf cond2 th2 NullStmt None) (Some el) # rest) ret =
      leave_block env (\<lambda>en. eval_stmts c m en d rest)
        (leave_block env (\<lambda>en w. Value (en, w, False)) (eval_stmts c m env (Suc (Suc d)) el ret))"
    by (simp add: eval_stmts.simps(2) Let_def eval_no_stmts)
qed

text \<open>\<^verbatim>\<open>cexpr fn name(x) { if x == 1 { return 10; } else if x == 2 { return 20; } else { return 30; } }\<close>\<close>

definition equals :: "string \<Rightarrow> int \<Rightarrow> expr" where
  "equals x n = BinaryOp OP_EQ (Identifier x) (IntLiteral n TYPE_VOID)"

definition returns :: "int \<Rightarrow> stmt list" where
  "returns n = [ReturnStmt (IntLiteral n TYPE_VOID)]"

definition chain :: cexpr_function where
  "chain = simple_function ''chain'' [''x'']
     [IfStmt NullStmt (equals ''x'' 1) (Some (returns 10))
        (IfStmt NullStmt (equals ''x'' 2) (Some (returns 20)) NullStmt None False NoPrediction) (Some (returns 30)) False NoPrediction]"

definition cexpr_chain :: cexpr_function where
  "cexpr_chain = simple_function ''chain'' [''x'']
     [CexprIf (equals ''x'' 1) (Some (returns 10)) (CexprIf (equals ''x'' 2) (Some (returns 20)) NullStmt None)
        (Some (returns 30))]"

lemma chain_results:
  "eval_expr (program_context [chain]) [] None 0 (FunctionCall ''chain'' [IntLiteral 2 TYPE_VOID]) (fresh_value integer_floats) =
     Value (integer_value 20)"
  "eval_expr (program_context [chain]) [] None 0 (FunctionCall ''chain'' [IntLiteral 3 TYPE_VOID]) (fresh_value integer_floats) =
     Failed ''cexpr fn 'chain' must return a value''"
  "eval_expr (program_context [cexpr_chain]) [] None 0 (FunctionCall ''chain'' [IntLiteral 3 TYPE_VOID])
     (fresh_value integer_floats) = Value (integer_value 30)"
  by code_simp+

lemma false_literal:
  "d \<le> 64 \<Longrightarrow> is_false (program_context fs) m env d (BoolLiteral False) out"
  by (simp add: is_false_def eval_expr.simps Let_def set_bool_def condition_holds_def placeholder_def)

lemma else_of_chain_witness:
  "(\<exists>w. eval_stmts (program_context []) [] Map.empty 0
      (IfStmt NullStmt (BoolLiteral False) None (IfStmt NullStmt (BoolLiteral False) None NullStmt None False NoPrediction)
        (Some (returns 30)) False NoPrediction # returns 40) (integer_value 0) =
     eval_stmts (program_context []) [] Map.empty 0 (returns 40) w) \<and>
   eval_expr (program_context [chain]) [] None 0 (FunctionCall ''chain'' [IntLiteral 3 TYPE_VOID]) (fresh_value integer_floats) =
     Failed ''cexpr fn 'chain' must return a value'' \<and>
   eval_expr (program_context [cexpr_chain]) [] None 0 (FunctionCall ''chain'' [IntLiteral 3 TYPE_VOID])
     (fresh_value integer_floats) = Value (integer_value 30)"
proof (intro conjI)
  show "\<exists>w. eval_stmts (program_context []) [] Map.empty 0
      (IfStmt NullStmt (BoolLiteral False) None (IfStmt NullStmt (BoolLiteral False) None NullStmt None False NoPrediction)
        (Some (returns 30)) False NoPrediction # returns 40) (integer_value 0) =
     eval_stmts (program_context []) [] Map.empty 0 (returns 40) w"
    by (rule conjunct1 [OF else_of_chain]) (simp_all add: false_literal)
qed (rule chain_results)+

section \<open>Integer arithmetic\<close>

text \<open>Expressions of literals with \<open>+\<close>, \<open>-\<close>, \<open>*\<close>, \<open>&\<close>, \<open>|\<close>, \<open>^\<close> and \<open>~\<close>, and their value as an
  integer without bounds.\<close>

fun ring_expr :: "expr \<Rightarrow> bool" where
  "ring_expr (IntLiteral n k) = True"
| "ring_expr (BinaryOp op x y) =
     (op \<in> {OP_PLUS, OP_MINUS, OP_MULTIPLY, OP_BITAND, OP_BITOR, OP_BITXOR} \<and> ring_expr x \<and> ring_expr y)"
| "ring_expr (UnaryOp op x) = (op \<in> {OP_NEG, OP_BITNOT} \<and> ring_expr x)"
| "ring_expr (CexprExpression x) = ring_expr x"
| "ring_expr _ = False"

fun exact_op :: "binary_op \<Rightarrow> int \<Rightarrow> int \<Rightarrow> int" where
  "exact_op OP_MINUS a b = a - b"
| "exact_op OP_MULTIPLY a b = a * b"
| "exact_op OP_BITAND a b = a AND b"
| "exact_op OP_BITOR a b = a OR b"
| "exact_op OP_BITXOR a b = a XOR b"
| "exact_op _ a b = a + b"

fun exact :: "expr \<Rightarrow> int" where
  "exact (IntLiteral n k) = n"
| "exact (BinaryOp op x y) = exact_op op (exact x) (exact y)"
| "exact (UnaryOp op x) = (if op = OP_NEG then - exact x else NOT (exact x))"
| "exact (CexprExpression x) = exact x"
| "exact _ = 0"

fun unsigned_literals :: "expr \<Rightarrow> bool" where
  "unsigned_literals (IntLiteral n k) = is_unsigned_kind k"
| "unsigned_literals (BinaryOp op x y) = (unsigned_literals x \<and> unsigned_literals y)"
| "unsigned_literals (UnaryOp op x) = unsigned_literals x"
| "unsigned_literals (CexprExpression x) = unsigned_literals x"
| "unsigned_literals _ = False"

fun height :: "expr \<Rightarrow> nat" where
  "height (BinaryOp op x y) = Suc (max (height x) (height y))"
| "height (UnaryOp op x) = Suc (height x)"
| "height (CexprExpression x) = Suc (height x)"
| "height _ = 0"

lemma signed_result_value: "signed_result r = Value n \<Longrightarrow> n = word_of_int r"
  by (auto simp: signed_result_def in_int64_def split: option.splits if_splits)

lemma int_arith_exact:
  assumes "op \<in> {OP_PLUS, OP_MINUS, OP_MULTIPLY, OP_BITAND, OP_BITOR, OP_BITXOR}"
    and "int_arith u op (word_of_int a) (word_of_int b) = Value n"
  shows "n = word_of_int (exact_op op a b)"
  using assms
  by (auto simp: of_int_and_eq of_int_or_eq of_int_xor_eq dest!: signed_result_value split: if_splits)

lemma int_arith_unsigned:
  "op \<in> {OP_PLUS, OP_MINUS, OP_MULTIPLY, OP_BITAND, OP_BITOR, OP_BITXOR} \<Longrightarrow> \<exists>n. int_arith True op a b = Value n"
  by auto

lemma ring_compare:
  "op \<in> {OP_PLUS, OP_MINUS, OP_MULTIPLY, OP_BITAND, OP_BITOR, OP_BITXOR} \<Longrightarrow>
     int_compare u op a b = None \<and> op \<noteq> OP_AND \<and> op \<noteq> OP_OR"
  by auto

lemma integer_binary:
  assumes "vk l = ConstInt" and "vk r = ConstInt"
    and "op \<in> {OP_PLUS, OP_MINUS, OP_MULTIPLY, OP_BITAND, OP_BITOR, OP_BITXOR}"
  shows "eval_binary fo op l r out =
    outcome_bind (int_arith (unsigned_ops l r) op (vi l) (vi r))
      (\<lambda>n. Value ((set_int fo n (integer_result_kind l r) out)\<lparr>vf := int_float fo (integer_result_kind l r) n\<rparr>))"
  using assms(1,2) ring_compare [OF assms(3)]
  by (simp add: eval_binary_def value_binary_def value_as_int_def Let_def)

lemma ring_value:
  "ring_expr e \<Longrightarrow> eval_expr c m env d e out = Value v \<Longrightarrow> vk v = ConstInt \<and> vi v = word_of_int (exact e)"
proof (induction e arbitrary: d out v rule: ring_expr.induct)
  case (1 n k)
  then show ?case
    by (auto simp: eval_expr.simps [of c m env d] Let_def int_literal_def set_int_def split: if_splits)
next
  case (2 op x y)
  from 2(4) obtain l where l: "eval_expr c m env (Suc d) x (fresh_value (floats c)) = Value l"
    and rest: "outcome_bind (eval_expr c m env (Suc d) y (fresh_value (floats c))) (\<lambda>r. eval_binary (floats c) op l r out) = Value v"
    using 2(3) by (auto simp: eval_expr.simps [of c m env d "BinaryOp op x y"] Let_def shortcut_def split: if_splits)
  from rest obtain r where r: "eval_expr c m env (Suc d) y (fresh_value (floats c)) = Value r"
    and b: "eval_binary (floats c) op l r out = Value v" by auto
  have lr: "vk l = ConstInt" "vi l = word_of_int (exact x)" "vk r = ConstInt" "vi r = word_of_int (exact y)"
    using 2(1) [OF _ l] 2(2) [OF _ r] 2(3) by auto
  have op: "op \<in> {OP_PLUS, OP_MINUS, OP_MULTIPLY, OP_BITAND, OP_BITOR, OP_BITXOR}" using 2(3) by simp
  show ?case
    using b int_arith_exact [OF op] unfolding integer_binary [OF lr(1,3) op]
    by (auto simp: lr set_int_def)
next
  case (3 op x)
  from 3(3) obtain w where w: "eval_expr c m env (Suc d) x (fresh_value (floats c)) = Value w"
    and u: "eval_unary (floats c) op w out = Value v"
    by (auto simp: eval_expr.simps [of c m env d "UnaryOp op x"] Let_def split: if_splits)
  have "vk w = ConstInt" "vi w = word_of_int (exact x)"
    using 3(1) [OF _ w] 3(2) by auto
  then show ?case
    using u 3(2)
    by (auto simp: eval_unary_def placeholder_def value_as_int_def set_int_def of_int_not_eq
        dest!: signed_result_value split: if_splits)
next
  case (4 x)
  then show ?case
    by (auto simp: eval_expr.simps [of c m env d "CexprExpression x"] Let_def split: if_splits)
qed simp_all

lemma unsigned_ring_returns:
  "ring_expr e \<Longrightarrow> unsigned_literals e \<Longrightarrow> d + height e \<le> 64 \<Longrightarrow>
     \<exists>v. eval_expr c m env d e out = Value v \<and> is_unsigned_kind (vt v)"
proof (induction e arbitrary: d out rule: ring_expr.induct)
  case (1 n k)
  then show ?case
    by (auto simp: eval_expr.simps [of c m env d] Let_def int_literal_def set_int_def is_unsigned_kind_def)
next
  case (2 op x y)
  have p: "ring_expr x" "ring_expr y" "unsigned_literals x" "unsigned_literals y" using 2(3,4) by simp_all
  have h: "Suc d + height x \<le> 64" "Suc d + height y \<le> 64" using 2(5) by simp_all
  obtain l where l: "eval_expr c m env (Suc d) x (fresh_value (floats c)) = Value l" "is_unsigned_kind (vt l)"
    using 2(1) [of "Suc d" "fresh_value (floats c)"] p h by blast
  obtain r where r: "eval_expr c m env (Suc d) y (fresh_value (floats c)) = Value r" "is_unsigned_kind (vt r)"
    using 2(2) [of "Suc d" "fresh_value (floats c)"] p h by blast
  have op: "op \<in> {OP_PLUS, OP_MINUS, OP_MULTIPLY, OP_BITAND, OP_BITOR, OP_BITXOR}" using 2(3) by simp
  have k: "vk l = ConstInt" "vk r = ConstInt"
    using ring_value [OF _ l(1)] ring_value [OF _ r(1)] 2(3) by auto
  have "\<not> shortcut op l" using ring_compare [OF op] by (simp add: shortcut_def)
  then have e: "eval_expr c m env d (BinaryOp op x y) out = eval_binary (floats c) op l r out"
    using l(1) r(1) 2(5) by (simp add: eval_expr.simps [of c m env d "BinaryOp op x y"] Let_def)
  obtain n where "int_arith (unsigned_ops l r) op (vi l) (vi r) = Value n"
    using int_arith_unsigned [OF op] l(2) by (auto simp: unsigned_ops_def)
  then show ?case
    unfolding e integer_binary [OF k op] using l(2) r(2) by (simp add: set_int_def integer_result_kind_def)
next
  case (3 op x)
  obtain w where w: "eval_expr c m env (Suc d) x (fresh_value (floats c)) = Value w" "is_unsigned_kind (vt w)"
    using 3(1) [of "Suc d" "fresh_value (floats c)"] 3(2-4) by auto
  moreover have "vk w = ConstInt" using ring_value [OF _ w(1)] 3(2) by auto
  ultimately show ?case
    using 3(2,4)
    by (auto simp: eval_expr.simps [of c m env d "UnaryOp op x"] Let_def eval_unary_def placeholder_def set_int_def)
next
  case (4 x)
  then show ?case
    by (auto simp: eval_expr.simps [of c m env d "CexprExpression x"] Let_def)
qed simp_all

lemma take_bit_word:
  "n \<le> 64 \<Longrightarrow> take_bit n (sint (word_of_int x :: 64 word)) = take_bit n x"
  by (simp add: sint_sbintrunc' take_bit_signed_take_bit)

lemma kind_bits_le: "kind_bits k = Some n \<Longrightarrow> n \<le> 64"
  by (cases k) auto

text \<open>C7. The constant of an expression of literals with \<open>+\<close>, \<open>-\<close>, \<open>*\<close>, \<open>&\<close>, \<open>|\<close>, \<open>^\<close>, \<open>~\<close>: the evaluator works
  on 64 bits whatever the types of the operands, and yet the constant built for an integer type
  of n bits is the exact value modulo \<open>2 ^ n\<close>, as if every step had wrapped at the width of the type.
  With unsigned literals and a nesting within the limit there always is one.\<close>

theorem ring_constant_exact:
  assumes "ring_expr e"
  shows "(eval_expr c m env d e out = Value v \<and> kind_bits k = Some n \<and> is_integer_kind k \<longrightarrow>
      build_constant (floats c) (PlainType k) v = Inr (ConstantInt n (take_bit n (exact e)))) \<and>
    (unsigned_literals e \<and> d + height e \<le> 64 \<longrightarrow> (\<exists>v. eval_expr c m env d e out = Value v))"
proof (intro conjI impI; (elim conjE)?)
  assume v: "eval_expr c m env d e out = Value v" and n: "kind_bits k = Some n" and k: "is_integer_kind k"
  have "vk v = ConstInt" "vi v = word_of_int (exact e)" using ring_value [OF assms v] by auto
  moreover have "kind_bits (normalize_inferred_kind k) = Some n"
    "\<not> is_float_kind (normalize_inferred_kind k)" "normalize_inferred_kind k \<noteq> TYPE_BOOL"
    using n k by (cases k; simp add: is_integer_kind_def is_float_kind_def)+
  ultimately show "build_constant (floats c) (PlainType k) v = Inr (ConstantInt n (take_bit n (exact e)))"
    using take_bit_word [OF kind_bits_le [OF n]]
    by (simp add: build_constant_def value_as_int_def)
qed (use unsigned_ring_returns [OF assms] in blast)

lemma ring_constant_exact_witness:
  "\<exists>v. eval_expr (program_context []) [] None 0
      (BinaryOp OP_PLUS (BinaryOp OP_MULTIPLY (IntLiteral 200 TYPE_U8) (IntLiteral 3 TYPE_U8)) (IntLiteral 1 TYPE_U8))
      (integer_value 0) = Value v \<and>
    build_constant (floats (program_context [])) (PlainType TYPE_U8) v = Inr (ConstantInt 8 89)"
proof -
  let ?e = "BinaryOp OP_PLUS (BinaryOp OP_MULTIPLY (IntLiteral 200 TYPE_U8) (IntLiteral 3 TYPE_U8)) (IntLiteral 1 TYPE_U8)"
  have r: "ring_expr ?e" by simp
  have "\<exists>v. eval_expr (program_context []) [] None 0 ?e (integer_value 0) = Value v"
    by (rule conjunct2 [OF ring_constant_exact [OF r], THEN mp]) (simp add: is_unsigned_kind_def)
  then obtain v where v: "eval_expr (program_context []) [] None 0 ?e (integer_value 0) = Value v" ..
  have "build_constant (floats (program_context [])) (PlainType TYPE_U8) v = Inr (ConstantInt 8 (take_bit 8 (exact ?e)))"
    using ring_constant_exact [OF r, of "program_context []" "[]" None 0 "integer_value 0" v TYPE_U8 8] v
    by (simp add: is_integer_kind_def)
  moreover have "take_bit 8 (exact ?e) = 89" by (simp add: take_bit_eq_mod)
  ultimately show ?thesis using v by metis
qed

text \<open>C30. A conversion to a narrower integer type does not narrow the value that later steps of the evaluation
  see: a comparison of the converted number is one of all 64 bits, although the constant built for it
  has the low bits only. So \<open>cast<u8>(256) == 0\<close> is false, and the constant of \<open>cast<u8>(256)\<close> is 0.\<close>

theorem cast_keeps_wide_value:
  assumes "d \<le> 62" and "is_integer_kind k" and "kind_bits k = Some n"
  shows "eval_expr c m env d
      (BinaryOp OP_EQ (CastExpression k (IntLiteral a TYPE_VOID) ch) (IntLiteral b TYPE_VOID)) out =
        Value (set_bool (floats c) ((word_of_int a :: 64 word) = word_of_int b) out) \<and>
    (\<exists>v. eval_expr c m env d (CastExpression k (IntLiteral a TYPE_VOID) ch) out = Value v \<and>
      build_constant (floats c) (PlainType k) v = Inr (ConstantInt n (take_bit n a)))"
proof -
  have k: "kind_bits (normalize_inferred_kind k) = Some n" "\<not> is_float_kind (normalize_inferred_kind k)"
    "normalize_inferred_kind k \<noteq> TYPE_BOOL" "is_integer_kind (normalize_inferred_kind k)"
    using assms(2,3) by (cases k; simp add: is_integer_kind_def is_float_kind_def)+
  have cast: "eval_expr c m env d' (CastExpression k (IntLiteral a TYPE_VOID) ch) o' =
      Value (set_int (floats c) (word_of_int a) (normalize_inferred_kind k) (int_literal (floats c) a TYPE_VOID o'))"
    if "d' \<le> 63" for d' o'
    using that k
    by (simp add: eval_expr.simps [of c m env d' "CastExpression k (IntLiteral a TYPE_VOID) ch"]
        eval_expr.simps [of c m env "Suc d'"] Let_def coerce_def int_literal_def set_int_def value_as_int_def)
  have "eval_expr c m env d
      (BinaryOp OP_EQ (CastExpression k (IntLiteral a TYPE_VOID) ch) (IntLiteral b TYPE_VOID)) out =
        Value (set_bool (floats c) ((word_of_int a :: 64 word) = word_of_int b) out)"
    using assms(1) cast [of "Suc d" "fresh_value (floats c)"]
    by (simp add: eval_expr.simps [of c m env d] eval_expr.simps [of c m env "Suc d" "IntLiteral b TYPE_VOID"] Let_def
        shortcut_def eval_binary_def value_binary_def int_literal_def set_int_def value_as_int_def)
  moreover have "build_constant (floats c) (PlainType k)
      (set_int (floats c) (word_of_int a) (normalize_inferred_kind k) (int_literal (floats c) a TYPE_VOID out)) =
      Inr (ConstantInt n (take_bit n a))"
    using k take_bit_word [OF kind_bits_le [OF assms(3)]]
    by (simp add: build_constant_def set_int_def value_as_int_def)
  ultimately show ?thesis using cast [of d out] assms(1) by simp
qed

lemma cast_keeps_wide_value_witness:
  "eval_expr (program_context []) [] None 0
      (BinaryOp OP_EQ (CastExpression TYPE_U8 (IntLiteral 256 TYPE_VOID) False) (IntLiteral 0 TYPE_VOID)) (integer_value 1) =
    Value (set_bool integer_floats False (integer_value 1)) \<and>
   (\<exists>v. eval_expr (program_context []) [] None 0 (CastExpression TYPE_U8 (IntLiteral 256 TYPE_VOID) False) (integer_value 1) =
      Value v \<and> build_constant integer_floats (PlainType TYPE_U8) v = Inr (ConstantInt 8 0))"
  using cast_keeps_wide_value [of 0 TYPE_U8 8 "program_context []" "[]" None 256 False 0 "integer_value 1"]
  by (simp add: is_integer_kind_def program_context_def take_bit_eq_mod)

section \<open>Limits\<close>

definition limit_names :: "(string \<times> type_kind) list" where
  "limit_names = [(''i8'', TYPE_I8), (''i16'', TYPE_I16), (''i32'', TYPE_I32), (''i64'', TYPE_I64),
     (''u8'', TYPE_U8), (''u16'', TYPE_U16), (''u32'', TYPE_U32), (''u64'', TYPE_U64)]"

lemma limit_names_read:
  "list_all (\<lambda>(t, k). numeric_limits_call (''numeric_limits<'' @ t @ ''>::max'') = Some (t, ''max'') \<and>
     type_from_text t = PlainType k \<and> integer_limit k True \<noteq> None) limit_names"
  by code_simp

text \<open>C36. The greatest value of an integer type counts as false to the left of \<open>&&\<close> in compile-time
  expressions: \<^verbatim>\<open>numeric_limits<T>::max()\<close> leaves the truth of the fresh value it is written to, which the
  shortcut on the left operand reads, so \<open>numeric_limits<T>::max() && e\<close> is false without a look at
  \<open>e\<close>, in every environment that does not bind the name of the type. As the condition of \<open>?:\<close> the same
  call is true, where converting an integer other than zero to floating point gives no zero.\<close>

theorem numeric_limit_is_false:
  assumes "(t, k) \<in> set limit_names" and "d \<le> 62" and "bound_type env t = None"
    and nonzero: "\<forall>n. n \<noteq> 0 \<longrightarrow> nonzero (floats c) (f_of_int (floats c) n)"
  shows "eval_expr c m env d (BinaryOp OP_AND (FunctionCall (''numeric_limits<'' @ t @ ''>::max'') []) e) out =
      Value (set_bool (floats c) False out) \<and>
    eval_expr c m env d (Ternary (FunctionCall (''numeric_limits<'' @ t @ ''>::max'') []) x y) out =
      eval_expr c m env (Suc d) x out"
proof -
  let ?n = "''numeric_limits<'' @ t @ ''>::max''" let ?f = "fresh_value (floats c)"
  have l: "numeric_limits_call ?n = Some (t, ''max'')" "type_from_text t = PlainType k"
    using limit_names_read assms(1) by (auto simp: list_all_iff)
  obtain r where r: "eval_call c m env (Suc (Suc d)) ?n [] ?f = Value r" "vk r = ConstInt" "\<not> vb r"
      "condition_holds (floats c) r"
    using assms l nonzero
    by (auto simp: limit_names_def eval_call.simps builtin_call_def numeric_limit_def Let_def fresh_value_def
        condition_holds_def value_as_double_def int_float_def is_unsigned_kind_def)
  have f: "eval_expr c m env (Suc d) (FunctionCall ?n []) ?f = Value r"
    using r(1) assms(2) by (simp add: eval_expr.simps [of c m env "Suc d"] Let_def)
  show ?thesis
    using f r assms(2)
    by (simp add: eval_expr.simps [of c m env d] Let_def shortcut_def placeholder_def)
qed

lemma numeric_limit_is_false_witness:
  "eval_expr (program_context []) [] (Some [''x'' \<mapsto> integer_value 1]) 0
     (BinaryOp OP_AND (FunctionCall ''numeric_limits<i32>::max'' []) (BoolLiteral True)) (integer_value 0) =
     Value (set_bool integer_floats False (integer_value 0)) \<and>
   eval_expr (program_context []) [] (Some [''x'' \<mapsto> integer_value 1]) 0
     (Ternary (FunctionCall ''numeric_limits<i32>::max'' []) (BoolLiteral True) (BoolLiteral False)) (integer_value 0) =
     eval_expr (program_context []) [] (Some [''x'' \<mapsto> integer_value 1]) 1 (BoolLiteral True) (integer_value 0)"
  using numeric_limit_is_false [of "''i32''" TYPE_I32 0 "Some [''x'' \<mapsto> integer_value 1]" "program_context []" "[]"
      "BoolLiteral True" "integer_value 0" "BoolLiteral True" "BoolLiteral False"]
  by (simp add: limit_names_def program_context_def integer_floats_def nonzero_def bound_type_def)

section \<open>Choice of an overload\<close>

lemma more_constrained_asym: "moreConstrained f g \<Longrightarrow> \<not> moreConstrained g f"
  by (auto simp: moreConstrained_def split: option.splits if_splits)

lemma more_constrained_irrefl: "\<not> moreConstrained f f"
  using more_constrained_asym [of f f] by argo

lemma more_constrained_trans: "moreConstrained f g \<Longrightarrow> moreConstrained g h \<Longrightarrow> moreConstrained f h"
  by (auto simp: moreConstrained_def split: option.splits if_splits intro: implies_trans)

definition least_cost :: "'f candidate list \<Rightarrow> nat \<Rightarrow> bool" where
  "least_cost cs i \<longleftrightarrow> i < length cs \<and> (\<forall>d \<in> set cs. ca_cost (cs ! i) \<le> ca_cost d)"

lemma least_cost_ex: "cs \<noteq> [] \<Longrightarrow> \<exists>i. least_cost cs i"
proof -
  assume "cs \<noteq> []"
  then obtain x where "x \<in> set cs" "\<forall>d \<in> set cs. ca_cost x \<le> ca_cost d"
    using arg_min_list_in [of cs ca_cost] f_arg_min_list_f [of cs ca_cost] by (metis Min_le List.finite_set imageI finite_imageI)
  then show ?thesis by (auto simp: in_set_conv_nth least_cost_def)
qed

lemma best_candidates_set:
  "set (best_candidates cs) = {i. least_cost cs i \<and>
     (\<forall>j. least_cost cs j \<longrightarrow> \<not> moreConstrained (Some (ca_ranking (cs ! j))) (Some (ca_ranking (cs ! i))))}"
proof (rule Collect_cong [THEN trans [rotated], of "\<lambda>i. least_cost cs i \<and> \<not> dominated cs i"])
  show "set (best_candidates cs) = {i. least_cost cs i \<and> \<not> dominated cs i}"
    by (auto simp: best_candidates_def least_cost_def list_all_iff)
next
  fix i
  have "dominated cs i \<longleftrightarrow> (\<exists>j. least_cost cs j \<and> moreConstrained (Some (ca_ranking (cs ! j))) (Some (ca_ranking (cs ! i))))"
    if i: "least_cost cs i"
  proof
    assume "dominated cs i"
    then obtain j where "j < length cs" "ca_cost (cs ! j) = ca_cost (cs ! i)"
        "moreConstrained (Some (ca_ranking (cs ! j))) (Some (ca_ranking (cs ! i)))"
      by (auto simp: dominated_def list_ex_iff)
    then show "\<exists>j. least_cost cs j \<and> moreConstrained (Some (ca_ranking (cs ! j))) (Some (ca_ranking (cs ! i)))"
      using i by (auto simp: least_cost_def)
  next
    assume "\<exists>j. least_cost cs j \<and> moreConstrained (Some (ca_ranking (cs ! j))) (Some (ca_ranking (cs ! i)))"
    then obtain j where j: "least_cost cs j" "moreConstrained (Some (ca_ranking (cs ! j))) (Some (ca_ranking (cs ! i)))"
      by blast
    have "ca_cost (cs ! j) = ca_cost (cs ! i)"
      using i j(1) unfolding least_cost_def by (meson le_antisym nth_mem)
    moreover have "j \<noteq> i" using j(2) more_constrained_irrefl by metis
    ultimately show "dominated cs i"
      using j unfolding dominated_def list_ex_iff least_cost_def by auto
  qed
  then show "(least_cost cs i \<and> \<not> dominated cs i) = (least_cost cs i \<and>
     (\<forall>j. least_cost cs j \<longrightarrow> \<not> moreConstrained (Some (ca_ranking (cs ! j))) (Some (ca_ranking (cs ! i)))))"
    by blast
qed

lemma best_candidates_nonempty: "cs \<noteq> [] \<Longrightarrow> best_candidates cs \<noteq> []"
proof -
  assume "cs \<noteq> []"
  let ?A = "{i. least_cost cs i}" and ?R = "\<lambda>i j. moreConstrained (Some (ca_ranking (cs ! j))) (Some (ca_ranking (cs ! i)))"
  have "finite ?A" by (rule finite_subset [of _ "{..<length cs}"]) (auto simp: least_cost_def)
  moreover have "?A \<noteq> {}" using least_cost_ex [OF \<open>cs \<noteq> []\<close>] by auto
  moreover have "asymp_on ?A ?R"
    by (rule asymp_onI) (erule more_constrained_asym)
  moreover have "transp_on ?A ?R"
    by (rule transp_onI) (erule (1) more_constrained_trans [rotated])
  ultimately have "\<exists>i \<in> ?A. \<forall>j \<in> ?A. j \<noteq> i \<longrightarrow> \<not> ?R i j"
    by (intro Finite_Set.bex_max_element)
  then obtain i where "i \<in> ?A" "\<forall>j \<in> ?A. j \<noteq> i \<longrightarrow> \<not> ?R i j" ..
  then have "\<not> ?R i j" if "least_cost cs j" for j
    using that more_constrained_irrefl by (cases "i = j") auto
  then have "i \<in> set (best_candidates cs)"
    using \<open>i \<in> ?A\<close> unfolding best_candidates_set mem_Collect_eq by blast
  then show ?thesis by auto
qed

definition undominated :: "'f candidate list \<Rightarrow> nat set" where
  "undominated cs = {i. least_cost cs i \<and>
     (\<forall>j. least_cost cs j \<longrightarrow> \<not> moreConstrained (Some (ca_ranking (cs ! j))) (Some (ca_ranking (cs ! i))))}"

text \<open>C12. Among the overloads that a constrained call can use, the evaluator runs the only one of least
  conversion cost that no other of least cost is more constrained than, and reports an ambiguity when
  there are several. As being more constrained is a strict order there always is one, so a call with
  a usable overload never ends in the error that none matches.\<close>

theorem overload_choice:
  assumes "cs \<noteq> []"
  shows "(\<exists>i. undominated cs = {i} \<and>
      choose_candidate n literal constrained (Candidates cs failure) = Value (ca_function (cs ! i), ca_env (cs ! i))) \<or>
    ((\<exists>i j. i \<in> undominated cs \<and> j \<in> undominated cs \<and> i \<noteq> j) \<and>
      choose_candidate n literal constrained (Candidates cs failure) =
        Failed (''ambiguous constrained cexpr call to '' @ [squote] @ n @ [squote]))"
proof -
  have set: "set (best_candidates cs) = undominated cs"
    by (simp only: best_candidates_set undominated_def)
  have d: "distinct (best_candidates cs)" by (simp add: best_candidates_def)
  obtain i rest where b: "best_candidates cs = i # rest"
    using best_candidates_nonempty [OF assms] by (cases "best_candidates cs") auto
  show ?thesis
  proof (cases rest)
    case Nil
    then have "undominated cs = {i}" using set b by simp
    then show ?thesis using b Nil by (simp add: choose_candidate_def)
  next
    case (Cons j js)
    then have "i \<in> undominated cs" "j \<in> undominated cs" "i \<noteq> j" using set b d by auto
    then show ?thesis using b Cons by (auto simp: choose_candidate_def)
  qed
qed

lemma overload_choice_witness:
  "choose_candidate ''f'' None True (Candidates
     [\<lparr>ca_function = flag, ca_env = Map.empty, ca_ranking = fn_constraints flag, ca_cost = 1\<rparr>,
      \<lparr>ca_function = chain, ca_env = Map.empty, ca_ranking = (fn_constraints flag)\<lparr>constraintTerms := [{''Eq''}]\<rparr>, ca_cost = 0\<rparr>,
      \<lparr>ca_function = countdown, ca_env = Map.empty,
        ca_ranking = (fn_constraints flag)\<lparr>constraintTerms := [{''Eq'', ''Ord''}]\<rparr>, ca_cost = 0\<rparr>] []) =
   Value (countdown, Map.empty :: int cexpr_env)"
  (is "choose_candidate _ _ _ (Candidates ?cs _) = _")
proof -
  have b: "best_candidates ?cs = [2]" by code_simp
  then have "undominated ?cs = {2}"
    using best_candidates_set [of ?cs] by (simp only: undominated_def list.set)
  then show ?thesis
    using overload_choice [of ?cs "''f''" None True "[]"] by (auto simp: numeral_2_eq_2)
qed

section \<open>Chains of aliases\<close>

definition alias_step :: "(string \<rightharpoonup> type_node) \<Rightarrow> string \<Rightarrow> string \<Rightarrow> bool" where
  "alias_step aliases m n \<longleftrightarrow> aliases n = Some (StructTypeRef m)"

text \<open>The name at the end of a chain: no alias, or one of a type that is not a struct name.\<close>

definition alias_end :: "(string \<rightharpoonup> type_node) \<Rightarrow> string \<Rightarrow> string \<Rightarrow> bool" where
  "alias_end aliases m s \<longleftrightarrow>
     (case aliases m of
        None \<Rightarrow> s = m
      | Some NullType \<Rightarrow> s = m
      | Some (StructTypeRef k) \<Rightarrow> False
      | Some u \<Rightarrow> s = type_text u)"

lemma canonical_alias:
  "canonical_type_name aliases (StructTypeRef n) =
     (case aliases n of
        None \<Rightarrow> Some n
      | Some u \<Rightarrow> if u = NullType then Some n else canonical_type_name aliases u)"
  by (subst canonical_type_name.simps) (simp split: option.split)

lemma canonical_other:
  "t \<noteq> NullType \<Longrightarrow> (\<And>k. t \<noteq> StructTypeRef k) \<Longrightarrow> canonical_type_name aliases t = Some (type_text t)"
  by (subst canonical_type_name.simps) (cases t; auto)

definition chain_result :: "(string \<rightharpoonup> type_node) \<Rightarrow> type_node \<Rightarrow> string \<Rightarrow> bool" where
  "chain_result al t s \<longleftrightarrow>
     (\<forall>n. t = StructTypeRef n \<longrightarrow>
        Wellfounded.accp (alias_step al) n \<and> (\<exists>m. (alias_step al)\<^sup>*\<^sup>* m n \<and> alias_end al m s)) \<and>
     (t \<noteq> NullType \<longrightarrow> (\<forall>n. t \<noteq> StructTypeRef n) \<longrightarrow> s = type_text t)"

lemma alias_end_type: "al n = Some u \<Longrightarrow> u \<noteq> NullType \<Longrightarrow> (\<forall>k. u \<noteq> StructTypeRef k) \<Longrightarrow> alias_end al n (type_text u)"
  by (cases u) (simp_all add: alias_end_def)

lemma no_alias_step: "(\<And>k. al n \<noteq> Some (StructTypeRef k)) \<Longrightarrow> Wellfounded.accp (alias_step al) n"
  by (rule Wellfounded.accp.accI) (simp add: alias_step_def)

lemma alias_step_acc: "al n = Some (StructTypeRef k) \<Longrightarrow> Wellfounded.accp (alias_step al) k \<Longrightarrow> Wellfounded.accp (alias_step al) n"
  by (rule Wellfounded.accp.accI) (simp add: alias_step_def)

lemma chain_step:
  assumes "\<And>al t s. f al t = Some s \<Longrightarrow> chain_result al t s"
    and "(case t of
        NullType \<Rightarrow> Some ''''
      | StructTypeRef n \<Rightarrow>
          (case al n of Some u \<Rightarrow> if u \<noteq> NullType then f al u else Some n | None \<Rightarrow> Some n)
      | _ \<Rightarrow> Some (type_text t)) = Some s"
  shows "chain_result al t s"
proof (cases "\<exists>n. t = StructTypeRef n")
  case False
  then show ?thesis using assms(2) by (cases t) (simp_all add: chain_result_def)
next
  case True
  then obtain n where t: "t = StructTypeRef n" ..
  have "Wellfounded.accp (alias_step al) n \<and> (\<exists>m. (alias_step al)\<^sup>*\<^sup>* m n \<and> alias_end al m s)"
  proof (cases "al n = None \<or> al n = Some NullType")
    case True
    then have "alias_end al n s" "Wellfounded.accp (alias_step al) n"
      using assms(2) t by (auto simp: alias_end_def intro: no_alias_step)
    then show ?thesis by blast
  next
    case False
    then obtain u where u: "al n = Some u" "u \<noteq> NullType" by auto
    then have r: "chain_result al u s" using assms(1) [of al u s] assms(2) t by simp
    show ?thesis
    proof (cases "\<exists>k. u = StructTypeRef k")
      case True
      then obtain k where k: "u = StructTypeRef k" ..
      then obtain m where m: "Wellfounded.accp (alias_step al) k" "(alias_step al)\<^sup>*\<^sup>* m k" "alias_end al m s"
        using r by (auto simp: chain_result_def)
      moreover have "alias_step al k n" using u k by (simp add: alias_step_def)
      ultimately show ?thesis using u k by (blast intro: alias_step_acc rtranclp.rtrancl_into_rtrancl)
    next
      case False
      then have "alias_end al n s" using r u by (auto simp: chain_result_def intro: alias_end_type)
      moreover have "Wellfounded.accp (alias_step al) n" using u False by (intro no_alias_step) auto
      ultimately show ?thesis by blast
    qed
  qed
  then show ?thesis using t by (simp add: chain_result_def)
qed

lemma canonical_chain_result: "canonical_type_name al t = Some s \<Longrightarrow> chain_result al t s"
  by (rule canonical_type_name.raw_induct [of chain_result]) (rule chain_step)

lemma canonical_returns: "Wellfounded.accp (alias_step al) n \<Longrightarrow> \<exists>s. canonical_type_name al (StructTypeRef n) = Some s"
proof (induction n rule: Wellfounded.accp.induct)
  case (accI n)
  show ?case
  proof (cases "al n = None \<or> al n = Some NullType")
    case True
    then show ?thesis by (auto simp: canonical_alias)
  next
    case False
    then obtain u where u: "al n = Some u" "u \<noteq> NullType" by auto
    show ?thesis
    proof (cases "\<exists>k. u = StructTypeRef k")
      case True
      then show ?thesis using accI.IH u by (auto simp: canonical_alias [of al n] alias_step_def)
    next
      case False
      then show ?thesis using u canonical_other [of u al] by (simp add: canonical_alias)
    qed
  qed
qed

text \<open>C27. The canonical name of a struct type follows its aliases and has no guard: it returns exactly when no
  chain of aliases runs from the name without end, so it never does for an alias that leads back to
  itself, and what it returns is the end of the chain: a name that is no alias, or the text of the
  type that the last alias stands for.\<close>

theorem canonical_name_returns:
  "((\<exists>s. canonical_type_name aliases (StructTypeRef n) = Some s) \<longleftrightarrow> Wellfounded.accp (alias_step aliases) n) \<and>
   (\<forall>s. canonical_type_name aliases (StructTypeRef n) = Some s \<longrightarrow>
      (\<exists>m. (alias_step aliases)\<^sup>*\<^sup>* m n \<and> alias_end aliases m s)) \<and>
   (aliases n = Some (StructTypeRef n) \<longrightarrow> canonical_type_name aliases (StructTypeRef n) = None)"
proof (intro conjI allI impI)
  have acc: "Wellfounded.accp (alias_step aliases) n" if "\<exists>s. canonical_type_name aliases (StructTypeRef n) = Some s"
    using that canonical_chain_result [of aliases "StructTypeRef n"] by (auto simp: chain_result_def)
  show "(\<exists>s. canonical_type_name aliases (StructTypeRef n) = Some s) \<longleftrightarrow> Wellfounded.accp (alias_step aliases) n"
    using acc canonical_returns by blast
  show "\<exists>m. (alias_step aliases)\<^sup>*\<^sup>* m n \<and> alias_end aliases m s"
    if "canonical_type_name aliases (StructTypeRef n) = Some s" for s
    using canonical_chain_result [OF that] by (simp add: chain_result_def)
  show "canonical_type_name aliases (StructTypeRef n) = None" if self: "aliases n = Some (StructTypeRef n)"
  proof (rule ccontr)
    assume "canonical_type_name aliases (StructTypeRef n) \<noteq> None"
    then have "Wellfounded.accp (alias_step aliases) n" using acc by auto
    then show False using self
      by (induction n rule: Wellfounded.accp.induct) (simp add: alias_step_def)
  qed
qed

lemma canonical_name_returns_witness:
  "canonical_type_name [''A'' \<mapsto> StructTypeRef ''A''] (StructTypeRef ''A'') = None \<and>
   canonical_type_name [''A'' \<mapsto> StructTypeRef ''B''] (StructTypeRef ''A'') = Some ''B'' \<and>
   Wellfounded.accp (alias_step [''A'' \<mapsto> StructTypeRef ''B'']) ''A''"
proof (intro conjI)
  show "canonical_type_name [''A'' \<mapsto> StructTypeRef ''A''] (StructTypeRef ''A'') = None"
    using canonical_name_returns [of "[''A'' \<mapsto> StructTypeRef ''A'']" "''A''"] by simp
  show b: "canonical_type_name [''A'' \<mapsto> StructTypeRef ''B''] (StructTypeRef ''A'') = Some ''B''"
    by (simp add: canonical_alias)
  show "Wellfounded.accp (alias_step [''A'' \<mapsto> StructTypeRef ''B'']) ''A''"
    using canonical_name_returns [of "[''A'' \<mapsto> StructTypeRef ''B'']" "''A''"] b by blast
qed

end
