(* ===== verification/Spec2Isabelle.thy ===== *)
theory Spec2Isabelle
  imports Toml_Spec Semver_Props Build_Targets Tasks Lockfile Workspace_Graph Ide_Query
    Type_Aliases Overload_Names Module_Loader Diagnostics Std_Bits Std_Unordered Std_Bitset
    Move_Paths Cexpr_Props
begin

text \<open>
  A verification library for mlang: its package manager, the editor support on top of its
  compiler, and the parts of the compiler that compute on names, types and modules.

  \<^bold>\<open>The program.\<close> \<^verbatim>\<open>mlang pkg\<close> (\<^verbatim>\<open>src/package_manager.cpp\<close>) reads a manifest written in a subset of
  TOML, resolves features, profiles, targets, tasks and dependencies, and drives compilers and
  other tools. The compiler parses a file (\<^verbatim>\<open>include/source_filter.h\<close> blanks the lines of other
  platforms first), loads the modules it declares and merges what it uses from them
  (\<^verbatim>\<open>src/module.cpp\<close>), expands type aliases and names instances and overloads (\<^verbatim>\<open>src/ir\<close>), and emits
  LLVM code. The language server keeps open documents (\<^verbatim>\<open>src/incremental_compiler.cpp\<close>), indexes the
  modules they provide and import (\<^verbatim>\<open>src/workspace_graph.cpp\<close>) and answers queries about words in
  their text (\<^verbatim>\<open>src/ide_query.cpp\<close>).

  \<^bold>\<open>Foundations.\<close> \<^theory_text>\<open>Prelude\<close> holds list lemmas, loops with early return, and reachability over a
  successor function; \<^theory_text>\<open>Cxx_Strings\<close> the operations of \<^verbatim>\<open>std::string\<close> and \<^verbatim>\<open><cctype>\<close> on byte strings;
  \<^theory_text>\<open>Ordered_Map\<close> the interface \<open>dict\<close> of \<^verbatim>\<open>std::map\<close> and \<^verbatim>\<open>std::unordered_map\<close>, interpreted on sorted
  association lists and on functions; \<^theory_text>\<open>Graph_Search\<close> the interfaces \<open>graph_search\<close> (a worklist) and
  \<open>recursive_walk\<close> (a depth first walk that marks what it has seen), whose lemmas every graph walk
  of the package manager and of the module loader uses.

  \<^bold>\<open>Package manager\<close> (all of \<^verbatim>\<open>src/package_manager.cpp\<close>).
  \<^item> \<^theory_text>\<open>Toml_Lex\<close>, \<^theory_text>\<open>Toml_Values\<close>, \<^theory_text>\<open>Toml_Spec\<close>: comments, assignments over several lines, quoted
    strings, lists, inline tables, command values. \<^theory_text>\<open>Toml_Spec\<close> states the promises against a
    POSIX word splitter and a UTF-8 decoder.
  \<^item> \<^theory_text>\<open>Semver\<close>, \<^theory_text>\<open>Semver_Props\<close>: \<^verbatim>\<open>SemanticVersion\<close>, the comparison and the requirement language;
    parsed versions are ordered as the keys of the standard, printing and parsing are inverse,
    and the caret, tilde and exact requirements accept the intervals they stand for.
  \<^item> \<^theory_text>\<open>Build_Config\<close>: the record \<^verbatim>\<open>BuildConfig\<close>, its keys, the merging of layers, the sanitizer
    overrides and permission bits. \<^theory_text>\<open>Features_Profiles\<close>: feature definitions and their closure,
    profiles and their inheritance. \<^theory_text>\<open>Toml_Edit\<close>: editing a manifest line by line.
  \<^item> \<^theory_text>\<open>Build_Targets\<close> and \<^theory_text>\<open>Tasks\<close>: reading targets and tasks, ordering them, the walks over their
    edges, host overrides, text expansion. \<^theory_text>\<open>Dependencies\<close> and \<^theory_text>\<open>Lockfile\<close>: dependency tables, the
    lines the editor adds, the lock entries, their text and the reader.

  \<^bold>\<open>Editor support.\<close>
  \<^item> \<^theory_text>\<open>Workspace_Graph\<close>: the record \<open>workspace_graph\<close> is the class \<^verbatim>\<open>WorkspaceGraph\<close>: documents by
    address and two indexes from modules to addresses. After any sequence of updates the indexes
    are those of the documents left. A hash set is a set, and each loop over one takes the order
    as the argument \<open>it\<close>, of which only \<open>enumerates\<close> is known.
  \<^item> \<^theory_text>\<open>Source_Filter\<close> (\<^verbatim>\<open>include/source_filter.h\<close>): the region stack and the filter.
  \<^item> \<^theory_text>\<open>Incremental_Compiler\<close>: the store of \<open>incremental_document\<close>s, positions, edits and the recovery
    from incomplete text. \<open>ic_reach\<close> are the stores a session can reach; the invariant is proved by
    rule induction. \<^theory_text>\<open>Ide_Query\<close>: words at positions and whole-word search.

  \<^bold>\<open>Compiler.\<close>
  \<^item> \<^theory_text>\<open>Type_Nodes\<close>: the datatype \<open>type_node\<close> is the class hierarchy under \<^verbatim>\<open>TypeNode\<close> of \<^verbatim>\<open>include/ast.h\<close>,
    with the three functions that turn types into names and the table of instances.
    \<^theory_text>\<open>Type_Aliases\<close>: the alias table, substitution and expansion, against the inductive meaning
    \<open>expands\<close>. \<^theory_text>\<open>Overload_Names\<close>: names of literal operators, constraint subsumption, module families.
  \<^item> \<^theory_text>\<open>Module_Imports\<close>: the lists of a \<^verbatim>\<open>ProgramNode\<close> and what a \<^verbatim>\<open>use\<close> adds to them. Nodes are shared by
    pointer between programs and the code writes their source module, so each has an identifier
    and the store maps it to its owner. \<^theory_text>\<open>Module_Loader\<close>: the class \<^verbatim>\<open>ModuleLoader\<close>, its loaded modules
    and its stack of modules being loaded. \<^theory_text>\<open>Diagnostics\<close>: codes and texts of messages.

  \<^bold>\<open>Borrow checker\<close> (\<^verbatim>\<open>src/ir\<close>, methods of the class \<^verbatim>\<open>CodeGenerator\<close>). The checker works on maps that
  the code generator keeps beside the code it emits; \<open>borrow_state\<close> is a record of those maps, in the
  order of \<^verbatim>\<open>include/ir.h\<close>.
  \<^item> \<^theory_text>\<open>Syntax_Tree\<close>: expressions and statements of \<^verbatim>\<open>include/ast.h\<close>, a constructor per class.
    \<^theory_text>\<open>Ast_Analysis\<close> (\<^verbatim>\<open>ast_analysis.cpp\<close>): the walks that look for uses, updates, exceptions and exits,
    each the interface \<open>ast_walk\<close> on the nodes it goes on to.
  \<^item> \<^theory_text>\<open>Borrow_Places\<close> (\<^verbatim>\<open>borrows.cpp\<close>): the place an lvalue stands for, as a string, and when two
    places overlap. \<open>denotes\<close> is the memory an lvalue leads to at run time; places that do not
    overlap are disjoint there. \<^theory_text>\<open>Borrow_Access\<close>: the check of reads, and expressions that carry a
    borrow out of its scope.
  \<^item> \<^theory_text>\<open>Borrow_Check\<close> (\<^verbatim>\<open>ownership.cpp\<close>, \<^verbatim>\<open>lifecycle.cpp\<close>, \<^verbatim>\<open>control_flow.cpp\<close>): what releasing a pointer
    does to the state, and which borrows end at the last use of their holder.
  \<^item> \<^theory_text>\<open>Ownership\<close> (\<^verbatim>\<open>ownership.cpp\<close>, \<^verbatim>\<open>moves.cpp\<close>): which types are copied, against the least property
    \<open>copied\<close>, and the analysis of a moved expression. Types of expressions and cleanup methods are
    parameters, collected in \<open>struct_table\<close> and \<open>move_queries\<close>. \<^theory_text>\<open>Move_Paths\<close> compares the analysis,
    which joins the branches of a conditional, with the runs of an expression: the relation \<open>run\<close> gives the
    uses and moves of whole variables, in order, of an execution that takes one branch of each.

  \<^bold>\<open>Compile-time evaluation\<close> (\<^verbatim>\<open>src/ir/constexpr.cpp\<close>). \<^theory_text>\<open>Type_Text\<close> prints types
  (\<^verbatim>\<open>src/ast.cpp\<close>) and reads them back (\<^verbatim>\<open>src/ir/common.cpp\<close>), which is how the evaluator remembers them.
  \<^theory_text>\<open>Cexpr_Values\<close> has the values, conversions and operators: integers are words of 64 bits whatever
  their type, the numbers and operations of \<^verbatim>\<open>double\<close> are the parameter \<open>float_ops\<close>, and an operation that
  C++ leaves undefined has the result \<open>Undefined\<close>. \<^theory_text>\<open>Cexpr_Eval\<close> is the evaluator of expressions,
  calls and bodies, one function for each method of the class \<^verbatim>\<open>CodeGenerator\<close>. The tables it reads and
  what it asks the rest of the generator (types of expressions, sizes, \<^verbatim>\<open>requires\<close> expressions, concepts)
  are the record \<open>cexpr_context\<close>. The depth is the counter of the code; the evaluator is total because every
  expression and call is refused beyond a depth of 64, and nested statements are smaller. \<^theory_text>\<open>Cexpr_Props\<close>
  shows that the limit never changes a value where no \<^verbatim>\<open>requires\<close> expression and no concept is asked for, that the constants of ring operations are exact modulo
  the width of their type, how an overload is chosen, and where evaluation departs from execution:
  blocks that lose assignments, the \<open>else\<close> of a chain, conversions, and limits that count as false.
  Chains of aliases without end, on which the code does not return, are left out of \<open>canonical_name\<close> and
  described by \<open>canonical_type_name\<close>.

  \<^bold>\<open>Runtime library\<close> (C files under \<^verbatim>\<open>src/stdlib/src\<close>; integers are words of their width).
  \<^item> \<^theory_text>\<open>Std_Bits\<close> (\<^verbatim>\<open>std_bits.c\<close>): counts, rotations, powers of two and byte swaps, stated bit by
    bit for 64 bits and for the widths the macro is instantiated at.
  \<^item> \<^theory_text>\<open>Std_Unordered\<close> (\<^verbatim>\<open>std_unordered.c\<close>): \<open>table\<close> and \<open>bucket\<close> are \<^verbatim>\<open>mlang_umap\<close> and its entries.
    The probing loops have no bound in the code, so they are partial functions; they return while
    the table has an empty slot, and \<open>stuck\<close> describes the tables on which they do not; \<open>churn\<close> leads to one. The
    vector map beside it interprets \<open>dict\<close>.
  \<^item> \<^theory_text>\<open>Std_Bitset\<close> (\<^verbatim>\<open>std_bitset.c\<close>): \<open>bitset_state\<close> maps live handles to bitsets and keeps the last
    error; the allocators are parameters. \<open>bits_of\<close> is the abstraction to lists of truth values
    and \<open>clean\<close> says that the bits above the length are clear, which counting relies on. \<open>bitset_step\<close>
    is any operation of a program on its bitsets, and \<open>all_clean\<close> the invariant it keeps.

  \<^bold>\<open>Conventions.\<close> Strings are byte strings (\<^typ>\<open>char list\<close>); a failing operation returns a sum or an
  option; output parameters and \<^verbatim>\<open>this\<close> are state passed and returned. The integers of versions are
  the unbounded part of what \<^verbatim>\<open>int\<close> can hold, with the overflow of parsing and of the upper bounds
  written out where the code can meet it.

  \<^bold>\<open>Fuel.\<close> The recursive walks of targets, links, tasks and modules take their depth as fuel and
  return \<^const>\<open>None\<close> without it. \<open>Suc (length targets)\<close>, \<open>Suc (length tasks)\<close> and one more than the
  number of modules that can be declared are enough, because each nested call marks one more of
  them; the theorems on these walks show the result is \<^const>\<open>Some\<close> with that fuel. The walk over
  workspace modules is a partial function, shown to return for every graph. All other recursions
  are total functions with measures.

  \<^bold>\<open>Not modelled.\<close> The generated parser and lexer are parameters, as are the file system, host
  names and preprocessor macros. Processes, downloads and archives, the registry client and the
  audit of advisories, printing, and the emission of code through the LLVM C++ API are left out, as are the language server's JSON transport and those parts of the C runtime
  library that bind the operating system, graphics, audio and databases.
\<close>

end
